(* ===== verification/Prelude.thy ===== *)
theory Prelude
  imports Main "HOL-Library.Word"
begin

text \<open>
  Shared vocabulary of the development: the widths of the machine integers the
  sources use, the faults a run of the C++ code can end in (a failed
  \<open>assert\<close>, a call of \<open>abort\<close>, an access outside an object, a null
  dereference, an uncaught library exception), results as a sum of fault and value, and the
  generic facts on lists, options and words the components share.
\<close>

section \<open>Machine integers and faults\<close>

type_synonym u64 = "64 word"
type_synonym u32 = "32 word"
type_synonym u16 = "16 word"
type_synonym u8 = "8 word"

text \<open>A pointer: null, or the address of an object.\<close>

type_synonym ptr = "nat option"

datatype fault =
    Assertion          \<comment> \<open>a failed \<open>assert\<close>\<close>
  | Aborted            \<comment> \<open>a call of \<open>abort\<close>\<close>
  | Out_Of_Bounds      \<comment> \<open>an access outside the object, undefined in C++\<close>
  | Null_Deref         \<comment> \<open>a dereference of a null or dangling pointer\<close>
  | Length_Error       \<comment> \<open>\<open>std::length_error\<close>\<close>
  | Overflow           \<comment> \<open>signed overflow, undefined in C++\<close>
  | Use_After_Free     \<comment> \<open>an access to a destroyed object, undefined in C++\<close>
  | Empty_Function     \<comment> \<open>a call of an empty \<open>std::function\<close>, which throws\<close>
  | Stack_Exhausted    \<comment> \<open>recursion deeper than the bound of the model\<close>
  | Exception          \<comment> \<open>an exception of a library call that nothing catches\<close>
  | Double_Free        \<comment> \<open>a second \<open>delete\<close> of one object, undefined in C++\<close>

type_synonym 'a res = "fault + 'a"

text \<open>Sequencing of fallible steps: the first fault ends the run.\<close>

definition bind_res :: "'a res \<Rightarrow> ('a \<Rightarrow> 'b res) \<Rightarrow> 'b res" where
  "bind_res m f = (case m of Inl e \<Rightarrow> Inl e | Inr x \<Rightarrow> f x)"

definition assert_res :: "bool \<Rightarrow> unit res" where
  "assert_res b = (if b then Inr () else Inl Assertion)"

named_theorems res_simps \<open>equations that evaluate fallible steps\<close>

lemma bind_res_Inl [simp, res_simps]: "bind_res (Inl e) f = Inl e"
  by (simp add: bind_res_def)

lemma bind_res_Inr [simp, res_simps]: "bind_res (Inr x) f = f x"
  by (simp add: bind_res_def)

lemma bind_res_eq_Inr_iff [res_simps]:
  "bind_res m f = Inr y \<longleftrightarrow> (\<exists>x. m = Inr x \<and> f x = Inr y)"
  by (cases m) simp_all

lemma bind_res_InrE:
  assumes "bind_res m f = Inr y"
  obtains x where "m = Inr x" "f x = Inr y"
  using assms by (cases m) simp_all

lemma bind_res_eq_Inl_iff:
  "bind_res m f = Inl e \<longleftrightarrow> m = Inl e \<or> (\<exists>x. m = Inr x \<and> f x = Inl e)"
  by (cases m) simp_all

lemma bind_res_cong [fundef_cong]:
  "m = m' \<Longrightarrow> (\<And>x. m' = Inr x \<Longrightarrow> f x = g x) \<Longrightarrow> bind_res m f = bind_res m' g"
  by (cases m') simp_all

lemma bind_res_assoc: "bind_res (bind_res m f) g = bind_res m (\<lambda>x. bind_res (f x) g)"
  by (cases m) simp_all

lemma assert_res_simps [simp, res_simps]:
  "assert_res True = Inr ()"
  "assert_res False = Inl Assertion"
  by (simp_all add: assert_res_def)

text \<open>Conversion to a 32-bit \<open>int\<close>.\<close>

definition to_int32 :: "int \<Rightarrow> int" where
  "to_int32 x = sint (word_of_int x :: u32)"

lemma to_int32_small: "0 \<le> x \<Longrightarrow> x < 2 ^ 31 \<Longrightarrow> to_int32 x = x"
  by (simp add: to_int32_def sint_uint unsigned_of_int take_bit_int_eq_self signed_take_bit_int_eq_self)

section \<open>Lists\<close>

text \<open>Storing a block of cells over a region of an array.\<close>

definition overwrite :: "nat \<Rightarrow> 'a list \<Rightarrow> 'a list \<Rightarrow> 'a list" where
  "overwrite pos xs ys = take pos ys @ xs @ drop (pos + length xs) ys"

lemma length_overwrite [simp]:
  "pos + length xs \<le> length ys \<Longrightarrow> length (overwrite pos xs ys) = length ys"
  by (simp add: overwrite_def)

lemma take_overwrite [simp]:
  "pos \<le> length ys \<Longrightarrow> take pos (overwrite pos xs ys) = take pos ys"
  by (simp add: overwrite_def)

lemma slice_overwrite_after:
  assumes "r \<le> pos" "pos + length xs \<le> length ys"
  shows "take (pos + length xs - r) (drop r (overwrite pos xs ys))
       = take (pos - r) (drop r ys) @ xs"
proof -
  have "take (pos + length xs) (overwrite pos xs ys) = take pos ys @ xs"
    using assms by (simp add: overwrite_def)
  then have "drop r (take (pos + length xs) (overwrite pos xs ys)) = drop r (take pos ys) @ xs"
    using assms by simp
  then show ?thesis by (simp add: drop_take)
qed

lemma slice_overwrite_0 [simp]: "take (length xs) (overwrite 0 xs ys) = xs"
  by (simp add: overwrite_def)

text \<open>\<open>memchr\<close>: the offset of the first occurrence of a byte.\<close>

fun memchr :: "'a \<Rightarrow> 'a list \<Rightarrow> nat option" where
  "memchr c [] = None"
| "memchr c (x # xs) = (if x = c then Some 0 else map_option Suc (memchr c xs))"

lemma memchr_None_iff: "memchr c xs = None \<longleftrightarrow> c \<notin> set xs"
  by (induction xs) auto

lemma memchr_SomeD:
  "memchr c xs = Some i \<Longrightarrow> i < length xs \<and> xs ! i = c \<and> c \<notin> set (take i xs)"
  by (induction xs arbitrary: i) (auto split: if_splits)

lemma memchr_append_hit: "c \<notin> set xs \<Longrightarrow> memchr c (xs @ c # ys) = Some (length xs)"
  by (induction xs) auto

lemma nth_update_at: "i < length xs \<Longrightarrow> xs[p := f (xs ! p)] ! i = (if p = i then f (xs ! i) else xs ! i)"
  by auto

section \<open>Words\<close>

lemma unat_of_nat_le: "n < 2 ^ 64 \<Longrightarrow> unat (of_nat n :: u64) = n"
  by (simp add: unat_of_nat take_bit_nat_eq_self)

lemma unat_add_no_wrap:
  fixes a b :: u64
  assumes "unat a + unat b < 2 ^ 64"
  shows "unat (a + b) = unat a + unat b"
  using assms by (simp add: unat_word_ariths)

lemma unat_sub_no_wrap:
  fixes a b :: u64
  assumes "unat b \<le> unat a"
  shows "unat (a - b) = unat a - unat b"
  using assms by (simp add: unat_sub word_le_nat_alt)

lemma word_less_succ:
  fixes x :: u64
  assumes "x + 1 \<noteq> 0"
  shows "x < x + 1"
proof -
  have "unat x + 1 \<noteq> 2 ^ 64" using assms unat_word_ariths(1) [of x 1] by (auto simp flip: unat_eq_0)
  moreover have "unat x < 2 ^ 64" using unsigned_less [of x] by simp
  ultimately show ?thesis by (simp add: word_less_nat_alt unat_word_ariths)
qed

end
