(* ===== verification/Reactor_Buffer.thy ===== *)
theory Reactor_Buffer
  imports Prelude
begin

text \<open>
  The byte buffer of the reactor (\<open>Reactor_http/source/server.hpp\<close>, class
  \<open>Buffer\<close>): a \<open>vector<char>\<close> with a 64-bit read index and a 64-bit write index.
  The readable bytes lie between the two; a write that does not fit behind the write index
  first moves the readable bytes to the front, or enlarges the vector.
  The locale \<open>byte_fifo\<close> states what the connections rely on: a first-in first-out
  queue of bytes; the buffer is an interpretation of it.
\<close>

section \<open>The model\<close>

record Buffer =
  buffer :: "char list"
  reader_idx :: u64
  writer_idx :: u64

definition Buffer_new :: Buffer where
  "Buffer_new = \<lparr>buffer = replicate 1024 (CHR 0x00), reader_idx = 0, writer_idx = 0\<rparr>"

definition Buffer_TailIdleSize :: "Buffer \<Rightarrow> u64" where
  "Buffer_TailIdleSize b = of_nat (length (buffer b)) - writer_idx b"

definition Buffer_HeadIdleSize :: "Buffer \<Rightarrow> u64" where
  "Buffer_HeadIdleSize b = reader_idx b"

definition Buffer_ReadAbleSize :: "Buffer \<Rightarrow> u64" where
  "Buffer_ReadAbleSize b = writer_idx b - reader_idx b"

definition Buffer_MoveReadOffset :: "Buffer \<Rightarrow> u64 \<Rightarrow> Buffer res" where
  "Buffer_MoveReadOffset b len =
     (if len \<le> Buffer_ReadAbleSize b then Inr (b\<lparr>reader_idx := reader_idx b + len\<rparr>)
      else Inl Assertion)"

definition Buffer_MoveWriteOffset :: "Buffer \<Rightarrow> u64 \<Rightarrow> Buffer res" where
  "Buffer_MoveWriteOffset b len =
     (if len = 0 then Inr b
      else if len \<le> Buffer_TailIdleSize b then Inr (b\<lparr>writer_idx := writer_idx b + len\<rparr>)
      else Inl Assertion)"

text \<open>
  \<open>vector<char>::resize\<close> value-initialises new elements and throws when the new size
  exceeds \<open>max_size()\<close>, which is \<open>PTRDIFF_MAX\<close>; \<open>std::copy\<close> into the vector's
  storage must stay inside it, and a source range must stay inside its object.
\<close>

definition vec_max_size :: nat where
  "vec_max_size = 2 ^ 63 - 1"

definition vec_resize :: "char list \<Rightarrow> u64 \<Rightarrow> char list res" where
  "vec_resize xs n =
     (if unat n \<le> vec_max_size
      then Inr (take (unat n) xs @ replicate (unat n - length xs) (CHR 0x00))
      else Inl Length_Error)"

definition copy_in :: "char list \<Rightarrow> u64 \<Rightarrow> char list \<Rightarrow> char list res" where
  "copy_in ys pos xs =
     (if unat pos + length xs \<le> length ys then Inr (overwrite (unat pos) xs ys)
      else Inl Out_Of_Bounds)"

definition copy_out :: "char list \<Rightarrow> u64 \<Rightarrow> u64 \<Rightarrow> char list res" where
  "copy_out ys pos len =
     (if unat pos + unat len \<le> length ys then Inr (take (unat len) (drop (unat pos) ys))
      else Inl Out_Of_Bounds)"

definition Buffer_EnsureWriteSpace :: "Buffer \<Rightarrow> u64 \<Rightarrow> Buffer res" where
  "Buffer_EnsureWriteSpace b len =
     (if len = 0 then Inr b
      else if len \<le> Buffer_TailIdleSize b then Inr b
      else if len \<le> Buffer_HeadIdleSize b + Buffer_TailIdleSize b then
        (let rsz = Buffer_ReadAbleSize b in
         bind_res (copy_out (buffer b) (reader_idx b) rsz) (\<lambda>xs.
         bind_res (copy_in (buffer b) 0 xs) (\<lambda>ys.
           Inr (b\<lparr>buffer := ys, reader_idx := 0, writer_idx := rsz\<rparr>))))
      else
        bind_res (vec_resize (buffer b) (writer_idx b + len)) (\<lambda>ys.
          Inr (b\<lparr>buffer := ys\<rparr>)))"

definition Buffer_Write :: "Buffer \<Rightarrow> char list \<Rightarrow> u64 \<Rightarrow> Buffer res" where
  "Buffer_Write b data len =
     (if len = 0 then Inr b
      else
        bind_res (Buffer_EnsureWriteSpace b len) (\<lambda>b1.
        bind_res (copy_out data 0 len) (\<lambda>d.
        bind_res (copy_in (buffer b1) (writer_idx b1) d) (\<lambda>ys.
          Inr (b1\<lparr>buffer := ys\<rparr>)))))"

definition Buffer_WriteAndPush :: "Buffer \<Rightarrow> char list \<Rightarrow> u64 \<Rightarrow> Buffer res" where
  "Buffer_WriteAndPush b data len =
     (if len = 0 then Inr b
      else bind_res (Buffer_Write b data len) (\<lambda>b1. Buffer_MoveWriteOffset b1 len))"

definition Buffer_WriteString :: "Buffer \<Rightarrow> char list \<Rightarrow> Buffer res" where
  "Buffer_WriteString b data = Buffer_Write b data (of_nat (length data))"

definition Buffer_WriteStringAndPop :: "Buffer \<Rightarrow> char list \<Rightarrow> Buffer res" where
  "Buffer_WriteStringAndPop b data =
     bind_res (Buffer_WriteString b data) (\<lambda>b1.
       Buffer_MoveWriteOffset b1 (of_nat (length data)))"

text \<open>The source range \<open>[ReadPosition(), ReadPosition() + ReadAbleSize())\<close> of another buffer.\<close>

definition Buffer_WriteBuffer :: "Buffer \<Rightarrow> Buffer \<Rightarrow> Buffer res" where
  "Buffer_WriteBuffer b data =
     Buffer_Write b (drop (unat (reader_idx data)) (buffer data)) (Buffer_ReadAbleSize data)"

definition Buffer_WriteBufferAndPush :: "Buffer \<Rightarrow> Buffer \<Rightarrow> Buffer res" where
  "Buffer_WriteBufferAndPush b data =
     bind_res (Buffer_WriteBuffer b data) (\<lambda>b1.
       Buffer_MoveWriteOffset b1 (Buffer_ReadAbleSize data))"

text \<open>The bytes \<open>Read\<close> stores through its pointer argument are its result here.\<close>

definition Buffer_Read :: "Buffer \<Rightarrow> u64 \<Rightarrow> char list res" where
  "Buffer_Read b len =
     (if len = 0 then Inr []
      else if len \<le> Buffer_ReadAbleSize b then copy_out (buffer b) (reader_idx b) len
      else Inl Assertion)"

definition Buffer_ReadAndPop :: "Buffer \<Rightarrow> u64 \<Rightarrow> (char list \<times> Buffer) res" where
  "Buffer_ReadAndPop b len =
     (if len = 0 then Inr ([], b)
      else
        bind_res (Buffer_Read b len) (\<lambda>xs.
        bind_res (Buffer_MoveReadOffset b len) (\<lambda>b1. Inr (xs, b1))))"

definition Buffer_ReadString :: "Buffer \<Rightarrow> u64 \<Rightarrow> char list res" where
  "Buffer_ReadString b len =
     (if len \<le> Buffer_ReadAbleSize b then Buffer_Read b len else Inl Assertion)"

definition Buffer_ReadStringAndPop :: "Buffer \<Rightarrow> u64 \<Rightarrow> (char list \<times> Buffer) res" where
  "Buffer_ReadStringAndPop b len =
     bind_res (Buffer_ReadString b len) (\<lambda>str.
     bind_res (Buffer_MoveReadOffset b len) (\<lambda>b1. Inr (str, b1)))"

text \<open>\<open>FindCRLF\<close> as the offset from \<open>ReadPosition()\<close>; a null result is \<open>None\<close>.\<close>

definition Buffer_FindCRLF :: "Buffer \<Rightarrow> nat option res" where
  "Buffer_FindCRLF b =
     bind_res (copy_out (buffer b) (reader_idx b) (Buffer_ReadAbleSize b)) (\<lambda>xs.
       Inr (memchr (CHR 0x0A) xs))"

definition Buffer_GetLine :: "Buffer \<Rightarrow> char list res" where
  "Buffer_GetLine b =
     bind_res (Buffer_FindCRLF b) (\<lambda>pos.
       case pos of
         None \<Rightarrow> Inr []
       | Some p \<Rightarrow> Buffer_ReadString b (of_nat p + 1))"

definition Buffer_GetLineAndPop :: "Buffer \<Rightarrow> (char list \<times> Buffer) res" where
  "Buffer_GetLineAndPop b =
     bind_res (Buffer_GetLine b) (\<lambda>str.
     bind_res (Buffer_MoveReadOffset b (of_nat (length str))) (\<lambda>b1. Inr (str, b1)))"

definition Buffer_Clear :: "Buffer \<Rightarrow> Buffer" where
  "Buffer_Clear b = b\<lparr>reader_idx := 0, writer_idx := 0\<rparr>"

text \<open>
  The driver \<open>Reactor_http/source/main.cc\<close> writes lines into a buffer and takes them out
  again while anything is readable. The loop need not stop (a rest without a newline is never
  taken), so it runs on fuel and \<open>None\<close> is "did not stop".
\<close>

fun main_write :: "Buffer \<Rightarrow> char list list \<Rightarrow> Buffer res" where
  "main_write b [] = Inr b"
| "main_write b (str # strs) =
     bind_res (Buffer_WriteStringAndPop b str) (\<lambda>b1. main_write b1 strs)"

fun main_drain :: "nat \<Rightarrow> Buffer \<Rightarrow> (char list list \<times> Buffer) res option" where
  "main_drain 0 b = None"
| "main_drain (Suc n) b =
     (if Buffer_ReadAbleSize b > 0 then
        (case Buffer_GetLineAndPop b of
           Inl e \<Rightarrow> Some (Inl e)
         | Inr (str, b1) \<Rightarrow>
             map_option (\<lambda>r. bind_res r (\<lambda>(strs, b2). Inr (str # strs, b2))) (main_drain n b1))
      else Some (Inr ([], b)))"

section \<open>Invariant and abstraction\<close>

definition Buffer_ok :: "Buffer \<Rightarrow> bool" where
  "Buffer_ok b \<longleftrightarrow>
     unat (reader_idx b) \<le> unat (writer_idx b)
     \<and> unat (writer_idx b) \<le> length (buffer b)
     \<and> length (buffer b) \<le> vec_max_size"

definition readable :: "Buffer \<Rightarrow> char list" where
  "readable b =
     take (unat (writer_idx b) - unat (reader_idx b)) (drop (unat (reader_idx b)) (buffer b))"

lemma Buffer_ok_new: "Buffer_ok Buffer_new"
  by (simp add: Buffer_ok_def Buffer_new_def vec_max_size_def)

lemma readable_new [simp]: "readable Buffer_new = []"
  by (simp add: readable_def Buffer_new_def)

lemma length_buffer_new [simp]: "length (buffer Buffer_new) = 1024"
  by (simp add: Buffer_new_def)

section \<open>Sizes under the invariant\<close>

lemma ok_order:
  "Buffer_ok b \<Longrightarrow> unat (reader_idx b) \<le> unat (writer_idx b)"
  "Buffer_ok b \<Longrightarrow> unat (writer_idx b) \<le> length (buffer b)"
  by (auto simp: Buffer_ok_def)

lemma ok_bound: "Buffer_ok b \<Longrightarrow> length (buffer b) < 2 ^ 63"
  by (auto simp: Buffer_ok_def vec_max_size_def)

lemma unat_TailIdleSize:
  "Buffer_ok b \<Longrightarrow> unat (Buffer_TailIdleSize b) = length (buffer b) - unat (writer_idx b)"
  using ok_order [of b] ok_bound [of b]
  by (simp add: Buffer_TailIdleSize_def unat_sub_no_wrap unat_of_nat_le)

lemma unat_ReadAbleSize:
  "Buffer_ok b \<Longrightarrow> unat (Buffer_ReadAbleSize b) = unat (writer_idx b) - unat (reader_idx b)"
  using ok_order [of b] by (simp add: Buffer_ReadAbleSize_def unat_sub_no_wrap)

lemma length_readable:
  "Buffer_ok b \<Longrightarrow> length (readable b) = unat (Buffer_ReadAbleSize b)"
  using ok_order [of b] by (simp add: readable_def unat_ReadAbleSize)

lemma unat_FreeSize:
  assumes "Buffer_ok b"
  shows "unat (Buffer_HeadIdleSize b + Buffer_TailIdleSize b)
       = unat (reader_idx b) + (length (buffer b) - unat (writer_idx b))"
proof -
  have "unat (reader_idx b) + (length (buffer b) - unat (writer_idx b)) < 2 ^ 64"
    using ok_order [OF assms] ok_bound [OF assms] by simp
  then show ?thesis
    by (simp add: Buffer_HeadIdleSize_def unat_add_no_wrap unat_TailIdleSize [OF assms])
qed

lemmas Buffer_sizes = unat_TailIdleSize unat_ReadAbleSize unat_FreeSize

lemma copy_out_readable:
  "Buffer_ok b \<Longrightarrow> copy_out (buffer b) (reader_idx b) (Buffer_ReadAbleSize b) = Inr (readable b)"
  using ok_order [of b] by (simp add: copy_out_def readable_def unat_ReadAbleSize)

lemma copy_out_prefix:
  assumes "Buffer_ok b" "unat len \<le> length (readable b)"
  shows "copy_out (buffer b) (reader_idx b) len = Inr (take (unat len) (readable b))"
proof -
  have "unat len \<le> unat (writer_idx b) - unat (reader_idx b)"
    using assms by (simp add: length_readable unat_ReadAbleSize)
  then show ?thesis
    using ok_order [OF assms(1)] by (simp add: copy_out_def readable_def min_def)
qed

section \<open>Writing\<close>

text \<open>Making room never changes the readable bytes, whichever of the three ways is taken.\<close>

lemma EnsureWriteSpace_ok:
  assumes ok: "Buffer_ok b" and room: "length (buffer b) + unat len \<le> vec_max_size"
  obtains b' where "Buffer_EnsureWriteSpace b len = Inr b'" "Buffer_ok b'"
    "readable b' = readable b" "unat (writer_idx b') + unat len \<le> length (buffer b')"
    "length (buffer b') \<le> length (buffer b) + unat len"
proof -
  note order = ok_order [OF ok] and sizes = Buffer_sizes [OF ok]
  have bound: "length (buffer b) \<le> vec_max_size" "length (buffer b) < 2 ^ 63"
    using ok ok_bound by (auto simp: Buffer_ok_def)
  consider (fits) "len \<le> Buffer_TailIdleSize b"
    | (move) "\<not> len \<le> Buffer_TailIdleSize b" "len \<le> Buffer_HeadIdleSize b + Buffer_TailIdleSize b"
    | (grow) "\<not> len \<le> Buffer_TailIdleSize b" "\<not> len \<le> Buffer_HeadIdleSize b + Buffer_TailIdleSize b"
    by blast
  then show ?thesis
  proof cases
    case fits
    then have "unat (writer_idx b) + unat len \<le> length (buffer b)"
      using order sizes by (simp add: word_le_nat_alt)
    with fits ok that show ?thesis by (simp add: Buffer_EnsureWriteSpace_def)
  next
    case move
    let ?b = "b\<lparr>buffer := overwrite 0 (readable b) (buffer b), reader_idx := 0,
                writer_idx := Buffer_ReadAbleSize b\<rparr>"
    have len: "length (readable b) \<le> length (buffer b)"
      using order by (simp add: length_readable [OF ok] sizes)
    have "len \<noteq> 0" using move by auto
    with move len have "Buffer_EnsureWriteSpace b len = Inr ?b"
      by (simp add: Buffer_EnsureWriteSpace_def Let_def copy_out_readable [OF ok] copy_in_def)
    moreover have "Buffer_ok ?b"
      using order bound len by (simp add: Buffer_ok_def sizes)
    moreover have "readable ?b = readable b"
      by (simp add: readable_def [of ?b] length_readable [OF ok, symmetric])
    moreover have "unat (writer_idx ?b) + unat len \<le> length (buffer ?b)"
      using move order len by (simp add: word_le_nat_alt sizes)
    ultimately show ?thesis using that len by simp
  next
    case grow
    have sum: "unat (writer_idx b + len) = unat (writer_idx b) + unat len"
      using order room by (intro unat_add_no_wrap) (simp add: vec_max_size_def)
    have more: "length (buffer b) \<le> unat (writer_idx b) + unat len"
      using grow order sizes by (simp add: word_le_nat_alt)
    let ?b = "b\<lparr>buffer := buffer b @ replicate (unat (writer_idx b) + unat len - length (buffer b)) (CHR 0x00)\<rparr>"
    have "len \<noteq> 0" using grow by auto
    with grow more room order have "Buffer_EnsureWriteSpace b len = Inr ?b"
      by (simp add: Buffer_EnsureWriteSpace_def vec_resize_def sum)
    moreover have "Buffer_ok ?b"
      using order more room by (simp add: Buffer_ok_def)
    moreover have "readable ?b = readable b"
      using order by (simp add: readable_def)
    ultimately show ?thesis using that more order by simp
  qed
qed

lemma WriteAndPush_ok:
  assumes ok: "Buffer_ok b" and len: "unat len \<le> length data"
    and room: "length (buffer b) + unat len \<le> vec_max_size"
  obtains b' where "Buffer_WriteAndPush b data len = Inr b'" "Buffer_ok b'"
    "readable b' = readable b @ take (unat len) data"
    "length (buffer b') \<le> length (buffer b) + unat len"
proof (cases "len = 0")
  case True
  with ok that show ?thesis by (simp add: Buffer_WriteAndPush_def)
next
  case False
  obtain b1 where b1: "Buffer_EnsureWriteSpace b len = Inr b1" "Buffer_ok b1"
    "readable b1 = readable b" "unat (writer_idx b1) + unat len \<le> length (buffer b1)"
    "length (buffer b1) \<le> length (buffer b) + unat len"
    using EnsureWriteSpace_ok [OF ok room] .
  let ?d = "take (unat len) data"
  let ?b2 = "b1\<lparr>buffer := overwrite (unat (writer_idx b1)) ?d (buffer b1)\<rparr>"
  let ?b3 = "?b2\<lparr>writer_idx := writer_idx b1 + len\<rparr>"
  have d: "length ?d = unat len" using len by simp
  have written: "Buffer_Write b data len = Inr ?b2"
    using False b1 len by (simp add: Buffer_Write_def copy_out_def copy_in_def)
  have lenb: "length (buffer ?b2) = length (buffer b1)"
    using b1 d by simp
  have ok2: "Buffer_ok ?b2"
    using b1(2) lenb by (simp add: Buffer_ok_def)
  have "len \<le> Buffer_TailIdleSize ?b2"
    using b1(4) lenb by (simp add: word_le_nat_alt unat_TailIdleSize [OF ok2])
  then have push: "Buffer_WriteAndPush b data len = Inr ?b3"
    using False written by (simp add: Buffer_WriteAndPush_def Buffer_MoveWriteOffset_def)
  have sum: "unat (writer_idx b1 + len) = unat (writer_idx b1) + unat len"
    using b1(4) ok_bound [OF b1(2)] by (intro unat_add_no_wrap) simp
  have order: "unat (reader_idx b1) \<le> unat (writer_idx b1)"
    using ok_order [OF b1(2)] by simp
  have "Buffer_ok ?b3"
    using ok2 b1(4) lenb sum by (simp add: Buffer_ok_def)
  moreover have "readable ?b3 = readable b @ ?d"
    using slice_overwrite_after [of "unat (reader_idx b1)" "unat (writer_idx b1)" ?d "buffer b1"]
      order b1(3,4) d by (simp add: readable_def sum)
  ultimately show ?thesis using that push b1(5) lenb by simp
qed

lemma WriteStringAndPop_eq:
  "Buffer_WriteStringAndPop b data = Buffer_WriteAndPush b data (of_nat (length data))"
  by (simp add: Buffer_WriteStringAndPop_def Buffer_WriteString_def Buffer_WriteAndPush_def
      Buffer_Write_def Buffer_MoveWriteOffset_def)

lemma WriteStringAndPop_ok:
  assumes "Buffer_ok b" "length (buffer b) + length data \<le> vec_max_size"
  obtains b' where "Buffer_WriteStringAndPop b data = Inr b'" "Buffer_ok b'"
    "readable b' = readable b @ data" "length (buffer b') \<le> length (buffer b) + length data"
proof -
  have "unat (of_nat (length data) :: u64) = length data"
    using assms(2) by (intro unat_of_nat_le) (simp add: vec_max_size_def)
  then show ?thesis
    using WriteAndPush_ok [of b "of_nat (length data)" data] assms that
    by (auto simp: WriteStringAndPop_eq)
qed

text \<open>Appending another buffer appends its readable bytes.\<close>

lemma WriteBufferAndPush_eq:
  "Buffer_WriteBufferAndPush b d
   = Buffer_WriteAndPush b (drop (unat (reader_idx d)) (buffer d)) (Buffer_ReadAbleSize d)"
  by (simp add: Buffer_WriteBufferAndPush_def Buffer_WriteBuffer_def Buffer_WriteAndPush_def
      Buffer_Write_def Buffer_MoveWriteOffset_def)

lemma WriteBufferAndPush_ok:
  assumes "Buffer_ok b" "Buffer_ok d" "length (buffer b) + length (readable d) \<le> vec_max_size"
  obtains b' where "Buffer_WriteBufferAndPush b d = Inr b'" "Buffer_ok b'"
    "readable b' = readable b @ readable d"
    "length (buffer b') \<le> length (buffer b) + length (readable d)"
proof -
  have "readable d = take (unat (Buffer_ReadAbleSize d)) (drop (unat (reader_idx d)) (buffer d))"
    by (simp add: readable_def unat_ReadAbleSize [OF assms(2)])
  moreover have "unat (Buffer_ReadAbleSize d) \<le> length (drop (unat (reader_idx d)) (buffer d))"
    using ok_order [OF assms(2)] by (simp add: unat_ReadAbleSize [OF assms(2)])
  ultimately show ?thesis
    using WriteAndPush_ok [OF assms(1), of "Buffer_ReadAbleSize d"
        "drop (unat (reader_idx d)) (buffer d)"] assms(3) that
    by (auto simp: WriteBufferAndPush_eq length_readable [OF assms(2)])
qed

section \<open>Reading\<close>

lemma MoveReadOffset_ok:
  assumes ok: "Buffer_ok b" and len: "unat len \<le> length (readable b)"
  obtains b' where "Buffer_MoveReadOffset b len = Inr b'" "Buffer_ok b'"
    "readable b' = drop (unat len) (readable b)" "buffer b' = buffer b"
proof -
  have le: "unat (reader_idx b) + unat len \<le> unat (writer_idx b)"
    using len ok_order [OF ok] by (simp add: length_readable [OF ok] unat_ReadAbleSize [OF ok])
  have sum: "unat (reader_idx b + len) = unat (reader_idx b) + unat len"
    using le ok_order [OF ok] ok_bound [OF ok] by (intro unat_add_no_wrap) simp
  let ?b = "b\<lparr>reader_idx := reader_idx b + len\<rparr>"
  have "Buffer_MoveReadOffset b len = Inr ?b"
    using len by (simp add: Buffer_MoveReadOffset_def length_readable [OF ok] word_le_nat_alt)
  moreover have "Buffer_ok ?b" using ok le sum by (simp add: Buffer_ok_def)
  moreover have "readable ?b = drop (unat len) (readable b)"
    by (simp add: readable_def sum drop_take) (simp add: add.commute)
  ultimately show ?thesis using that by simp
qed

lemma ReadString_ok:
  assumes "Buffer_ok b" "unat len \<le> length (readable b)"
  shows "Buffer_ReadString b len = Inr (take (unat len) (readable b))"
  using assms copy_out_prefix [OF assms]
  by (simp add: Buffer_ReadString_def Buffer_Read_def length_readable word_le_nat_alt)

lemma ReadStringAndPop_ok:
  assumes "Buffer_ok b" "unat len \<le> length (readable b)"
  obtains b' where "Buffer_ReadStringAndPop b len = Inr (take (unat len) (readable b), b')"
    "Buffer_ok b'" "readable b' = drop (unat len) (readable b)" "buffer b' = buffer b"
  using MoveReadOffset_ok [OF assms] ReadString_ok [OF assms] that
  by (metis (no_types, lifting) Buffer_ReadStringAndPop_def bind_res_Inr)

lemma ReadStringAndPop_fail:
  "Buffer_ok b \<Longrightarrow> length (readable b) < unat len \<Longrightarrow> Buffer_ReadStringAndPop b len = Inl Assertion"
  by (simp add: Buffer_ReadStringAndPop_def Buffer_ReadString_def length_readable word_le_nat_alt)

lemma GetLineAndPop_None:
  assumes ok: "Buffer_ok b" and none: "CHR 0x0A \<notin> set (readable b)"
  shows "Buffer_GetLineAndPop b = Inr ([], b)"
  using memchr_None_iff [of "CHR 0x0A" "readable b"] none
  by (simp add: Buffer_GetLineAndPop_def Buffer_GetLine_def Buffer_FindCRLF_def
      copy_out_readable [OF ok] Buffer_MoveReadOffset_def)

lemma GetLineAndPop_Some:
  assumes ok: "Buffer_ok b" and split: "readable b = line @ CHR 0x0A # rest"
    and fresh: "CHR 0x0A \<notin> set line"
  obtains b' where "Buffer_GetLineAndPop b = Inr (line @ [CHR 0x0A], b')" "Buffer_ok b'"
    "readable b' = rest" "buffer b' = buffer b"
proof -
  have small: "length (readable b) < 2 ^ 64"
    using ok_order [OF ok] ok_bound [OF ok]
    by (simp add: length_readable [OF ok] unat_ReadAbleSize [OF ok])
  then have n: "unat (of_nat (length line) + 1 :: u64) = Suc (length line)"
    using unat_of_nat_le [of "Suc (length line)"] split by (simp add: add.commute)
  have find: "Buffer_FindCRLF b = Inr (Some (length line))"
    by (simp add: Buffer_FindCRLF_def copy_out_readable [OF ok] split memchr_append_hit [OF fresh])
  have read: "Buffer_GetLine b = Inr (line @ [CHR 0x0A])"
    using ReadString_ok [OF ok, of "of_nat (length line) + 1"] split n
    by (simp add: Buffer_GetLine_def find)
  have len: "unat (of_nat (Suc (length line)) :: u64) = Suc (length line)"
    using small split by (intro unat_of_nat_le) simp
  from MoveReadOffset_ok [OF ok, of "of_nat (Suc (length line))"] split len
  obtain b' where b': "Buffer_MoveReadOffset b (of_nat (Suc (length line))) = Inr b'"
    "Buffer_ok b'" "readable b' = rest" "buffer b' = buffer b"
    by (auto simp del: of_nat_Suc)
  then have "Buffer_GetLineAndPop b = Inr (line @ [CHR 0x0A], b')"
    by (simp add: Buffer_GetLineAndPop_def read del: of_nat_Suc)
  with b' that show ?thesis by blast
qed

section \<open>The contract: a first-in first-out queue of bytes\<close>

datatype fifo_op = Push "char list" | Pop u64

fun fifo_run :: "('s \<Rightarrow> char list \<Rightarrow> 's res) \<Rightarrow> ('s \<Rightarrow> u64 \<Rightarrow> (char list \<times> 's) res) \<Rightarrow>
    's \<Rightarrow> fifo_op list \<Rightarrow> (char list \<times> 's) res" where
  "fifo_run push pop s [] = Inr ([], s)"
| "fifo_run push pop s (Push xs # ops) = bind_res (push s xs) (\<lambda>s1. fifo_run push pop s1 ops)"
| "fifo_run push pop s (Pop n # ops) =
     bind_res (pop s n) (\<lambda>(xs, s1).
     bind_res (fifo_run push pop s1 ops) (\<lambda>(ys, s2). Inr (xs @ ys, s2)))"

text \<open>The abstract queue: a list of bytes, a pop of too many bytes is the failed assertion.\<close>

fun fifo_spec :: "char list \<Rightarrow> fifo_op list \<Rightarrow> (char list \<times> char list) res" where
  "fifo_spec q [] = Inr ([], q)"
| "fifo_spec q (Push xs # ops) = fifo_spec (q @ xs) ops"
| "fifo_spec q (Pop n # ops) =
     (if unat n \<le> length q
      then bind_res (fifo_spec (drop (unat n) q) ops) (\<lambda>(ys, q1). Inr (take (unat n) q @ ys, q1))
      else Inl Assertion)"

fun pushed :: "fifo_op list \<Rightarrow> char list" where
  "pushed [] = []"
| "pushed (Push xs # ops) = xs @ pushed ops"
| "pushed (Pop n # ops) = pushed ops"

text \<open>No byte is lost, duplicated or reordered by the abstract queue.\<close>

lemma fifo_spec_conserves: "fifo_spec q ops = Inr (out, q') \<Longrightarrow> out @ q' = q @ pushed ops"
proof (induction q ops arbitrary: out q' rule: fifo_spec.induct)
  case (3 q n ops)
  then show ?case
    by (auto simp: bind_res_eq_Inr_iff split: if_splits)
qed auto

locale byte_fifo =
  fixes ok :: "'s \<Rightarrow> bool" and content :: "'s \<Rightarrow> char list" and storage :: "'s \<Rightarrow> nat"
    and push :: "'s \<Rightarrow> char list \<Rightarrow> 's res" and pop :: "'s \<Rightarrow> u64 \<Rightarrow> (char list \<times> 's) res"
    and capacity :: nat
  assumes push_ok: "ok s \<Longrightarrow> storage s + length xs \<le> capacity \<Longrightarrow>
      \<exists>s'. push s xs = Inr s' \<and> ok s' \<and> content s' = content s @ xs
        \<and> storage s' \<le> storage s + length xs"
    and pop_ok: "ok s \<Longrightarrow> unat n \<le> length (content s) \<Longrightarrow>
      \<exists>s'. pop s n = Inr (take (unat n) (content s), s') \<and> ok s'
        \<and> content s' = drop (unat n) (content s) \<and> storage s' \<le> storage s"
    and pop_fail: "ok s \<Longrightarrow> length (content s) < unat n \<Longrightarrow> pop s n = Inl Assertion"
begin

definition related :: "(char list \<times> 's) res \<Rightarrow> (char list \<times> char list) res \<Rightarrow> bool" where
  "related r q = (case r of
      Inl e \<Rightarrow> q = Inl e
    | Inr (out, s) \<Rightarrow> q = Inr (out, content s) \<and> ok s)"

lemma relatedE:
  assumes "related r q"
  obtains (fault) e where "r = Inl e" "q = Inl e"
    | (val) out s where "r = Inr (out, s)" "q = Inr (out, content s)" "ok s"
  using assms by (cases r) (auto simp: related_def)

lemma run_related:
  "ok s \<Longrightarrow> storage s + length (pushed ops) \<le> capacity \<Longrightarrow>
   related (fifo_run push pop s ops) (fifo_spec (content s) ops)"
proof (induction ops arbitrary: s)
  case Nil
  then show ?case by (simp add: related_def)
next
  case (Cons a ops)
  show ?case
  proof (cases a)
    case (Push xs)
    with Cons.prems obtain s1 where s1: "push s xs = Inr s1" "ok s1" "content s1 = content s @ xs"
      "storage s1 \<le> storage s + length xs"
      using push_ok [of s xs] by auto
    with Push Cons.prems have "storage s1 + length (pushed ops) \<le> capacity" by simp
    from Cons.IH [OF s1(2) this] s1 Push show ?thesis by simp
  next
    case (Pop n)
    show ?thesis
    proof (cases "unat n \<le> length (content s)")
      case True
      then obtain s1 where s1: "pop s n = Inr (take (unat n) (content s), s1)" "ok s1"
        "content s1 = drop (unat n) (content s)" "storage s1 \<le> storage s"
        using pop_ok [OF Cons.prems(1)] by blast
      with Pop Cons.prems have "storage s1 + length (pushed ops) \<le> capacity" by simp
      from Cons.IH [OF s1(2) this] show ?thesis
        by (rule relatedE) (use s1 Pop True in \<open>simp_all add: related_def\<close>)
    next
      case False
      with Pop pop_fail [OF Cons.prems(1), of n] show ?thesis by (simp add: related_def)
    qed
  qed
qed

lemma run_refines:
  assumes "ok s" "storage s + length (pushed ops) \<le> capacity"
  shows "map_sum id (apsnd content) (fifo_run push pop s ops) = fifo_spec (content s) ops"
  using run_related [OF assms] by (rule relatedE) simp_all

lemma run_conserves:
  assumes "ok s" "storage s + length (pushed ops) \<le> capacity" "fifo_run push pop s ops = Inr (out, s')"
  shows "ok s' \<and> out @ content s' = content s @ pushed ops"
  using run_related [OF assms(1,2)] assms(3)
  by (auto elim!: relatedE dest: fifo_spec_conserves)

end

interpretation buf: byte_fifo Buffer_ok readable "\<lambda>b. length (buffer b)"
  Buffer_WriteStringAndPop Buffer_ReadStringAndPop vec_max_size
proof unfold_locales
  fix b :: Buffer and xs :: "char list"
  assume "Buffer_ok b" "length (buffer b) + length xs \<le> vec_max_size"
  then show "\<exists>s'. Buffer_WriteStringAndPop b xs = Inr s' \<and> Buffer_ok s' \<and> readable s' = readable b @ xs
      \<and> length (buffer s') \<le> length (buffer b) + length xs"
    by (rule WriteStringAndPop_ok) blast
next
  fix b :: Buffer and n :: u64
  assume "Buffer_ok b" "unat n \<le> length (readable b)"
  then show "\<exists>s'. Buffer_ReadStringAndPop b n = Inr (take (unat n) (readable b), s') \<and> Buffer_ok s'
      \<and> readable s' = drop (unat n) (readable b) \<and> length (buffer s') \<le> length (buffer b)"
    by (rule ReadStringAndPop_ok) auto
qed (rule ReadStringAndPop_fail)

section \<open>Lines\<close>

lemma main_write_ok:
  assumes "Buffer_ok b" "length (buffer b) + length (concat strs) \<le> vec_max_size"
  shows "\<exists>b'. main_write b strs = Inr b' \<and> Buffer_ok b' \<and> readable b' = readable b @ concat strs"
  using assms
proof (induction strs arbitrary: b)
  case Nil
  then show ?case by simp
next
  case (Cons a strs)
  then obtain b1 where "Buffer_WriteStringAndPop b a = Inr b1" "Buffer_ok b1"
    "readable b1 = readable b @ a" "length (buffer b1) \<le> length (buffer b) + length a"
    using WriteStringAndPop_ok [of b a] by auto
  with Cons.IH [of b1] Cons.prems(2) show ?case by auto
qed

lemma ReadAbleSize_0_iff: "Buffer_ok b \<Longrightarrow> Buffer_ReadAbleSize b = 0 \<longleftrightarrow> readable b = []"
  by (metis length_0_conv length_readable unat_eq_zero)

lemma main_drain_lines:
  assumes "Buffer_ok b" "readable b = concat (map (\<lambda>l. l @ [CHR 0x0A]) ls)"
    "\<forall>l \<in> set ls. CHR 0x0A \<notin> set l"
  shows "\<exists>b'. main_drain (Suc (length ls)) b = Some (Inr (map (\<lambda>l. l @ [CHR 0x0A]) ls, b'))
    \<and> Buffer_ok b' \<and> readable b' = []"
  using assms
proof (induction ls arbitrary: b)
  case Nil
  then have "Buffer_ReadAbleSize b = 0" by (simp add: ReadAbleSize_0_iff)
  with Nil show ?case by simp
next
  case (Cons l ls)
  obtain b1 where b1: "Buffer_GetLineAndPop b = Inr (l @ [CHR 0x0A], b1)" "Buffer_ok b1"
    "readable b1 = concat (map (\<lambda>l. l @ [CHR 0x0A]) ls)"
    using GetLineAndPop_Some [OF Cons.prems(1), of l "concat (map (\<lambda>l. l @ [CHR 0x0A]) ls)"]
      Cons.prems(2,3) by auto
  have "Buffer_ReadAbleSize b > 0"
    using Cons.prems ReadAbleSize_0_iff [of b] by (auto simp: word_neq_0_conv)
  with b1 Cons.IH [OF b1(2,3)] Cons.prems(3) show ?case by (auto simp: main_drain.simps(2))
qed

section \<open>Properties\<close>

text \<open>
  C12. The buffer refines a byte queue: any sequence of writes and reads that stays within the
  address space behaves exactly as the same sequence on a plain list of bytes. Every read
  returns the bytes the list gives, the readable bytes afterwards are the list, and the
  assertion in \<open>ReadString\<close> fails exactly when the list is too short; this covers the three
  paths of \<open>EnsureWriteSpace\<close> (room behind the write index, moving to the front, resizing).
\<close>

theorem Buffer_refines_byte_queue:
  assumes "Buffer_ok b" "length (buffer b) + length (pushed ops) \<le> vec_max_size"
  shows "map_sum id (apsnd readable)
           (fifo_run Buffer_WriteStringAndPop Buffer_ReadStringAndPop b ops)
         = fifo_spec (readable b) ops"
  using assms by (rule buf.run_refines)

theorem Buffer_refines_byte_queue_witness:
  "map_sum id (apsnd readable)
     (fifo_run Buffer_WriteStringAndPop Buffer_ReadStringAndPop Buffer_new
        [Push ''abc'', Pop 2, Push ''de'', Pop 3, Pop 1])
   = Inl Assertion"
proof -
  let ?ops = "[Push ''abc'', Pop 2, Push ''de'', Pop 3, Pop 1]"
  have "length (buffer Buffer_new) + length (pushed ?ops) \<le> vec_max_size"
    by (simp add: vec_max_size_def)
  moreover have "fifo_spec (readable Buffer_new) ?ops = Inl Assertion"
    by simp
  ultimately show ?thesis
    using Buffer_refines_byte_queue [OF Buffer_ok_new, of ?ops] by (simp only:)
qed

text \<open>
  \<open>GetLineAndPop\<close> takes exactly one line: with a newline in the readable bytes it
  returns the bytes up to and including the first one and leaves the rest; without one it
  returns the empty string and leaves the buffer as it is.
\<close>

theorem Buffer_GetLineAndPop_one_line:
  assumes "Buffer_ok b"
  shows "\<exists>line b'. Buffer_GetLineAndPop b = Inr (line, b') \<and> Buffer_ok b'
    \<and> readable b = line @ readable b'
    \<and> (if CHR 0x0A \<in> set (readable b)
       then line \<noteq> [] \<and> last line = CHR 0x0A \<and> CHR 0x0A \<notin> set (butlast line)
       else line = [] \<and> b' = b)"
proof (cases "CHR 0x0A \<in> set (readable b)")
  case True
  then obtain l rest where "readable b = l @ CHR 0x0A # rest" "CHR 0x0A \<notin> set l"
    using split_list_first by metis
  with GetLineAndPop_Some [OF assms] True show ?thesis
    by (metis append.assoc append_Cons append_Nil butlast_snoc last_snoc snoc_eq_iff_butlast)
next
  case False
  with GetLineAndPop_None [OF assms] assms show ?thesis by simp
qed

theorem Buffer_GetLineAndPop_one_line_witness:
  "\<exists>line b'. Buffer_GetLineAndPop Buffer_new = Inr (line, b') \<and> readable Buffer_new = line @ readable b'"
  using Buffer_GetLineAndPop_one_line [OF Buffer_ok_new] by blast

text \<open>
  The driver's round trip: lines written one after the other into a new buffer are taken
  out again unchanged and in order by the loop that calls \<open>GetLineAndPop\<close> while anything is
  readable, and the loop stops after one round per line with nothing left.
\<close>

theorem main_lines_roundtrip:
  assumes "\<forall>l \<in> set ls. CHR 0x0A \<notin> set l"
    and "1024 + length (concat (map (\<lambda>l. l @ [CHR 0x0A]) ls)) \<le> vec_max_size"
  shows "\<exists>b b'. main_write Buffer_new (map (\<lambda>l. l @ [CHR 0x0A]) ls) = Inr b
    \<and> main_drain (Suc (length ls)) b = Some (Inr (map (\<lambda>l. l @ [CHR 0x0A]) ls, b'))
    \<and> Buffer_ReadAbleSize b' = 0"
proof -
  from main_write_ok [OF Buffer_ok_new, of "map (\<lambda>l. l @ [CHR 0x0A]) ls"] assms(2)
  obtain b where b: "main_write Buffer_new (map (\<lambda>l. l @ [CHR 0x0A]) ls) = Inr b" "Buffer_ok b"
    "readable b = concat (map (\<lambda>l. l @ [CHR 0x0A]) ls)"
    by auto
  with main_drain_lines [OF b(2,3) assms(1)] show ?thesis
    by (metis ReadAbleSize_0_iff)
qed

theorem main_lines_roundtrip_witness:
  "\<exists>b b'. main_write Buffer_new (map (\<lambda>l. l @ [CHR 0x0A]) [''hello'', ''world'']) = Inr b
    \<and> main_drain 3 b = Some (Inr (map (\<lambda>l. l @ [CHR 0x0A]) [''hello'', ''world''], b'))
    \<and> Buffer_ReadAbleSize b' = 0"
proof -
  have "(\<forall>l \<in> set [''hello'', ''world'']. CHR 0x0A \<notin> set l)
    \<and> 1024 + length (concat (map (\<lambda>l. l @ [CHR 0x0A]) [''hello'', ''world''])) \<le> vec_max_size"
    by (simp add: vec_max_size_def)
  with main_lines_roundtrip [of "[''hello'', ''world'']"] show ?thesis
    by (simp add: numeral_3_eq_3 del: main_write.simps main_drain.simps)
qed

text \<open>
  The driver's loop does not stop when the readable bytes are not empty and hold no
  newline: no number of rounds is enough.
\<close>

theorem main_drain_needs_newline:
  assumes "Buffer_ok b" "readable b \<noteq> []" "CHR 0x0A \<notin> set (readable b)"
  shows "main_drain n b = None"
proof -
  have "Buffer_ReadAbleSize b > 0"
    using assms ReadAbleSize_0_iff [of b] by (auto simp: word_neq_0_conv)
  then show ?thesis
    by (induction n) (simp_all add: GetLineAndPop_None [OF assms(1,3)])
qed

theorem main_drain_needs_newline_witness:
  "main_drain 5 \<lparr>buffer = ''ab'', reader_idx = 0, writer_idx = 2\<rparr> = None"
  by (rule main_drain_needs_newline) (simp_all add: Buffer_ok_def readable_def vec_max_size_def)

end
