(* ===== verification/Reactor_Timer.thy ===== *)
theory Reactor_Timer
  imports Prelude
begin

text \<open>
  The timer wheel of the reactor (\<open>Reactor_http/source/server.hpp\<close>, classes
  \<open>TimerTask\<close> and \<open>TimerWheel\<close>). A task lives as long as some slot of the wheel holds a
  shared pointer to it; the wheel turns once a second and empties the slot it reaches, and a
  task whose last pointer goes runs its callback from its destructor. Refreshing a task
  pushes a further pointer to it into a later slot. The registry \<open>_timers\<close> holds weak
  pointers. Shared pointers are object numbers, their use count is the number of occurrences
  in the wheel. A callback is a parameter: it acts on a state that extends the wheel.
\<close>

section \<open>The model\<close>

record 'cb TimerTask =
  task_id :: u64
  timeout :: u32
  task_cb :: 'cb
  cancelled :: bool

record 'cb TimerWheel =
  tick :: nat
  wheel :: "nat list list"
  timers :: "u64 \<rightharpoonup> nat"
  tasks :: "nat \<rightharpoonup> 'cb TimerTask"
  next_task :: nat

definition wheel_capacity :: nat where
  "wheel_capacity = 60"

definition TimerWheel_new :: "'cb TimerWheel" where
  "TimerWheel_new = \<lparr>tick = 0, wheel = replicate wheel_capacity [], timers = Map.empty,
     tasks = Map.empty, next_task = 0\<rparr>"

text \<open>The use count of the shared pointers to a task; \<open>weak_ptr::lock\<close> is null when it is 0.\<close>

definition use_count :: "('cb, 'z) TimerWheel_scheme \<Rightarrow> nat \<Rightarrow> nat" where
  "use_count w p = count_list (concat (wheel w)) p"

definition weak_lock :: "('cb, 'z) TimerWheel_scheme \<Rightarrow> nat \<Rightarrow> nat option" where
  "weak_lock w p = (if use_count w p = 0 then None else Some p)"

definition slot_push :: "nat \<Rightarrow> nat \<Rightarrow> ('cb, 'z) TimerWheel_scheme \<Rightarrow> ('cb, 'z) TimerWheel_scheme" where
  "slot_push pos p w = w\<lparr>wheel := (wheel w)[pos := wheel w ! pos @ [p]]\<rparr>"

definition TimerWheel_Remove :: "u64 \<Rightarrow> ('cb, 'z) TimerWheel_scheme \<Rightarrow> ('cb, 'z) TimerWheel_scheme" where
  "TimerWheel_Remove i w = w\<lparr>timers := (timers w)(i := None)\<rparr>"

text \<open>
  \<open>~TimerTask\<close>: the callback unless cancelled, then \<open>_release\<close>, which is \<open>Remove\<close> on
  the task's id; afterwards the object is gone. The use count is already 0 while it runs.
\<close>

definition TimerTask_destroy ::
  "('cb \<Rightarrow> ('cb, 'z) TimerWheel_scheme \<Rightarrow> ('cb, 'z) TimerWheel_scheme res) \<Rightarrow> nat \<Rightarrow>
   ('cb, 'z) TimerWheel_scheme \<Rightarrow> ('cb, 'z) TimerWheel_scheme res" where
  "TimerTask_destroy exec p w =
     (case tasks w p of
        None \<Rightarrow> Inl Null_Deref
      | Some t \<Rightarrow>
          bind_res (if cancelled t then Inr w else exec (task_cb t) w) (\<lambda>w1.
          let w2 = TimerWheel_Remove (task_id t) w1 in
          Inr (w2\<lparr>tasks := (tasks w2)(p := None)\<rparr>)))"

text \<open>
  \<open>_wheel[_tick].clear()\<close> destroys the pointers of the slot from first to last. A callback
  that pushes into the very slot being cleared is outside the contract of \<open>std::vector\<close>.
\<close>

fun slot_clear ::
  "('cb \<Rightarrow> ('cb, 'z) TimerWheel_scheme \<Rightarrow> ('cb, 'z) TimerWheel_scheme res) \<Rightarrow> nat \<Rightarrow> nat list \<Rightarrow>
   ('cb, 'z) TimerWheel_scheme \<Rightarrow> ('cb, 'z) TimerWheel_scheme res" where
  "slot_clear exec k [] w = Inr w"
| "slot_clear exec k (p # ps) w =
     (let w1 = w\<lparr>wheel := (wheel w)[k := ps]\<rparr> in
      if use_count w1 p = 0 then
        bind_res (TimerTask_destroy exec p w1) (\<lambda>w2.
          if wheel w2 ! k = ps then slot_clear exec k ps w2 else Inl Out_Of_Bounds)
      else slot_clear exec k ps w1)"

definition TimerWheel_RunTimerTask ::
  "('cb \<Rightarrow> ('cb, 'z) TimerWheel_scheme \<Rightarrow> ('cb, 'z) TimerWheel_scheme res) \<Rightarrow>
   ('cb, 'z) TimerWheel_scheme \<Rightarrow> ('cb, 'z) TimerWheel_scheme res" where
  "TimerWheel_RunTimerTask exec w =
     (let k = (tick w + 1) mod wheel_capacity; w1 = w\<lparr>tick := k\<rparr> in
      slot_clear exec k (wheel w1 ! k) w1)"

text \<open>
  \<open>OnTime\<close>: \<open>ReadTimerfd\<close> aborts when the read of the timer descriptor fails; the number
  of expirations it returns is not used.
\<close>

definition TimerWheel_OnTime ::
  "('cb \<Rightarrow> ('cb, 'z) TimerWheel_scheme \<Rightarrow> ('cb, 'z) TimerWheel_scheme res) \<Rightarrow> u64 option \<Rightarrow>
   ('cb, 'z) TimerWheel_scheme \<Rightarrow> ('cb, 'z) TimerWheel_scheme res" where
  "TimerWheel_OnTime exec expirations w =
     (case expirations of None \<Rightarrow> Inl Aborted | Some _ \<Rightarrow> TimerWheel_RunTimerTask exec w)"

text \<open>\<open>_tick+timeout\<close> is an unsigned 32-bit sum.\<close>

definition TimerWheel_TimerAddInLoop ::
  "u64 \<Rightarrow> u32 \<Rightarrow> 'cb \<Rightarrow> ('cb, 'z) TimerWheel_scheme \<Rightarrow> ('cb, 'z) TimerWheel_scheme" where
  "TimerWheel_TimerAddInLoop i t cb w =
     (let p = next_task w;
          task = \<lparr>task_id = i, timeout = t, task_cb = cb, cancelled = False\<rparr>;
          pos = unat (of_nat (tick w) + t) mod wheel_capacity;
          w1 = slot_push pos p (w\<lparr>tasks := (tasks w)(p \<mapsto> task), next_task := Suc p\<rparr>)
      in w1\<lparr>timers := (timers w1)(i \<mapsto> p)\<rparr>)"

text \<open>
  \<open>int delay=pt->DelayTime(); (_tick+delay)%_capacity\<close> is signed: a delay of 2 to the 31 or more is
  negative, \<open>%\<close> truncates towards zero, a negative index is out of range.
\<close>

definition TimerWheel_TimerRefreshInLoop ::
  "u64 \<Rightarrow> ('cb, 'z) TimerWheel_scheme \<Rightarrow> ('cb, 'z) TimerWheel_scheme res" where
  "TimerWheel_TimerRefreshInLoop i w =
     (case timers w i of
        None \<Rightarrow> Inr w
      | Some q \<Rightarrow>
          (case weak_lock w q of
             None \<Rightarrow> Inl Null_Deref
           | Some p \<Rightarrow>
               (case tasks w p of
                  None \<Rightarrow> Inl Null_Deref
                | Some t \<Rightarrow>
                    let s = int (tick w) + sint (timeout t) in
                    if s > 2 ^ 31 - 1 then Inl Overflow
                    else
                      let pos = (if s \<ge> 0 then s mod int wheel_capacity
                                 else - ((- s) mod int wheel_capacity)) in
                      if pos < 0 then Inl Out_Of_Bounds
                      else Inr (slot_push (nat pos) p w))))"

definition TimerWheel_TimerCancelInLoop ::
  "u64 \<Rightarrow> ('cb, 'z) TimerWheel_scheme \<Rightarrow> ('cb, 'z) TimerWheel_scheme res" where
  "TimerWheel_TimerCancelInLoop i w =
     (case timers w i of
        None \<Rightarrow> Inr w
      | Some q \<Rightarrow>
          (case weak_lock w q of
             None \<Rightarrow> Inr w
           | Some p \<Rightarrow>
               (case tasks w p of
                  None \<Rightarrow> Inl Null_Deref
                | Some t \<Rightarrow> Inr (w\<lparr>tasks := (tasks w)(p \<mapsto> t\<lparr>cancelled := True\<rparr>)\<rparr>))))"

definition TimerWheel_HasTimer :: "u64 \<Rightarrow> ('cb, 'z) TimerWheel_scheme \<Rightarrow> bool" where
  "TimerWheel_HasTimer i w \<longleftrightarrow> timers w i \<noteq> None"

section \<open>Slots and the ticks left until they are reached\<close>

definition refs :: "('cb, 'z) TimerWheel_scheme \<Rightarrow> nat set" where
  "refs w = set (concat (wheel w))"

lemma set_concat_nth: "set (concat ss) = (\<Union>i < length ss. set (ss ! i))"
  by (induction ss rule: rev_induct) (auto simp: nth_append lessThan_Suc)

lemma use_count_0_iff: "use_count w p = 0 \<longleftrightarrow> p \<notin> refs w"
  by (simp add: use_count_def refs_def count_list_0_iff)

lemma refs_iff: "p \<in> refs w \<longleftrightarrow> (\<exists>k < length (wheel w). p \<in> set (wheel w ! k))"
  by (auto simp: refs_def set_concat_nth simp del: set_concat)

definition slots_of :: "nat list list \<Rightarrow> nat \<Rightarrow> nat set" where
  "slots_of ss p = {k. k < length ss \<and> p \<in> set (ss ! k)}"

text \<open>Ticks until slot \<open>k\<close> is reached, between 1 and 60.\<close>

definition ticks_to :: "nat \<Rightarrow> nat \<Rightarrow> nat" where
  "ticks_to now k = (if now < k then k - now else k + wheel_capacity - now)"

lemma ticks_to_bounds:
  "now < wheel_capacity \<Longrightarrow> k < wheel_capacity \<Longrightarrow> 1 \<le> ticks_to now k \<and> ticks_to now k \<le> wheel_capacity"
  by (auto simp: ticks_to_def)

lemma ticks_to_next:
  assumes "now < wheel_capacity" "k < wheel_capacity"
  shows "ticks_to now k = 1 \<longleftrightarrow> k = (now + 1) mod wheel_capacity"
  using assms by (cases "now = 59") (auto simp: ticks_to_def wheel_capacity_def)

lemma ticks_to_step:
  assumes "now < wheel_capacity" "k < wheel_capacity" "k \<noteq> (now + 1) mod wheel_capacity"
  shows "ticks_to ((now + 1) mod wheel_capacity) k = ticks_to now k - 1"
  using assms by (cases "now = 59") (auto simp: ticks_to_def wheel_capacity_def)

lemma ticks_to_pos:
  assumes "now < wheel_capacity"
  shows "ticks_to now ((now + t) mod wheel_capacity) = (t + 59) mod 60 + 1"
proof -
  define m where "m = t mod 60"
  have m: "m < 60" "(now + t) mod 60 = (now + m) mod 60" "(t + 59) mod 60 = (m + 59) mod 60"
    by (simp_all add: m_def mod_add_right_eq mod_add_left_eq)
  have "(now + m) mod 60 = (if now + m < 60 then now + m else now + m - 60)"
    using assms m(1) by (simp add: wheel_capacity_def mod_if)
  moreover have "(m + 59) mod 60 = (if m = 0 then 59 else m - 1)"
    using m(1) by (cases m) (simp_all add: mod_if)
  ultimately show ?thesis
    using assms m by (auto simp: ticks_to_def wheel_capacity_def)
qed

text \<open>The tick at which the last pointer to a task goes.\<close>

definition due :: "('cb, 'z) TimerWheel_scheme \<Rightarrow> nat \<Rightarrow> nat" where
  "due w p = Max (ticks_to (tick w) ` slots_of (wheel w) p)"


section \<open>Invariant\<close>

text \<open>
  Tasks live exactly as long as the wheel refers to them, the registry points to live tasks
  with the right id, every live task is registered, and no pointer to a task lies further
  ahead than its timeout.
\<close>

definition wheel_ok :: "('cb, 'z) TimerWheel_scheme \<Rightarrow> bool" where
  "wheel_ok w \<longleftrightarrow>
     length (wheel w) = wheel_capacity \<and> tick w < wheel_capacity
     \<and> dom (tasks w) = refs w \<and> (\<forall>p \<in> refs w. p < next_task w)
     \<and> (\<forall>i p. timers w i = Some p \<longrightarrow> (\<exists>t. tasks w p = Some t \<and> task_id t = i))
     \<and> (\<forall>p t. tasks w p = Some t \<longrightarrow> timers w (task_id t) = Some p)"

definition timeouts_ok :: "('cb, 'z) TimerWheel_scheme \<Rightarrow> bool" where
  "timeouts_ok w \<longleftrightarrow>
     (\<forall>p t. tasks w p = Some t \<longrightarrow>
        1 \<le> unat (timeout t) \<and> unat (timeout t) \<le> wheel_capacity \<and> due w p \<le> unat (timeout t))"

lemma wheel_okD:
  assumes "wheel_ok w"
  shows "length (wheel w) = wheel_capacity" "tick w < wheel_capacity"
    "p \<in> refs w \<Longrightarrow> \<exists>t. tasks w p = Some t" "tasks w p = Some t \<Longrightarrow> p \<in> refs w"
    "p \<in> refs w \<Longrightarrow> p < next_task w"
    "timers w i = Some p \<Longrightarrow> \<exists>t. tasks w p = Some t \<and> task_id t = i"
    "tasks w p = Some t \<Longrightarrow> timers w (task_id t) = Some p"
  using assms by (auto simp: wheel_ok_def)

lemma wheel_ok_new: "wheel_ok TimerWheel_new" "timeouts_ok TimerWheel_new"
  by (auto simp: wheel_ok_def timeouts_ok_def TimerWheel_new_def refs_def wheel_capacity_def)

section \<open>Emptying a slot\<close>

text \<open>The tasks that go when a slot is emptied, in the order in which they go.\<close>

definition expiring :: "nat list list \<Rightarrow> nat \<Rightarrow> nat list" where
  "expiring ss k = filter (\<lambda>p. p \<notin> set (concat (ss[k := []]))) (remdups (ss ! k))"

lemma set_concat_update:
  "k < length ss \<Longrightarrow> set (concat (ss[k := xs])) = set xs \<union> set (concat (ss[k := []]))"
  by (auto simp: set_concat_nth nth_list_update simp del: set_concat split: if_splits)

lemma expiring_Cons:
  assumes "k < length ss" "ss ! k = p # ps"
  shows "expiring ss k = (if p \<in> set (concat (ss[k := ps])) then [] else [p]) @ expiring (ss[k := ps]) k"
  using assms by (auto simp: expiring_def set_concat_update [of k ss ps] simp del: set_concat)

lemma distinct_expiring [simp]: "distinct (expiring ss k)"
  by (simp add: expiring_def)

lemma set_expiring: "set (expiring ss k) = set (ss ! k) - set (concat (ss[k := []]))"
  by (auto simp: expiring_def)

definition after_clear ::
  "nat \<Rightarrow> ('cb, 'z) TimerWheel_scheme \<Rightarrow> 'z \<Rightarrow> ('cb, 'z) TimerWheel_scheme" where
  "after_clear k w z =
     \<lparr>tick = tick w, wheel = (wheel w)[k := []],
      timers = (\<lambda>i. if \<exists>p t. p \<in> set (expiring (wheel w) k) \<and> tasks w p = Some t \<and> task_id t = i
                    then None else timers w i),
      tasks = (\<lambda>p. if p \<in> set (expiring (wheel w) k) then None else tasks w p),
      next_task = next_task w, \<dots> = z\<rparr>"

definition calls :: "('cb, 'z) TimerWheel_scheme \<Rightarrow> nat list \<Rightarrow> 'cb list" where
  "calls w ps = concat (map (\<lambda>p. case tasks w p of
      Some t \<Rightarrow> (if cancelled t then [] else [task_cb t]) | None \<Rightarrow> []) ps)"

text \<open>
  The contract of a callback: run from the destructor of a registered task whose last pointer
  is gone, it leaves the wheel alone and acts on the rest of the state. The predicate
  \<open>labelled\<close> is what the owner of the callbacks guarantees of its tasks that were not
  cancelled; running one of them keeps it for the tasks with another id.
\<close>

locale timer_client =
  fixes exec :: "'cb \<Rightarrow> ('cb, 'z) TimerWheel_scheme \<Rightarrow> ('cb, 'z) TimerWheel_scheme res"
    and step :: "'cb \<Rightarrow> 'z \<Rightarrow> 'z" and labelled :: "'cb TimerTask \<Rightarrow> 'z \<Rightarrow> bool"
  assumes exec_frame: "labelled t (TimerWheel.more w) \<Longrightarrow> timers w (task_id t) = Some p \<Longrightarrow> p \<notin> refs w \<Longrightarrow>
      exec (task_cb t) w = Inr (TimerWheel.more_update (step (task_cb t)) w)"
    and step_keeps: "labelled t z \<Longrightarrow> labelled u z \<Longrightarrow> task_id t \<noteq> task_id u \<Longrightarrow>
      labelled u (step (task_cb t) z)"
begin

lemma destroy_ok:
  assumes "tasks w p = Some t" "\<not> cancelled t \<Longrightarrow> labelled t (TimerWheel.more w)"
    "timers w (task_id t) = Some p" "p \<notin> refs w"
  shows "TimerTask_destroy exec p w
    = Inr (w\<lparr>timers := (timers w)(task_id t := None), tasks := (tasks w)(p := None),
             TimerWheel.more := fold step (calls w [p]) (TimerWheel.more w)\<rparr>)"
  using assms exec_frame [OF assms(2) assms(3,4)]
  by (auto simp add: TimerTask_destroy_def TimerWheel_Remove_def calls_def)

lemma calls_cong: "(\<And>p. p \<in> set ps \<Longrightarrow> tasks w p = tasks w' p) \<Longrightarrow> calls w ps = calls w' ps"
  by (induction ps) (simp_all add: calls_def)

lemma calls_append: "calls w (ps @ qs) = calls w ps @ calls w qs"
  by (simp add: calls_def)

lemma slot_clear_ok:
  assumes "k < length (wheel w)" "wheel w ! k = ps"
    and "\<And>p. p \<in> refs w \<Longrightarrow> \<exists>t. tasks w p = Some t \<and> (\<not> cancelled t \<longrightarrow> labelled t (TimerWheel.more w)) \<and> timers w (task_id t) = Some p"
  shows "slot_clear exec k ps w
    = Inr (after_clear k w (fold step (calls w (expiring (wheel w) k)) (TimerWheel.more w)))"
  using assms
proof (induction ps arbitrary: w)
  case Nil
  then have "expiring (wheel w) k = []" "(wheel w)[k := []] = wheel w"
    by (auto simp: expiring_def list_update_same_conv)
  then show ?case by (simp add: after_clear_def calls_def)
next
  case (Cons p ps)
  let ?w1 = "w\<lparr>wheel := (wheel w)[k := ps]\<rparr>"
  let ?E = "expiring ((wheel w)[k := ps]) k"
  have sub: "refs ?w1 \<subseteq> refs w"
  proof -
    have "(wheel w)[k := p # ps] = wheel w"
      using Cons.prems(1,2) by (metis list_update_id)
    then have "refs w = set (p # ps) \<union> set (concat ((wheel w)[k := []]))"
      using set_concat_update [OF Cons.prems(1), of "p # ps"] by (simp only: refs_def)
    then show ?thesis
      using set_concat_update [OF Cons.prems(1), of ps] unfolding refs_def by auto
  qed
  show ?case
  proof (cases "p \<in> refs ?w1")
    case True
    have exp: "expiring (wheel w) k = ?E"
      using expiring_Cons [OF Cons.prems(1,2)] True by (simp add: refs_def)
    have "slot_clear exec k ps ?w1
      = Inr (after_clear k ?w1 (fold step (calls ?w1 ?E) (TimerWheel.more ?w1)))"
      using Cons.IH [of ?w1] Cons.prems sub by auto
    moreover have "calls ?w1 ?E = calls w ?E" by (rule calls_cong) simp
    ultimately show ?thesis
      using True by (simp add: use_count_0_iff Let_def after_clear_def exp cong: if_cong)
  next
    case False
    have exp: "expiring (wheel w) k = p # ?E"
      using expiring_Cons [OF Cons.prems(1,2)] False by (simp add: refs_def)
    have "p \<in> refs w"
      using Cons.prems(1,2) by (auto simp: refs_iff intro!: exI [of _ k])
    then obtain t where t: "tasks w p = Some t" "\<not> cancelled t \<Longrightarrow> labelled t (TimerWheel.more w)" "timers w (task_id t) = Some p"
      using Cons.prems(3) by blast
    let ?w2 = "?w1\<lparr>timers := (timers ?w1)(task_id t := None), tasks := (tasks ?w1)(p := None),
      TimerWheel.more := fold step (calls w [p]) (TimerWheel.more ?w1)\<rparr>"
    have c1: "calls ?w1 [p] = calls w [p]" by (rule calls_cong) simp
    have destroy: "TimerTask_destroy exec p ?w1 = Inr ?w2"
      using t False destroy_ok [of ?w1 p t] by (simp add: c1)
    have refs2: "refs ?w2 = refs ?w1" by (simp add: refs_def)
    have "\<exists>t. tasks ?w2 q = Some t \<and> (\<not> cancelled t \<longrightarrow> labelled t (TimerWheel.more ?w2))
        \<and> timers ?w2 (task_id t) = Some q"
      if q: "q \<in> refs ?w2" for q
    proof -
      from q sub refs2 Cons.prems(3) obtain t' where t':
        "tasks w q = Some t'" "\<not> cancelled t' \<Longrightarrow> labelled t' (TimerWheel.more w)" "timers w (task_id t') = Some q" by blast
      moreover have "q \<noteq> p" using q False refs2 by auto
      moreover from this have "task_id t \<noteq> task_id t'" using t t' by auto
      ultimately show ?thesis using t step_keeps [of t "TimerWheel.more w" t'] by (auto simp: calls_def)
    qed
    then have IH: "slot_clear exec k ps ?w2
      = Inr (after_clear k ?w2 (fold step (calls ?w2 ?E) (TimerWheel.more ?w2)))"
      using Cons.IH [of ?w2] Cons.prems by simp
    have notin: "p \<notin> set ?E"
      using distinct_expiring [of "wheel w" k] exp by simp
    then have c: "calls ?w2 ?E = calls w ?E" by (intro calls_cong) auto
    have c2: "calls w (p # ?E) = calls w [p] @ calls w ?E"
      using calls_append [of w "[p]" ?E] by simp
    have "after_clear k ?w2 (fold step (calls ?w2 ?E) (TimerWheel.more ?w2))
      = after_clear k w (fold step (calls w (p # ?E)) (TimerWheel.more w))"
      unfolding c c2 using notin t(1,3) by (auto simp: after_clear_def exp fun_eq_iff)
    with IH destroy False Cons.prems(1) show ?thesis
      by (simp add: use_count_0_iff Let_def exp)
  qed
qed

lemma RunTimerTask_ok:
  assumes ok: "wheel_ok w" and lab: "\<And>p t. tasks w p = Some t \<Longrightarrow> \<not> cancelled t \<Longrightarrow> labelled t (TimerWheel.more w)"
    and k: "k = (tick w + 1) mod wheel_capacity"
  shows "TimerWheel_RunTimerTask exec w
    = Inr (after_clear k (w\<lparr>tick := k\<rparr>)
        (fold step (calls w (expiring (wheel w) k)) (TimerWheel.more w)))"
proof -
  have k': "Suc (tick w) mod wheel_capacity = k" using k by simp
  have "k < length (wheel w)"
    using k wheel_okD(1) [OF ok] by (simp add: wheel_capacity_def)
  moreover have "\<exists>t. tasks w p = Some t \<and> (\<not> cancelled t \<longrightarrow> labelled t (TimerWheel.more w)) \<and> timers w (task_id t) = Some p"
    if "p \<in> refs w" for p
    using wheel_okD(3,7) [OF ok] lab that by blast
  moreover have "calls (w\<lparr>tick := k\<rparr>) ps = calls w ps" for ps
    by (rule calls_cong) simp
  ultimately show ?thesis
    using slot_clear_ok [of k "w\<lparr>tick := k\<rparr>" "wheel w ! k"]
    by (simp add: TimerWheel_RunTimerTask_def Let_def k' refs_def)
qed

end

section \<open>Alarms: what the wheel implements\<close>

record 'cb alarm =
  remaining :: nat
  period :: nat
  muted :: bool
  action :: 'cb

definition alarms :: "('cb, 'z) TimerWheel_scheme \<Rightarrow> u64 \<rightharpoonup> 'cb alarm" where
  "alarms w i = (case timers w i of
      None \<Rightarrow> None
    | Some p \<Rightarrow> map_option (\<lambda>t. \<lparr>remaining = due w p, period = unat (timeout t),
        muted = cancelled t, action = task_cb t\<rparr>) (tasks w p))"

lemma finite_slots_of [simp]: "finite (slots_of ss p)"
  by (simp add: slots_of_def)

lemma slots_of_empty_iff: "slots_of ss p = {} \<longleftrightarrow> p \<notin> set (concat ss)"
  by (auto simp: slots_of_def set_concat_nth simp del: set_concat)

lemma slots_of_nonempty: "p \<in> refs w \<longleftrightarrow> slots_of (wheel w) p \<noteq> {}"
  by (simp add: slots_of_empty_iff refs_def)

lemma slots_of_cleared: "slots_of (ss[k := []]) p = slots_of ss p - {k}"
  by (cases "k < length ss")
     (auto simp: slots_of_def nth_list_update list_update_beyond split: if_splits)

lemma expiring_iff_slots:
  assumes "k < length ss"
  shows "p \<in> set (expiring ss k) \<longleftrightarrow> slots_of ss p = {k}"
proof -
  have "p \<in> set (expiring ss k) \<longleftrightarrow> k \<in> slots_of ss p \<and> slots_of ss p - {k} = {}"
    using assms by (simp add: set_expiring slots_of_cleared [symmetric] slots_of_empty_iff)
      (simp add: slots_of_def)
  then show ?thesis by blast
qed

lemma slots_of_push:
  "k < length ss \<Longrightarrow> slots_of (ss[k := ss ! k @ [q]]) p = (if p = q then insert k (slots_of ss p) else slots_of ss p)"
  by (auto simp: slots_of_def nth_list_update split: if_splits)

text \<open>A tick brings every task one tick closer; a task at its last slot goes.\<close>

lemma due_tick:
  assumes ok: "wheel_ok w" and p: "p \<in> refs w" and k: "k = (tick w + 1) mod wheel_capacity"
  shows "due w p = 1 \<longleftrightarrow> p \<in> set (expiring (wheel w) k)"
    and "due w p \<noteq> 1 \<Longrightarrow> due (after_clear k (w\<lparr>tick := k\<rparr>) z) p = due w p - 1"
proof -
  let ?S = "slots_of (wheel w) p" and ?f = "ticks_to (tick w)" and ?g = "ticks_to k"
  note len = wheel_okD(1) [OF ok] and t = wheel_okD(2) [OF ok]
  have klt: "k < wheel_capacity" using k by (simp add: wheel_capacity_def)
  have S: "?S \<noteq> {}" "\<And>j. j \<in> ?S \<Longrightarrow> j < wheel_capacity"
    using p len by (auto simp: slots_of_nonempty) (auto simp: slots_of_def)
  have ge1: "1 \<le> ?f j" if "j \<in> ?S" for j using ticks_to_bounds [OF t] S that by blast
  have one: "?f j = 1 \<longleftrightarrow> j = k" if "j \<in> ?S" for j using ticks_to_next [OF t] S k that by blast
  show iff: "due w p = 1 \<longleftrightarrow> p \<in> set (expiring (wheel w) k)"
  proof
    assume "due w p = 1"
    then have "\<And>j. j \<in> ?S \<Longrightarrow> ?f j \<le> 1" by (metis Max_ge due_def finite_imageI finite_slots_of imageI)
    then have "\<And>j. j \<in> ?S \<Longrightarrow> j = k" using one ge1 by (metis le_antisym)
    with S(1) klt len show "p \<in> set (expiring (wheel w) k)" by (auto simp: expiring_iff_slots)
  next
    assume "p \<in> set (expiring (wheel w) k)"
    then have "?S = {k}" using klt len by (simp add: expiring_iff_slots)
    then show "due w p = 1" using one [of k] by (simp add: due_def)
  qed
  assume "due w p \<noteq> 1"
  then have "?S \<noteq> {k}" using iff klt len by (simp add: expiring_iff_slots)
  then have ne: "?S - {k} \<noteq> {}" using S(1) by blast
  have max: "Max (?f ` ?S) = Max (?f ` (?S - {k}))"
  proof (rule Max_eq_if)
    obtain j where j: "j \<in> ?S - {k}" using ne by blast
    have "\<exists>b \<in> ?f ` (?S - {k}). ?f i \<le> b" if i: "i \<in> ?S" for i
    proof (cases "i = k")
      case True
      with one [OF i] ge1 j show ?thesis by auto
    next
      case False
      with i show ?thesis by blast
    qed
    then show "\<forall>a \<in> ?f ` ?S. \<exists>b \<in> ?f ` (?S - {k}). a \<le> b" by blast
  qed auto
  have step: "?g j = ?f j - 1" if "j \<in> ?S - {k}" for j
    using ticks_to_step [OF t, of j] S(2) [of j] k that by blast
  have "due (after_clear k (w\<lparr>tick := k\<rparr>) z) p = Max (?g ` (?S - {k}))"
    by (simp add: due_def after_clear_def slots_of_cleared)
  also have "?g ` (?S - {k}) = (\<lambda>n. n - 1) ` ?f ` (?S - {k})"
    unfolding image_image using step by (rule image_cong [OF refl])
  also have "Max \<dots> = Max (?f ` (?S - {k})) - 1"
    using ne by (intro mono_Max_commute [symmetric]) (auto simp: mono_def diff_le_mono)
  finally show "due (after_clear k (w\<lparr>tick := k\<rparr>) z) p = due w p - 1"
    by (simp only: max due_def)
qed

lemma after_clear_sel [simp]:
  "tick (after_clear k w z) = tick w" "wheel (after_clear k w z) = (wheel w)[k := []]"
  "next_task (after_clear k w z) = next_task w" "TimerWheel.more (after_clear k w z) = z"
  "tasks (after_clear k w z) p = (if p \<in> set (expiring (wheel w) k) then None else tasks w p)"
  by (simp_all add: after_clear_def)

lemma timers_after_clear:
  assumes ok: "wheel_ok w"
  shows "timers (after_clear k (w\<lparr>tick := n\<rparr>) z) i
    = (case timers w i of None \<Rightarrow> None
       | Some p \<Rightarrow> if p \<in> set (expiring (wheel w) k) then None else Some p)"
proof -
  have "(\<exists>p t. p \<in> set (expiring (wheel w) k) \<and> tasks w p = Some t \<and> task_id t = i)
    \<longleftrightarrow> (\<exists>p \<in> set (expiring (wheel w) k). timers w i = Some p)"
    using wheel_okD(6,7) [OF ok] by fastforce
  then show ?thesis by (auto simp: after_clear_def split: option.splits)
qed

lemma refs_after_clear:
  assumes "k < length (wheel w)"
  shows "refs (after_clear k (w\<lparr>tick := n\<rparr>) z) = refs w - set (expiring (wheel w) k)"
  using assms by (auto simp: slots_of_nonempty slots_of_cleared expiring_iff_slots)

section \<open>Every operation keeps the invariant and acts on the alarms as specified\<close>

definition alarm_tick :: "(u64 \<rightharpoonup> 'cb alarm) \<Rightarrow> (u64 \<rightharpoonup> 'cb alarm)" where
  "alarm_tick m i = (case m i of None \<Rightarrow> None
     | Some a \<Rightarrow> if remaining a = 1 then None else Some (a\<lparr>remaining := remaining a - 1\<rparr>))"

lemma tick_refines:
  assumes ok: "wheel_ok w" and k: "k = (tick w + 1) mod wheel_capacity"
  shows "wheel_ok (after_clear k (w\<lparr>tick := k\<rparr>) z)" (is "wheel_ok ?w")
    and "alarms (after_clear k (w\<lparr>tick := k\<rparr>) z) = alarm_tick (alarms w)"
    and "timeouts_ok w \<Longrightarrow> timeouts_ok (after_clear k (w\<lparr>tick := k\<rparr>) z)"
proof -
  note d = wheel_okD [OF ok]
  have klt: "k < wheel_capacity" "k < length (wheel w)"
    using k d(1) by (simp_all add: wheel_capacity_def)
  have refs: "refs ?w = refs w - set (expiring (wheel w) k)"
    using klt(2) by (rule refs_after_clear)
  have timers: "timers ?w i = Some p \<longleftrightarrow> timers w i = Some p \<and> p \<notin> set (expiring (wheel w) k)" for i p
    by (auto simp: timers_after_clear [OF ok] split: option.splits)
  show "wheel_ok ?w"
    unfolding wheel_ok_def
  proof (intro conjI allI ballI impI)
    show "dom (tasks ?w) = refs ?w" unfolding refs using d(3,4) by (auto split: if_splits)
  qed (use klt d refs timers in \<open>auto split: if_splits\<close>)
  show "alarms ?w = alarm_tick (alarms w)"
  proof
    fix i
    show "alarms ?w i = alarm_tick (alarms w) i"
    proof (cases "timers w i")
      case None
      then have "timers ?w i = None" by (simp add: timers_after_clear [OF ok])
      with None show ?thesis by (simp add: alarms_def alarm_tick_def)
    next
      case (Some p)
      then obtain t where t: "tasks w p = Some t" using d(6) by blast
      then have p: "p \<in> refs w" by (rule d(4))
      show ?thesis
      proof (cases "p \<in> set (expiring (wheel w) k)")
        case True
        with Some have "timers ?w i = None" by (simp add: timers_after_clear [OF ok])
        with True Some t due_tick(1) [OF ok p k] show ?thesis by (simp add: alarms_def alarm_tick_def)
      next
        case False
        with Some have "timers ?w i = Some p" by (simp add: timers_after_clear [OF ok])
        with False Some t due_tick [OF ok p k] show ?thesis
          by (simp add: alarms_def alarm_tick_def)
      qed
    qed
  qed
  show "timeouts_ok ?w" if to: "timeouts_ok w"
    unfolding timeouts_ok_def
  proof (intro allI impI)
    fix p t assume a: "tasks ?w p = Some t"
    then have p: "tasks w p = Some t" "p \<notin> set (expiring (wheel w) k)" by (auto split: if_splits)
    then have "due ?w p = due w p - 1"
      using due_tick [OF ok d(4) k] by blast
    with to p show "1 \<le> unat (timeout t) \<and> unat (timeout t) \<le> wheel_capacity \<and> due ?w p \<le> unat (timeout t)"
      by (auto simp: timeouts_ok_def intro: le_trans [OF diff_le_self])
  qed
qed

lemma due_push:
  assumes "length (wheel w) = wheel_capacity" "pos < wheel_capacity" "wheel w' = (wheel w)[pos := wheel w ! pos @ [q]]"
    "tick w' = tick w"
  shows "p \<noteq> q \<Longrightarrow> due w' p = due w p"
    and "q \<in> refs w \<Longrightarrow> due w' q = max (ticks_to (tick w) pos) (due w q)"
    and "q \<notin> refs w \<Longrightarrow> due w' q = ticks_to (tick w) pos"
  using assms by (simp_all add: due_def slots_of_push slots_of_nonempty)

lemma refs_push:
  assumes "pos < length (wheel w)" "wheel w' = (wheel w)[pos := wheel w ! pos @ [q]]"
  shows "refs w' = insert q (refs w)"
  using assms by (auto simp: slots_of_nonempty slots_of_push split: if_splits)

lemma unat_tick_plus:
  assumes "n < wheel_capacity" "unat t + wheel_capacity < 2 ^ 32"
  shows "unat (of_nat n + t :: u32) = n + unat t"
proof -
  have "unat (of_nat n :: u32) = n"
    using assms(1) by (simp add: unat_of_nat take_bit_nat_eq_self wheel_capacity_def)
  with assms show ?thesis by (simp add: unat_word_ariths)
qed

lemma add_refines:
  assumes ok: "wheel_ok w" and fresh: "\<not> TimerWheel_HasTimer i w"
    and bound: "unat t + wheel_capacity < 2 ^ 32"
  shows "wheel_ok (TimerWheel_TimerAddInLoop i t cb w)" (is "wheel_ok ?w")
    and "alarms (TimerWheel_TimerAddInLoop i t cb w) = (alarms w)(i \<mapsto>
      \<lparr>remaining = (unat t + 59) mod 60 + 1, period = unat t, muted = False, action = cb\<rparr>)"
    and "timeouts_ok w \<Longrightarrow> 1 \<le> unat t \<Longrightarrow> unat t \<le> wheel_capacity \<Longrightarrow>
      timeouts_ok (TimerWheel_TimerAddInLoop i t cb w)"
proof -
  note d = wheel_okD [OF ok]
  let ?q = "next_task w" and ?pos = "(tick w + unat t) mod wheel_capacity"
  have q: "?q \<notin> refs w" "tasks w ?q = None" using d(3-5) by (blast, meson d(4,5) less_irrefl not_Some_eq)
  have pos: "?pos < wheel_capacity" by (simp add: wheel_capacity_def)
  have w: "wheel ?w = (wheel w)[?pos := wheel w ! ?pos @ [?q]]" "tick ?w = tick w"
    "tasks ?w = (tasks w)(?q \<mapsto> \<lparr>task_id = i, timeout = t, task_cb = cb, cancelled = False\<rparr>)"
    "next_task ?w = Suc ?q" "timers ?w = (timers w)(i \<mapsto> ?q)"
    using unat_tick_plus [OF d(2) bound]
    by (simp_all add: TimerWheel_TimerAddInLoop_def Let_def slot_push_def)
  have refs: "refs ?w = insert ?q (refs w)" using refs_push [OF _ w(1)] pos d(1) by simp
  have timers: "timers w i = None" using fresh by (simp add: TimerWheel_HasTimer_def)
  note due = due_push [OF d(1) pos w(1,2)]
  show "wheel_ok ?w"
    unfolding wheel_ok_def refs
  proof (intro conjI allI ballI impI)
    show "dom (tasks ?w) = insert ?q (refs w)" using d(3,4) by (auto simp: w)
    fix p u assume "tasks ?w p = Some u"
    then show "timers ?w (task_id u) = Some p" using d(7) timers by (fastforce simp: w split: if_splits)
  next
    fix j p assume "timers ?w j = Some p"
    then show "\<exists>u. tasks ?w p = Some u \<and> task_id u = j"
      using d(6) q by (fastforce simp: w split: if_splits)
  qed (use d w in \<open>auto simp: less_Suc_eq\<close>)
  show "alarms ?w = (alarms w)(i \<mapsto>
      \<lparr>remaining = (unat t + 59) mod 60 + 1, period = unat t, muted = False, action = cb\<rparr>)"
  proof
    fix j
    show "alarms ?w j = ((alarms w)(i \<mapsto> \<lparr>remaining = (unat t + 59) mod 60 + 1, period = unat t,
        muted = False, action = cb\<rparr>)) j"
    proof (cases "j = i")
      case True
      then show ?thesis using due(3) q ticks_to_pos [OF d(2)] by (simp add: alarms_def w)
    next
      case False
      have "p \<noteq> ?q" if "timers w j = Some p" for p using d(6) that q by fastforce
      with False due(1) show ?thesis by (auto simp: alarms_def w split: option.splits)
    qed
  qed
  assume to: "timeouts_ok w" and t: "1 \<le> unat t" "unat t \<le> wheel_capacity"
  have "(unat t + 59) mod 60 + 1 = unat t"
    using t by (cases "unat t") (auto simp: wheel_capacity_def mod_if)
  then have "due ?w ?q = unat t" using due(3) q ticks_to_pos [OF d(2)] by simp
  with to t due(1) show "timeouts_ok ?w" by (auto simp: timeouts_ok_def w split: if_splits)
qed

lemma sint_small:
  assumes "unat t \<le> wheel_capacity"
  shows "sint (t :: u32) = int (unat t)"
proof -
  have "int (unat t) \<le> int wheel_capacity" using assms by (rule of_nat_mono)
  then have "uint t < 2 ^ 31" by (simp add: wheel_capacity_def)
  moreover have "- (2 ^ 31) \<le> uint t" by (rule order_trans [of _ 0]) simp_all
  ultimately have "- (2 ^ 31) \<le> uint t" "uint t < 2 ^ 31" by blast+
  then have "signed_take_bit 31 (uint t) = uint t" by (rule signed_take_bit_int_eq_self)
  then show ?thesis by (simp add: sint_uint)
qed

lemma refresh_refines:
  assumes ok: "wheel_ok w" and to: "timeouts_ok w"
  obtains w' where "TimerWheel_TimerRefreshInLoop i w = Inr w'" "wheel_ok w'" "timeouts_ok w'"
    "alarms w' = (case alarms w i of None \<Rightarrow> alarms w | Some a \<Rightarrow> (alarms w)(i \<mapsto> a\<lparr>remaining := period a\<rparr>))"
    "TimerWheel.more w' = TimerWheel.more w"
proof (cases "timers w i")
  case None
  with ok to that show ?thesis by (simp add: TimerWheel_TimerRefreshInLoop_def alarms_def)
next
  case (Some p)
  note d = wheel_okD [OF ok]
  obtain t where t: "tasks w p = Some t" "task_id t = i" using d(6) [OF Some] by blast
  then have p: "p \<in> refs w" using d(4) by blast
  have tt: "1 \<le> unat (timeout t)" "unat (timeout t) \<le> wheel_capacity" "due w p \<le> unat (timeout t)"
    using to t by (auto simp: timeouts_ok_def)
  let ?pos = "(tick w + unat (timeout t)) mod wheel_capacity"
  let ?w = "slot_push ?pos p w"
  have pos: "?pos < wheel_capacity" by (simp add: wheel_capacity_def)
  have "int (tick w) + sint (timeout t) = int (tick w + unat (timeout t))"
    using sint_small [OF tt(2)] by simp
  moreover have "tick w + unat (timeout t) < 120"
    using d(2) tt(2) by (simp add: wheel_capacity_def)
  ultimately have run: "TimerWheel_TimerRefreshInLoop i w = Inr ?w"
    using Some t p by (simp add: TimerWheel_TimerRefreshInLoop_def weak_lock_def use_count_0_iff
        Let_def zmod_int [symmetric] nat_int del: of_nat_add)
  have w: "wheel ?w = (wheel w)[?pos := wheel w ! ?pos @ [p]]" "tick ?w = tick w"
    "tasks ?w = tasks w" "next_task ?w = next_task w" "timers ?w = timers w"
    "TimerWheel.more ?w = TimerWheel.more w"
    by (simp_all add: slot_push_def)
  have refs: "refs ?w = refs w" using refs_push [OF _ w(1)] pos d(1) p by auto
  note due = due_push [OF d(1) pos w(1,2)]
  have "(unat (timeout t) + 59) mod 60 + 1 = unat (timeout t)"
    using tt by (cases "unat (timeout t)") (auto simp: wheel_capacity_def mod_if)
  then have dueq: "due ?w p = unat (timeout t)"
    using due(2) [OF p] tt(3) ticks_to_pos [OF d(2)] by simp
  have "wheel_ok ?w" using ok by (simp add: wheel_ok_def w refs)
  moreover have "timeouts_ok ?w"
    unfolding timeouts_ok_def
  proof (intro allI impI)
    fix q u assume "tasks ?w q = Some u"
    then show "1 \<le> unat (timeout u) \<and> unat (timeout u) \<le> wheel_capacity \<and> due ?w q \<le> unat (timeout u)"
      using to t dueq due(1) [of q] by (cases "q = p") (auto simp: timeouts_ok_def w)
  qed
  moreover have "alarms ?w = (alarms w)(i \<mapsto> (the (alarms w i))\<lparr>remaining := unat (timeout t)\<rparr>)"
  proof
    fix j
    show "alarms ?w j = ((alarms w)(i \<mapsto> (the (alarms w i))\<lparr>remaining := unat (timeout t)\<rparr>)) j"
    proof (cases "j = i")
      case True
      then show ?thesis using Some t dueq by (simp add: alarms_def w)
    next
      case False
      have "q \<noteq> p" if "timers w j = Some q" for q using d(6) [OF that] t False by auto
      with False due(1) show ?thesis by (auto simp: alarms_def w split: option.splits)
    qed
  qed
  ultimately show ?thesis using that run w(6) Some t by (simp add: alarms_def)
qed

lemma cancel_refines:
  assumes ok: "wheel_ok w"
  obtains w' where "TimerWheel_TimerCancelInLoop i w = Inr w'" "wheel_ok w'"
    "timeouts_ok w \<Longrightarrow> timeouts_ok w'"
    "alarms w' = (case alarms w i of None \<Rightarrow> alarms w | Some a \<Rightarrow> (alarms w)(i \<mapsto> a\<lparr>muted := True\<rparr>))"
    "TimerWheel.more w' = TimerWheel.more w"
proof (cases "timers w i")
  case None
  with ok that show ?thesis by (simp add: TimerWheel_TimerCancelInLoop_def alarms_def)
next
  case (Some p)
  note d = wheel_okD [OF ok]
  obtain t where t: "tasks w p = Some t" "task_id t = i" using d(6) [OF Some] by blast
  then have p: "p \<in> refs w" using d(4) by blast
  let ?w = "w\<lparr>tasks := (tasks w)(p \<mapsto> t\<lparr>cancelled := True\<rparr>)\<rparr>"
  have run: "TimerWheel_TimerCancelInLoop i w = Inr ?w"
    using Some t p by (simp add: TimerWheel_TimerCancelInLoop_def weak_lock_def use_count_0_iff)
  have due: "due ?w q = due w q" for q by (simp add: due_def)
  have "refs ?w = refs w" by (simp add: refs_def)
  then have "wheel_ok ?w"
    using ok t p d(6) unfolding wheel_ok_def by (auto simp: dom_def) (metis option.inject)
  moreover have "timeouts_ok w \<Longrightarrow> timeouts_ok ?w"
    using t by (auto simp: timeouts_ok_def due)
  moreover have "alarms ?w = (alarms w)(i \<mapsto> (the (alarms w i))\<lparr>muted := True\<rparr>)"
  proof
    fix j
    show "alarms ?w j = ((alarms w)(i \<mapsto> (the (alarms w i))\<lparr>muted := True\<rparr>)) j"
    proof (cases "j = i")
      case True
      then show ?thesis using Some t by (simp add: alarms_def due)
    next
      case False
      have "q \<noteq> p" if "timers w j = Some q" for q using d(6) [OF that] t False by auto
      with False show ?thesis by (auto simp: alarms_def due split: option.splits)
    qed
  qed
  ultimately show ?thesis using that run Some t by (simp add: alarms_def)
qed

section \<open>Runs of the wheel with logged callbacks\<close>

text \<open>A callback that only records that it was called; the log is the rest of the state.\<close>

definition log_exec :: "'cb \<Rightarrow> ('cb, 'cb list) TimerWheel_scheme \<Rightarrow> ('cb, 'cb list) TimerWheel_scheme res" where
  "log_exec cb w = Inr (TimerWheel.more_update (\<lambda>l. l @ [cb]) w)"

interpretation timer_log: timer_client log_exec "\<lambda>cb l. l @ [cb]" "\<lambda>_ _. True"
  by unfold_locales (simp add: log_exec_def)

lemma fold_log: "fold (\<lambda>cb l. l @ [cb]) cbs l = l @ cbs"
  by (induction cbs arbitrary: l) simp_all

datatype 'cb timer_op = Tick | Add u64 u32 'cb | Refresh u64 | Cancel u64

fun timer_step :: "'cb timer_op \<Rightarrow> ('cb, 'cb list) TimerWheel_scheme \<Rightarrow> ('cb, 'cb list) TimerWheel_scheme res" where
  "timer_step Tick w = TimerWheel_OnTime log_exec (Some 1) w"
| "timer_step (Add i t cb) w = Inr (TimerWheel_TimerAddInLoop i t cb w)"
| "timer_step (Refresh i) w = TimerWheel_TimerRefreshInLoop i w"
| "timer_step (Cancel i) w = TimerWheel_TimerCancelInLoop i w"

text \<open>
  The specification: a finite collection of alarms. A tick calls each unmuted alarm with one
  tick remaining exactly once and removes every alarm with one tick remaining; setting and
  refreshing an alarm give it its full period; cancelling mutes it.
\<close>

inductive alarm_step :: "(u64 \<rightharpoonup> 'cb alarm) \<Rightarrow> 'cb timer_op \<Rightarrow> (u64 \<rightharpoonup> 'cb alarm) \<Rightarrow> 'cb list \<Rightarrow> bool" where
  tick: "distinct ids \<Longrightarrow> set ids = {i. \<exists>a. m i = Some a \<and> remaining a = 1 \<and> \<not> muted a} \<Longrightarrow>
    alarm_step m Tick (alarm_tick m) (map (\<lambda>i. action (the (m i))) ids)"
| add: "m i = None \<Longrightarrow>
    alarm_step m (Add i t cb)
      (m(i \<mapsto> \<lparr>remaining = unat t, period = unat t, muted = False, action = cb\<rparr>)) []"
| refresh: "alarm_step m (Refresh i)
    (case m i of None \<Rightarrow> m | Some a \<Rightarrow> m(i \<mapsto> a\<lparr>remaining := period a\<rparr>)) []"
| cancel: "alarm_step m (Cancel i)
    (case m i of None \<Rightarrow> m | Some a \<Rightarrow> m(i \<mapsto> a\<lparr>muted := True\<rparr>)) []"

inductive_cases alarm_step_tickE: "alarm_step m Tick m' fs"

definition op_ok :: "(u64 \<rightharpoonup> 'cb alarm) \<Rightarrow> 'cb timer_op \<Rightarrow> bool" where
  "op_ok m a = (case a of Add i t cb \<Rightarrow> m i = None \<and> 1 \<le> unat t \<and> unat t \<le> wheel_capacity | _ \<Rightarrow> True)"

lemma alarms_None_iff: "wheel_ok w \<Longrightarrow> alarms w i = None \<longleftrightarrow> \<not> TimerWheel_HasTimer i w"
  by (auto simp: alarms_def TimerWheel_HasTimer_def dest!: wheel_okD(6) split: option.splits)

lemma calls_expiring:
  assumes ok: "wheel_ok w" and k: "k = (tick w + 1) mod wheel_capacity"
  obtains ids where "distinct ids" "set ids = {i. \<exists>a. alarms w i = Some a \<and> remaining a = 1 \<and> \<not> muted a}"
    "calls w (expiring (wheel w) k) = map (\<lambda>i. action (the (alarms w i))) ids"
proof -
  note d = wheel_okD [OF ok]
  let ?E = "expiring (wheel w) k"
  let ?live = "filter (\<lambda>p. \<not> cancelled (the (tasks w p))) ?E"
  let ?ids = "map (\<lambda>p. task_id (the (tasks w p))) ?live"
  have klt: "k < length (wheel w)" using k d(1) by (simp add: wheel_capacity_def)
  have E: "\<exists>t. tasks w p = Some t \<and> due w p = 1 \<and> timers w (task_id t) = Some p" if "p \<in> set ?E" for p
  proof -
    have "p \<in> refs w" using that klt by (auto simp: slots_of_nonempty expiring_iff_slots)
    with d(3,7) due_tick(1) [OF ok _ k] that show ?thesis by blast
  qed
  have "inj_on (\<lambda>p. task_id (the (tasks w p))) (set ?E)"
    by (rule inj_onI) (metis E option.sel)
  then have "distinct ?ids" by (auto simp: distinct_map intro: inj_on_subset)
  moreover have "set ?ids = {i. \<exists>a. alarms w i = Some a \<and> remaining a = 1 \<and> \<not> muted a}"
  proof (intro set_eqI iffI)
    fix i assume "i \<in> set ?ids"
    then obtain p where "p \<in> set ?E" "\<not> cancelled (the (tasks w p))" "i = task_id (the (tasks w p))" by auto
    with E [of p] show "i \<in> {i. \<exists>a. alarms w i = Some a \<and> remaining a = 1 \<and> \<not> muted a}"
      by (auto simp: alarms_def)
  next
    fix i assume "i \<in> {i. \<exists>a. alarms w i = Some a \<and> remaining a = 1 \<and> \<not> muted a}"
    then obtain p t where "timers w i = Some p" "tasks w p = Some t" "due w p = 1" "\<not> cancelled t"
      by (auto simp: alarms_def split: option.splits)
    moreover from this have "p \<in> set ?E" "task_id t = i"
      using due_tick(1) [OF ok d(4) k] d(6) by (blast, fastforce)
    ultimately show "i \<in> set ?ids" by force
  qed
  moreover have "calls w ps = map (\<lambda>i. action (the (alarms w i)))
      (map (\<lambda>p. task_id (the (tasks w p))) (filter (\<lambda>p. \<not> cancelled (the (tasks w p))) ps))"
    if "set ps \<subseteq> set ?E" for ps
    using that
  proof (induction ps)
    case (Cons p ps)
    then show ?case using E [of p] by (auto simp: calls_def alarms_def)
  qed (simp add: calls_def)
  ultimately show ?thesis using that by blast
qed

lemma timer_tick_ok:
  assumes ok: "wheel_ok w"
  obtains w' fs where "timer_step Tick w = Inr w'" "wheel_ok w'" "timeouts_ok w \<Longrightarrow> timeouts_ok w'"
    "TimerWheel.more w' = TimerWheel.more w @ fs" "alarm_step (alarms w) Tick (alarms w') fs"
    "alarms w' = alarm_tick (alarms w)"
proof -
  define k where "k = (tick w + 1) mod wheel_capacity"
  let ?w = "after_clear k (w\<lparr>tick := k\<rparr>)
    (fold (\<lambda>cb l. l @ [cb]) (calls w (expiring (wheel w) k)) (TimerWheel.more w))"
  have run: "timer_step Tick w = Inr ?w"
    using timer_log.RunTimerTask_ok [OF ok _ k_def] by (simp add: TimerWheel_OnTime_def)
  obtain ids where ids: "distinct ids"
    "set ids = {i. \<exists>a. alarms w i = Some a \<and> remaining a = 1 \<and> \<not> muted a}"
    "calls w (expiring (wheel w) k) = map (\<lambda>i. action (the (alarms w i))) ids"
    using calls_expiring [OF ok k_def] .
  have "alarm_step (alarms w) Tick (alarms ?w) (calls w (expiring (wheel w) k))"
    unfolding tick_refines(2) [OF ok k_def] ids(3) using ids(1,2) by (rule alarm_step.tick)
  with that [OF run] tick_refines [OF ok k_def] show ?thesis by (simp add: fold_log)
qed

fun timer_ticks :: "nat \<Rightarrow> ('cb, 'cb list) TimerWheel_scheme \<Rightarrow> ('cb, 'cb list) TimerWheel_scheme res" where
  "timer_ticks 0 w = Inr w"
| "timer_ticks (Suc n) w = bind_res (timer_ticks n w) (timer_step Tick)"

lemma timer_ticks_ok:
  assumes "wheel_ok w" "alarms w i = Some a" "n < remaining a"
  shows "\<exists>w'. timer_ticks n w = Inr w' \<and> wheel_ok w' \<and> alarms w' i = Some (a\<lparr>remaining := remaining a - n\<rparr>)"
  using assms(3)
proof (induction n)
  case 0
  with assms show ?case by simp
next
  case (Suc n)
  then obtain w1 where w1: "timer_ticks n w = Inr w1" "wheel_ok w1"
    "alarms w1 i = Some (a\<lparr>remaining := remaining a - n\<rparr>)" by auto
  obtain w2 where "timer_step Tick w1 = Inr w2" "wheel_ok w2" "alarms w2 = alarm_tick (alarms w1)"
    using timer_tick_ok [OF w1(2)] by metis
  with w1 Suc.prems show ?case by (simp add: alarm_tick_def del: timer_step.simps)
qed

lemma wrap_60: "(n + 59) mod 60 + 1 = (if n mod 60 = 0 then 60 else n mod (60 :: nat))"
proof -
  have "(n + 59) mod 60 = (n mod 60 + 59) mod 60" by (simp only: mod_add_left_eq)
  moreover have "n mod 60 < 60" by simp
  ultimately show ?thesis
    by (cases "n mod 60") (simp_all only: add_Suc add_Suc_right [symmetric], simp_all)
qed

section \<open>Properties\<close>

text \<open>
  C11. The timer wheel implements alarms, as long as it is used as intended: from a state with
  consistent registry and timeouts between 1 and 60, a tick, a refresh, a cancellation, and the
  setting of a timer under an id that has none pending and with a timeout between 1 and 60 (the
  code checks neither) all succeed, keep the invariant, and change the pending alarms and call the callbacks exactly
  as the specification \<open>alarm_step\<close> says: at a tick every alarm with one tick left is
  removed, its callback is called once unless it was cancelled, and no other callback is
  called; a refresh gives the full timeout again.
\<close>

theorem TimerWheel_implements_alarms:
  assumes "wheel_ok w" "timeouts_ok w" "op_ok (alarms w) a"
  shows "\<exists>w' fs. timer_step a w = Inr w' \<and> wheel_ok w' \<and> timeouts_ok w'
    \<and> TimerWheel.more w' = TimerWheel.more w @ fs \<and> alarm_step (alarms w) a (alarms w') fs"
proof (cases a)
  case Tick
  with timer_tick_ok [OF assms(1)] assms(2) show ?thesis by (metis (no_types, lifting))
next
  case (Add i t cb)
  with assms(3) have a: "alarms w i = None" "1 \<le> unat t" "unat t \<le> wheel_capacity"
    by (simp_all add: op_ok_def)
  then have fresh: "\<not> TimerWheel_HasTimer i w" using alarms_None_iff [OF assms(1)] by simp
  have bound: "unat t + wheel_capacity < 2 ^ 32" using a(3) by (simp add: wheel_capacity_def)
  note add = add_refines [OF assms(1) fresh bound, of cb]
  have "(unat t + 59) mod 60 + 1 = unat t"
    using a by (cases "unat t") (auto simp: wheel_capacity_def mod_if)
  with add(2) alarm_step.add [of "alarms w" i t cb] a(1) Add
  have "alarm_step (alarms w) a (alarms (TimerWheel_TimerAddInLoop i t cb w)) []" by simp
  moreover have "TimerWheel.more (TimerWheel_TimerAddInLoop i t cb w) = TimerWheel.more w @ []"
    by (simp add: TimerWheel_TimerAddInLoop_def Let_def slot_push_def)
  ultimately show ?thesis using add(1) add(3) [OF assms(2) a(2,3)] Add by (metis timer_step.simps(2))
next
  case (Refresh i)
  obtain w' where w': "TimerWheel_TimerRefreshInLoop i w = Inr w'" "wheel_ok w'" "timeouts_ok w'"
    "alarms w' = (case alarms w i of None \<Rightarrow> alarms w | Some a \<Rightarrow> (alarms w)(i \<mapsto> a\<lparr>remaining := period a\<rparr>))"
    "TimerWheel.more w' = TimerWheel.more w"
    by (rule refresh_refines [OF assms(1,2), of i])
  have "alarm_step (alarms w) a (alarms w') []"
    unfolding w'(4) Refresh by (rule alarm_step.refresh)
  then show ?thesis using w' Refresh by (intro exI [of _ w'] exI [of _ "[]"]) simp
next
  case (Cancel i)
  obtain w' where w': "TimerWheel_TimerCancelInLoop i w = Inr w'" "wheel_ok w'" "timeouts_ok w'"
    "alarms w' = (case alarms w i of None \<Rightarrow> alarms w | Some a \<Rightarrow> (alarms w)(i \<mapsto> a\<lparr>muted := True\<rparr>))"
    "TimerWheel.more w' = TimerWheel.more w"
    by (rule cancel_refines [OF assms(1), of i]) (use assms(2) in blast)
  have "alarm_step (alarms w) a (alarms w') []"
    unfolding w'(4) Cancel by (rule alarm_step.cancel)
  then show ?thesis using w' Cancel by (intro exI [of _ w'] exI [of _ "[]"]) simp
qed

definition logged :: "'cb TimerWheel \<Rightarrow> ('cb, 'cb list) TimerWheel_scheme" where
  "logged w = TimerWheel.extend w []"

lemma logged_new_ok: "wheel_ok (logged TimerWheel_new)" "timeouts_ok (logged TimerWheel_new)"
  "alarms (logged TimerWheel_new) i = None"
  by (auto simp: wheel_ok_def timeouts_ok_def logged_def TimerWheel_new_def TimerWheel.defs
      refs_def alarms_def wheel_capacity_def)

theorem TimerWheel_implements_alarms_witness:
  "\<exists>w' fs. timer_step (Add 7 10 CHR ''x'') (logged TimerWheel_new) = Inr w' \<and> wheel_ok w' \<and> timeouts_ok w'
    \<and> TimerWheel.more w' = TimerWheel.more (logged TimerWheel_new) @ fs
    \<and> alarm_step (alarms (logged TimerWheel_new)) (Add 7 10 CHR ''x'') (alarms w') fs"
proof -
  have "op_ok (alarms (logged TimerWheel_new)) (Add 7 10 CHR ''x'')"
    by (simp add: op_ok_def logged_new_ok wheel_capacity_def)
  then show ?thesis by (rule TimerWheel_implements_alarms [OF logged_new_ok(1,2)])
qed

text \<open>
  C19. A pending timer that was not cancelled runs exactly on time: through every earlier tick
  it stays pending with one tick less, and at the tick its remaining count reaches, its
  callback is called and it is gone from the registry.
\<close>

theorem timer_runs_on_time:
  assumes "wheel_ok w" "alarms w i = Some a" "remaining a = Suc n" "\<not> muted a"
  shows "(\<forall>j \<le> n. \<exists>w1. timer_ticks j w = Inr w1 \<and> alarms w1 i = Some (a\<lparr>remaining := Suc n - j\<rparr>))
    \<and> (\<exists>w1 w2 fs. timer_ticks n w = Inr w1 \<and> timer_ticks (Suc n) w = Inr w2
        \<and> TimerWheel.more w2 = TimerWheel.more w1 @ fs \<and> action a \<in> set fs
        \<and> \<not> TimerWheel_HasTimer i w2)"
proof (intro conjI allI impI)
  fix j assume "j \<le> n"
  then show "\<exists>w1. timer_ticks j w = Inr w1 \<and> alarms w1 i = Some (a\<lparr>remaining := Suc n - j\<rparr>)"
    using timer_ticks_ok [OF assms(1,2), of j] assms(3) by auto
next
  obtain w1 where w1: "timer_ticks n w = Inr w1" "wheel_ok w1" "alarms w1 i = Some (a\<lparr>remaining := 1\<rparr>)"
    using timer_ticks_ok [OF assms(1,2), of n] assms(3) by auto
  obtain w2 fs where w2: "timer_step Tick w1 = Inr w2" "wheel_ok w2"
    "TimerWheel.more w2 = TimerWheel.more w1 @ fs" "alarm_step (alarms w1) Tick (alarms w2) fs"
    "alarms w2 = alarm_tick (alarms w1)"
    using timer_tick_ok [OF w1(2)] by metis
  have "action a \<in> set fs"
    using w2(4) by (rule alarm_step_tickE) (use w1(3) assms(4) in force)
  moreover have "\<not> TimerWheel_HasTimer i w2"
    using alarms_None_iff [OF w2(2), of i] w2(5) w1(3) by (simp add: alarm_tick_def)
  ultimately show "\<exists>w1 w2 fs. timer_ticks n w = Inr w1 \<and> timer_ticks (Suc n) w = Inr w2
        \<and> TimerWheel.more w2 = TimerWheel.more w1 @ fs \<and> action a \<in> set fs
        \<and> \<not> TimerWheel_HasTimer i w2"
    using w1 w2 by (auto simp del: timer_step.simps)
qed

text \<open>
  The delay the wheel gives a new timer: a timeout from 1 to 60 is kept, any other timeout
  is reduced into that range, so a timeout of 0 waits 60 ticks and one of 61 a single tick.
\<close>

theorem TimerAdd_delay:
  assumes "wheel_ok w" "\<not> TimerWheel_HasTimer i w" "unat t + wheel_capacity < 2 ^ 32"
  shows "\<exists>a. alarms (TimerWheel_TimerAddInLoop i t cb w) i = Some a \<and> action a = cb
    \<and> remaining a = (if unat t mod 60 = 0 then 60 else unat t mod 60)"
  using add_refines(2) [OF assms, of cb] wrap_60 [of "unat t"] by simp

theorem TimerAdd_delay_witness:
  "\<exists>a. alarms (TimerWheel_TimerAddInLoop 7 61 CHR ''x'' (logged TimerWheel_new)) 7 = Some a
    \<and> action a = CHR ''x'' \<and> remaining a = 1"
proof -
  have "\<not> TimerWheel_HasTimer 7 (logged TimerWheel_new :: (char, char list) TimerWheel_scheme)"
    using alarms_None_iff [OF logged_new_ok(1)] logged_new_ok(3) by blast
  moreover have "unat (61 :: u32) + wheel_capacity < 2 ^ 32" by (simp add: wheel_capacity_def)
  ultimately show ?thesis
    using TimerAdd_delay [OF logged_new_ok(1), of 7 61 "CHR ''x''"] by simp
qed

theorem timer_runs_on_time_witness:
  "\<exists>w1 w2 fs. timer_ticks 1 (TimerWheel_TimerAddInLoop 7 2 CHR ''x'' (logged TimerWheel_new)) = Inr w1
    \<and> timer_ticks 2 (TimerWheel_TimerAddInLoop 7 2 CHR ''x'' (logged TimerWheel_new)) = Inr w2
    \<and> TimerWheel.more w2 = TimerWheel.more w1 @ fs \<and> CHR ''x'' \<in> set fs \<and> \<not> TimerWheel_HasTimer 7 w2"
proof -
  let ?w = "TimerWheel_TimerAddInLoop 7 2 CHR ''x'' (logged TimerWheel_new)"
  have fresh: "\<not> TimerWheel_HasTimer 7 (logged TimerWheel_new :: (char, char list) TimerWheel_scheme)"
    using alarms_None_iff [OF logged_new_ok(1)] logged_new_ok(3) by blast
  have bound: "unat (2 :: u32) + wheel_capacity < 2 ^ 32" by (simp add: wheel_capacity_def)
  note add = add_refines [OF logged_new_ok(1) fresh bound, of "CHR ''x''"]
  have "alarms ?w 7 = Some \<lparr>remaining = Suc 1, period = 2, muted = False, action = CHR ''x''\<rparr>"
    using add(2) by simp
  from timer_runs_on_time [OF add(1) this] show ?thesis by (auto simp: numeral_2_eq_2)
qed

definition readded :: "(char, char list) TimerWheel_scheme" where
  "readded = TimerWheel_TimerAddInLoop 7 2 CHR ''b'' (TimerWheel_TimerAddInLoop 7 1 CHR ''a'' (logged TimerWheel_new))"

text \<open>
  Setting a timer under an id that is still pending loses the newer one's registration:
  after timer 7 is set for one tick and again for two, the first expiry removes the registry
  entry of the second, which can then be neither refreshed nor cancelled and still runs at
  the second tick.
\<close>

theorem TimerAdd_again_orphans:
  "(case timer_ticks 1 readded of Inl _ \<Rightarrow> False | Inr w1 \<Rightarrow>
      TimerWheel.more w1 = ''a'' \<and> \<not> TimerWheel_HasTimer 7 w1
      \<and> (case bind_res (timer_step (Cancel 7) w1) (timer_step Tick) of
           Inl _ \<Rightarrow> False | Inr w2 \<Rightarrow> TimerWheel.more w2 = ''ab''))"
  by code_simp

end
