(* ===== verification/Reactor_Server.thy ===== *)
theory Reactor_Server
  imports Reactor_Buffer Reactor_Timer
begin

unbundle bit_operations_syntax

text \<open>
  The reactor around the buffer and the timer wheel (\<open>Reactor_http/source/server.hpp\<close>):
  classes \<open>Channel\<close>, \<open>Poller\<close>, \<open>EventLoop\<close>, \<open>Connection\<close>, \<open>Acceptor\<close>
  and \<open>TcpServer\<close>, and the echo server built on them (\<open>echo/echo.hpp\<close>).

  The server runs its one loop in the main thread (no \<open>SetThreadCount\<close>, as the echo server),
  so \<open>RunInLoop\<close> from a handler calls its argument at once; another thread's call is queued.
  Objects of class \<open>Connection\<close> live in a store from addresses to objects and carry the count
  of the \<open>shared_ptr\<close>s to them; an access to an address without an object is the fault
  \<open>Use_After_Free\<close>. The system calls are a trace; what they return comes with the event.
  User callbacks are parameters: a connection carries the number of its set of handlers.
\<close>

section \<open>State\<close>

definition EPOLLIN :: u32 where "EPOLLIN = 0x001"
definition EPOLLPRI :: u32 where "EPOLLPRI = 0x002"
definition EPOLLOUT :: u32 where "EPOLLOUT = 0x004"
definition EPOLLERR :: u32 where "EPOLLERR = 0x008"
definition EPOLLHUP :: u32 where "EPOLLHUP = 0x010"
definition EPOLLRDHUP :: u32 where "EPOLLRDHUP = 0x2000"

lemmas epoll_flags = EPOLLIN_def EPOLLPRI_def EPOLLOUT_def EPOLLERR_def EPOLLHUP_def EPOLLRDHUP_def

datatype ConnStatu = DISCONNECTED | CONNECTING | CONNECTED | DISCONNECTING

text \<open>What the timer calls: \<open>ReleaseInLoop\<close> of a connection, or a task given to \<open>RunAfter\<close>.\<close>

datatype callback = Release nat | Task nat

datatype channel = Eventfd_Channel | Timerfd_Channel | Accept_Channel | Conn_Channel nat

datatype epoll_op = EPOLL_CTL_ADD | EPOLL_CTL_MOD | EPOLL_CTL_DEL

datatype effect = Epoll_ctl epoll_op int u32 | Close int | Sent int "char list" | Eventfd_write u64
  | Destroyed u64 | Called_connected u64 | Called_closed u64 | Called_event u64 | Called_task nat

record Connection =
  conn_id :: u64
  sockfd :: int
  enable_inactive_release :: bool
  statu :: ConnStatu
  socket :: int
  events :: u32
  revents :: u32
  in_buffer :: Buffer
  out_buffer :: Buffer
  handlers_id :: nat
  shared :: nat

text \<open>The calls other threads may queue.\<close>

datatype job = Send_Job nat Buffer | Shutdown_Job nat | Enable_Job nat int | Cancel_Job nat
  | RunAfter_Job nat int

record Server = "callback TimerWheel" +
  channels :: "int \<rightharpoonup> channel"
  jobs :: "job list"
  objects :: "nat \<rightharpoonup> Connection"
  next_object :: nat
  srv_conn_id :: u64
  srv_timeout :: int
  srv_enable_inactive_release :: bool
  srv_handlers :: nat
  conns :: "u64 \<rightharpoonup> nat"
  trace :: "effect list"

record handlers =
  on_connected :: "(nat \<Rightarrow> Server \<Rightarrow> Server res) option"
  on_message :: "(nat \<Rightarrow> Server \<Rightarrow> Server res) option"
  on_closed :: "(nat \<Rightarrow> Server \<Rightarrow> Server res) option"
  on_event :: "(nat \<Rightarrow> Server \<Rightarrow> Server res) option"

definition emit :: "effect \<Rightarrow> Server \<Rightarrow> Server" where
  "emit e s = s\<lparr>trace := trace s @ [e]\<rparr>"

section \<open>Connection objects and the pointers to them\<close>

definition with_conn :: "nat \<Rightarrow> (Connection \<Rightarrow> Server \<Rightarrow> 'a res) \<Rightarrow> Server \<Rightarrow> 'a res" where
  "with_conn a f s = (case objects s a of None \<Rightarrow> Inl Use_After_Free | Some c \<Rightarrow> f c s)"

definition put_conn :: "nat \<Rightarrow> Connection \<Rightarrow> Server \<Rightarrow> Server" where
  "put_conn a c s = s\<lparr>objects := (objects s)(a \<mapsto> c)\<rparr>"

definition share :: "nat \<Rightarrow> Server \<Rightarrow> Server res" where
  "share a = with_conn a (\<lambda>c s. Inr (put_conn a (c\<lparr>shared := shared c + 1\<rparr>) s))"

definition Socket_Close :: "nat \<Rightarrow> Server \<Rightarrow> Server res" where
  "Socket_Close a = with_conn a (\<lambda>c s.
     if socket c \<noteq> - 1 then Inr (put_conn a (c\<lparr>socket := - 1\<rparr>) (emit (Close (socket c)) s))
     else Inr s)"

text \<open>The last pointer goes: \<open>~Connection\<close>, which closes the descriptor if it is still open.\<close>

definition Connection_destroy :: "nat \<Rightarrow> Server \<Rightarrow> Server res" where
  "Connection_destroy a = with_conn a (\<lambda>c s.
     bind_res (Socket_Close a (emit (Destroyed (conn_id c)) s)) (\<lambda>s.
     Inr (s\<lparr>objects := (objects s)(a := None)\<rparr>)))"

definition unshare :: "nat \<Rightarrow> Server \<Rightarrow> Server res" where
  "unshare a = with_conn a (\<lambda>c s.
     if shared c \<le> 1 then Connection_destroy a s
     else Inr (put_conn a (c\<lparr>shared := shared c - 1\<rparr>) s))"

text \<open>A call with \<open>shared_from_this()\<close> as its argument: the temporary dies after the call.\<close>

definition call_shared :: "nat \<Rightarrow> (nat \<Rightarrow> Server \<Rightarrow> Server res) \<Rightarrow> Server \<Rightarrow> Server res" where
  "call_shared a f s = bind_res (share a s) (\<lambda>s. bind_res (f a s) (unshare a))"

definition call_if :: "nat \<Rightarrow> (nat \<Rightarrow> Server \<Rightarrow> Server res) option \<Rightarrow> Server \<Rightarrow> Server res" where
  "call_if a h s = (case h of None \<Rightarrow> Inr s | Some f \<Rightarrow> call_shared a f s)"

definition call_or_throw :: "nat \<Rightarrow> (nat \<Rightarrow> Server \<Rightarrow> Server res) option \<Rightarrow> Server \<Rightarrow> Server res" where
  "call_or_throw a h s = (case h of None \<Rightarrow> Inl Empty_Function | Some f \<Rightarrow> call_shared a f s)"

section \<open>Poller and Channel\<close>

text \<open>\<open>HasChannel\<close> looks the descriptor up, not the channel object.\<close>

definition Poller_HasChannel :: "int \<Rightarrow> Server \<Rightarrow> bool" where
  "Poller_HasChannel fd s \<longleftrightarrow> channels s fd \<noteq> None"

definition Poller_Update :: "epoll_op \<Rightarrow> int \<Rightarrow> u32 \<Rightarrow> Server \<Rightarrow> Server" where
  [simp]: "Poller_Update p fd ev s = emit (Epoll_ctl p fd ev) s"

definition Poller_UpdateEvent :: "channel \<Rightarrow> int \<Rightarrow> u32 \<Rightarrow> Server \<Rightarrow> Server" where
  "Poller_UpdateEvent ch fd ev s =
     (if \<not> Poller_HasChannel fd s then
        Poller_Update EPOLL_CTL_ADD fd ev (s\<lparr>channels := (channels s)(fd \<mapsto> ch)\<rparr>)
      else Poller_Update EPOLL_CTL_MOD fd ev s)"

definition Poller_RemoveEvent :: "int \<Rightarrow> u32 \<Rightarrow> Server \<Rightarrow> Server" where
  "Poller_RemoveEvent fd ev s =
     Poller_Update EPOLL_CTL_DEL fd ev (s\<lparr>channels := (channels s)(fd := None)\<rparr>)"

definition Channel_set_events :: "nat \<Rightarrow> (u32 \<Rightarrow> u32) \<Rightarrow> Server \<Rightarrow> Server res" where
  "Channel_set_events a f = with_conn a (\<lambda>c s.
     Inr (Poller_UpdateEvent (Conn_Channel a) (sockfd c) (f (events c))
       (put_conn a (c\<lparr>events := f (events c)\<rparr>) s)))"

definition Channel_EnableRead :: "nat \<Rightarrow> Server \<Rightarrow> Server res" where
  "Channel_EnableRead a = Channel_set_events a (\<lambda>ev. ev OR EPOLLIN)"

definition Channel_EnableWrite :: "nat \<Rightarrow> Server \<Rightarrow> Server res" where
  "Channel_EnableWrite a = Channel_set_events a (\<lambda>ev. ev OR EPOLLOUT)"

definition Channel_DisableWrite :: "nat \<Rightarrow> Server \<Rightarrow> Server res" where
  "Channel_DisableWrite a = Channel_set_events a (\<lambda>ev. ev AND NOT EPOLLOUT)"

definition Channel_DisableRead :: "nat \<Rightarrow> Server \<Rightarrow> Server res" where
  "Channel_DisableRead a = Channel_set_events a (\<lambda>ev. ev AND NOT EPOLLIN)"

definition Channel_DisableAll :: "nat \<Rightarrow> Server \<Rightarrow> Server res" where
  "Channel_DisableAll a = Channel_set_events a (\<lambda>_. 0)"

definition Channel_ReadAble :: "Connection \<Rightarrow> bool" where
  "Channel_ReadAble c \<longleftrightarrow> events c AND EPOLLIN \<noteq> 0"

definition Channel_WriteAble :: "Connection \<Rightarrow> bool" where
  "Channel_WriteAble c \<longleftrightarrow> events c AND EPOLLOUT \<noteq> 0"

definition Channel_Remove :: "nat \<Rightarrow> Server \<Rightarrow> Server res" where
  "Channel_Remove a = with_conn a (\<lambda>c s. Inr (Poller_RemoveEvent (sockfd c) (events c) s))"

section \<open>Socket reads and writes\<close>

datatype errno = EAGAIN | EINTR | Other_errno

text \<open>
  What \<open>recv\<close> answers: bytes, 0 at the end of the stream (which leaves \<open>errno\<close> as some
  earlier call set it), or -1; likewise \<open>send\<close>.
\<close>

datatype recv_answer = Recv_data "char list" | Recv_eof errno | Recv_error errno
datatype send_answer = Send_accepts nat | Send_error errno

definition Socket_Recv :: "recv_answer \<Rightarrow> char list option" where
  "Socket_Recv ans =
     (case ans of
        Recv_data bs \<Rightarrow> Some bs
      | Recv_eof e \<Rightarrow> (if e = EAGAIN \<or> e = EINTR then Some [] else None)
      | Recv_error e \<Rightarrow> (if e = EAGAIN \<or> e = EINTR then Some [] else None))"

definition Socket_Send :: "send_answer \<Rightarrow> int" where
  "Socket_Send ans =
     (case ans of
        Send_accepts n \<Rightarrow> int n
      | Send_error e \<Rightarrow> (if e = EAGAIN \<or> e = EINTR then 0 else - 1))"

section \<open>Connection\<close>

definition Connection_CancelInactiveReleaseInLoop :: "nat \<Rightarrow> Server \<Rightarrow> Server res" where
  "Connection_CancelInactiveReleaseInLoop a = with_conn a (\<lambda>c s.
     let s1 = put_conn a (c\<lparr>enable_inactive_release := False\<rparr>) s in
     if TimerWheel_HasTimer (conn_id c) s1 then TimerWheel_TimerCancelInLoop (conn_id c) s1
     else Inr s1)"

definition Connection_EnableInactiveReleaseInLoop :: "int \<Rightarrow> nat \<Rightarrow> Server \<Rightarrow> Server res" where
  "Connection_EnableInactiveReleaseInLoop sec a = with_conn a (\<lambda>c s.
     let s1 = put_conn a (c\<lparr>enable_inactive_release := True\<rparr>) s in
     if TimerWheel_HasTimer (conn_id c) s1 then TimerWheel_TimerRefreshInLoop (conn_id c) s1
     else Inr (TimerWheel_TimerAddInLoop (conn_id c) (word_of_int sec) (Release a) s1))"

text \<open>
  \<open>Id()\<close> returns \<open>int\<close>, and \<open>_conns.find(id)\<close> converts it back to 64 bits: an id from
  2 to the 31 on is looked up under another number.
\<close>

definition Connection_Id :: "Connection \<Rightarrow> int" where
  "Connection_Id c = to_int32 (uint (conn_id c))"

definition TcpServer_RemoveConnectionInLoop :: "nat \<Rightarrow> Server \<Rightarrow> Server res" where
  "TcpServer_RemoveConnectionInLoop a = with_conn a (\<lambda>c s.
     let k = word_of_int (Connection_Id c) in
     case conns s k of
       None \<Rightarrow> Inr s
     | Some b \<Rightarrow> unshare b (s\<lparr>conns := (conns s)(k := None)\<rparr>))"

definition TcpServer_RemoveConnection :: "nat \<Rightarrow> Server \<Rightarrow> Server res" where
  "TcpServer_RemoveConnection a s = call_shared a TcpServer_RemoveConnectionInLoop s"

definition Connection_ReleaseInLoop :: "(nat \<Rightarrow> handlers) \<Rightarrow> nat \<Rightarrow> Server \<Rightarrow> Server res" where
  "Connection_ReleaseInLoop cbs a = with_conn a (\<lambda>c s.
     bind_res (Channel_Remove a (put_conn a (c\<lparr>statu := DISCONNECTED\<rparr>) s)) (\<lambda>s.
     bind_res (Socket_Close a s) (\<lambda>s.
     bind_res (if TimerWheel_HasTimer (conn_id c) s then Connection_CancelInactiveReleaseInLoop a s
               else Inr s) (\<lambda>s.
     bind_res (call_if a (on_closed (cbs (handlers_id c))) s)
       (call_shared a TcpServer_RemoveConnection)))))"

definition Connection_ShutdownInLoop :: "(nat \<Rightarrow> handlers) \<Rightarrow> nat \<Rightarrow> Server \<Rightarrow> Server res" where
  "Connection_ShutdownInLoop cbs a = with_conn a (\<lambda>c s.
     bind_res (if Buffer_ReadAbleSize (in_buffer c) > 0
               then call_if a (on_message (cbs (handlers_id c))) (put_conn a (c\<lparr>statu := DISCONNECTING\<rparr>) s)
               else Inr (put_conn a (c\<lparr>statu := DISCONNECTING\<rparr>) s)) (\<lambda>s.
     bind_res (with_conn a (\<lambda>c s.
         if Buffer_ReadAbleSize (out_buffer c) > 0 \<and> \<not> Channel_WriteAble c then Channel_EnableWrite a s
         else Inr s) s) (with_conn a (\<lambda>c s.
       if Buffer_ReadAbleSize (out_buffer c) = 0 then Connection_ReleaseInLoop cbs a s else Inr s))))"

definition Connection_HandleRead :: "(nat \<Rightarrow> handlers) \<Rightarrow> recv_answer \<Rightarrow> nat \<Rightarrow> Server \<Rightarrow> Server res" where
  "Connection_HandleRead cbs ans a =
     (case Socket_Recv ans of
        None \<Rightarrow> Connection_ShutdownInLoop cbs a
      | Some bs \<Rightarrow> with_conn a (\<lambda>c s.
          bind_res (Buffer_WriteAndPush (in_buffer c) bs (of_nat (length bs))) (\<lambda>b.
          let s1 = put_conn a (c\<lparr>in_buffer := b\<rparr>) s in
          if Buffer_ReadAbleSize b > 0 then call_or_throw a (on_message (cbs (handlers_id c))) s1
          else Inr s1)))"

definition Connection_HandleClose :: "(nat \<Rightarrow> handlers) \<Rightarrow> nat \<Rightarrow> Server \<Rightarrow> Server res" where
  "Connection_HandleClose cbs a = with_conn a (\<lambda>c s.
     bind_res (if Buffer_ReadAbleSize (in_buffer c) > 0
               then call_or_throw a (on_message (cbs (handlers_id c))) s else Inr s)
       (Connection_ReleaseInLoop cbs a))"

definition Connection_HandleError :: "(nat \<Rightarrow> handlers) \<Rightarrow> nat \<Rightarrow> Server \<Rightarrow> Server res" where
  "Connection_HandleError cbs a = Connection_HandleClose cbs a"

definition Connection_HandleWrite :: "(nat \<Rightarrow> handlers) \<Rightarrow> send_answer \<Rightarrow> nat \<Rightarrow> Server \<Rightarrow> Server res" where
  "Connection_HandleWrite cbs ans a = with_conn a (\<lambda>c s.
     let out = out_buffer c in
     bind_res (copy_out (buffer out) (reader_idx out) (Buffer_ReadAbleSize out)) (\<lambda>bytes.
     let ret = to_int32 (Socket_Send ans);
         s = (case ans of Send_accepts n \<Rightarrow> emit (Sent (socket c) (take n bytes)) s | Send_error _ \<Rightarrow> s) in
     if ret < 0 then Connection_HandleClose cbs a s
     else
       bind_res (Buffer_MoveReadOffset out (word_of_int ret)) (\<lambda>b.
       let s1 = put_conn a (c\<lparr>out_buffer := b\<rparr>) s in
       if Buffer_ReadAbleSize b = 0 then
         bind_res (Channel_DisableWrite a s1)
           (if statu c = DISCONNECTING then Connection_ReleaseInLoop cbs a else Inr)
       else Inr s1)))"

definition Connection_HandleEvent :: "(nat \<Rightarrow> handlers) \<Rightarrow> nat \<Rightarrow> Server \<Rightarrow> Server res" where
  "Connection_HandleEvent cbs a = with_conn a (\<lambda>c s.
     bind_res (if enable_inactive_release c then TimerWheel_TimerRefreshInLoop (conn_id c) s else Inr s)
       (call_if a (on_event (cbs (handlers_id c)))))"

definition Connection_EsTablishedInLoop :: "(nat \<Rightarrow> handlers) \<Rightarrow> nat \<Rightarrow> Server \<Rightarrow> Server res" where
  "Connection_EsTablishedInLoop cbs a = with_conn a (\<lambda>c s.
     if statu c \<noteq> CONNECTING then Inl Assertion
     else bind_res (Channel_EnableRead a (put_conn a (c\<lparr>statu := CONNECTED\<rparr>) s))
       (call_if a (on_connected (cbs (handlers_id c)))))"

definition Connection_SendInLoop :: "Buffer \<Rightarrow> nat \<Rightarrow> Server \<Rightarrow> Server res" where
  "Connection_SendInLoop buf a = with_conn a (\<lambda>c s.
     if statu c = DISCONNECTED then Inr s
     else bind_res (Buffer_WriteBufferAndPush (out_buffer c) buf) (\<lambda>b.
       let s1 = put_conn a (c\<lparr>out_buffer := b\<rparr>) s in
       if \<not> Channel_WriteAble c then Channel_EnableWrite a s1 else Inr s1))"

text \<open>\<open>Send\<close> copies the bytes into a buffer of its own before it hands them to the loop.\<close>

definition Connection_Send :: "char list \<Rightarrow> nat \<Rightarrow> Server \<Rightarrow> Server res" where
  "Connection_Send bytes a s =
     bind_res (Buffer_WriteAndPush Buffer_new bytes (of_nat (length bytes))) (\<lambda>buf.
     Connection_SendInLoop buf a s)"

definition Connection_UpgradeInLoop :: "nat \<Rightarrow> nat \<Rightarrow> Server \<Rightarrow> Server res" where
  "Connection_UpgradeInLoop h a = with_conn a (\<lambda>c s. Inr (put_conn a (c\<lparr>handlers_id := h\<rparr>) s))"

definition Connection_new :: "u64 \<Rightarrow> int \<Rightarrow> nat \<Rightarrow> Connection" where
  "Connection_new i fd h =
     \<lparr>conn_id = i, sockfd = fd, enable_inactive_release = False, statu = CONNECTING, socket = fd,
      events = 0, revents = 0, in_buffer = Buffer_new, out_buffer = Buffer_new, handlers_id = h, shared = 1\<rparr>"

section \<open>TcpServer and Acceptor\<close>

definition timer_exec :: "(nat \<Rightarrow> handlers) \<Rightarrow> callback \<Rightarrow> Server \<Rightarrow> Server res" where
  "timer_exec cbs cb s =
     (case cb of Release a \<Rightarrow> Connection_ReleaseInLoop cbs a s | Task k \<Rightarrow> Inr (emit (Called_task k) s))"

text \<open>The local \<open>PtrConnection conn\<close> is one pointer, the entry of \<open>_conns\<close> a second.\<close>

definition TcpServer_NewConnection :: "(nat \<Rightarrow> handlers) \<Rightarrow> int \<Rightarrow> Server \<Rightarrow> Server res" where
  "TcpServer_NewConnection cbs fd s =
     (let i = srv_conn_id s + 1; a = next_object s;
          s1 = put_conn a (Connection_new i fd (srv_handlers s)) (s\<lparr>srv_conn_id := i, next_object := Suc a\<rparr>) in
      bind_res (if srv_enable_inactive_release s1
                then Connection_EnableInactiveReleaseInLoop (srv_timeout s1) a s1 else Inr s1) (\<lambda>s.
      bind_res (Connection_EsTablishedInLoop cbs a s) (\<lambda>s.
      bind_res (if conns s i = None
                then bind_res (share a s) (\<lambda>s. Inr (s\<lparr>conns := (conns s)(i \<mapsto> a)\<rparr>)) else Inr s)
        (unshare a))))"

definition TcpServer_RunAfterInLoop :: "nat \<Rightarrow> int \<Rightarrow> Server \<Rightarrow> Server" where
  "TcpServer_RunAfterInLoop k delay s =
     (let i = srv_conn_id s + 1 in
      TimerWheel_TimerAddInLoop i (word_of_int delay) (Task k) (s\<lparr>srv_conn_id := i\<rparr>))"

definition TcpServer_EnableInactiveRelease :: "int \<Rightarrow> Server \<Rightarrow> Server" where
  "TcpServer_EnableInactiveRelease t s = s\<lparr>srv_enable_inactive_release := True, srv_timeout := t\<rparr>"

definition Acceptor_HandleRead :: "(nat \<Rightarrow> handlers) \<Rightarrow> int option \<Rightarrow> Server \<Rightarrow> Server res" where
  "Acceptor_HandleRead cbs newfd s =
     (case newfd of None \<Rightarrow> Inr s | Some fd \<Rightarrow> TcpServer_NewConnection cbs fd s)"

text \<open>
  Construction, with the descriptors the system hands out: the loop watches its timer and its
  \<open>eventfd\<close>, then the acceptor its listening socket.
\<close>

definition TcpServer_new :: "int \<Rightarrow> int \<Rightarrow> int \<Rightarrow> nat \<Rightarrow> Server" where
  "TcpServer_new tfd efd lfd h =
     Poller_UpdateEvent Accept_Channel lfd EPOLLIN (
     Poller_UpdateEvent Eventfd_Channel efd EPOLLIN (
     Poller_UpdateEvent Timerfd_Channel tfd EPOLLIN
       (TimerWheel.extend TimerWheel_new
         (Server.fields Map.empty [] Map.empty 0 0 0 False h Map.empty []))))"

section \<open>EventLoop\<close>

text \<open>
  An event of \<open>epoll_wait\<close>, with what the system calls of its handler will return: the bytes
  received, the number of bytes taken by \<open>send\<close>, the descriptor accepted, the expirations of
  the timer and the error of the read of the \<open>eventfd\<close> (\<open>None\<close>: it succeeds).
\<close>

record event =
  ev_fd :: int
  ev_events :: u32
  ev_recv :: recv_answer
  ev_send :: send_answer
  ev_accept :: "int option"
  ev_timer :: "u64 option"
  ev_eventfd :: "errno option"

datatype wait_answer = Ready "event list" | Wait_error errno

definition EventLoop_ReadEventFd :: "errno option \<Rightarrow> Server \<Rightarrow> Server res" where
  "EventLoop_ReadEventFd err s = (if err = Some Other_errno then Inl Aborted else Inr s)"

definition any_of :: "u32 \<Rightarrow> u32 \<Rightarrow> bool" where
  "any_of revs flag \<longleftrightarrow> revs AND flag \<noteq> 0"

definition read_ready :: "u32 \<Rightarrow> bool" where
  "read_ready revs \<longleftrightarrow> any_of revs EPOLLIN \<or> any_of revs EPOLLRDHUP \<or> any_of revs EPOLLPRI"

text \<open>
  \<open>Channel::HandleEvent\<close>: for the channel of a connection \<open>_revents\<close> is a member of the
  object and is read again after the read callback; the other channels have a read callback
  only and are never destroyed.
\<close>

definition Channel_HandleEvent :: "(nat \<Rightarrow> handlers) \<Rightarrow> channel \<Rightarrow> event \<Rightarrow> Server \<Rightarrow> Server res" where
  "Channel_HandleEvent cbs ch e s =
     (case ch of
        Conn_Channel a \<Rightarrow>
          bind_res (with_conn a (\<lambda>c s.
            if read_ready (revents c) then
              bind_res (Connection_HandleEvent cbs a s) (Connection_HandleRead cbs (ev_recv e) a)
            else Inr s) s) (with_conn a (\<lambda>c s.
            if any_of (revents c) EPOLLOUT then
              bind_res (Connection_HandleEvent cbs a s) (Connection_HandleWrite cbs (ev_send e) a)
            else if any_of (revents c) EPOLLERR then
              bind_res (Connection_HandleEvent cbs a s) (Connection_HandleError cbs a)
            else if any_of (revents c) EPOLLHUP then
              bind_res (Connection_HandleEvent cbs a s) (Connection_HandleClose cbs a)
            else Inr s))
      | Timerfd_Channel \<Rightarrow>
          (if read_ready (ev_events e) then TimerWheel_OnTime (timer_exec cbs) (ev_timer e) s else Inr s)
      | Eventfd_Channel \<Rightarrow>
          (if read_ready (ev_events e) then EventLoop_ReadEventFd (ev_eventfd e) s else Inr s)
      | Accept_Channel \<Rightarrow>
          (if read_ready (ev_events e) then Acceptor_HandleRead cbs (ev_accept e) s else Inr s))"

definition Channel_SetRevents :: "channel \<Rightarrow> u32 \<Rightarrow> Server \<Rightarrow> Server res" where
  "Channel_SetRevents ch ev s =
     (case ch of
        Conn_Channel a \<Rightarrow> with_conn a (\<lambda>c s. Inr (put_conn a (c\<lparr>revents := ev\<rparr>) s)) s
      | _ \<Rightarrow> Inr s)"

fun Poller_activate :: "event list \<Rightarrow> Server \<Rightarrow> ((channel \<times> event) list \<times> Server) res" where
  "Poller_activate [] s = Inr ([], s)"
| "Poller_activate (e # es) s =
     (case channels s (ev_fd e) of
        None \<Rightarrow> Inl Assertion
      | Some ch \<Rightarrow>
          bind_res (Channel_SetRevents ch (ev_events e) s) (\<lambda>s.
          bind_res (Poller_activate es s) (\<lambda>(active, s). Inr ((ch, e) # active, s))))"

definition Poller_Poll :: "wait_answer \<Rightarrow> Server \<Rightarrow> ((channel \<times> event) list \<times> Server) res" where
  "Poller_Poll ans s =
     (case ans of
        Ready es \<Rightarrow> Poller_activate es s
      | Wait_error e \<Rightarrow> (if e = EINTR then Inr ([], s) else Inl Aborted))"

fun handle_active :: "(nat \<Rightarrow> handlers) \<Rightarrow> (channel \<times> event) list \<Rightarrow> Server \<Rightarrow> Server res" where
  "handle_active cbs [] s = Inr s"
| "handle_active cbs ((ch, e) # rest) s =
     bind_res (Channel_HandleEvent cbs ch e s) (handle_active cbs rest)"

definition EventLoop_WeakUpdateFd :: "Server \<Rightarrow> Server" where
  "EventLoop_WeakUpdateFd s = emit (Eventfd_write 0) s"

definition EventLoop_QueueInLoop :: "job \<Rightarrow> Server \<Rightarrow> Server" where
  "EventLoop_QueueInLoop j s = EventLoop_WeakUpdateFd (s\<lparr>jobs := jobs s @ [j]\<rparr>)"

definition run_job :: "(nat \<Rightarrow> handlers) \<Rightarrow> job \<Rightarrow> Server \<Rightarrow> Server res" where
  "run_job cbs j s =
     (case j of
        Send_Job a buf \<Rightarrow> Connection_SendInLoop buf a s
      | Shutdown_Job a \<Rightarrow> Connection_ShutdownInLoop cbs a s
      | Enable_Job a sec \<Rightarrow> Connection_EnableInactiveReleaseInLoop sec a s
      | Cancel_Job a \<Rightarrow> Connection_CancelInactiveReleaseInLoop a s
      | RunAfter_Job k delay \<Rightarrow> Inr (TcpServer_RunAfterInLoop k delay s))"

text \<open>\<open>RunInLoop\<close>: at once in the thread of the loop, otherwise queued.\<close>

definition EventLoop_RunInLoop :: "(nat \<Rightarrow> handlers) \<Rightarrow> bool \<Rightarrow> job \<Rightarrow> Server \<Rightarrow> Server res" where
  "EventLoop_RunInLoop cbs in_loop j s = (if in_loop then run_job cbs j s else Inr (EventLoop_QueueInLoop j s))"

fun run_jobs :: "(nat \<Rightarrow> handlers) \<Rightarrow> job list \<Rightarrow> Server \<Rightarrow> Server res" where
  "run_jobs cbs [] s = Inr s"
| "run_jobs cbs (j # js) s = bind_res (run_job cbs j s) (run_jobs cbs js)"

definition EventLoop_RunAllTask :: "(nat \<Rightarrow> handlers) \<Rightarrow> Server \<Rightarrow> Server res" where
  "EventLoop_RunAllTask cbs s = run_jobs cbs (jobs s) (s\<lparr>jobs := []\<rparr>)"

text \<open>One round of the loop of \<open>Start\<close>, and as many rounds as there are answers.\<close>

definition EventLoop_round :: "(nat \<Rightarrow> handlers) \<Rightarrow> wait_answer \<Rightarrow> Server \<Rightarrow> Server res" where
  "EventLoop_round cbs ans s =
     bind_res (Poller_Poll ans s) (\<lambda>(active, s).
     bind_res (handle_active cbs active s) (EventLoop_RunAllTask cbs))"

fun EventLoop_Start :: "(nat \<Rightarrow> handlers) \<Rightarrow> wait_answer list \<Rightarrow> Server \<Rightarrow> Server res" where
  "EventLoop_Start cbs [] s = Inr s"
| "EventLoop_Start cbs (w # ws) s = bind_res (EventLoop_round cbs w s) (EventLoop_Start cbs ws)"

section \<open>Computing with the model\<close>

named_theorems server_simps

lemma with_conn_Some [server_simps]: "objects s a = Some c \<Longrightarrow> with_conn a f s = f c s"
  by (simp add: with_conn_def)

lemma with_conn_None [server_simps]: "objects s a = None \<Longrightarrow> with_conn a f s = Inl Use_After_Free"
  by (simp add: with_conn_def)

lemma put_conn_sel [simp]:
  "objects (put_conn a c s) = (objects s)(a \<mapsto> c)" "channels (put_conn a c s) = channels s"
  "jobs (put_conn a c s) = jobs s" "next_object (put_conn a c s) = next_object s"
  "conns (put_conn a c s) = conns s" "trace (put_conn a c s) = trace s"
  "tick (put_conn a c s) = tick s" "wheel (put_conn a c s) = wheel s" "timers (put_conn a c s) = timers s"
  "tasks (put_conn a c s) = tasks s" "next_task (put_conn a c s) = next_task s"
  "srv_conn_id (put_conn a c s) = srv_conn_id s" "srv_timeout (put_conn a c s) = srv_timeout s"
  "srv_enable_inactive_release (put_conn a c s) = srv_enable_inactive_release s"
  "srv_handlers (put_conn a c s) = srv_handlers s"
  by (simp_all add: put_conn_def)

lemma emit_sel [simp]:
  "objects (emit e s) = objects s" "channels (emit e s) = channels s"
  "jobs (emit e s) = jobs s" "next_object (emit e s) = next_object s"
  "conns (emit e s) = conns s" "trace (emit e s) = trace s @ [e]"
  "tick (emit e s) = tick s" "wheel (emit e s) = wheel s" "timers (emit e s) = timers s"
  "tasks (emit e s) = tasks s" "next_task (emit e s) = next_task s"
  "srv_conn_id (emit e s) = srv_conn_id s" "srv_timeout (emit e s) = srv_timeout s"
  "srv_enable_inactive_release (emit e s) = srv_enable_inactive_release s"
  "srv_handlers (emit e s) = srv_handlers s"
  by (simp_all add: emit_def)

lemma put_conn_put_conn [simp]: "put_conn a c (put_conn a d s) = put_conn a c s"
  by (simp add: put_conn_def)

text \<open>Cancelling a timer only touches the task.\<close>

definition cancelled_tasks :: "u64 \<Rightarrow> Server \<Rightarrow> nat \<rightharpoonup> callback TimerTask" where
  "cancelled_tasks i s =
     (case timers s i of
        None \<Rightarrow> tasks s
      | Some p \<Rightarrow> if p \<in> refs s
                 then (tasks s)(p := map_option (\<lambda>t. t\<lparr>cancelled := True\<rparr>) (tasks s p)) else tasks s)"

lemma TimerCancel_eq:
  assumes "\<And>p. timers s i = Some p \<Longrightarrow> p \<in> refs s \<Longrightarrow> tasks s p \<noteq> None"
  shows "TimerWheel_TimerCancelInLoop i s = Inr (s\<lparr>tasks := cancelled_tasks i s\<rparr>)"
  using assms
  by (auto simp: TimerWheel_TimerCancelInLoop_def cancelled_tasks_def weak_lock_def use_count_0_iff
      split: option.splits)

lemma cancelled_tasks_cong:
  "wheel s = wheel s' \<Longrightarrow> timers s = timers s' \<Longrightarrow> tasks s = tasks s' \<Longrightarrow> cancelled_tasks i s = cancelled_tasks i s'"
  by (simp add: cancelled_tasks_def refs_def split: option.split)

end
