(* ===== verification/Reactor_Echo.thy ===== *)
theory Reactor_Echo
  imports Reactor_Server
begin

unbundle bit_operations_syntax

text \<open>
  The echo server (\<open>Reactor_http/source/echo/echo.hpp\<close>) on the reactor, with the invariant of
  its event loop and the life of a connection from \<open>accept\<close> to the release of its object. The
  text of the log lines is not modelled; what the log line of \<open>OnMessage\<close> reads is.
\<close>

section \<open>The echo server\<close>

definition EchoServer_OnConnected :: "nat \<Rightarrow> Server \<Rightarrow> Server res" where
  "EchoServer_OnConnected a = with_conn a (\<lambda>c s. Inr (emit (Called_connected (conn_id c)) s))"

definition EchoServer_OnClose :: "nat \<Rightarrow> Server \<Rightarrow> Server res" where
  "EchoServer_OnClose a = with_conn a (\<lambda>c s. Inr (emit (Called_closed (conn_id c)) s))"

definition echo_str :: string where
  "echo_str = ''hello world''"

lemma echo_str_props [simp]: "length echo_str = 11" "echo_str \<noteq> []"
  by (simp_all add: echo_str_def)

text \<open>
  \<open>OnMessage\<close> first logs its input with \<open>%s\<close>: from \<open>ReadPosition()\<close> on, the characters up to
  the first NUL are read, wherever \<open>_writer_idx\<close> is. When the vector has no NUL there, the read
  goes past its end.
\<close>

definition log_message :: "Buffer \<Rightarrow> string res" where
  "log_message b =
     (let chars = drop (unat (reader_idx b)) (buffer b) in
      if CHR 0x00 \<in> set chars then Inr (takeWhile (\<lambda>x. x \<noteq> CHR 0x00) chars) else Inl Out_Of_Bounds)"

definition EchoServer_OnMessage :: "(nat \<Rightarrow> handlers) \<Rightarrow> nat \<Rightarrow> Server \<Rightarrow> Server res" where
  "EchoServer_OnMessage cbs a = with_conn a (\<lambda>c s.
     bind_res (log_message (in_buffer c)) (\<lambda>_.
     bind_res (Buffer_MoveReadOffset (in_buffer c) (Buffer_ReadAbleSize (in_buffer c))) (\<lambda>b.
     bind_res (Connection_Send echo_str a (put_conn a (c\<lparr>in_buffer := b\<rparr>) s))
       (Connection_ShutdownInLoop cbs a))))"

text \<open>
  \<open>Shutdown\<close> may call the message callback again, so the handlers are built by recursion on
  the nesting depth of such calls.
\<close>

fun EchoServer_handlers :: "nat \<Rightarrow> nat \<Rightarrow> handlers" where
  "EchoServer_handlers 0 h =
     \<lparr>on_connected = Some EchoServer_OnConnected, on_message = Some (\<lambda>_ _. Inl Stack_Exhausted),
      on_closed = Some EchoServer_OnClose, on_event = None\<rparr>"
| "EchoServer_handlers (Suc n) h =
     \<lparr>on_connected = Some EchoServer_OnConnected,
      on_message = Some (EchoServer_OnMessage (EchoServer_handlers n)),
      on_closed = Some EchoServer_OnClose, on_event = None\<rparr>"

lemma on_closed_echo [simp]: "on_closed (EchoServer_handlers n h) = Some EchoServer_OnClose"
  by (cases n) simp_all

lemma on_connected_echo [simp]: "on_connected (EchoServer_handlers n h) = Some EchoServer_OnConnected"
  by (cases n) simp_all

lemma on_event_echo [simp]: "on_event (EchoServer_handlers n h) = None"
  by (cases n) simp_all

section \<open>Release of a connection\<close>

definition released :: "nat \<Rightarrow> Connection \<Rightarrow> Server \<Rightarrow> Server" where
  "released a c s =
     s\<lparr>tasks := cancelled_tasks (conn_id c) s, channels := (channels s)(sockfd c := None),
       objects := (objects s)(a := None), conns := (conns s)(conn_id c := None),
       trace := trace s @ [Epoll_ctl EPOLL_CTL_DEL (sockfd c) (events c), Close (socket c),
         Called_closed (conn_id c), Destroyed (conn_id c)]\<rparr>"

lemma Connection_Id_small: "uint (conn_id c) < 2 ^ 31 \<Longrightarrow> word_of_int (Connection_Id c) = conn_id c"
  by (simp add: Connection_Id_def to_int32_small)

lemma put_conn_same: "objects s a = Some c \<Longrightarrow> put_conn a c s = s"
  by (simp add: put_conn_def fun_upd_idem)

lemma call_OnClose:
  assumes "objects s a = Some c" "1 \<le> shared c"
  shows "call_shared a EchoServer_OnClose s = Inr (emit (Called_closed (conn_id c)) s)"
  using assms put_conn_same [of "emit (Called_closed (conn_id c)) s" a c]
  by (simp add: call_shared_def share_def EchoServer_OnClose_def unshare_def server_simps put_conn_def emit_def)

lemma call_RemoveConnection:
  assumes "objects s a = Some c" "shared c = 1" "socket c = - 1"
    "conns s (conn_id c) = Some a" "uint (conn_id c) < 2 ^ 31"
  shows "call_shared a TcpServer_RemoveConnection s
    = Inr (emit (Destroyed (conn_id c)) (s\<lparr>objects := (objects s)(a := None), conns := (conns s)(conn_id c := None)\<rparr>))"
proof -
  have "word_of_int (Connection_Id (c\<lparr>shared := n\<rparr>)) = conn_id c" for n
    using Connection_Id_small [of "c\<lparr>shared := n\<rparr>"] assms(5) by simp
  then show ?thesis
    using assms
    by (simp add: call_shared_def share_def unshare_def TcpServer_RemoveConnection_def Let_def
        TcpServer_RemoveConnectionInLoop_def Connection_destroy_def Socket_Close_def server_simps
        put_conn_def emit_def)
qed

lemma cancel_in_release:
  assumes "objects s a = Some c"
    and "\<And>p. timers s (conn_id c) = Some p \<Longrightarrow> p \<in> refs s \<Longrightarrow> tasks s p \<noteq> None"
  obtains e where "(if TimerWheel_HasTimer (conn_id c) s then Connection_CancelInactiveReleaseInLoop a s else Inr s)
    = Inr (put_conn a (c\<lparr>enable_inactive_release := e\<rparr>) s\<lparr>tasks := cancelled_tasks (conn_id c) s\<rparr>)"
proof (cases "TimerWheel_HasTimer (conn_id c) s")
  case True
  let ?s = "put_conn a (c\<lparr>enable_inactive_release := False\<rparr>) s"
  have "TimerWheel_TimerCancelInLoop (conn_id c) ?s = Inr (?s\<lparr>tasks := cancelled_tasks (conn_id c) ?s\<rparr>)"
    by (rule TimerCancel_eq) (use assms(2) in \<open>simp add: refs_def\<close>)
  moreover have "cancelled_tasks (conn_id c) ?s = cancelled_tasks (conn_id c) s"
    by (rule cancelled_tasks_cong) simp_all
  ultimately show ?thesis
    using that [of False] True assms(1)
    by (simp add: Connection_CancelInactiveReleaseInLoop_def server_simps TimerWheel_HasTimer_def)
next
  case False
  then have "cancelled_tasks (conn_id c) s = tasks s"
    by (simp add: TimerWheel_HasTimer_def cancelled_tasks_def)
  moreover have "c\<lparr>enable_inactive_release := enable_inactive_release c\<rparr> = c" by simp
  ultimately show ?thesis
    using that [of "enable_inactive_release c"] False put_conn_same [OF assms(1)] by simp
qed

lemma ReleaseInLoop_eq:
  assumes a: "objects s a = Some c" "shared c = 1" "conns s (conn_id c) = Some a"
    "uint (conn_id c) < 2 ^ 31" "socket c \<noteq> - 1"
    and t: "\<And>p. timers s (conn_id c) = Some p \<Longrightarrow> p \<in> refs s \<Longrightarrow> tasks s p \<noteq> None"
    and h: "on_closed (cbs (handlers_id c)) = Some EchoServer_OnClose"
  shows "Connection_ReleaseInLoop cbs a s = Inr (released a c s)"
proof -
  let ?c = "c\<lparr>statu := DISCONNECTED, socket := - 1\<rparr>"
  let ?s = "put_conn a ?c (s\<lparr>channels := (channels s)(sockfd c := None), trace := trace s
    @ [Epoll_ctl EPOLL_CTL_DEL (sockfd c) (events c), Close (socket c)]\<rparr>)"
  have "bind_res (Channel_Remove a (put_conn a (c\<lparr>statu := DISCONNECTED\<rparr>) s)) (Socket_Close a) = Inr ?s"
    using a by (simp add: Channel_Remove_def Socket_Close_def Poller_RemoveEvent_def server_simps put_conn_def emit_def)
  then have start: "Connection_ReleaseInLoop cbs a s
    = bind_res (if TimerWheel_HasTimer (conn_id c) ?s then Connection_CancelInactiveReleaseInLoop a ?s
               else Inr ?s) (\<lambda>s. bind_res (call_shared a EchoServer_OnClose s) (call_shared a TcpServer_RemoveConnection))"
    using a h by (simp add: Connection_ReleaseInLoop_def with_conn_Some call_if_def flip: bind_res_assoc)
  have "cancelled_tasks (conn_id c) ?s = cancelled_tasks (conn_id c) s"
    by (rule cancelled_tasks_cong) simp_all
  moreover have "\<And>p. timers ?s (conn_id ?c) = Some p \<Longrightarrow> p \<in> refs ?s \<Longrightarrow> tasks ?s p \<noteq> None"
    using t by (simp add: refs_def)
  ultimately obtain e where
    "(if TimerWheel_HasTimer (conn_id c) ?s then Connection_CancelInactiveReleaseInLoop a ?s else Inr ?s)
    = Inr (put_conn a (?c\<lparr>enable_inactive_release := e\<rparr>) ?s\<lparr>tasks := cancelled_tasks (conn_id c) s\<rparr>)"
    using cancel_in_release [of ?s a ?c] by fastforce
  with start a show ?thesis
    using call_OnClose [of "put_conn a (?c\<lparr>enable_inactive_release := e\<rparr>) ?s\<lparr>tasks := cancelled_tasks (conn_id c) s\<rparr>" a "?c\<lparr>enable_inactive_release := e\<rparr>"]
      call_RemoveConnection [of "emit (Called_closed (conn_id c)) (put_conn a (?c\<lparr>enable_inactive_release := e\<rparr>) ?s\<lparr>tasks := cancelled_tasks (conn_id c) s\<rparr>)" a "?c\<lparr>enable_inactive_release := e\<rparr>"]
    by (simp add: released_def put_conn_def emit_def)
qed

section \<open>A message\<close>

text \<open>The state after the handler has answered: the request is gone from the input, the answer
  is queued, the connection waits for the socket to take it and will then be closed.\<close>

definition answered :: "nat \<Rightarrow> Connection \<Rightarrow> Buffer \<Rightarrow> Buffer \<Rightarrow> Server \<Rightarrow> Server" where
  "answered a c b out s =
     s\<lparr>objects := (objects s)(a \<mapsto> c\<lparr>in_buffer := b, out_buffer := out, events := events c OR EPOLLOUT,
         statu := DISCONNECTING\<rparr>),
       trace := trace s @ (if Channel_WriteAble c then [] else
         [Epoll_ctl EPOLL_CTL_MOD (sockfd c) (events c OR EPOLLOUT)])\<rparr>"

lemma bit_EPOLLOUT: "bit EPOLLOUT n \<longleftrightarrow> n = 2"
proof -
  have "EPOLLOUT = 2 ^ 2" by (simp add: EPOLLOUT_def)
  then have "bit EPOLLOUT n \<longleftrightarrow> bit (2 ^ 2 :: u32) n" by (rule arg_cong)
  then show ?thesis by (auto simp only: bit_exp_iff possible_bit_word len_bit0 len_num1)
qed

lemma EPOLLOUT_nonzero [simp]: "EPOLLOUT \<noteq> 0"
  by (simp add: EPOLLOUT_def)

lemma OR_AND_EPOLLOUT [simp]: "(ev OR EPOLLOUT) AND EPOLLOUT \<noteq> 0"
proof
  assume "(ev OR EPOLLOUT) AND EPOLLOUT = 0"
  then have "bit ((ev OR EPOLLOUT) AND EPOLLOUT) 2 = bit (0 :: u32) 2" by (rule arg_cong)
  then show False by (simp add: bit_simps bit_EPOLLOUT)
qed

lemma AND_EPOLLOUT: "ev AND EPOLLOUT \<noteq> 0 \<longleftrightarrow> bit ev 2"
proof
  show "ev AND EPOLLOUT \<noteq> 0 \<Longrightarrow> bit ev 2"
    by (rule ccontr, erule notE, rule bit_word_eqI) (auto simp: bit_and_iff bit_EPOLLOUT)
  assume "bit ev 2"
  then have "bit (ev AND EPOLLOUT) 2" by (simp add: bit_and_iff bit_EPOLLOUT)
  then show "ev AND EPOLLOUT \<noteq> 0" by (metis bit_0_eq bot_apply bot_bool_def)
qed

lemma WriteAble_OR: "Channel_WriteAble c \<Longrightarrow> events c OR EPOLLOUT = events c"
  by (rule bit_word_eqI) (auto simp: Channel_WriteAble_def AND_EPOLLOUT bit_or_iff bit_EPOLLOUT)

lemma SendInLoop_eq:
  assumes "objects s a = Some c" "statu c \<noteq> DISCONNECTED" "channels s (sockfd c) \<noteq> None"
    "Buffer_WriteBufferAndPush (out_buffer c) d = Inr out"
  shows "Connection_SendInLoop d a s = Inr (s\<lparr>objects := (objects s)(a \<mapsto>
      c\<lparr>out_buffer := out, events := events c OR EPOLLOUT\<rparr>),
    trace := trace s @ (if Channel_WriteAble c then [] else [Epoll_ctl EPOLL_CTL_MOD (sockfd c) (events c OR EPOLLOUT)])\<rparr>)"
proof (cases "Channel_WriteAble c")
  case True
  with WriteAble_OR [OF True] assms(1,2,4) show ?thesis
    by (simp add: Connection_SendInLoop_def with_conn_Some put_conn_def)
next
  case False
  with assms show ?thesis
    by (auto simp: Connection_SendInLoop_def with_conn_Some put_conn_def emit_def Channel_EnableWrite_def
        Channel_set_events_def Poller_UpdateEvent_def Poller_HasChannel_def)
qed

lemma ShutdownInLoop_pending:
  assumes "objects s a = Some c" "Buffer_ReadAbleSize (in_buffer c) = 0"
    "Buffer_ReadAbleSize (out_buffer c) \<noteq> 0" "Channel_WriteAble c"
  shows "Connection_ShutdownInLoop cbs a s = Inr (put_conn a (c\<lparr>statu := DISCONNECTING\<rparr>) s)"
  using assms by (simp add: Connection_ShutdownInLoop_def with_conn_Some Channel_WriteAble_def)

lemma ShutdownInLoop_idle:
  assumes "objects s a = Some c" "Buffer_ReadAbleSize (in_buffer c) = 0" "Buffer_ReadAbleSize (out_buffer c) = 0"
  shows "Connection_ShutdownInLoop cbs a s = Connection_ReleaseInLoop cbs a (put_conn a (c\<lparr>statu := DISCONNECTING\<rparr>) s)"
  using assms by (simp add: Connection_ShutdownInLoop_def with_conn_Some)

lemma OnMessage_eq:
  assumes c: "objects s a = Some c" "statu c \<noteq> DISCONNECTED" "channels s (sockfd c) \<noteq> None"
    and ok: "Buffer_ok (in_buffer c)" "Buffer_ok (out_buffer c)"
      "length (buffer (out_buffer c)) + 11 \<le> vec_max_size"
    and logged: "log_message (in_buffer c) = Inr m"
  obtains b out where "EchoServer_OnMessage cbs a s = Inr (answered a c b out s)"
    "Buffer_ok b" "readable b = []" "buffer b = buffer (in_buffer c)"
    "Buffer_ok out" "readable out = readable (out_buffer c) @ echo_str"
    "length (buffer out) \<le> length (buffer (out_buffer c)) + 11"
proof -
  obtain b where b: "Buffer_MoveReadOffset (in_buffer c) (Buffer_ReadAbleSize (in_buffer c)) = Inr b"
    "Buffer_ok b" "readable b = []" "buffer b = buffer (in_buffer c)"
    by (rule MoveReadOffset_ok [OF ok(1), of "Buffer_ReadAbleSize (in_buffer c)"])
      (simp_all add: length_readable [OF ok(1)])
  obtain d where d: "Buffer_WriteAndPush Buffer_new echo_str (of_nat (length echo_str)) = Inr d"
    "Buffer_ok d" "readable d = echo_str"
    by (rule WriteAndPush_ok [OF Buffer_ok_new, of "of_nat (length echo_str)" "echo_str"])
      (simp_all add: vec_max_size_def)
  obtain out where out: "Buffer_WriteBufferAndPush (out_buffer c) d = Inr out" "Buffer_ok out"
    "readable out = readable (out_buffer c) @ echo_str"
    "length (buffer out) \<le> length (buffer (out_buffer c)) + 11"
    by (rule WriteBufferAndPush_ok [OF ok(2) d(2)]) (use ok(3) d(3) in simp_all)
  have sizes: "Buffer_ReadAbleSize b = 0" "Buffer_ReadAbleSize out \<noteq> 0"
    using ReadAbleSize_0_iff [OF b(2)] ReadAbleSize_0_iff [OF out(2)] b(3) out(3) by simp_all
  let ?c = "c\<lparr>in_buffer := b, out_buffer := out, events := events c OR EPOLLOUT\<rparr>"
  let ?s = "s\<lparr>objects := (objects s)(a \<mapsto> ?c), trace := trace s @ (if Channel_WriteAble c then [] else
    [Epoll_ctl EPOLL_CTL_MOD (sockfd c) (events c OR EPOLLOUT)])\<rparr>"
  have send: "Connection_SendInLoop d a (put_conn a (c\<lparr>in_buffer := b\<rparr>) s) = Inr ?s"
    using SendInLoop_eq [of "put_conn a (c\<lparr>in_buffer := b\<rparr>) s" a "c\<lparr>in_buffer := b\<rparr>" d out] c out(1)
    by (simp add: put_conn_def Channel_WriteAble_def)
  have "Connection_ShutdownInLoop cbs a ?s = Inr (put_conn a (?c\<lparr>statu := DISCONNECTING\<rparr>) ?s)"
    by (rule ShutdownInLoop_pending) (simp_all add: sizes Channel_WriteAble_def)
  then have "EchoServer_OnMessage cbs a s = Inr (answered a c b out s)"
    using c(1) b(1) d(1) send logged
    by (simp add: EchoServer_OnMessage_def Connection_Send_def with_conn_Some answered_def put_conn_def)
  with b out that show ?thesis by blast
qed

section \<open>Invariant\<close>

text \<open>
  A live connection is owned by \<open>_conns\<close> alone, its descriptor is open and watched through its
  own channel, its input is consumed, and it is being closed exactly when an answer waits to
  be sent, in which case it watches for writability. Its timer, if any, will release it.
\<close>

definition idle :: "Connection \<Rightarrow> bool" where
  "idle c \<longleftrightarrow> readable (out_buffer c) = []"

definition timer_ok :: "Server \<Rightarrow> nat \<Rightarrow> u64 \<Rightarrow> bool \<Rightarrow> bool" where
  "timer_ok s a i enabled \<longleftrightarrow>
     (if enabled
      then \<exists>p t. timers s i = Some p \<and> tasks s p = Some t \<and> \<not> cancelled t \<and> task_cb t = Release a
      else timers s i = None)"

definition conn_ok :: "Server \<Rightarrow> nat \<Rightarrow> Connection \<Rightarrow> bool" where
  "conn_ok s a c \<longleftrightarrow>
     conns s (conn_id c) = Some a \<and> shared c = 1 \<and> socket c = sockfd c \<and> 0 \<le> sockfd c
     \<and> channels s (sockfd c) = Some (Conn_Channel a) \<and> a < next_object s
     \<and> uint (conn_id c) < 2 ^ 31 \<and> conn_id c \<le> srv_conn_id s
     \<and> Buffer_ok (in_buffer c) \<and> readable (in_buffer c) = [] \<and> Buffer_ok (out_buffer c)
     \<and> (if idle c then statu c = CONNECTED \<and> events c = EPOLLIN
        else statu c = DISCONNECTING \<and> events c = EPOLLIN OR EPOLLOUT)
     \<and> timer_ok s a (conn_id c) (enable_inactive_release c)"

definition task_ok :: "Server \<Rightarrow> callback TimerTask \<Rightarrow> bool" where
  "task_ok s t \<longleftrightarrow> task_id t \<le> srv_conn_id s \<and>
     (\<not> cancelled t \<longrightarrow> (case task_cb t of
        Release a \<Rightarrow> \<exists>c. objects s a = Some c \<and> conn_id c = task_id t | Task k \<Rightarrow> True))"

definition server_ok :: "Server \<Rightarrow> bool" where
  "server_ok s \<longleftrightarrow>
     wheel_ok s \<and> timeouts_ok s \<and> jobs s = []
     \<and> (srv_enable_inactive_release s \<longrightarrow> 1 \<le> srv_timeout s \<and> srv_timeout s \<le> 60)
     \<and> (\<forall>a c. objects s a = Some c \<longrightarrow> conn_ok s a c)
     \<and> (\<forall>k a. conns s k = Some a \<longrightarrow> (\<exists>c. objects s a = Some c \<and> conn_id c = k))
     \<and> (\<forall>fd a. channels s fd = Some (Conn_Channel a) \<longrightarrow> (\<exists>c. objects s a = Some c \<and> sockfd c = fd))
     \<and> (\<forall>p t. tasks s p = Some t \<longrightarrow> task_ok s t)"

lemma server_okD:
  assumes "server_ok s"
  shows "wheel_ok s" "timeouts_ok s" "jobs s = []"
    "srv_enable_inactive_release s \<Longrightarrow> 1 \<le> srv_timeout s \<and> srv_timeout s \<le> 60"
    "objects s a = Some c \<Longrightarrow> conn_ok s a c"
    "conns s k = Some a \<Longrightarrow> \<exists>c. objects s a = Some c \<and> conn_id c = k"
    "channels s fd = Some (Conn_Channel a) \<Longrightarrow> \<exists>c. objects s a = Some c \<and> sockfd c = fd"
    "tasks s p = Some t \<Longrightarrow> task_ok s t"
  using assms by (auto simp: server_ok_def)

lemma conn_okD:
  assumes "conn_ok s a c"
  shows "conns s (conn_id c) = Some a" "shared c = 1" "socket c = sockfd c" "0 \<le> sockfd c"
    "channels s (sockfd c) = Some (Conn_Channel a)" "a < next_object s"
    "uint (conn_id c) < 2 ^ 31" "conn_id c \<le> srv_conn_id s"
    "Buffer_ok (in_buffer c)" "readable (in_buffer c) = []" "Buffer_ok (out_buffer c)"
    "idle c \<Longrightarrow> statu c = CONNECTED \<and> events c = EPOLLIN"
    "\<not> idle c \<Longrightarrow> statu c = DISCONNECTING \<and> events c = EPOLLIN OR EPOLLOUT"
    "statu c \<noteq> DISCONNECTED"
    "socket c \<noteq> - 1"
  using assms by (auto simp: conn_ok_def split: if_splits)

text \<open>Only the object of one connection and the trace change.\<close>

lemma wheel_ok_cong:
  assumes "tick s = tick s'" "wheel s = wheel s'" "timers s = timers s'" "tasks s = tasks s'" "next_task s = next_task s'"
  shows "wheel_ok s = wheel_ok s'" "timeouts_ok s = timeouts_ok s'" "alarms s = alarms s'"
proof -
  show "wheel_ok s = wheel_ok s'" using assms by (simp add: wheel_ok_def refs_def)
  have due: "due s = due s'" using assms by (simp add: due_def fun_eq_iff)
  then show "timeouts_ok s = timeouts_ok s'" using assms by (simp add: timeouts_ok_def)
  show "alarms s = alarms s'" using assms due by (simp add: fun_eq_iff alarms_def split: option.split)
qed

lemma server_ok_conn:
  assumes "server_ok s" "objects s a = Some c" "conn_ok s a c'" "conn_id c' = conn_id c" "sockfd c' = sockfd c"
  shows "server_ok (s\<lparr>objects := (objects s)(a \<mapsto> c'), trace := tr\<rparr>)" (is "server_ok ?s")
proof -
  note d = server_okD [OF assms(1)]
  have conn: "conn_ok ?s b x = conn_ok s b x" for b x by (simp add: conn_ok_def timer_ok_def)
  have task: "task_ok s t \<Longrightarrow> task_ok ?s t" for t
    using assms by (auto simp: task_ok_def split: callback.splits)
  have wheel: "wheel_ok ?s" "timeouts_ok ?s"
    using d(1,2) wheel_ok_cong(1,2) [of ?s s] by simp_all
  show ?thesis
    unfolding server_ok_def
  proof (intro conjI allI impI)
    fix b x assume "objects ?s b = Some x"
    then show "conn_ok ?s b x" unfolding conn using assms(3) d(5) by (auto split: if_splits)
  next
    fix k b assume "conns ?s k = Some b"
    then obtain x where "objects s b = Some x" "conn_id x = k" using d(6) by auto
    then show "\<exists>x. objects ?s b = Some x \<and> conn_id x = k" using assms(2,4) by (cases "b = a") auto
  next
    fix fd b assume "channels ?s fd = Some (Conn_Channel b)"
    then obtain x where "objects s b = Some x" "sockfd x = fd" using d(7) by auto
    then show "\<exists>x. objects ?s b = Some x \<and> sockfd x = fd" using assms(2,5) by (cases "b = a") auto
  next
    fix p t assume "tasks ?s p = Some t"
    then show "task_ok ?s t" using d(8) task by simp
  qed (use d(3,4) wheel in simp_all)
qed

lemma cancel_wheel:
  assumes "wheel_ok s"
  shows "TimerWheel_TimerCancelInLoop i s = Inr (s\<lparr>tasks := cancelled_tasks i s\<rparr>)"
    and "wheel_ok (s\<lparr>tasks := cancelled_tasks i s\<rparr>)"
    and "timeouts_ok s \<Longrightarrow> timeouts_ok (s\<lparr>tasks := cancelled_tasks i s\<rparr>)"
proof -
  show run: "TimerWheel_TimerCancelInLoop i s = Inr (s\<lparr>tasks := cancelled_tasks i s\<rparr>)"
    by (rule TimerCancel_eq) (use wheel_okD(3) [OF assms] in blast)
  obtain w' where "TimerWheel_TimerCancelInLoop i s = Inr w'" "wheel_ok w'" "timeouts_ok s \<Longrightarrow> timeouts_ok w'"
    using cancel_refines [OF assms, of i] by metis
  with run show "wheel_ok (s\<lparr>tasks := cancelled_tasks i s\<rparr>)"
    "timeouts_ok s \<Longrightarrow> timeouts_ok (s\<lparr>tasks := cancelled_tasks i s\<rparr>)" by simp_all
qed

lemma cancelled_tasks_other:
  assumes "wheel_ok s" "tasks s p = Some t" "task_id t \<noteq> i"
  shows "cancelled_tasks i s p = Some t"
  using wheel_okD(6) [OF assms(1)] assms(2,3) by (fastforce simp: cancelled_tasks_def split: option.splits)

lemma cancelled_tasks_SomeD:
  assumes "wheel_ok s" "cancelled_tasks i s p = Some t"
  obtains t0 where "tasks s p = Some t0" "task_id t = task_id t0" "task_cb t = task_cb t0"
    "if task_id t0 = i then cancelled t else t = t0"
proof -
  have "p \<in> refs s" "timers s (task_id t0) = Some p" if "tasks s p = Some t0" for t0
    using wheel_okD(4,7) [OF assms(1)] that by blast+
  then show ?thesis
    using that assms(2) wheel_okD(6) [OF assms(1)]
    by (fastforce simp: cancelled_tasks_def split: option.splits if_splits)
qed

lemma server_ok_released:
  assumes ok: "server_ok s" and a: "objects s a = Some c0" "conn_id c = conn_id c0" "sockfd c = sockfd c0"
  shows "server_ok (released a c s\<lparr>trace := tr\<rparr>)" (is "server_ok ?s")
proof -
  note d = server_okD [OF ok]
  note ca = conn_okD [OF d(5) [OF a(1)]]
  note w = cancel_wheel [OF d(1), of "conn_id c"]
  have sel: "objects ?s = (objects s)(a := None)" "conns ?s = (conns s)(conn_id c := None)"
    "channels ?s = (channels s)(sockfd c := None)" "tasks ?s = cancelled_tasks (conn_id c) s"
    "timers ?s = timers s" "next_object ?s = next_object s" "srv_conn_id ?s = srv_conn_id s"
    "srv_enable_inactive_release ?s = srv_enable_inactive_release s" "srv_timeout ?s = srv_timeout s" "jobs ?s = jobs s"
    by (simp_all add: released_def)
  have wheel: "wheel_ok ?s" "timeouts_ok ?s"
    using w(2) w(3) [OF d(2)] wheel_ok_cong(1,2) [of ?s "s\<lparr>tasks := cancelled_tasks (conn_id c) s\<rparr>"]
    by (simp_all add: released_def)
  have other: "conn_id x \<noteq> conn_id c \<and> sockfd x \<noteq> sockfd c" if "objects s b = Some x" "b \<noteq> a" for b x
    using conn_okD(1,5) [OF d(5) [OF that(1)]] ca(1,5) a that(2) by auto
  show ?thesis
    unfolding server_ok_def sel
  proof (intro conjI allI impI)
    fix b x assume b: "((objects s)(a := None)) b = Some x"
    then have x: "objects s b = Some x" "b \<noteq> a" by (auto split: if_splits)
    have "tasks s p = Some t \<Longrightarrow> timers s (conn_id x) = Some p \<Longrightarrow> cancelled_tasks (conn_id c) s p = Some t" for p t
      using cancelled_tasks_other [OF d(1)] wheel_okD(6) [OF d(1)] other [OF x] by (metis option.inject)
    then show "conn_ok ?s b x"
      using d(5) [OF x(1)] other [OF x] unfolding conn_ok_def timer_ok_def sel by (auto split: if_splits)
  next
    fix k b assume "((conns s)(conn_id c := None)) k = Some b"
    then show "\<exists>x. ((objects s)(a := None)) b = Some x \<and> conn_id x = k"
      using d(6) [of k b] a by (auto split: if_splits)
  next
    fix fd b assume "((channels s)(sockfd c := None)) fd = Some (Conn_Channel b)"
    then show "\<exists>x. ((objects s)(a := None)) b = Some x \<and> sockfd x = fd"
      using d(7) [of fd b] a by (auto split: if_splits)
  next
    fix p t assume "cancelled_tasks (conn_id c) s p = Some t"
    then obtain t0 where t0: "tasks s p = Some t0" "task_id t = task_id t0" "task_cb t = task_cb t0"
      "if task_id t0 = conn_id c then cancelled t else t = t0" by (rule cancelled_tasks_SomeD [OF d(1)])
    with d(8) [OF t0(1)] a show "task_ok ?s t"
      by (auto simp: task_ok_def sel split: callback.splits if_splits)
  qed (use d wheel in auto)
qed

section \<open>Read and write events\<close>

lemma HandleRead_none:
  assumes "objects s a = Some c" "Buffer_ReadAbleSize (in_buffer c) = 0" "Socket_Recv ans = Some []"
  shows "Connection_HandleRead cbs ans a s = Inr s"
  using assms put_conn_same [OF assms(1)]
  by (simp add: Connection_HandleRead_def with_conn_Some Buffer_WriteAndPush_def)

definition fits :: "Connection \<Rightarrow> nat \<Rightarrow> bool" where
  "fits c n \<longleftrightarrow> length (buffer (in_buffer c)) + n \<le> vec_max_size \<and> length (buffer (out_buffer c)) + 11 \<le> vec_max_size"

text \<open>
  A received request can be logged: once it is stored, a NUL follows in the buffer. On a
  connection's first request this means that it has less than 1024 bytes, the size of a new
  buffer, or contains a NUL.
\<close>

definition terminated :: "Connection \<Rightarrow> char list \<Rightarrow> bool" where
  "terminated c bs \<longleftrightarrow>
     (case Buffer_WriteAndPush (in_buffer c) bs (of_nat (length bs)) of
        Inr b \<Rightarrow> (case log_message b of Inr _ \<Rightarrow> True | Inl _ \<Rightarrow> False) | Inl _ \<Rightarrow> False)"

lemma WriteAndPush_new:
  assumes "bs \<noteq> []" "1024 + length bs \<le> vec_max_size"
  shows "Buffer_WriteAndPush Buffer_new bs (of_nat (length bs))
    = Inr \<lparr>buffer = bs @ replicate (1024 - length bs) (CHR 0x00), reader_idx = 0, writer_idx = of_nat (length bs)\<rparr>"
proof -
  have len: "unat (of_nat (length bs) :: u64) = length bs"
    using assms(2) by (intro unat_of_nat_le) (simp add: vec_max_size_def)
  then have nz: "(of_nat (length bs) :: u64) \<noteq> 0" using assms(1) by (metis length_0_conv unat_0)
  let ?n = "of_nat (length bs) :: u64"
  have le: "?n \<le> 1024 \<longleftrightarrow> length bs \<le> 1024" by (simp add: word_le_nat_alt len)
  let ?b = "\<lparr>buffer = replicate (max 1024 (length bs)) (CHR 0x00), reader_idx = 0, writer_idx = 0\<rparr>"
  have room: "Buffer_EnsureWriteSpace Buffer_new ?n = Inr ?b"
    using assms(2) len nz le
    by (auto simp: Buffer_EnsureWriteSpace_def Buffer_new_def Buffer_TailIdleSize_def Buffer_HeadIdleSize_def
        vec_resize_def max_def replicate_add [symmetric])
  have "Buffer_Write Buffer_new bs ?n = Inr (?b\<lparr>buffer := bs @ replicate (1024 - length bs) (CHR 0x00)\<rparr>)"
    using room nz len by (auto simp: Buffer_Write_def copy_out_def copy_in_def overwrite_def max_def)
  moreover have "?n \<le> of_nat (max 1024 (length bs))"
    using assms(2) by (simp add: word_le_nat_alt len unat_of_nat_le vec_max_size_def max_def)
  ultimately show ?thesis
    using nz by (simp add: Buffer_WriteAndPush_def Buffer_MoveWriteOffset_def Buffer_TailIdleSize_def max_def split: if_splits)
qed

lemma terminated_first:
  assumes "in_buffer c = Buffer_new" "bs \<noteq> []" "1024 + length bs \<le> vec_max_size"
  shows "terminated c bs \<longleftrightarrow> length bs < 1024 \<or> CHR 0x00 \<in> set bs"
  using WriteAndPush_new [OF assms(2,3)] assms(1) by (auto simp: terminated_def log_message_def)

lemma HandleRead_data:
  assumes ok: "server_ok s" and c: "objects s a = Some c"
    and bs: "Socket_Recv ans = Some bs" "bs \<noteq> []" "fits c (length bs)" "terminated c bs"
  obtains c' tr where "Connection_HandleRead (EchoServer_handlers (Suc n)) ans a s
      = Inr (s\<lparr>objects := (objects s)(a \<mapsto> c'), trace := trace s @ tr\<rparr>)"
    "conn_ok s a c'" "conn_id c' = conn_id c" "sockfd c' = sockfd c" "revents c' = revents c"
    "readable (out_buffer c') = readable (out_buffer c) @ echo_str"
    "set tr \<subseteq> {Epoll_ctl EPOLL_CTL_MOD (sockfd c) (EPOLLIN OR EPOLLOUT)}"
    "length (buffer (in_buffer c')) \<le> length (buffer (in_buffer c)) + length bs"
    "length (buffer (out_buffer c')) \<le> length (buffer (out_buffer c)) + 11"
proof -
  note co = conn_okD [OF server_okD(5) [OF ok c]]
  have len: "unat (of_nat (length bs) :: u64) = length bs"
    using bs(3) by (intro unat_of_nat_le) (simp add: fits_def vec_max_size_def)
  obtain b where b: "Buffer_WriteAndPush (in_buffer c) bs (of_nat (length bs)) = Inr b" "Buffer_ok b"
    "readable b = readable (in_buffer c) @ take (unat (of_nat (length bs) :: u64)) bs"
    "length (buffer b) \<le> length (buffer (in_buffer c)) + unat (of_nat (length bs) :: u64)"
    by (rule WriteAndPush_ok [OF co(9), of "of_nat (length bs)" bs]) (use bs(3) len in \<open>simp_all add: fits_def\<close>)
  have pos: "0 < Buffer_ReadAbleSize b"
    using ReadAbleSize_0_iff [OF b(2)] b(3) bs(2) len by (simp add: word_neq_0_conv)
  obtain msg where msg: "log_message b = Inr msg"
    using bs(4) b(1) by (auto simp: terminated_def split: sum.splits)
  let ?c1 = "c\<lparr>in_buffer := b, shared := 2\<rparr>" and ?s1 = "put_conn a (c\<lparr>in_buffer := b, shared := 2\<rparr>) s"
  have "channels ?s1 (sockfd ?c1) \<noteq> None" using co(5) by simp
  then obtain b' out where m:
    "EchoServer_OnMessage (EchoServer_handlers n) a ?s1 = Inr (answered a ?c1 b' out ?s1)"
    "Buffer_ok b'" "readable b' = []" "buffer b' = buffer b" "Buffer_ok out"
    "readable out = readable (out_buffer c) @ echo_str" "length (buffer out) \<le> length (buffer (out_buffer c)) + 11"
    using OnMessage_eq [of ?s1 a ?c1 msg "EchoServer_handlers n"] co(11,14) b(2) bs(3) msg by (auto simp: fits_def)
  have ev: "events c OR EPOLLOUT = EPOLLIN OR EPOLLOUT"
    using co(12,13) by (cases "idle c") (simp_all add: or.assoc)
  let ?c' = "c\<lparr>in_buffer := b', out_buffer := out, events := events c OR EPOLLOUT, statu := DISCONNECTING, shared := 1\<rparr>"
  let ?tr = "if Channel_WriteAble c then [] else [Epoll_ctl EPOLL_CTL_MOD (sockfd c) (events c OR EPOLLOUT)]"
  have "Connection_HandleRead (EchoServer_handlers (Suc n)) ans a s
      = bind_res (EchoServer_OnMessage (EchoServer_handlers n) a ?s1) (unshare a)"
    using c bs(1) b(1) pos co(2)
    by (simp add: Connection_HandleRead_def with_conn_Some call_or_throw_def call_shared_def share_def numeral_2_eq_2)
  also have "\<dots> = Inr (s\<lparr>objects := (objects s)(a \<mapsto> ?c'), trace := trace s @ ?tr\<rparr>)"
    using m(1) co(2) by (simp add: answered_def unshare_def with_conn_Some put_conn_def Channel_WriteAble_def)
  finally have run: "Connection_HandleRead (EchoServer_handlers (Suc n)) ans a s
      = Inr (s\<lparr>objects := (objects s)(a \<mapsto> ?c'), trace := trace s @ ?tr\<rparr>)" .
  have "conn_ok s a ?c'"
    using server_okD(5) [OF ok c] m ev by (simp add: conn_ok_def idle_def)
  then show ?thesis by (rule that [OF run]) (use m b(4) len ev in simp_all)
qed

lemma HandleClose_eq:
  assumes ok: "server_ok s" and c: "objects s a = Some c"
  shows "Connection_HandleClose (EchoServer_handlers n) a s = Inr (released a c s)"
proof -
  note co = conn_okD [OF server_okD(5) [OF ok c]]
  have "Connection_ReleaseInLoop (EchoServer_handlers n) a s = Inr (released a c s)"
    by (rule ReleaseInLoop_eq [OF c co(2,1,7,15)])
      (use wheel_okD(3) [OF server_okD(1) [OF ok]] in \<open>auto simp del: EchoServer_handlers.simps\<close>)
  then show ?thesis
    using c co(9,10) ReadAbleSize_0_iff [OF co(9)]
    by (simp add: Connection_HandleClose_def with_conn_Some)
qed

lemma EPOLL_AND_NOT [simp]:
  "EPOLLIN AND NOT EPOLLOUT = EPOLLIN" "(EPOLLIN OR EPOLLOUT) AND NOT EPOLLOUT = EPOLLIN"
  by (simp_all add: epoll_flags)

text \<open>The socket takes a part of the answer.\<close>

lemma HandleWrite_part:
  assumes ok: "server_ok s" and c: "objects s a = Some c"
    and n: "n < length (readable (out_buffer c))" "n < 2 ^ 31"
  obtains out where "Connection_HandleWrite cbs (Send_accepts n) a s
      = Inr (s\<lparr>objects := (objects s)(a \<mapsto> c\<lparr>out_buffer := out\<rparr>),
          trace := trace s @ [Sent (sockfd c) (take n (readable (out_buffer c)))]\<rparr>)"
    "conn_ok s a (c\<lparr>out_buffer := out\<rparr>)" "readable out = drop n (readable (out_buffer c))"
    "buffer out = buffer (out_buffer c)"
proof -
  note co = conn_okD [OF server_okD(5) [OF ok c]]
  have un: "unat (of_nat n :: u64) = n" using n(2) by (intro unat_of_nat_le) simp
  obtain out where out: "Buffer_MoveReadOffset (out_buffer c) (of_nat n) = Inr out" "Buffer_ok out"
    "readable out = drop (unat (of_nat n :: u64)) (readable (out_buffer c))" "buffer out = buffer (out_buffer c)"
    by (rule MoveReadOffset_ok [OF co(11), of "of_nat n"]) (use n un in simp_all)
  have ne: "Buffer_ReadAbleSize out \<noteq> 0"
    using ReadAbleSize_0_iff [OF out(2)] out(3) un n(1) by simp
  have ret: "to_int32 (int n) = int n" using n(2) by (intro to_int32_small) simp_all
  have "Connection_HandleWrite cbs (Send_accepts n) a s
      = Inr (s\<lparr>objects := (objects s)(a \<mapsto> c\<lparr>out_buffer := out\<rparr>),
          trace := trace s @ [Sent (sockfd c) (take n (readable (out_buffer c)))]\<rparr>)"
    using c out(1) ne ret copy_out_readable [OF co(11)] co(3)
    by (simp add: Connection_HandleWrite_def with_conn_Some Socket_Send_def Let_def put_conn_def emit_def)
  moreover have "conn_ok s a (c\<lparr>out_buffer := out\<rparr>)"
    using server_okD(5) [OF ok c] out un n(1) by (simp add: conn_ok_def idle_def split: if_splits)
  ultimately show ?thesis using that out un by simp
qed

text \<open>The socket takes the rest of the answer, and the connection is released.\<close>

lemma HandleWrite_last:
  assumes ok: "server_ok s" and c: "objects s a = Some c"
    and n: "n = length (readable (out_buffer c))" "\<not> idle c" "n < 2 ^ 31"
  shows "Connection_HandleWrite (EchoServer_handlers k) (Send_accepts n) a s
      = Inr (released a c s\<lparr>trace := trace s @ [Sent (sockfd c) (readable (out_buffer c)),
          Epoll_ctl EPOLL_CTL_MOD (sockfd c) EPOLLIN, Epoll_ctl EPOLL_CTL_DEL (sockfd c) EPOLLIN,
          Close (sockfd c), Called_closed (conn_id c), Destroyed (conn_id c)]\<rparr>)"
proof -
  note d = server_okD [OF ok]
  note co = conn_okD [OF d(5) [OF c]]
  have un: "unat (of_nat n :: u64) = n" using n(3) by (intro unat_of_nat_le) simp
  obtain out where out: "Buffer_MoveReadOffset (out_buffer c) (of_nat n) = Inr out" "Buffer_ok out"
    "readable out = drop (unat (of_nat n :: u64)) (readable (out_buffer c))"
    by (rule MoveReadOffset_ok [OF co(11), of "of_nat n"]) (use n un in simp_all)
  have sz: "Buffer_ReadAbleSize out = 0"
    using ReadAbleSize_0_iff [OF out(2)] out(3) un n(1) by simp
  have ret: "to_int32 (int n) = int n" using n(3) by (intro to_int32_small) simp_all
  let ?c = "c\<lparr>out_buffer := out, events := EPOLLIN\<rparr>"
  let ?s = "s\<lparr>objects := (objects s)(a \<mapsto> ?c), trace := trace s @ [Sent (sockfd c) (readable (out_buffer c)),
    Epoll_ctl EPOLL_CTL_MOD (sockfd c) EPOLLIN]\<rparr>"
  have "Connection_HandleWrite (EchoServer_handlers k) (Send_accepts n) a s
      = Connection_ReleaseInLoop (EchoServer_handlers k) a ?s"
    using c out(1) sz ret copy_out_readable [OF co(11)] co(3,5) co(13) [OF n(2)] n(1)
    by (simp add: Connection_HandleWrite_def with_conn_Some Socket_Send_def Let_def put_conn_def emit_def
        Channel_DisableWrite_def Channel_set_events_def Poller_UpdateEvent_def Poller_HasChannel_def)
  also have "\<dots> = Inr (released a ?c ?s)"
    by (rule ReleaseInLoop_eq) (use co wheel_okD(3) [OF d(1)] in \<open>auto simp: refs_def\<close>)
  also have "cancelled_tasks (conn_id c) ?s = cancelled_tasks (conn_id c) s" by (rule cancelled_tasks_cong) simp_all
  then have "released a ?c ?s = released a c s\<lparr>trace := trace s @ [Sent (sockfd c) (readable (out_buffer c)),
          Epoll_ctl EPOLL_CTL_MOD (sockfd c) EPOLLIN, Epoll_ctl EPOLL_CTL_DEL (sockfd c) EPOLLIN,
          Close (sockfd c), Called_closed (conn_id c), Destroyed (conn_id c)]\<rparr>"
    using co(3) by (simp add: released_def)
  finally show ?thesis .
qed

lemma server_ok_wheel:
  assumes "server_ok s" "wheel_ok (s\<lparr>wheel := ws\<rparr>)" "timeouts_ok (s\<lparr>wheel := ws\<rparr>)"
  shows "server_ok (s\<lparr>wheel := ws\<rparr>)"
proof -
  have "conn_ok (s\<lparr>wheel := ws\<rparr>) b x = conn_ok s b x" for b x by (simp add: conn_ok_def timer_ok_def)
  moreover have "task_ok (s\<lparr>wheel := ws\<rparr>) t = task_ok s t" for t
    by (simp add: task_ok_def split: callback.split)
  ultimately show ?thesis using assms by (simp add: server_ok_def)
qed

text \<open>Any event gives a connection with a timeout its full time again.\<close>

lemma HandleEvent_ok:
  assumes ok: "server_ok s" and c: "objects s a = Some c"
  obtains ws where "Connection_HandleEvent (EchoServer_handlers n) a s = Inr (s\<lparr>wheel := ws\<rparr>)"
    "server_ok (s\<lparr>wheel := ws\<rparr>)"
    "alarms (s\<lparr>wheel := ws\<rparr>) = (if enable_inactive_release c
       then (case alarms s (conn_id c) of None \<Rightarrow> alarms s | Some al \<Rightarrow> (alarms s)(conn_id c \<mapsto> al\<lparr>remaining := period al\<rparr>))
       else alarms s)"
proof (cases "enable_inactive_release c")
  case False
  then have "Connection_HandleEvent (EchoServer_handlers n) a s = Inr (s\<lparr>wheel := wheel s\<rparr>)"
    using c by (simp add: Connection_HandleEvent_def with_conn_Some call_if_def)
  with that [of "wheel s"] ok False show ?thesis by simp
next
  case True
  note d = server_okD [OF ok]
  obtain s' where s': "TimerWheel_TimerRefreshInLoop (conn_id c) s = Inr s'" "wheel_ok s'" "timeouts_ok s'"
    "alarms s' = (case alarms s (conn_id c) of None \<Rightarrow> alarms s | Some al \<Rightarrow> (alarms s)(conn_id c \<mapsto> al\<lparr>remaining := period al\<rparr>))"
    "TimerWheel.more s' = TimerWheel.more s"
    by (rule refresh_refines [OF d(1,2), of "conn_id c"])
  have eq: "s' = s\<lparr>wheel := wheel s'\<rparr>"
    using s'(1) by (auto simp: TimerWheel_TimerRefreshInLoop_def slot_push_def Let_def split: option.splits if_splits)
  have "Connection_HandleEvent (EchoServer_handlers n) a s = Inr s'"
    using c True s'(1) by (simp add: Connection_HandleEvent_def with_conn_Some call_if_def)
  then show ?thesis
    using that [of "wheel s'"] s'(2-4) server_ok_wheel [OF ok, of "wheel s'"] True eq by (metis (no_types, lifting))
qed

section \<open>A new connection\<close>

lemma srv_next:
  assumes "uint (srv_conn_id s) + 1 < 2 ^ 31"
  shows "uint (srv_conn_id s + 1) = uint (srv_conn_id s) + 1" "srv_conn_id s < srv_conn_id s + 1"
proof -
  show eq: "uint (srv_conn_id s + 1) = uint (srv_conn_id s) + 1"
    using assms by (simp add: uint_word_ariths)
  then show "srv_conn_id s < srv_conn_id s + 1" by (simp add: word_less_def)
qed

lemma server_ok_fresh_id:
  assumes "server_ok s" "srv_conn_id s < i"
  shows "timers s i = None" "conns s i = None"
proof -
  note d = server_okD [OF assms(1)]
  show "timers s i = None"
  proof (cases "timers s i")
    case (Some p)
    then obtain t where "tasks s p = Some t" "task_id t = i" using wheel_okD(6) [OF d(1)] by blast
    with d(8) assms(2) show ?thesis by (fastforce simp: task_ok_def)
  qed
  show "conns s i = None"
  proof (cases "conns s i")
    case (Some a)
    then obtain c where "objects s a = Some c" "conn_id c = i" using d(6) by blast
    with conn_okD(8) [OF d(5)] assms(2) show ?thesis by fastforce
  qed
qed

lemma server_ok_fresh_object: "server_ok s \<Longrightarrow> next_object s \<le> a \<Longrightarrow> objects s a = None"
  using server_okD(5) conn_okD(6) by (metis not_le option.exhaust)

definition accepted :: "nat \<Rightarrow> Connection \<Rightarrow> Server \<Rightarrow> Server" where
  "accepted a c s =
     s\<lparr>srv_conn_id := conn_id c, next_object := Suc a, objects := (objects s)(a \<mapsto> c),
       channels := (channels s)(sockfd c \<mapsto> Conn_Channel a), conns := (conns s)(conn_id c \<mapsto> a),
       trace := trace s @ [Epoll_ctl EPOLL_CTL_ADD (sockfd c) EPOLLIN, Called_connected (conn_id c)]\<rparr>"

definition new_conn :: "Server \<Rightarrow> int \<Rightarrow> bool \<Rightarrow> Connection" where
  "new_conn s fd e = (Connection_new (srv_conn_id s + 1) fd (srv_handlers s))
     \<lparr>statu := CONNECTED, events := EPOLLIN, enable_inactive_release := e\<rparr>"

lemma EsTablished_eq:
  assumes "objects s a = Some c" "statu c = CONNECTING" "channels s (sockfd c) = None" "events c = 0" "1 \<le> shared c"
  shows "Connection_EsTablishedInLoop (EchoServer_handlers n) a s
    = Inr (s\<lparr>objects := (objects s)(a \<mapsto> c\<lparr>statu := CONNECTED, events := EPOLLIN\<rparr>),
        channels := (channels s)(sockfd c \<mapsto> Conn_Channel a),
        trace := trace s @ [Epoll_ctl EPOLL_CTL_ADD (sockfd c) EPOLLIN, Called_connected (conn_id c)]\<rparr>)"
  using assms
  by (simp add: Connection_EsTablishedInLoop_def with_conn_Some put_conn_def emit_def call_if_def call_shared_def
      share_def unshare_def EchoServer_OnConnected_def Channel_EnableRead_def Channel_set_events_def
      Poller_UpdateEvent_def Poller_HasChannel_def)

lemma NewConnection_eq:
  assumes ok: "server_ok s" and fd: "channels s fd = None" and i: "uint (srv_conn_id s) + 1 < 2 ^ 31"
  shows "TcpServer_NewConnection (EchoServer_handlers n) fd s
    = Inr (accepted (next_object s) (new_conn s fd (srv_enable_inactive_release s))
        (if srv_enable_inactive_release s
         then TimerWheel_TimerAddInLoop (srv_conn_id s + 1) (word_of_int (srv_timeout s)) (Release (next_object s)) s
         else s))"
proof -
  let ?i = "srv_conn_id s + 1" and ?a = "next_object s"
  note fresh = server_ok_fresh_id [OF ok srv_next(2) [OF i]]
  let ?c = "Connection_new ?i fd (srv_handlers s)"
  let ?s1 = "put_conn ?a ?c (s\<lparr>srv_conn_id := ?i, next_object := Suc ?a\<rparr>)"
  let ?e = "srv_enable_inactive_release s"
  let ?w = "if ?e then TimerWheel_TimerAddInLoop ?i (word_of_int (srv_timeout s)) (Release ?a) s else s"
  let ?s2 = "put_conn ?a (?c\<lparr>enable_inactive_release := ?e\<rparr>) (?w\<lparr>srv_conn_id := ?i, next_object := Suc ?a\<rparr>)"
  have w: "objects ?w = objects s" "channels ?w = channels s" "conns ?w = conns s" "trace ?w = trace s"
    by (simp_all add: TimerWheel_TimerAddInLoop_def slot_push_def Let_def)
  have 1: "(if srv_enable_inactive_release ?s1 then Connection_EnableInactiveReleaseInLoop (srv_timeout ?s1) ?a ?s1
            else Inr ?s1) = Inr ?s2"
    using fresh(1)
    by (simp add: Connection_EnableInactiveReleaseInLoop_def with_conn_Some TimerWheel_HasTimer_def Connection_new_def)
      (simp add: TimerWheel_TimerAddInLoop_def slot_push_def Let_def put_conn_def)
  have 2: "Connection_EsTablishedInLoop (EchoServer_handlers n) ?a ?s2
    = Inr (?s2\<lparr>objects := (objects ?s2)(?a \<mapsto> new_conn s fd ?e),
        channels := (channels ?s2)(fd \<mapsto> Conn_Channel ?a),
        trace := trace ?s2 @ [Epoll_ctl EPOLL_CTL_ADD fd EPOLLIN, Called_connected ?i]\<rparr>)"
    using EsTablished_eq [of ?s2 ?a "?c\<lparr>enable_inactive_release := ?e\<rparr>" n] fd w
    by (simp add: Connection_new_def new_conn_def)
  show ?thesis
    unfolding TcpServer_NewConnection_def Let_def 1 bind_res_Inr 2
    using fresh(2) w
    by (simp add: share_def unshare_def with_conn_Some new_conn_def Connection_new_def put_conn_def accepted_def)
qed

lemma TimerAdd_sel:
  fixes s :: Server
  shows "timers (TimerWheel_TimerAddInLoop i t cb s) = (timers s)(i \<mapsto> next_task s)"
    "tasks (TimerWheel_TimerAddInLoop i t cb s)
      = (tasks s)(next_task s \<mapsto> \<lparr>task_id = i, timeout = t, task_cb = cb, cancelled = False\<rparr>)"
    "channels (TimerWheel_TimerAddInLoop i t cb s) = channels s" "jobs (TimerWheel_TimerAddInLoop i t cb s) = jobs s"
    "objects (TimerWheel_TimerAddInLoop i t cb s) = objects s" "conns (TimerWheel_TimerAddInLoop i t cb s) = conns s"
    "next_object (TimerWheel_TimerAddInLoop i t cb s) = next_object s"
    "srv_conn_id (TimerWheel_TimerAddInLoop i t cb s) = srv_conn_id s"
    "srv_timeout (TimerWheel_TimerAddInLoop i t cb s) = srv_timeout s"
    "srv_enable_inactive_release (TimerWheel_TimerAddInLoop i t cb s) = srv_enable_inactive_release s"
    "trace (TimerWheel_TimerAddInLoop i t cb s) = trace s"
  by (simp_all add: TimerWheel_TimerAddInLoop_def slot_push_def Let_def)

lemma server_ok_accepted:
  assumes ok: "server_ok s" and fd: "channels s fd = None" "0 \<le> fd" and i: "uint (srv_conn_id s) + 1 < 2 ^ 31"
  defines "a \<equiv> next_object s" and "c \<equiv> new_conn s fd (srv_enable_inactive_release s)"
    and "w \<equiv> (if srv_enable_inactive_release s
         then TimerWheel_TimerAddInLoop (srv_conn_id s + 1) (word_of_int (srv_timeout s)) (Release (next_object s)) s
         else s)"
  shows "server_ok (accepted a c w)" (is "server_ok ?s")
proof -
  note d = server_okD [OF ok]
  let ?i = "srv_conn_id s + 1" and ?e = "srv_enable_inactive_release s"
  note nxt = srv_next [OF i] and fresh = server_ok_fresh_id [OF ok srv_next(2) [OF i]]
  have obj: "objects s a = None" using server_ok_fresh_object [OF ok] by (simp add: a_def)
  have c: "conn_id c = ?i" "sockfd c = fd" "enable_inactive_release c = ?e"
    by (simp_all add: c_def new_conn_def Connection_new_def)
  have w: "channels w = channels s" "jobs w = jobs s" "objects w = objects s" "conns w = conns s"
    "srv_timeout w = srv_timeout s" "srv_enable_inactive_release w = ?e"
    "timers w = (if ?e then (timers s)(?i \<mapsto> next_task s) else timers s)"
    "tasks w = (if ?e then (tasks s)(next_task s \<mapsto> \<lparr>task_id = ?i, timeout = word_of_int (srv_timeout s),
        task_cb = Release a, cancelled = False\<rparr>) else tasks s)"
    by (simp_all add: w_def TimerAdd_sel a_def)
  have sel: "channels ?s = (channels s)(fd \<mapsto> Conn_Channel a)" "jobs ?s = jobs s"
    "objects ?s = (objects s)(a \<mapsto> c)" "conns ?s = (conns s)(?i \<mapsto> a)" "srv_conn_id ?s = ?i"
    "next_object ?s = Suc a" "srv_timeout ?s = srv_timeout s" "srv_enable_inactive_release ?s = ?e"
    "timers ?s = timers w" "tasks ?s = tasks w"
    by (simp_all add: accepted_def w c)
  have wheel: "wheel_ok ?s" "timeouts_ok ?s"
  proof -
    have "wheel_ok w \<and> timeouts_ok w"
    proof (cases ?e)
      case True
      let ?t = "word_of_int (srv_timeout s) :: u32"
      have "1 \<le> srv_timeout s" "srv_timeout s \<le> 60" using d(4) [OF True] by auto
      then have "uint ?t = srv_timeout s" by (simp add: unsigned_of_int take_bit_int_eq_self)
      then have "1 \<le> unat ?t" "unat ?t \<le> wheel_capacity"
        using \<open>1 \<le> srv_timeout s\<close> \<open>srv_timeout s \<le> 60\<close>
        by (simp_all add: wheel_capacity_def unat_eq_nat_uint del: unsigned_of_int)
      moreover from this have "unat ?t + wheel_capacity < 2 ^ 32" by (simp add: wheel_capacity_def)
      moreover have "\<not> TimerWheel_HasTimer ?i s" using fresh(1) by (simp add: TimerWheel_HasTimer_def)
      ultimately show ?thesis
        using add_refines(1,3) [OF d(1), of ?i ?t "Release (next_object s)"] d(2) True by (simp add: w_def)
    qed (use d(1,2) in \<open>simp add: w_def\<close>)
    then show "wheel_ok ?s" "timeouts_ok ?s"
      using wheel_ok_cong(1,2) [of ?s w] by (simp_all add: accepted_def)
  qed
  have tasks: "timers s j = Some p \<Longrightarrow> p < next_task s" for j p
    using wheel_okD(4-6) [OF d(1)] by blast
  have new: "conn_ok ?s a c"
    using Buffer_ok_new nxt i fd(2)
    by (auto simp: conn_ok_def sel c timer_ok_def w fresh(1))
      (simp_all add: c_def new_conn_def Connection_new_def idle_def)
  show ?thesis
    unfolding server_ok_def sel
  proof (intro conjI allI impI)
    fix b x assume "((objects s)(a \<mapsto> c)) b = Some x"
    then consider "b = a" "x = c" | "b \<noteq> a" "objects s b = Some x" by (auto split: if_splits)
    then show "conn_ok ?s b x"
    proof cases
      case 2
      note x = conn_okD [OF d(5) [OF 2(2)]]
      have "conn_id x \<noteq> ?i" "sockfd x \<noteq> fd" using x(1,5) fresh(2) fd(1) by auto
      moreover have "timer_ok s b (conn_id x) e \<Longrightarrow> conn_id x \<noteq> ?i \<Longrightarrow> timer_ok ?s b (conn_id x) e" for e
        using tasks [of "conn_id x"] by (auto simp: timer_ok_def sel w split: if_splits) (metis less_irrefl)
      moreover have "conn_id x \<le> ?i" using x(8) nxt(2) by simp
      moreover have "b < Suc a" using x(6) by (simp add: a_def)
      ultimately show ?thesis using d(5) [OF 2(2)] by (auto simp: conn_ok_def sel)
    qed (use new in simp)
  next
    fix k b assume "((conns s)(?i \<mapsto> a)) k = Some b"
    then show "\<exists>x. ((objects s)(a \<mapsto> c)) b = Some x \<and> conn_id x = k"
      using d(6) [of k b] obj c by (auto split: if_splits)
  next
    fix f b assume "((channels s)(fd \<mapsto> Conn_Channel a)) f = Some (Conn_Channel b)"
    then show "\<exists>x. ((objects s)(a \<mapsto> c)) b = Some x \<and> sockfd x = f"
      using d(7) [of f b] obj c by (auto split: if_splits)
  next
    fix p t assume "tasks w p = Some t"
    then consider "task_id t = ?i" "task_cb t = Release a" | "tasks s p = Some t"
      by (auto simp: w split: if_splits)
    then show "task_ok ?s t"
    proof cases
      case 2
      then show ?thesis
        using d(8) [OF 2] nxt(2) obj by (auto simp: task_ok_def sel split: callback.splits)
    qed (simp add: task_ok_def sel c)
  qed (use d(3,4) wheel in auto)
qed

section \<open>Timer callbacks\<close>

text \<open>
  The callbacks of the server keep the contract of the timer wheel: \<open>ReleaseInLoop\<close>, called
  from the destructor of the connection's own task, finds the registry entry of the task but no
  live task behind it, so it leaves the wheel alone.
\<close>

definition view :: "unit Server_ext \<Rightarrow> Server" where
  "view z = TimerWheel.extend TimerWheel_new z"

definition timer_effect :: "callback \<Rightarrow> unit Server_ext \<Rightarrow> unit Server_ext" where
  "timer_effect cb z = TimerWheel.more (case cb of
     Release a \<Rightarrow> (case objects (view z) a of None \<Rightarrow> view z | Some c \<Rightarrow> released a c (view z))
   | Task k \<Rightarrow> emit (Called_task k) (view z))"

definition releasable :: "nat \<Rightarrow> u64 \<Rightarrow> Server \<Rightarrow> bool" where
  "releasable a i s \<longleftrightarrow> (\<exists>c. objects s a = Some c \<and> conn_id c = i \<and> shared c = 1 \<and> socket c \<noteq> - 1
     \<and> uint i < 2 ^ 31 \<and> conns s i = Some a)"

definition labelled_task :: "callback TimerTask \<Rightarrow> unit Server_ext \<Rightarrow> bool" where
  "labelled_task t z \<longleftrightarrow> (case task_cb t of Release a \<Rightarrow> releasable a (task_id t) (view z) | Task k \<Rightarrow> True)"

lemma view_sel:
  "objects (view (TimerWheel.more s)) = objects s" "conns (view (TimerWheel.more s)) = conns s"
  "channels (view (TimerWheel.more s)) = channels s" "trace (view (TimerWheel.more s)) = trace s"
  "jobs (view (TimerWheel.more s)) = jobs s" "next_object (view (TimerWheel.more s)) = next_object s"
  "srv_conn_id (view (TimerWheel.more s)) = srv_conn_id s" "srv_timeout (view (TimerWheel.more s)) = srv_timeout s"
  "srv_enable_inactive_release (view (TimerWheel.more s)) = srv_enable_inactive_release s"
  "srv_handlers (view (TimerWheel.more s)) = srv_handlers s"
  by (cases s; simp add: view_def TimerWheel.defs)+

lemma view_more [simp]: "TimerWheel.more (view z) = z"
  by (simp add: view_def TimerWheel.defs)

lemma released_frame:
  assumes "\<And>p. timers s (conn_id c) = Some p \<Longrightarrow> p \<notin> refs s"
  shows "released a c s = TimerWheel.more_update (\<lambda>z. TimerWheel.more (released a c (view z))) s"
proof -
  have "cancelled_tasks (conn_id c) s = tasks s"
    using assms by (auto simp: cancelled_tasks_def split: option.split)
  moreover have "cancelled_tasks (conn_id c) (view z) = tasks (view z)" for z
    by (simp add: cancelled_tasks_def view_def TimerWheel_new_def TimerWheel.defs)
  ultimately show ?thesis
    by (cases s) (simp add: released_def view_def TimerWheel.defs)
qed

lemma timer_exec_frame:
  assumes "labelled_task t (TimerWheel.more s)" "timers s (task_id t) = Some p" "p \<notin> refs s"
  shows "timer_exec (EchoServer_handlers n) (task_cb t) s
    = Inr (TimerWheel.more_update (timer_effect (task_cb t)) s)"
proof (cases "task_cb t")
  case (Task k)
  then show ?thesis
    by (cases s) (simp add: timer_exec_def timer_effect_def emit_def view_def TimerWheel.defs)
next
  case (Release a)
  then obtain c where c: "objects s a = Some c" "conn_id c = task_id t" "shared c = 1" "socket c \<noteq> - 1"
    "uint (task_id t) < 2 ^ 31" "conns s (task_id t) = Some a"
    using assms(1) by (auto simp: labelled_task_def releasable_def view_sel)
  have "Connection_ReleaseInLoop (EchoServer_handlers n) a s = Inr (released a c s)"
    by (rule ReleaseInLoop_eq) (use c assms(2,3) in simp_all)
  also have "released a c s = TimerWheel.more_update (\<lambda>z. TimerWheel.more (released a c (view z))) s"
    by (rule released_frame) (use c assms(2,3) in simp)
  also have "\<dots> = TimerWheel.more_update (timer_effect (Release a)) s"
    using c(1) view_sel(1) [of s] by (cases s) (simp add: timer_effect_def)
  finally show ?thesis using Release by (simp add: timer_exec_def)
qed

lemma objects_effect:
  "objects (view (timer_effect cb z)) = (case cb of Release a \<Rightarrow> (objects (view z))(a := None) | Task k \<Rightarrow> objects (view z))"
  by (auto simp: timer_effect_def view_sel released_def split: callback.split option.split)

lemma conns_effect:
  "conns (view (timer_effect cb z)) = (case cb of
     Release a \<Rightarrow> (case objects (view z) a of None \<Rightarrow> conns (view z) | Some c \<Rightarrow> (conns (view z))(conn_id c := None))
   | Task k \<Rightarrow> conns (view z))"
  by (auto simp: timer_effect_def view_sel released_def split: callback.split option.split)

lemma channels_effect:
  "channels (view (timer_effect cb z)) = (case cb of
     Release a \<Rightarrow> (case objects (view z) a of None \<Rightarrow> channels (view z) | Some c \<Rightarrow> (channels (view z))(sockfd c := None))
   | Task k \<Rightarrow> channels (view z))"
  by (auto simp: timer_effect_def view_sel released_def split: callback.split option.split)

lemma rest_effect [simp]:
  "jobs (view (timer_effect cb z)) = jobs (view z)" "next_object (view (timer_effect cb z)) = next_object (view z)"
  "srv_conn_id (view (timer_effect cb z)) = srv_conn_id (view z)"
  "srv_timeout (view (timer_effect cb z)) = srv_timeout (view z)"
  "srv_enable_inactive_release (view (timer_effect cb z)) = srv_enable_inactive_release (view z)"
  by (auto simp: timer_effect_def view_sel released_def split: callback.split option.split)

interpretation echo_timer: timer_client "timer_exec (EchoServer_handlers n)" timer_effect labelled_task for n
proof unfold_locales
  fix t p and w :: Server
  assume "labelled_task t (TimerWheel.more w)" "timers w (task_id t) = Some p" "p \<notin> refs w"
  then show "timer_exec (EchoServer_handlers n) (task_cb t) w
    = Inr (TimerWheel.more_update (timer_effect (task_cb t)) w)" by (rule timer_exec_frame)
next
  fix t u z assume "labelled_task t z" "labelled_task u z" "task_id t \<noteq> task_id u"
  then show "labelled_task u (timer_effect (task_cb t) z)"
    by (auto simp: labelled_task_def releasable_def objects_effect conns_effect split: callback.splits)
qed

text \<open>All callbacks of a tick: exactly the named connections go.\<close>

lemma fold_objects:
  "objects (view (fold timer_effect cbs z)) a = (if Release a \<in> set cbs then None else objects (view z) a)"
  by (induction cbs arbitrary: z) (auto simp: objects_effect split: callback.splits)

lemma fold_rest [simp]:
  "jobs (view (fold timer_effect cbs z)) = jobs (view z)"
  "next_object (view (fold timer_effect cbs z)) = next_object (view z)"
  "srv_conn_id (view (fold timer_effect cbs z)) = srv_conn_id (view z)"
  "srv_timeout (view (fold timer_effect cbs z)) = srv_timeout (view z)"
  "srv_enable_inactive_release (view (fold timer_effect cbs z)) = srv_enable_inactive_release (view z)"
  by (induction cbs arbitrary: z; simp)+

definition goes :: "callback list \<Rightarrow> Server \<Rightarrow> (Connection \<Rightarrow> bool) \<Rightarrow> bool" where
  "goes cbs s P \<longleftrightarrow> (\<exists>a c. Release a \<in> set cbs \<and> objects s a = Some c \<and> P c)"

lemma goes_Nil [simp]: "\<not> goes [] s P"
  by (simp add: goes_def)

lemma goes_Cons:
  "goes (cb # cbs) (view z) P \<longleftrightarrow>
     (case cb of Release a \<Rightarrow> (case objects (view z) a of None \<Rightarrow> False | Some c \<Rightarrow> P c) | Task k \<Rightarrow> False)
     \<or> goes cbs (view (timer_effect cb z)) P"
proof (cases cb)
  case (Release a)
  show ?thesis
  proof (cases "objects (view z) a")
    case None
    then show ?thesis using Release by (simp add: goes_def objects_effect fun_upd_idem) (metis option.distinct(1))
  next
    case (Some c)
    then show ?thesis using Release by (simp add: goes_def objects_effect) (metis option.inject)
  qed
qed (simp add: goes_def objects_effect)

lemma fold_conns:
  "conns (view (fold timer_effect cbs z)) k = (if goes cbs (view z) (\<lambda>c. conn_id c = k) then None else conns (view z) k)"
  by (induction cbs arbitrary: z) (auto simp: goes_Cons conns_effect split: callback.split option.split)

lemma fold_channels:
  "channels (view (fold timer_effect cbs z)) fd = (if goes cbs (view z) (\<lambda>c. sockfd c = fd) then None else channels (view z) fd)"
  by (induction cbs arbitrary: z) (auto simp: goes_Cons channels_effect split: callback.split option.split)

lemmas fold_effect = fold_objects fold_conns fold_channels

section \<open>A tick\<close>

text \<open>The connections whose time is up at the next tick.\<close>

definition timed_out :: "Server \<Rightarrow> nat \<Rightarrow> bool" where
  "timed_out s a \<longleftrightarrow> (\<exists>c al. objects s a = Some c \<and> alarms s (conn_id c) = Some al
     \<and> remaining al = 1 \<and> \<not> muted al)"

lemma alarms_SomeD:
  assumes "wheel_ok s" "alarms s i = Some al"
  obtains p t where "timers s i = Some p" "tasks s p = Some t" "task_id t = i" "p \<in> refs s"
    "remaining al = due s p" "muted al = cancelled t" "action al = task_cb t"
proof -
  obtain p t where pt: "timers s i = Some p" "tasks s p = Some t"
    "al = \<lparr>remaining = due s p, period = unat (timeout t), muted = cancelled t, action = task_cb t\<rparr>"
    using assms(2) by (auto simp: alarms_def split: option.splits)
  with that [of p t] wheel_okD(4,6) [OF assms(1)] show ?thesis by fastforce
qed

lemma called_iff_timed_out:
  assumes ok: "server_ok s" and k: "k = (tick s + 1) mod wheel_capacity"
  shows "Release a \<in> set (calls s (expiring (wheel s) k)) \<longleftrightarrow> timed_out s a"
proof -
  note d = server_okD [OF ok]
  obtain ids where ids: "set ids = {i. \<exists>al. alarms s i = Some al \<and> remaining al = 1 \<and> \<not> muted al}"
    "calls s (expiring (wheel s) k) = map (\<lambda>i. action (the (alarms s i))) ids"
    by (rule calls_expiring [OF d(1) k])
  have action: "objects s a = Some c \<longrightarrow> (action al = Release a \<longleftrightarrow> i = conn_id c)" "action al = Release a \<Longrightarrow> objects s a \<noteq> None"
    if al: "alarms s i = Some al" "\<not> muted al" for i al c
  proof -
    obtain p t where t: "timers s i = Some p" "tasks s p = Some t" "task_id t = i" "muted al = cancelled t" "action al = task_cb t"
      by (rule alarms_SomeD [OF d(1) al(1)])
    show "action al = Release a \<Longrightarrow> objects s a \<noteq> None"
      using d(8) [OF t(2)] t al(2) by (auto simp: task_ok_def)
    show "objects s a = Some c \<longrightarrow> (action al = Release a \<longleftrightarrow> i = conn_id c)"
      using d(8) [OF t(2)] t al(2) d(5) [of a c]
      by (auto simp: task_ok_def conn_ok_def timer_ok_def split: if_splits)
  qed
  show ?thesis
  proof
    assume "Release a \<in> set (calls s (expiring (wheel s) k))"
    then obtain i al where al: "alarms s i = Some al" "remaining al = 1" "\<not> muted al" "action al = Release a"
      unfolding ids(2) using ids(1) by force
    with action [OF al(1,3)] show "timed_out s a" by (auto simp: timed_out_def)
  next
    assume "timed_out s a"
    then obtain c al where al: "objects s a = Some c" "alarms s (conn_id c) = Some al" "remaining al = 1" "\<not> muted al"
      by (auto simp: timed_out_def)
    then have "conn_id c \<in> set ids" "action (the (alarms s (conn_id c))) = Release a"
      using ids(1) action(1) [OF al(2,4), of c] by auto
    then show "Release a \<in> set (calls s (expiring (wheel s) k))"
      unfolding ids(2) by force
  qed
qed

definition ticked :: "Server \<Rightarrow> Server" where
  "ticked s = (let k = (tick s + 1) mod wheel_capacity in
     after_clear k (s\<lparr>tick := k\<rparr>) (fold timer_effect (calls s (expiring (wheel s) k)) (TimerWheel.more s)))"

lemma OnTime_eq:
  assumes ok: "server_ok s"
  shows "TimerWheel_OnTime (timer_exec (EchoServer_handlers n)) (Some x) s = Inr (ticked s)"
proof -
  note d = server_okD [OF ok]
  have "labelled_task t (TimerWheel.more s)" if "tasks s p = Some t" "\<not> cancelled t" for p t
  proof (cases "task_cb t")
    case (Release a)
    with d(8) [OF that(1)] that(2) obtain c where c: "objects s a = Some c" "conn_id c = task_id t"
      by (auto simp: task_ok_def)
    with Release conn_okD [OF d(5) [OF c(1)]] show ?thesis
      by (simp add: labelled_task_def releasable_def view_sel)
  qed (simp add: labelled_task_def)
  then show ?thesis
    using echo_timer.RunTimerTask_ok [OF d(1) _ refl, of n] by (simp add: TimerWheel_OnTime_def ticked_def Let_def)
qed

lemma ticked_sel:
  assumes ok: "server_ok s"
  shows "objects (ticked s) = (\<lambda>a. if timed_out s a then None else objects s a)"
    "conns (ticked s) = (\<lambda>i. case conns s i of None \<Rightarrow> None | Some a \<Rightarrow> if timed_out s a then None else Some a)"
    "channels (ticked s) = (\<lambda>fd. case channels s fd of None \<Rightarrow> None
       | Some ch \<Rightarrow> if \<exists>a. ch = Conn_Channel a \<and> timed_out s a then None else Some ch)"
    "jobs (ticked s) = jobs s" "next_object (ticked s) = next_object s" "srv_conn_id (ticked s) = srv_conn_id s"
    "srv_timeout (ticked s) = srv_timeout s"
    "srv_enable_inactive_release (ticked s) = srv_enable_inactive_release s"
proof -
  note d = server_okD [OF ok]
  define cbs where "cbs = calls s (expiring (wheel s) ((tick s + 1) mod wheel_capacity))"
  have cbs: "Release a \<in> set cbs \<longleftrightarrow> timed_out s a" for a
    unfolding cbs_def by (rule called_iff_timed_out [OF ok refl])
  have more: "TimerWheel.more (ticked s) = fold timer_effect cbs (TimerWheel.more s)"
    by (simp add: ticked_def Let_def cbs_def)
  note v = view_sel [of "ticked s", unfolded more] view_sel [of s]
  show "objects (ticked s) = (\<lambda>a. if timed_out s a then None else objects s a)"
    using fold_objects [of cbs "TimerWheel.more s"] v by (auto simp: cbs fun_eq_iff)
  have gone: "goes cbs s P \<longleftrightarrow> (\<exists>a c. timed_out s a \<and> objects s a = Some c \<and> P c)" for P
    by (simp add: goes_def cbs)
  have goes: "goes cbs (view (TimerWheel.more s)) P \<longleftrightarrow> goes cbs s P" for P
    by (simp add: goes_def v)
  show "conns (ticked s) = (\<lambda>i. case conns s i of None \<Rightarrow> None | Some a \<Rightarrow> if timed_out s a then None else Some a)"
  proof
    fix i
    have "goes cbs s (\<lambda>c. conn_id c = i) \<longleftrightarrow> (\<exists>a. conns s i = Some a \<and> timed_out s a)"
      unfolding gone using d(6) conn_okD(1) [OF d(5)] by (metis timed_out_def)
    then show "conns (ticked s) i = (case conns s i of None \<Rightarrow> None | Some a \<Rightarrow> if timed_out s a then None else Some a)"
      using fold_conns [of cbs "TimerWheel.more s" i] v goes by (auto split: option.split)
  qed
  show "channels (ticked s) = (\<lambda>fd. case channels s fd of None \<Rightarrow> None
       | Some ch \<Rightarrow> if \<exists>a. ch = Conn_Channel a \<and> timed_out s a then None else Some ch)"
  proof
    fix fd
    have "goes cbs s (\<lambda>c. sockfd c = fd) \<longleftrightarrow> (\<exists>a. channels s fd = Some (Conn_Channel a) \<and> timed_out s a)"
      unfolding gone using d(7) conn_okD(5) [OF d(5)] by (metis timed_out_def)
    then show "channels (ticked s) fd = (case channels s fd of None \<Rightarrow> None
       | Some ch \<Rightarrow> if \<exists>a. ch = Conn_Channel a \<and> timed_out s a then None else Some ch)"
      using fold_channels [of cbs "TimerWheel.more s" fd] v goes by (auto split: option.split)
  qed
qed (use view_sel [of s] view_sel [of "ticked s"] in \<open>simp_all add: ticked_def Let_def\<close>)

lemma server_ok_ticked:
  assumes ok: "server_ok s"
  shows "server_ok (ticked s)" "alarms (ticked s) = alarm_tick (alarms s)"
proof -
  note d = server_okD [OF ok] and sel = ticked_sel [OF ok]
  define k where "k = (tick s + 1) mod wheel_capacity"
  have form: "ticked s = after_clear k (s\<lparr>tick := k\<rparr>) (TimerWheel.more (ticked s))"
    by (simp add: ticked_def Let_def k_def)
  note tick = tick_refines [OF d(1) k_def, of "TimerWheel.more (ticked s)", folded form]
  show "alarms (ticked s) = alarm_tick (alarms s)" by (rule tick(2))
  have tasks: "tasks (ticked s) p = (if p \<in> set (expiring (wheel s) k) then None else tasks s p)" for p
    by (subst form) simp
  have timers: "timers (ticked s) i = (case timers s i of None \<Rightarrow> None
       | Some p \<Rightarrow> if p \<in> set (expiring (wheel s) k) then None else Some p)" for i
    by (subst form) (rule timers_after_clear [OF d(1)])
  have timer: "timer_ok (ticked s) b (conn_id x) e"
    if x: "objects s b = Some x" "\<not> timed_out s b" "timer_ok s b (conn_id x) e" for b x e
  proof (cases e)
    case True
    with x(3) obtain p t where t: "timers s (conn_id x) = Some p" "tasks s p = Some t" "\<not> cancelled t" "task_cb t = Release b"
      by (auto simp: timer_ok_def)
    then have "due s p \<noteq> 1" using x(1,2) by (auto simp: timed_out_def alarms_def)
    then have "p \<notin> set (expiring (wheel s) k)"
      using due_tick(1) [OF d(1) wheel_okD(4) [OF d(1) t(2)] k_def] by simp
    with t True show ?thesis by (simp add: timer_ok_def timers tasks)
  qed (use x(3) in \<open>simp add: timer_ok_def timers\<close>)
  show "server_ok (ticked s)"
    unfolding server_ok_def
  proof (intro conjI allI impI)
    fix b x assume "objects (ticked s) b = Some x"
    then have x: "objects s b = Some x" "\<not> timed_out s b" by (auto simp: sel split: if_splits)
    with d(5) [OF x(1)] timer [OF x] show "conn_ok (ticked s) b x" by (simp add: conn_ok_def sel)
  next
    fix i b assume "conns (ticked s) i = Some b"
    then show "\<exists>x. objects (ticked s) b = Some x \<and> conn_id x = i"
      using d(6) [of i b] by (auto simp: sel split: option.splits if_splits)
  next
    fix fd b assume "channels (ticked s) fd = Some (Conn_Channel b)"
    then show "\<exists>x. objects (ticked s) b = Some x \<and> sockfd x = fd"
      using d(7) [of fd b] by (auto simp: sel split: option.splits if_splits)
  next
    fix p t assume "tasks (ticked s) p = Some t"
    then have t: "tasks s p = Some t" "p \<notin> set (expiring (wheel s) k)" by (auto simp: tasks split: if_splits)
    have "\<not> timed_out s a" if "\<not> cancelled t" "task_cb t = Release a" for a
    proof
      assume "timed_out s a"
      then obtain c al where al: "objects s a = Some c" "alarms s (conn_id c) = Some al" "remaining al = 1"
        by (auto simp: timed_out_def)
      moreover have "conn_id c = task_id t" using d(8) [OF t(1)] that al(1) by (simp add: task_ok_def)
      ultimately have "due s p = 1"
        using wheel_okD(7) [OF d(1) t(1)] t(1) by (simp add: alarms_def) (metis alarm.select_convs(1))
      with due_tick(1) [OF d(1) wheel_okD(4) [OF d(1) t(1)] k_def] t(2) show False by simp
    qed
    with d(8) [OF t(1)] show "task_ok (ticked s) t"
      by (auto simp: task_ok_def sel split: callback.splits)
  qed (use d tick(1) tick(3) [OF d(2)] in \<open>simp_all add: sel\<close>)
qed

end
