(* ===== verification/Reactor_Echo_Loop.thy ===== *)
theory Reactor_Echo_Loop
  imports Reactor_Echo
begin

unbundle bit_operations_syntax

text \<open>
  Rounds of the event loop of the echo server: which batches of events it survives, what a client
  gets, when an idle connection is dropped, and the events that make it touch a destroyed object
  or memory behind a buffer.
\<close>

section \<open>One round\<close>

lemma server_ok_trace: "server_ok s \<Longrightarrow> server_ok (s\<lparr>trace := tr\<rparr>)"
proof -
  assume ok: "server_ok s"
  have "conn_ok (s\<lparr>trace := tr\<rparr>) b x = conn_ok s b x" for b x by (simp add: conn_ok_def timer_ok_def)
  moreover have "task_ok (s\<lparr>trace := tr\<rparr>) t = task_ok s t" for t
    by (simp add: task_ok_def split: callback.split)
  moreover have "wheel_ok (s\<lparr>trace := tr\<rparr>) = wheel_ok s" "timeouts_ok (s\<lparr>trace := tr\<rparr>) = timeouts_ok s"
    by (rule wheel_ok_cong; simp)+
  ultimately show ?thesis using ok by (simp add: server_ok_def)
qed

lemma RunAllTask_idle: "jobs s = [] \<Longrightarrow> EventLoop_RunAllTask cbs s = Inr s"
  by (simp add: EventLoop_RunAllTask_def)

lemma handle_active_done [simp]: "bind_res m (handle_active cbs []) = m"
  by (cases m) simp_all

lemma round_other:
  assumes "channels s (ev_fd e) = Some ch" "\<And>a. ch \<noteq> Conn_Channel a"
  shows "EventLoop_round cbs (Ready [e]) s = bind_res (Channel_HandleEvent cbs ch e s) (EventLoop_RunAllTask cbs)"
  using assms
  by (simp add: EventLoop_round_def Poller_Poll_def Channel_SetRevents_def split: channel.split)

lemma round_conn:
  assumes "channels s (ev_fd e) = Some (Conn_Channel a)" "objects s a = Some c"
  shows "EventLoop_round cbs (Ready [e]) s
    = bind_res (Channel_HandleEvent cbs (Conn_Channel a) e (put_conn a (c\<lparr>revents := ev_events e\<rparr>) s))
        (EventLoop_RunAllTask cbs)"
  using assms
  by (simp add: EventLoop_round_def Poller_Poll_def Channel_SetRevents_def with_conn_Some)

lemma server_ok_revents:
  assumes "server_ok s" "objects s a = Some c"
  shows "server_ok (put_conn a (c\<lparr>revents := ev\<rparr>) s)"
proof -
  have "conn_ok s a (c\<lparr>revents := ev\<rparr>)"
    using server_okD(5) [OF assms] by (simp add: conn_ok_def idle_def)
  then have "server_ok (s\<lparr>objects := (objects s)(a \<mapsto> c\<lparr>revents := ev\<rparr>), trace := trace s\<rparr>)"
    by (rule server_ok_conn [OF assms]) simp_all
  then show ?thesis by (simp add: put_conn_def)
qed

text \<open>The reading half of \<open>Channel::HandleEvent\<close>.\<close>

definition received :: "event \<Rightarrow> char list" where
  "received e = (if read_ready (ev_events e) then case Socket_Recv (ev_recv e) of None \<Rightarrow> [] | Some bs \<Rightarrow> bs else [])"

definition reply :: "event \<Rightarrow> char list" where
  "reply e = (if received e = [] then [] else echo_str)"

text \<open>Handling an event of one connection leaves the other connections alone.\<close>

definition others :: "nat \<Rightarrow> Server \<Rightarrow> Server \<Rightarrow> bool" where
  "others a s s' \<longleftrightarrow> next_object s' = next_object s \<and> (\<forall>b. b \<noteq> a \<longrightarrow> objects s' b = objects s b)"

lemma others_trans: "others a s s' \<Longrightarrow> others a s' s'' \<Longrightarrow> others a s s''"
  by (simp add: others_def)

lemma others_released: "others a s (released a c s\<lparr>trace := tr\<rparr>)" "others a s (released a c s)"
  by (simp_all add: others_def released_def)

lemma HandleRead_failed:
  assumes ok: "server_ok s" and c: "objects s a = Some c" "\<not> idle c" and ans: "Socket_Recv ans = None"
  shows "Connection_HandleRead cbs ans a s = Inr s"
proof -
  note co = conn_okD [OF server_okD(5) [OF ok c(1)]]
  have "Channel_WriteAble c" using co(13) [OF c(2)] by (simp add: Channel_WriteAble_def)
  then have "Connection_ShutdownInLoop cbs a s = Inr (put_conn a (c\<lparr>statu := DISCONNECTING\<rparr>) s)"
    using c ReadAbleSize_0_iff [OF co(9)] ReadAbleSize_0_iff [OF co(11)] co(10)
    by (intro ShutdownInLoop_pending) (simp_all add: idle_def)
  moreover have "c\<lparr>statu := DISCONNECTING\<rparr> = c" using co(13) [OF c(2)] by (cases c) simp
  ultimately show ?thesis using ans put_conn_same [OF c(1)] by (simp add: Connection_HandleRead_def)
qed

lemma read_half:
  assumes ok: "server_ok s" and c: "objects s a = Some c"
    and recv: "read_ready (ev_events e) \<Longrightarrow> Socket_Recv (ev_recv e) = None \<Longrightarrow> \<not> idle c"
      "fits c (length (received e))" "received e \<noteq> [] \<Longrightarrow> terminated c (received e)"
  obtains s' c' tr where "(if read_ready (ev_events e)
      then bind_res (Connection_HandleEvent (EchoServer_handlers (Suc n)) a s)
             (Connection_HandleRead (EchoServer_handlers (Suc n)) (ev_recv e) a)
      else Inr s) = Inr s'" "server_ok s'" "objects s' a = Some c'" "revents c' = revents c"
    "conn_id c' = conn_id c" "sockfd c' = sockfd c"
    "readable (out_buffer c') = readable (out_buffer c) @ reply e"
    "trace s' = trace s @ tr" "set tr \<subseteq> {Epoll_ctl EPOLL_CTL_MOD (sockfd c) (EPOLLIN OR EPOLLOUT)}" "others a s s'"
proof (cases "read_ready (ev_events e)")
  case False
  then show ?thesis using that [of s c "[]"] ok c by (simp add: reply_def received_def others_def)
next
  case True
  obtain ws where ws: "Connection_HandleEvent (EchoServer_handlers (Suc n)) a s = Inr (s\<lparr>wheel := ws\<rparr>)"
    "server_ok (s\<lparr>wheel := ws\<rparr>)" by (rule HandleEvent_ok [OF ok c])
  let ?s = "s\<lparr>wheel := ws\<rparr>"
  have c': "objects ?s a = Some c" using c by simp
  consider "Socket_Recv (ev_recv e) = None" "received e = []"
    | bs where "Socket_Recv (ev_recv e) = Some bs" "received e = bs"
    using True by (cases "Socket_Recv (ev_recv e)") (auto simp: received_def)
  then show ?thesis
  proof cases
    case 1
    have "Connection_HandleRead (EchoServer_handlers (Suc n)) (ev_recv e) a ?s = Inr ?s"
      by (rule HandleRead_failed [OF ws(2) c' recv(1) 1(1)]) (fact True, fact 1(1))
    then show ?thesis
      using that [of ?s c "[]"] ws c' True 1(2) by (simp add: reply_def others_def del: EchoServer_handlers.simps)
  next
    case (2 bs)
    note bs = 2
    show ?thesis
    proof (cases "bs = []")
      case True
      have "Buffer_ReadAbleSize (in_buffer c) = 0"
        using conn_okD(9,10) [OF server_okD(5) [OF ok c]] ReadAbleSize_0_iff by blast
      then have "Connection_HandleRead (EchoServer_handlers (Suc n)) (ev_recv e) a ?s = Inr ?s"
        using HandleRead_none [OF c'] bs(1) True by simp
      then show ?thesis
        using that [of ?s c "[]"] ws c' \<open>read_ready (ev_events e)\<close> bs(2) True
        by (simp add: reply_def others_def del: EchoServer_handlers.simps)
    next
      case False
      obtain c1 tr where r: "Connection_HandleRead (EchoServer_handlers (Suc n)) (ev_recv e) a ?s
          = Inr (?s\<lparr>objects := (objects ?s)(a \<mapsto> c1), trace := trace ?s @ tr\<rparr>)"
        "conn_ok ?s a c1" "conn_id c1 = conn_id c" "sockfd c1 = sockfd c" "revents c1 = revents c"
        "readable (out_buffer c1) = readable (out_buffer c) @ echo_str"
        "set tr \<subseteq> {Epoll_ctl EPOLL_CTL_MOD (sockfd c) (EPOLLIN OR EPOLLOUT)}"
        by (rule HandleRead_data [OF ws(2) c' bs(1) False]) (use recv(2,3) bs(2) False in simp_all)
      have "server_ok (?s\<lparr>objects := (objects ?s)(a \<mapsto> c1), trace := trace ?s @ tr\<rparr>)"
        by (rule server_ok_conn [OF ws(2) c' r(2-4)])
      then show ?thesis
        using that [of "?s\<lparr>objects := (objects ?s)(a \<mapsto> c1), trace := trace ?s @ tr\<rparr>" c1 tr]
          ws r \<open>read_ready (ev_events e)\<close> bs(2) False
        by (simp add: reply_def others_def del: EchoServer_handlers.simps)
    qed
  qed
qed

text \<open>The writing half.\<close>

lemma HandleWrite_nothing:
  assumes ok: "server_ok s" and c: "objects s a = Some c" and ans: "Socket_Send ans = 0"
  obtains tr where "Connection_HandleWrite cbs ans a s = Inr (s\<lparr>trace := trace s @ tr\<rparr>)"
proof -
  note co = conn_okD [OF server_okD(5) [OF ok c]]
  have same: "(objects s)(a \<mapsto> c) = objects s" using c by (simp add: fun_upd_idem)
  have move: "Buffer_MoveReadOffset (out_buffer c) 0 = Inr (out_buffer c)"
    by (simp add: Buffer_MoveReadOffset_def)
  have ret: "to_int32 0 = 0" by (simp add: to_int32_small)
  obtain tr where s: "(case ans of Send_accepts n \<Rightarrow> emit (Sent (socket c) (take n (readable (out_buffer c)))) s
      | Send_error _ \<Rightarrow> s) = s\<lparr>trace := trace s @ tr\<rparr>"
  proof (cases ans)
    case (Send_accepts n)
    then show ?thesis using that [of "[Sent (socket c) (take n (readable (out_buffer c)))]"] by (simp add: emit_def)
  next
    case (Send_error e)
    then show ?thesis using that [of "[]"] by simp
  qed
  have "\<exists>tr. Connection_HandleWrite cbs ans a s = Inr (s\<lparr>trace := trace s @ tr\<rparr>)"
  proof (cases "idle c")
    case True
    then have "Buffer_ReadAbleSize (out_buffer c) = 0" using ReadAbleSize_0_iff [OF co(11)] by (simp add: idle_def)
    then have "Connection_HandleWrite cbs ans a s
        = Inr (s\<lparr>objects := (objects s)(a \<mapsto> c\<lparr>events := EPOLLIN\<rparr>),
            trace := (trace s @ tr) @ [Epoll_ctl EPOLL_CTL_MOD (sockfd c) EPOLLIN]\<rparr>)"
      using c ans move ret copy_out_readable [OF co(11)] co(5) co(12) [OF True] s
      by (simp add: Connection_HandleWrite_def with_conn_Some Let_def put_conn_def emit_def
          Channel_DisableWrite_def Channel_set_events_def Poller_UpdateEvent_def Poller_HasChannel_def)
    also have "c\<lparr>events := EPOLLIN\<rparr> = c" using co(12) [OF True] by (cases c) simp
    finally have "Connection_HandleWrite cbs ans a s
        = Inr (s\<lparr>trace := (trace s @ tr) @ [Epoll_ctl EPOLL_CTL_MOD (sockfd c) EPOLLIN]\<rparr>)"
      by (simp add: same)
    then show ?thesis by (metis append_assoc)
  next
    case False
    then have "Buffer_ReadAbleSize (out_buffer c) \<noteq> 0" using ReadAbleSize_0_iff [OF co(11)] by (simp add: idle_def)
    then have "Connection_HandleWrite cbs ans a s = Inr (s\<lparr>trace := trace s @ tr\<rparr>)"
      using c ans move ret copy_out_readable [OF co(11)] s same
      by (simp add: Connection_HandleWrite_def with_conn_Some Let_def put_conn_def)
    then show ?thesis by blast
  qed
  with that show ?thesis by blast
qed

lemma HandleWrite_nothing_ok:
  assumes ok: "server_ok s" and c: "objects s a = Some c" and z: "Socket_Send ans = 0"
  shows "\<exists>s'. Connection_HandleWrite cbs ans a s = Inr s' \<and> server_ok s' \<and> others a s s'"
proof -
  obtain tr where "Connection_HandleWrite cbs ans a s = Inr (s\<lparr>trace := trace s @ tr\<rparr>)"
    by (rule HandleWrite_nothing [OF ok c z])
  then show ?thesis using server_ok_trace [OF ok] by (simp add: others_def)
qed

lemma HandleWrite_ok:
  assumes ok: "server_ok s" and c: "objects s a = Some c"
    and ans: "\<And>n. ans = Send_accepts n \<Longrightarrow> n \<le> length (readable (out_buffer c)) \<and> n < 2 ^ 31"
  shows "\<exists>s'. Connection_HandleWrite (EchoServer_handlers k) ans a s = Inr s' \<and> server_ok s' \<and> others a s s'"
proof -
  show ?thesis
  proof (cases ans)
    case (Send_error e)
    show ?thesis
    proof (cases "e = EAGAIN \<or> e = EINTR")
      case True
      then have "Socket_Send ans = 0" using Send_error by (simp add: Socket_Send_def)
      then show ?thesis by (rule HandleWrite_nothing_ok [OF ok c])
    next
      case False
      have "to_int32 (- 1) = - 1" by (simp add: to_int32_def)
      then have "Connection_HandleWrite (EchoServer_handlers k) ans a s = Connection_HandleClose (EchoServer_handlers k) a s"
        using c False Send_error copy_out_readable [OF conn_okD(11) [OF server_okD(5) [OF ok c]]]
        by (simp add: Connection_HandleWrite_def with_conn_Some Socket_Send_def Let_def)
      moreover have "server_ok (released a c s)"
        using server_ok_released [OF ok c, of c "trace (released a c s)"] by simp
      ultimately show ?thesis using HandleClose_eq [OF ok c] others_released by simp
    qed
  next
    case (Send_accepts n)
    note n = ans [OF Send_accepts]
    consider "n < length (readable (out_buffer c))" | "n = length (readable (out_buffer c))" "\<not> idle c" | "n = 0"
      using n by (cases "n < length (readable (out_buffer c))"; cases "idle c") (auto simp: idle_def)
    then show ?thesis
    proof cases
      case 1
      obtain out where "Connection_HandleWrite (EchoServer_handlers k) (Send_accepts n) a s
          = Inr (s\<lparr>objects := (objects s)(a \<mapsto> c\<lparr>out_buffer := out\<rparr>),
              trace := trace s @ [Sent (sockfd c) (take n (readable (out_buffer c)))]\<rparr>)"
        "conn_ok s a (c\<lparr>out_buffer := out\<rparr>)"
        using HandleWrite_part [OF ok c 1, of "EchoServer_handlers k"] n by metis
      then show ?thesis using server_ok_conn [OF ok c] Send_accepts by (simp add: others_def)
    next
      case 2
      show ?thesis using HandleWrite_last [OF ok c 2] n server_ok_released [OF ok c] Send_accepts others_released by simp
    next
      case 3
      then have "Socket_Send ans = 0" using Send_accepts by (simp add: Socket_Send_def)
      then show ?thesis by (rule HandleWrite_nothing_ok [OF ok c])
    qed
  qed
qed

text \<open>
  What the events of an \<open>epoll_wait\<close> look like: they concern a watched descriptor, the kernel
  takes at most the bytes it is offered, new descriptors are fresh, and memory and the 31-bit
  ids suffice. The server does not survive all events a system can deliver: excluded are a failed
  read on an idle connection and a request that leaves no NUL behind the read position.
\<close>

definition conn_event_ok :: "Connection \<Rightarrow> event \<Rightarrow> bool" where
  "conn_event_ok c e \<longleftrightarrow>
     (read_ready (ev_events e) \<and> Socket_Recv (ev_recv e) = None \<longrightarrow> \<not> idle c)
     \<and> fits c (length (received e)) \<and> (received e \<noteq> [] \<longrightarrow> terminated c (received e))
     \<and> (case ev_send e of
          Send_accepts n \<Rightarrow> n \<le> length (readable (out_buffer c) @ reply e) \<and> n < 2 ^ 31 | Send_error _ \<Rightarrow> True)"

definition event_ok :: "Server \<Rightarrow> event \<Rightarrow> bool" where
  "event_ok s e \<longleftrightarrow>
     (case channels s (ev_fd e) of
        None \<Rightarrow> False
      | Some ch \<Rightarrow> (case ch of
          Conn_Channel a \<Rightarrow> (case objects s a of None \<Rightarrow> False | Some c \<Rightarrow> conn_event_ok c e)
        | Timerfd_Channel \<Rightarrow> ev_timer e \<noteq> None
        | Eventfd_Channel \<Rightarrow> ev_eventfd e \<noteq> Some Other_errno
        | Accept_Channel \<Rightarrow> (case ev_accept e of None \<Rightarrow> True
            | Some fd \<Rightarrow> 0 \<le> fd \<and> channels s fd = None \<and> uint (srv_conn_id s) + 1 < 2 ^ 31)))"

text \<open>Handling an event may drop other connections, but changes none of those that stay.\<close>

definition keeps :: "channel \<Rightarrow> Server \<Rightarrow> Server \<Rightarrow> bool" where
  "keeps ch s s' \<longleftrightarrow> next_object s \<le> next_object s' \<and>
     (\<forall>b < next_object s. ch \<noteq> Conn_Channel b \<longrightarrow> objects s' b = objects s b \<or> objects s' b = None)"

lemma conn_handled:
  assumes ok: "server_ok s" and c: "objects s a = Some c" "revents c = ev_events e" and e: "conn_event_ok c e"
  shows "\<exists>s'. Channel_HandleEvent (EchoServer_handlers (Suc n)) (Conn_Channel a) e s = Inr s'
    \<and> server_ok s' \<and> others a s s'"
proof -
  let ?h = "EchoServer_handlers (Suc n)"
  obtain s1 c1 tr where r: "(if read_ready (ev_events e)
      then bind_res (Connection_HandleEvent ?h a s) (Connection_HandleRead ?h (ev_recv e) a) else Inr s) = Inr s1"
    "server_ok s1" "objects s1 a = Some c1" "revents c1 = revents c"
    "readable (out_buffer c1) = readable (out_buffer c) @ reply e" "others a s s1"
    by (rule read_half [OF ok c(1), of e n]) (use e in \<open>auto simp: conn_event_ok_def\<close>)
  obtain ws where ws: "Connection_HandleEvent ?h a s1 = Inr (s1\<lparr>wheel := ws\<rparr>)" "server_ok (s1\<lparr>wheel := ws\<rparr>)"
    by (rule HandleEvent_ok [OF r(2,3)])
  let ?s = "s1\<lparr>wheel := ws\<rparr>"
  have c1: "objects ?s a = Some c1" using r(3) by simp
  have o1: "others a s ?s" using r(6) by (simp add: others_def)
  have writing: "\<exists>s'. Connection_HandleWrite ?h (ev_send e) a ?s = Inr s' \<and> server_ok s' \<and> others a ?s s'"
    by (rule HandleWrite_ok [OF ws(2) c1]) (use e r(5) in \<open>auto simp: conn_event_ok_def\<close>)
  have closing: "\<exists>s'. Connection_HandleClose ?h a ?s = Inr s' \<and> server_ok s' \<and> others a ?s s'"
    using HandleClose_eq [OF ws(2) c1, of "Suc n"] server_ok_released [OF ws(2) c1, of c1 "trace (released a c1 ?s)"]
      others_released(2) [of a ?s c1] by simp
  show ?thesis
    using r(1-4,6) ws(1) c writing closing others_trans [OF o1]
    by (auto simp: Channel_HandleEvent_def with_conn_Some Connection_HandleError_def simp del: EchoServer_handlers.simps)
qed

lemma other_round_ok:
  assumes "channels s (ev_fd e) = Some ch" "\<And>a. ch \<noteq> Conn_Channel a"
    and "Channel_HandleEvent cbs ch e s = Inr s'" "server_ok s'"
  shows "EventLoop_round cbs (Ready [e]) s = Inr s'"
  using round_other [OF assms(1,2), of cbs] assms(3) RunAllTask_idle [OF server_okD(3) [OF assms(4)]] by simp

lemma timer_round:
  assumes "server_ok s" "channels s (ev_fd e) = Some Timerfd_Channel" "ev_timer e \<noteq> None" "read_ready (ev_events e)"
  shows "EventLoop_round (EchoServer_handlers n) (Ready [e]) s = Inr (ticked s)"
  by (rule other_round_ok [OF assms(2)])
    (use assms OnTime_eq [OF assms(1), of n] server_ok_ticked(1) [OF assms(1)] in
      \<open>auto simp: Channel_HandleEvent_def simp del: EchoServer_handlers.simps\<close>)

lemma event_handled:
  assumes ok: "server_ok s" and ch: "channels s (ev_fd e) = Some ch" and e: "event_ok s e"
    and set: "\<And>a c. ch = Conn_Channel a \<Longrightarrow> objects s a = Some c \<Longrightarrow> revents c = ev_events e"
  shows "\<exists>s'. Channel_HandleEvent (EchoServer_handlers (Suc n)) ch e s = Inr s' \<and> server_ok s' \<and> keeps ch s s'"
proof -
  let ?h = "EchoServer_handlers (Suc n)"
  have same: "keeps ch s s" by (simp add: keeps_def)
  consider a where "ch = Conn_Channel a" | "ch = Timerfd_Channel" "read_ready (ev_events e)"
    | fd where "ch = Accept_Channel" "read_ready (ev_events e)" "ev_accept e = Some fd"
    | "\<And>a. ch \<noteq> Conn_Channel a" "ch = Timerfd_Channel \<Longrightarrow> \<not> read_ready (ev_events e)"
      "ch = Accept_Channel \<Longrightarrow> \<not> read_ready (ev_events e) \<or> ev_accept e = None"
    by (cases ch; cases "read_ready (ev_events e)"; cases "ev_accept e") auto
  then show ?thesis
  proof cases
    case 1
    with e ch obtain c where c: "objects s a = Some c" "conn_event_ok c e" by (auto simp: event_ok_def split: option.splits)
    from conn_handled [OF ok c(1) set [OF 1 c(1)] c(2), of n] 1 show ?thesis
      by (auto simp: others_def keeps_def simp del: EchoServer_handlers.simps)
  next
    case 2
    then have "Channel_HandleEvent ?h ch e s = Inr (ticked s)"
      using e ch OnTime_eq [OF ok, of "Suc n"]
      by (auto simp: Channel_HandleEvent_def event_ok_def simp del: EchoServer_handlers.simps)
    moreover have "keeps ch s (ticked s)" by (simp add: keeps_def ticked_sel [OF ok])
    ultimately show ?thesis using server_ok_ticked(1) [OF ok] by blast
  next
    case 3
    with e ch have fd: "0 \<le> fd" "channels s fd = None" "uint (srv_conn_id s) + 1 < 2 ^ 31"
      by (simp_all add: event_ok_def)
    let ?s = "accepted (next_object s) (new_conn s fd (srv_enable_inactive_release s))
        (if srv_enable_inactive_release s
         then TimerWheel_TimerAddInLoop (srv_conn_id s + 1) (word_of_int (srv_timeout s)) (Release (next_object s)) s
         else s)"
    have "Channel_HandleEvent ?h ch e s = Inr ?s"
      using 3 NewConnection_eq [OF ok fd(2,3), of "Suc n"]
      by (simp add: Channel_HandleEvent_def Acceptor_HandleRead_def del: EchoServer_handlers.simps)
    moreover have "keeps ch s ?s" by (simp add: keeps_def accepted_def TimerAdd_sel)
    ultimately show ?thesis using server_ok_accepted [OF ok fd(2,1,3)] by blast
  next
    case 4
    moreover have "ch = Eventfd_Channel \<Longrightarrow> ev_eventfd e \<noteq> Some Other_errno"
      using e ch by (simp add: event_ok_def)
    ultimately have "Channel_HandleEvent ?h ch e s = Inr s"
      by (auto simp: Channel_HandleEvent_def EventLoop_ReadEventFd_def Acceptor_HandleRead_def split: channel.splits)
    with ok same show ?thesis by blast
  qed
qed

section \<open>Batches\<close>

text \<open>
  \<open>Poll\<close> notes the events of the whole batch in the channels and the loop then handles one
  channel after the other. \<open>epoll_wait\<close> reports a watched descriptor at most once. An event has
  to be \<open>event_ok\<close> when its turn comes, and its channel still be the one of its descriptor: the
  channel of a connection which an earlier event of the batch has dropped is destroyed.
\<close>

fun turns_ok :: "nat \<Rightarrow> (channel \<times> event) list \<Rightarrow> Server \<Rightarrow> bool" where
  "turns_ok n [] s \<longleftrightarrow> True"
| "turns_ok n ((ch, e) # active) s \<longleftrightarrow>
     channels s (ev_fd e) = Some ch \<and> event_ok s e
     \<and> (case Channel_HandleEvent (EchoServer_handlers (Suc n)) ch e s of
          Inl _ \<Rightarrow> True | Inr s' \<Rightarrow> turns_ok n active s')"

definition batch_ok :: "nat \<Rightarrow> Server \<Rightarrow> event list \<Rightarrow> bool" where
  "batch_ok n s evs \<longleftrightarrow>
     distinct (map ev_fd evs) \<and> (\<forall>e \<in> set evs. channels s (ev_fd e) \<noteq> None)
     \<and> (case Poller_Poll (Ready evs) s of Inl _ \<Rightarrow> True | Inr (active, s') \<Rightarrow> turns_ok n active s')"

definition wait_ok :: "nat \<Rightarrow> Server \<Rightarrow> wait_answer \<Rightarrow> bool" where
  "wait_ok n s w \<longleftrightarrow> (case w of Ready evs \<Rightarrow> batch_ok n s evs | Wait_error e \<Rightarrow> e = EINTR)"

text \<open>The live connections of a batch carry their events.\<close>

fun marked :: "(channel \<times> event) list \<Rightarrow> Server \<Rightarrow> bool" where
  "marked [] s \<longleftrightarrow> True"
| "marked ((ch, e) # active) s \<longleftrightarrow>
     (\<forall>a. ch = Conn_Channel a \<longrightarrow> a < next_object s \<and> ch \<notin> fst ` set active
        \<and> (\<forall>c. objects s a = Some c \<longrightarrow> revents c = ev_events e)) \<and> marked active s"

lemma marked_cong:
  assumes "marked active s" "next_object s \<le> next_object s'"
    and "\<And>b. b < next_object s \<Longrightarrow> Conn_Channel b \<in> fst ` set active \<Longrightarrow> objects s' b = objects s b \<or> objects s' b = None"
  shows "marked active s'"
  using assms
proof (induction active)
  case (Cons x active)
  obtain ch e where x: "x = (ch, e)" by (cases x)
  have "marked active s" using Cons.prems(1) x by simp
  then have "marked active s'" by (rule Cons.IH [OF _ Cons.prems(2)]) (use Cons.prems(3) in simp)
  moreover have "a < next_object s' \<and> ch \<notin> fst ` set active \<and> (\<forall>c. objects s' a = Some c \<longrightarrow> revents c = ev_events e)"
    if a: "ch = Conn_Channel a" for a
  proof -
    have s: "a < next_object s" "ch \<notin> fst ` set active" "\<And>c. objects s a = Some c \<Longrightarrow> revents c = ev_events e"
      using Cons.prems(1) x a by simp_all
    moreover have "objects s' a = objects s a \<or> objects s' a = None"
      by (rule Cons.prems(3)) (use s(1) x a in simp_all)
    ultimately show ?thesis using Cons.prems(2) by auto
  qed
  ultimately show ?case using x by simp
qed simp

lemma turns_handled:
  assumes "server_ok s" "marked active s" "turns_ok n active s"
  shows "\<exists>s'. handle_active (EchoServer_handlers (Suc n)) active s = Inr s' \<and> server_ok s'"
  using assms
proof (induction active arbitrary: s)
  case (Cons x active)
  obtain ch e where x: "x = (ch, e)" by (cases x)
  obtain s1 where s1: "Channel_HandleEvent (EchoServer_handlers (Suc n)) ch e s = Inr s1" "server_ok s1" "keeps ch s s1"
    using event_handled [OF Cons.prems(1), of e ch n] Cons.prems(2,3) x by auto
  have "marked active s1"
  proof (rule marked_cong)
    show "marked active s" using Cons.prems(2) x by simp
    show "next_object s \<le> next_object s1" using s1(3) by (simp add: keeps_def)
    fix b assume b: "b < next_object s" "Conn_Channel b \<in> fst ` set active"
    then have "ch \<noteq> Conn_Channel b" using Cons.prems(2) x by auto
    then show "objects s1 b = objects s b \<or> objects s1 b = None" using s1(3) b(1) by (simp add: keeps_def)
  qed
  moreover have "turns_ok n active s1" using Cons.prems(3) x s1(1) by (simp del: EchoServer_handlers.simps)
  ultimately show ?case using Cons.IH [OF s1(2)] x s1(1) by (simp del: EchoServer_handlers.simps)
qed simp

lemma revents_self: "\<exists>r. (c :: Connection) = c\<lparr>revents := r\<rparr>"
  by (rule exI [of _ "revents c"]) simp

lemma SetRevents_ok:
  assumes ok: "server_ok s" and ch: "channels s fd = Some ch"
  obtains s' where "Channel_SetRevents ch ev s = Inr s'" "server_ok s'" "channels s' = channels s"
    "next_object s' = next_object s" "\<And>a. ch = Conn_Channel a \<Longrightarrow> \<exists>c. objects s' a = Some c \<and> revents c = ev"
    "\<And>b. ch \<noteq> Conn_Channel b \<Longrightarrow> objects s' b = objects s b"
    "\<And>b c. objects s b = Some c \<Longrightarrow> \<exists>r. objects s' b = Some (c\<lparr>revents := r\<rparr>)"
proof (cases "\<exists>a. ch = Conn_Channel a")
  case True
  then obtain a c where a: "ch = Conn_Channel a" "objects s a = Some c" using server_okD(7) [OF ok] ch by blast
  then have "Channel_SetRevents ch ev s = Inr (put_conn a (c\<lparr>revents := ev\<rparr>) s)"
    by (simp add: Channel_SetRevents_def with_conn_Some)
  then show ?thesis by (rule that) (use a server_ok_revents [OF ok a(2)] revents_self in auto)
next
  case False
  then have "Channel_SetRevents ch ev s = Inr s" by (simp add: Channel_SetRevents_def split: channel.split)
  then show ?thesis by (rule that) (use False ok revents_self in auto)
qed

lemma activate_ok:
  assumes "server_ok s" "distinct (map ev_fd evs)" "\<forall>e \<in> set evs. channels s (ev_fd e) \<noteq> None"
  shows "\<exists>active s'. Poller_activate evs s = Inr (active, s') \<and> server_ok s' \<and> marked active s'
    \<and> next_object s' = next_object s \<and> (\<forall>(ch, e) \<in> set active. channels s (ev_fd e) = Some ch \<and> e \<in> set evs)
    \<and> (\<forall>b. Conn_Channel b \<notin> fst ` set active \<longrightarrow> objects s' b = objects s b)
    \<and> (\<forall>b c. objects s b = Some c \<longrightarrow> (\<exists>r. objects s' b = Some (c\<lparr>revents := r\<rparr>)))"
  using assms
proof (induction evs arbitrary: s)
  case Nil
  with revents_self show ?case by simp
next
  case (Cons e evs)
  obtain ch where ch: "channels s (ev_fd e) = Some ch" using Cons.prems(3) by auto
  obtain s1 where s1: "Channel_SetRevents ch (ev_events e) s = Inr s1" "server_ok s1" "channels s1 = channels s"
    "next_object s1 = next_object s" "\<And>a. ch = Conn_Channel a \<Longrightarrow> \<exists>c. objects s1 a = Some c \<and> revents c = ev_events e"
    "\<And>b. ch \<noteq> Conn_Channel b \<Longrightarrow> objects s1 b = objects s b"
    "\<And>b c. objects s b = Some c \<Longrightarrow> \<exists>r. objects s1 b = Some (c\<lparr>revents := r\<rparr>)"
    by (rule SetRevents_ok [OF Cons.prems(1) ch]) blast
  obtain active s' where IH: "Poller_activate evs s1 = Inr (active, s')" "server_ok s'" "marked active s'"
    "next_object s' = next_object s1" "\<forall>(ch, e) \<in> set active. channels s1 (ev_fd e) = Some ch \<and> e \<in> set evs"
    "\<forall>b. Conn_Channel b \<notin> fst ` set active \<longrightarrow> objects s' b = objects s1 b"
    "\<forall>b c. objects s1 b = Some c \<longrightarrow> (\<exists>r. objects s' b = Some (c\<lparr>revents := r\<rparr>))"
    using Cons.IH [OF s1(2)] Cons.prems(2,3) s1(3) by auto
  have new: "ch \<notin> fst ` set active" if "ch = Conn_Channel a" for a
  proof
    assume "ch \<in> fst ` set active"
    then obtain e' where "e' \<in> set evs" "channels s (ev_fd e') = Some ch" using IH(5) s1(3) by force
    with ch that server_okD(7) [OF Cons.prems(1)] have "ev_fd e' = ev_fd e" by (metis option.inject)
    with \<open>e' \<in> set evs\<close> Cons.prems(2) show False by (simp add: image_iff) metis
  qed
  have "a < next_object s' \<and> ch \<notin> fst ` set active \<and> (\<forall>c. objects s' a = Some c \<longrightarrow> revents c = ev_events e)"
    if a: "ch = Conn_Channel a" for a
  proof -
    obtain c where "objects s a = Some c" using server_okD(7) [OF Cons.prems(1)] ch a by blast
    then have "a < next_object s" using conn_okD(6) [OF server_okD(5) [OF Cons.prems(1)]] by simp
    moreover have "objects s' a = objects s1 a" using IH(6) new [OF a] a by simp
    ultimately show ?thesis using new [OF a] s1(4) s1(5) [OF a] IH(4) by auto
  qed
  then have mark: "marked ((ch, e) # active) s'" using IH(3) by simp
  show ?case
  proof (rule exI, rule exI, intro conjI allI impI)
    show "Poller_activate (e # evs) s = Inr ((ch, e) # active, s')" using ch s1(1) IH(1) by simp
    show "next_object s' = next_object s" using IH(4) s1(4) by simp
    show "\<forall>(ch', e') \<in> set ((ch, e) # active). channels s (ev_fd e') = Some ch' \<and> e' \<in> set (e # evs)"
      using ch IH(5) s1(3) by auto
    fix b assume "Conn_Channel b \<notin> fst ` set ((ch, e) # active)"
    then show "objects s' b = objects s b" using IH(6) s1(6) [of b] by auto
  next
    fix b c assume "objects s b = Some c"
    then obtain r where "objects s1 b = Some (c\<lparr>revents := r\<rparr>)" using s1(7) by blast
    with IH(7) show "\<exists>r. objects s' b = Some (c\<lparr>revents := r\<rparr>)" by fastforce
  qed (fact IH(2) mark)+
qed

text \<open>Events of different connections do not get into each other's way.\<close>

lemma conn_turns_ok:
  assumes "server_ok s" "marked active s"
    and "\<forall>(ch, e) \<in> set active. \<exists>a c. ch = Conn_Channel a \<and> objects s a = Some c \<and> sockfd c = ev_fd e \<and> conn_event_ok c e"
  shows "turns_ok n active s"
  using assms
proof (induction active arbitrary: s)
  case (Cons x active)
  obtain a c e where x: "x = (Conn_Channel a, e)" "objects s a = Some c" "sockfd c = ev_fd e" "conn_event_ok c e"
    using Cons.prems(3) by (cases x) auto
  have ch: "channels s (ev_fd e) = Some (Conn_Channel a)"
    using conn_okD(5) [OF server_okD(5) [OF Cons.prems(1) x(2)]] x(3) by simp
  obtain s1 where s1: "Channel_HandleEvent (EchoServer_handlers (Suc n)) (Conn_Channel a) e s = Inr s1" "server_ok s1"
    "others a s s1"
    using conn_handled [OF Cons.prems(1) x(2) _ x(4), of n] Cons.prems(2) x(1,2) by auto
  have new: "Conn_Channel a \<notin> fst ` set active" using Cons.prems(2) x(1) by simp
  have "turns_ok n active s1"
  proof (rule Cons.IH [OF s1(2)])
    show "marked active s1"
      by (rule marked_cong [of _ s]) (use Cons.prems(2) x(1) s1(3) new in \<open>auto simp: others_def\<close>)
    have "objects s1 b = objects s b" if "(Conn_Channel b, e') \<in> set active" for b e'
      using that new s1(3) by (force simp: others_def)
    then show "\<forall>(ch, e) \<in> set active. \<exists>a c. ch = Conn_Channel a \<and> objects s1 a = Some c \<and> sockfd c = ev_fd e \<and> conn_event_ok c e"
      using Cons.prems(3) by fastforce
  qed
  then show ?case using x ch s1(1) by (simp add: event_ok_def del: EchoServer_handlers.simps)
qed simp

lemma conn_batch_ok:
  assumes ok: "server_ok s" and evs: "distinct (map ev_fd evs)"
    "\<forall>e \<in> set evs. event_ok s e \<and> (\<exists>a. channels s (ev_fd e) = Some (Conn_Channel a))"
  shows "batch_ok n s evs"
proof -
  have "\<forall>e \<in> set evs. channels s (ev_fd e) \<noteq> None" using evs(2) by auto
  from activate_ok [OF ok evs(1) this] obtain active s' where p: "Poller_activate evs s = Inr (active, s')" "server_ok s'"
    "marked active s'" "\<forall>(ch, e) \<in> set active. channels s (ev_fd e) = Some ch \<and> e \<in> set evs"
    "\<forall>b c. objects s b = Some c \<longrightarrow> (\<exists>r. objects s' b = Some (c\<lparr>revents := r\<rparr>))" by blast
  have "\<exists>a c. ch = Conn_Channel a \<and> objects s' a = Some c \<and> sockfd c = ev_fd e \<and> conn_event_ok c e"
    if "(ch, e) \<in> set active" for ch e
  proof -
    have e: "channels s (ev_fd e) = Some ch" "e \<in> set evs" using that p(4) by auto
    have "event_ok s e" "\<exists>a. channels s (ev_fd e) = Some (Conn_Channel a)" using evs(2) e(2) by simp_all
    with e(1) obtain a c where a: "ch = Conn_Channel a" and c: "objects s a = Some c" "conn_event_ok c e"
      by (auto simp: event_ok_def split: option.splits)
    have "sockfd c = ev_fd e" using server_okD(7) [OF ok] e(1) a c(1) by fastforce
    moreover have "conn_event_ok (c\<lparr>revents := r\<rparr>) e = conn_event_ok c e" for r
      by (simp add: conn_event_ok_def idle_def fits_def terminated_def split: send_answer.split)
    moreover obtain r where "objects s' a = Some (c\<lparr>revents := r\<rparr>)" using p(5) c(1) by blast
    ultimately show ?thesis using a c(2) by simp
  qed
  then have "turns_ok n active s'" by (intro conn_turns_ok [OF p(2,3)]) auto
  then show ?thesis using evs p(1) by (auto simp: batch_ok_def Poller_Poll_def)
qed

lemma round_ok:
  assumes ok: "server_ok s" and w: "wait_ok n s w"
  shows "\<exists>s'. EventLoop_round (EchoServer_handlers (Suc n)) w s = Inr s' \<and> server_ok s'"
proof (cases w)
  case (Ready evs)
  then have evs: "distinct (map ev_fd evs)" "\<forall>e \<in> set evs. channels s (ev_fd e) \<noteq> None"
    using w by (simp_all add: wait_ok_def batch_ok_def)
  obtain active s1 where p: "Poller_activate evs s = Inr (active, s1)" "server_ok s1" "marked active s1"
    using activate_ok [OF ok evs] by blast
  then have "turns_ok n active s1" using w Ready by (simp add: wait_ok_def batch_ok_def Poller_Poll_def)
  from turns_handled [OF p(2,3) this] obtain s2 where
    "handle_active (EchoServer_handlers (Suc n)) active s1 = Inr s2" "server_ok s2" by blast
  then show ?thesis
    using p(1) Ready RunAllTask_idle [OF server_okD(3)]
    by (simp add: EventLoop_round_def Poller_Poll_def del: EchoServer_handlers.simps)
next
  case (Wait_error e)
  then show ?thesis
    using w ok RunAllTask_idle [OF server_okD(3) [OF ok]]
    by (simp add: wait_ok_def EventLoop_round_def Poller_Poll_def del: EchoServer_handlers.simps)
qed

section \<open>Runs\<close>

lemma TcpServer_new_sel:
  "tick (TcpServer_new t e l h) = 0" "wheel (TcpServer_new t e l h) = replicate wheel_capacity []"
  "timers (TcpServer_new t e l h) = Map.empty" "tasks (TcpServer_new t e l h) = Map.empty"
  "objects (TcpServer_new t e l h) = Map.empty" "conns (TcpServer_new t e l h) = Map.empty"
  "jobs (TcpServer_new t e l h) = []" "srv_conn_id (TcpServer_new t e l h) = 0" "next_object (TcpServer_new t e l h) = 0"
  "srv_enable_inactive_release (TcpServer_new t e l h) = False" "next_task (TcpServer_new t e l h) = 0"
  by (simp_all add: TcpServer_new_def Poller_UpdateEvent_def TimerWheel.defs Server.defs TimerWheel_new_def wheel_capacity_def)

lemma TcpServer_new_channels:
  assumes "t \<noteq> e" "t \<noteq> l" "e \<noteq> l"
  shows "channels (TcpServer_new t e l h)
    = [t \<mapsto> Timerfd_Channel, e \<mapsto> Eventfd_Channel, l \<mapsto> Accept_Channel]"
  using assms
  by (simp add: TcpServer_new_def Poller_UpdateEvent_def Poller_HasChannel_def TimerWheel.defs Server.defs)

lemma server_ok_new:
  assumes "t \<noteq> e" "t \<noteq> l" "e \<noteq> l"
  shows "server_ok (TcpServer_new t e l h)"
proof -
  have "wheel_ok (TcpServer_new t e l h)" "timeouts_ok (TcpServer_new t e l h)"
    by (simp_all add: wheel_ok_def timeouts_ok_def TcpServer_new_sel refs_def wheel_capacity_def)
  then show ?thesis
    by (simp add: server_ok_def TcpServer_new_sel TcpServer_new_channels [OF assms])
qed

lemma server_ok_enable:
  assumes "server_ok s" "1 \<le> t" "t \<le> 60"
  shows "server_ok (TcpServer_EnableInactiveRelease t s)"
proof -
  let ?s = "TcpServer_EnableInactiveRelease t s"
  have "conn_ok ?s b x = conn_ok s b x" for b x
    by (simp add: conn_ok_def timer_ok_def TcpServer_EnableInactiveRelease_def)
  moreover have "task_ok ?s u = task_ok s u" for u
    by (simp add: task_ok_def TcpServer_EnableInactiveRelease_def split: callback.split)
  moreover have "wheel_ok ?s = wheel_ok s" "timeouts_ok ?s = timeouts_ok s"
    by (rule wheel_ok_cong; simp add: TcpServer_EnableInactiveRelease_def)+
  ultimately show ?thesis using assms by (simp add: server_ok_def TcpServer_EnableInactiveRelease_def)
qed

text \<open>The states of a running echo server: it is set up, with or without an inactivity timeout,
  and handles one answer of \<open>epoll_wait\<close> after the other.\<close>

inductive reachable :: "nat \<Rightarrow> Server \<Rightarrow> bool" for n where
  start: "t \<noteq> e \<Longrightarrow> t \<noteq> l \<Longrightarrow> e \<noteq> l \<Longrightarrow> reachable n (TcpServer_new t e l h)"
| start_timeout: "t \<noteq> e \<Longrightarrow> t \<noteq> l \<Longrightarrow> e \<noteq> l \<Longrightarrow> 1 \<le> sec \<Longrightarrow> sec \<le> 60 \<Longrightarrow>
    reachable n (TcpServer_EnableInactiveRelease sec (TcpServer_new t e l h))"
| round: "reachable n s \<Longrightarrow> wait_ok n s w \<Longrightarrow>
    EventLoop_round (EchoServer_handlers (Suc n)) w s = Inr s' \<Longrightarrow> reachable n s'"

lemma reachable_ok: "reachable n s \<Longrightarrow> server_ok s"
proof (induction rule: reachable.induct)
  case (round s w s')
  then show ?case using round_ok [of s n w] by (auto simp del: EchoServer_handlers.simps)
qed (simp_all add: server_ok_new server_ok_enable)

lemma Start_append:
  "EventLoop_Start cbs (ws @ vs) s = bind_res (EventLoop_Start cbs ws s) (EventLoop_Start cbs vs)"
  by (induction ws arbitrary: s) (simp_all add: bind_res_assoc cong: bind_res_cong)

text \<open>The bytes written to a descriptor.\<close>

definition sent_to :: "int \<Rightarrow> effect list \<Rightarrow> char list" where
  "sent_to fd tr = concat (map (\<lambda>e. case e of Sent f bs \<Rightarrow> if f = fd then bs else [] | _ \<Rightarrow> []) tr)"

lemma sent_to_simps [simp]:
  "sent_to fd [] = []" "sent_to fd (tr @ tr') = sent_to fd tr @ sent_to fd tr'"
  "sent_to fd (Sent f bs # tr) = (if f = fd then bs else []) @ sent_to fd tr"
  "sent_to fd (Epoll_ctl o1 f ev # tr) = sent_to fd tr" "sent_to fd (Close f # tr) = sent_to fd tr"
  "sent_to fd (Called_closed i # tr) = sent_to fd tr" "sent_to fd (Destroyed i # tr) = sent_to fd tr"
  by (simp_all add: sent_to_def)

lemma sent_to_ctl: "set tr \<subseteq> {Epoll_ctl p f ev} \<Longrightarrow> sent_to fd tr = []"
  by (induction tr) auto

definition blank_event :: "int \<Rightarrow> u32 \<Rightarrow> event" where
  "blank_event fd ev = \<lparr>ev_fd = fd, ev_events = ev, ev_recv = Recv_data [], ev_send = Send_accepts 0,
     ev_accept = None, ev_timer = None, ev_eventfd = None\<rparr>"

definition read_event :: "int \<Rightarrow> recv_answer \<Rightarrow> event" where
  "read_event fd ans = (blank_event fd EPOLLIN)\<lparr>ev_recv := ans\<rparr>"

definition write_event :: "int \<Rightarrow> nat \<Rightarrow> event" where
  "write_event fd n = (blank_event fd EPOLLOUT)\<lparr>ev_send := Send_accepts n\<rparr>"

definition timer_event :: "int \<Rightarrow> event" where
  "timer_event fd = (blank_event fd EPOLLIN)\<lparr>ev_timer := Some 1\<rparr>"

definition accept_event :: "int \<Rightarrow> int \<Rightarrow> event" where
  "accept_event fd newfd = (blank_event fd EPOLLIN)\<lparr>ev_accept := Some newfd\<rparr>"

lemmas event_defs = read_event_def write_event_def timer_event_def accept_event_def blank_event_def

lemma flags [simp]:
  "read_ready EPOLLIN" "\<not> read_ready EPOLLOUT" "any_of EPOLLOUT EPOLLOUT" "\<not> any_of EPOLLIN EPOLLOUT"
  "\<not> any_of EPOLLIN EPOLLERR" "\<not> any_of EPOLLIN EPOLLHUP"
  by (simp_all add: read_ready_def any_of_def epoll_flags)

lemma write_round:
  assumes ok: "server_ok s" and c: "objects s a = Some c"
  obtains ws c1 where
    "EventLoop_round (EchoServer_handlers k) (Ready [write_event (sockfd c) n]) s
      = bind_res (Connection_HandleWrite (EchoServer_handlers k) (Send_accepts n) a
          (put_conn a c1 s\<lparr>wheel := ws\<rparr>)) (EventLoop_RunAllTask (EchoServer_handlers k))"
    "server_ok (put_conn a c1 s\<lparr>wheel := ws\<rparr>)" "c1 = c\<lparr>revents := EPOLLOUT\<rparr>"
proof -
  let ?c = "c\<lparr>revents := EPOLLOUT\<rparr>"
  let ?s = "put_conn a ?c s"
  have ok1: "server_ok ?s" by (rule server_ok_revents [OF ok c])
  have c1: "objects ?s a = Some ?c" by simp
  obtain ws where ws: "Connection_HandleEvent (EchoServer_handlers k) a ?s = Inr (?s\<lparr>wheel := ws\<rparr>)"
    "server_ok (?s\<lparr>wheel := ws\<rparr>)" by (rule HandleEvent_ok [OF ok1 c1])
  have "EventLoop_round (EchoServer_handlers k) (Ready [write_event (sockfd c) n]) s
      = bind_res (Connection_HandleWrite (EchoServer_handlers k) (Send_accepts n) a
          (?s\<lparr>wheel := ws\<rparr>)) (EventLoop_RunAllTask (EchoServer_handlers k))"
    using round_conn [of s "write_event (sockfd c) n" a c] conn_okD(5) [OF server_okD(5) [OF ok c]] c ws(1)
    by (simp add: event_defs Channel_HandleEvent_def with_conn_Some)
  with that ws(2) show ?thesis by blast
qed

lemma write_rounds:
  assumes "server_ok s" "objects s a = Some c" "readable (out_buffer c) \<noteq> []" "length (readable (out_buffer c)) < 2 ^ 31"
    and "sum_list ns = length (readable (out_buffer c))" "0 \<notin> set ns"
  shows "\<exists>s' tr. EventLoop_Start (EchoServer_handlers k) (map (\<lambda>n. Ready [write_event (sockfd c) n]) ns) s = Inr s'
    \<and> server_ok s' \<and> trace s' = trace s @ tr \<and> sent_to (sockfd c) tr = readable (out_buffer c)
    \<and> objects s' a = None \<and> conns s' (conn_id c) = None \<and> channels s' (sockfd c) = None \<and> Close (sockfd c) \<in> set tr"
  using assms
proof (induction ns arbitrary: s c)
  case Nil
  then show ?case by simp
next
  case (Cons n ns)
  let ?h = "EchoServer_handlers k" and ?fd = "sockfd c"
  obtain ws c1 where r: "EventLoop_round ?h (Ready [write_event ?fd n]) s
      = bind_res (Connection_HandleWrite ?h (Send_accepts n) a (put_conn a c1 s\<lparr>wheel := ws\<rparr>)) (EventLoop_RunAllTask ?h)"
    "server_ok (put_conn a c1 s\<lparr>wheel := ws\<rparr>)" "c1 = c\<lparr>revents := EPOLLOUT\<rparr>"
    by (rule write_round [OF Cons.prems(1,2), of k n])
  let ?s1 = "put_conn a c1 s\<lparr>wheel := ws\<rparr>"
  have o1: "objects ?s1 a = Some c1" by simp
  have sel: "out_buffer c1 = out_buffer c" "sockfd c1 = ?fd" "conn_id c1 = conn_id c" "\<not> idle c1"
    using r(3) Cons.prems(3) by (simp_all add: idle_def)
  show ?case
  proof (cases "n < length (readable (out_buffer c))")
    case True
    obtain out where w: "Connection_HandleWrite ?h (Send_accepts n) a ?s1
        = Inr (?s1\<lparr>objects := (objects ?s1)(a \<mapsto> c1\<lparr>out_buffer := out\<rparr>),
            trace := trace ?s1 @ [Sent (sockfd c1) (take n (readable (out_buffer c1)))]\<rparr>)"
      "conn_ok ?s1 a (c1\<lparr>out_buffer := out\<rparr>)" "readable out = drop n (readable (out_buffer c1))"
      by (rule HandleWrite_part [OF r(2) o1, of n ?h]) (use True Cons.prems(4) sel in simp_all)
    let ?s2 = "?s1\<lparr>objects := (objects ?s1)(a \<mapsto> c1\<lparr>out_buffer := out\<rparr>),
            trace := trace ?s1 @ [Sent (sockfd c1) (take n (readable (out_buffer c1)))]\<rparr>"
    have ok2: "server_ok ?s2" by (rule server_ok_conn [OF r(2) o1 w(2)]) simp_all
    have o2: "objects ?s2 a = Some (c1\<lparr>out_buffer := out\<rparr>)" by simp
    have round: "EventLoop_round ?h (Ready [write_event ?fd n]) s = Inr ?s2"
      unfolding r(1) w(1) bind_res_Inr by (rule RunAllTask_idle [OF server_okD(3) [OF ok2]])
    have "\<exists>s' tr. EventLoop_Start ?h (map (\<lambda>n. Ready [write_event (sockfd (c1\<lparr>out_buffer := out\<rparr>)) n]) ns) ?s2 = Inr s'
      \<and> server_ok s' \<and> trace s' = trace ?s2 @ tr
      \<and> sent_to (sockfd (c1\<lparr>out_buffer := out\<rparr>)) tr = readable (out_buffer (c1\<lparr>out_buffer := out\<rparr>))
      \<and> objects s' a = None \<and> conns s' (conn_id (c1\<lparr>out_buffer := out\<rparr>)) = None
      \<and> channels s' (sockfd (c1\<lparr>out_buffer := out\<rparr>)) = None \<and> Close (sockfd (c1\<lparr>out_buffer := out\<rparr>)) \<in> set tr"
      by (rule Cons.IH [OF ok2 o2]) (use True Cons.prems(4-6) sel w(3) in auto)
    then obtain s' tr where IH: "EventLoop_Start ?h (map (\<lambda>n. Ready [write_event ?fd n]) ns) ?s2 = Inr s'"
      "server_ok s'" "trace s' = trace ?s2 @ tr" "sent_to ?fd tr = drop n (readable (out_buffer c))"
      "objects s' a = None" "conns s' (conn_id c) = None" "channels s' ?fd = None" "Close ?fd \<in> set tr"
      using sel w(3) by auto
    have "trace s' = trace s @ (Sent ?fd (take n (readable (out_buffer c))) # tr)" using IH(3) sel by simp
    moreover have "sent_to ?fd (Sent ?fd (take n (readable (out_buffer c))) # tr) = readable (out_buffer c)"
      using IH(4) by simp
    moreover have "EventLoop_Start ?h (map (\<lambda>n. Ready [write_event ?fd n]) (n # ns)) s = Inr s'"
      using round IH(1) by simp
    ultimately show ?thesis using IH by (metis list.set_intros(2))
  next
    case False
    then have n: "n = length (readable (out_buffer c1))" "ns = []"
      using Cons.prems(5,6) sel by (auto simp: sum_list_eq_0_iff) (cases ns; auto)
    have w: "Connection_HandleWrite ?h (Send_accepts n) a ?s1 = Inr (released a c1 ?s1\<lparr>trace := trace ?s1 @
        [Sent (sockfd c1) (readable (out_buffer c1)), Epoll_ctl EPOLL_CTL_MOD (sockfd c1) EPOLLIN,
         Epoll_ctl EPOLL_CTL_DEL (sockfd c1) EPOLLIN, Close (sockfd c1), Called_closed (conn_id c1), Destroyed (conn_id c1)]\<rparr>)"
      (is "_ = Inr ?s2")
      by (rule HandleWrite_last [OF r(2) o1 n(1) sel(4)]) (use n(1) Cons.prems(4) sel in simp)
    have ok2: "server_ok ?s2" by (rule server_ok_released [OF r(2) o1]) simp_all
    have "EventLoop_round ?h (Ready [write_event ?fd n]) s = Inr ?s2"
      unfolding r(1) w bind_res_Inr by (rule RunAllTask_idle [OF server_okD(3) [OF ok2]])
    then have "EventLoop_Start ?h (map (\<lambda>n. Ready [write_event ?fd n]) (n # ns)) s = Inr ?s2"
      using n(2) by simp
    moreover have "objects ?s2 a = None" "conns ?s2 (conn_id c) = None" "channels ?s2 ?fd = None"
      using sel by (simp_all add: released_def)
    ultimately show ?thesis
      using ok2 sel by (intro exI [of _ ?s2] exI [of _ "[Sent ?fd (readable (out_buffer c)),
        Epoll_ctl EPOLL_CTL_MOD ?fd EPOLLIN, Epoll_ctl EPOLL_CTL_DEL ?fd EPOLLIN, Close ?fd,
        Called_closed (conn_id c), Destroyed (conn_id c)]"]) simp
  qed
qed

lemma connection_round_order:
  assumes "server_ok s" "objects s a = Some c" "read_ready ev"
  obtains ws where "Connection_HandleEvent (EchoServer_handlers n) a (put_conn a (c\<lparr>revents := ev\<rparr>) s)
      = Inr (put_conn a (c\<lparr>revents := ev\<rparr>) s\<lparr>wheel := ws\<rparr>)"
    "server_ok (put_conn a (c\<lparr>revents := ev\<rparr>) s\<lparr>wheel := ws\<rparr>)"
  by (rule HandleEvent_ok [OF server_ok_revents [OF assms(1,2)], where a = a and c = "c\<lparr>revents := ev\<rparr>"]) simp_all

text \<open>A running server with one idle connection on descriptor 6, without and with a timeout of
  two seconds.\<close>

definition demo :: Server where
  "demo = (let s = TcpServer_new 3 4 5 0 in accepted 0 (new_conn s 6 False) s)"

definition demo_timeout :: Server where
  "demo_timeout = (let s = TcpServer_EnableInactiveRelease 2 (TcpServer_new 3 4 5 0) in
     accepted 0 (new_conn s 6 True) (TimerWheel_TimerAddInLoop 1 2 (Release 0) s))"

lemma demo_ok: "server_ok demo" "objects demo 0 = Some (new_conn (TcpServer_new 3 4 5 0) 6 False)"
proof -
  let ?s = "TcpServer_new 3 4 5 0"
  have "server_ok (accepted (next_object ?s) (new_conn ?s 6 (srv_enable_inactive_release ?s))
      (if srv_enable_inactive_release ?s
       then TimerWheel_TimerAddInLoop (srv_conn_id ?s + 1) (word_of_int (srv_timeout ?s)) (Release (next_object ?s)) ?s
       else ?s))"
    by (rule server_ok_accepted [OF server_ok_new]) (simp_all add: TcpServer_new_channels TcpServer_new_sel)
  then show "server_ok demo" by (simp add: demo_def Let_def TcpServer_new_sel)
  show "objects demo 0 = Some (new_conn ?s 6 False)" by (simp add: demo_def accepted_def Let_def)
qed

lemma demo_conn [simp]:
  "sockfd (new_conn s fd e) = fd" "conn_id (new_conn s fd e) = srv_conn_id s + 1"
  "in_buffer (new_conn s fd e) = Buffer_new" "out_buffer (new_conn s fd e) = Buffer_new"
  "enable_inactive_release (new_conn s fd e) = e" "idle (new_conn s fd e)"
  by (simp_all add: new_conn_def Connection_new_def idle_def)

lemma demo_timeout_ok:
  defines "s \<equiv> TcpServer_EnableInactiveRelease 2 (TcpServer_new 3 4 5 0)"
  shows "server_ok demo_timeout" "objects demo_timeout 0 = Some (new_conn s 6 True)"
    "channels demo_timeout 3 = Some Timerfd_Channel" "channels demo_timeout 6 = Some (Conn_Channel 0)"
    "alarms demo_timeout 1 = Some \<lparr>remaining = 2, period = 2, muted = False, action = Release 0\<rparr>"
proof -
  have ok: "server_ok s" unfolding s_def by (rule server_ok_enable [OF server_ok_new]) simp_all
  have sel: "srv_enable_inactive_release s" "srv_timeout s = 2" "srv_conn_id s = 0" "next_object s = 0"
    "channels s = [3 \<mapsto> Timerfd_Channel, 4 \<mapsto> Eventfd_Channel, 5 \<mapsto> Accept_Channel]" "timers s = Map.empty"
    by (simp_all add: s_def TcpServer_EnableInactiveRelease_def TcpServer_new_sel TcpServer_new_channels)
  have "server_ok (accepted (next_object s) (new_conn s 6 (srv_enable_inactive_release s))
      (if srv_enable_inactive_release s
       then TimerWheel_TimerAddInLoop (srv_conn_id s + 1) (word_of_int (srv_timeout s)) (Release (next_object s)) s
       else s))"
    by (rule server_ok_accepted [OF ok]) (simp_all add: sel)
  then show "server_ok demo_timeout" by (simp add: demo_timeout_def s_def [symmetric] Let_def sel)
  show "objects demo_timeout 0 = Some (new_conn s 6 True)" "channels demo_timeout 3 = Some Timerfd_Channel"
    "channels demo_timeout 6 = Some (Conn_Channel 0)"
    by (simp_all add: demo_timeout_def s_def [symmetric] Let_def accepted_def TimerAdd_sel sel)
  let ?w = "TimerWheel_TimerAddInLoop 1 2 (Release 0) s"
  have "alarms demo_timeout = alarms ?w"
    by (rule wheel_ok_cong) (simp_all add: demo_timeout_def s_def [symmetric] Let_def accepted_def)
  moreover have "alarms ?w = (alarms s)(1 \<mapsto> \<lparr>remaining = (unat (2 :: u32) + 59) mod 60 + 1,
      period = unat (2 :: u32), muted = False, action = Release 0\<rparr>)"
    by (rule add_refines(2) [OF server_okD(1) [OF ok]])
      (simp_all add: TimerWheel_HasTimer_def sel wheel_capacity_def)
  ultimately show "alarms demo_timeout 1 = Some \<lparr>remaining = 2, period = 2, muted = False, action = Release 0\<rparr>"
    by simp
qed

section \<open>Properties\<close>

text \<open>
  C1. The echo server runs on. In every reachable state the invariant \<open>server_ok\<close> holds: each
  live connection has one entry in \<open>_conns\<close>, one channel in the poller for its open descriptor,
  is being closed exactly while an answer waits to be sent and then watches for writability, and
  its timer releases it and nothing else. A round of the loop on any answer of \<open>epoll_wait\<close> that
  is \<open>wait_ok\<close>, a batch of any number of events or an interruption, ends without a fault in a
  reachable state. Not \<open>wait_ok\<close>, and fatal, are a failed read on an idle connection, a request
  without a NUL that fills the buffer, and an event of a connection which an earlier event of
  the same batch has dropped; failures of the system itself (reading the timer or the event
  descriptor, memory, 31-bit ids) are left aside. Acceptable events of different connections are
  never in each other's way.
\<close>

theorem echo_server_runs_on:
  assumes "reachable n s"
  shows "server_ok s
    \<and> (\<forall>w. wait_ok n s w \<longrightarrow>
        (\<exists>s'. EventLoop_round (EchoServer_handlers (Suc n)) w s = Inr s' \<and> reachable n s'))
    \<and> (\<forall>evs. distinct (map ev_fd evs)
        \<and> (\<forall>e \<in> set evs. event_ok s e \<and> (\<exists>a. channels s (ev_fd e) = Some (Conn_Channel a)))
        \<longrightarrow> wait_ok n s (Ready evs))"
proof -
  have ok: "server_ok s" by (rule reachable_ok [OF assms])
  moreover have "\<exists>s'. EventLoop_round (EchoServer_handlers (Suc n)) w s = Inr s' \<and> reachable n s'"
    if w: "wait_ok n s w" for w
    using round_ok [OF ok w] reachable.round [OF assms w] by blast
  ultimately show ?thesis using conn_batch_ok [OF ok] by (simp add: wait_ok_def del: EchoServer_handlers.simps)
qed

theorem echo_server_runs_on_witness:
  "server_ok (TcpServer_new 3 4 5 0)
   \<and> (\<exists>s'. EventLoop_round (EchoServer_handlers (Suc 0)) (Ready [timer_event 3, accept_event 5 6]) (TcpServer_new 3 4 5 0)
          = Inr s' \<and> reachable 0 s')"
proof -
  let ?s = "TcpServer_new 3 4 5 0"
  have ok: "server_ok ?s" by (rule server_ok_new) simp_all
  have tick: "Channel_HandleEvent (EchoServer_handlers (Suc 0)) Timerfd_Channel (timer_event 3) ?s = Inr (ticked ?s)"
    using OnTime_eq [OF ok, of "Suc 0" 1] by (simp add: Channel_HandleEvent_def event_defs del: EchoServer_handlers.simps)
  have "event_ok ?s (timer_event 3)" "event_ok (ticked ?s) (accept_event 5 6)"
    by (simp_all add: event_ok_def event_defs TcpServer_new_channels TcpServer_new_sel ticked_sel [OF ok])
  then have "wait_ok 0 ?s (Ready [timer_event 3, accept_event 5 6])"
    using tick
    by (simp add: wait_ok_def batch_ok_def Poller_Poll_def Channel_SetRevents_def TcpServer_new_channels ticked_sel [OF ok]
        event_defs split: sum.split del: EchoServer_handlers.simps)
  then show ?thesis
    using echo_server_runs_on [OF reachable.start [of 3 4 5 0 0]] by (simp del: EchoServer_handlers.simps)
qed

text \<open>
  C14. What a client gets: when an idle connection receives a request that can be logged (on a
  new connection: less than 1024 bytes, or with a NUL), then however the socket splits the
  writes, exactly \<open>hello world\<close> is sent on it, and with the last byte the connection is removed
  from the poller and from \<open>_conns\<close>, its descriptor closed and its object destroyed.
\<close>

theorem echo_answers:
  assumes "server_ok s" "objects s a = Some c" "idle c" "bs \<noteq> []" "fits c (length bs)" "terminated c bs"
    and "sum_list ns = 11" "0 \<notin> set ns"
  shows "\<exists>s' tr. EventLoop_Start (EchoServer_handlers (Suc n))
      (Ready [read_event (sockfd c) (Recv_data bs)] # map (\<lambda>k. Ready [write_event (sockfd c) k]) ns) s = Inr s'
    \<and> server_ok s' \<and> trace s' = trace s @ tr \<and> sent_to (sockfd c) tr = ''hello world''
    \<and> objects s' a = None \<and> conns s' (conn_id c) = None \<and> channels s' (sockfd c) = None \<and> Close (sockfd c) \<in> set tr"
proof -
  let ?h = "EchoServer_handlers (Suc n)" and ?e = "read_event (sockfd c) (Recv_data bs)"
  let ?c = "c\<lparr>revents := EPOLLIN\<rparr>"
  have ok1: "server_ok (put_conn a ?c s)" by (rule server_ok_revents [OF assms(1,2)])
  have e: "ev_fd ?e = sockfd c" "ev_events ?e = EPOLLIN" "ev_recv ?e = Recv_data bs" "received ?e = bs" "reply ?e = echo_str"
    using assms(4) by (simp_all add: event_defs received_def reply_def Socket_Recv_def)
  obtain s1 c1 tr1 where r: "(if read_ready (ev_events ?e)
      then bind_res (Connection_HandleEvent ?h a (put_conn a ?c s)) (Connection_HandleRead ?h (ev_recv ?e) a)
      else Inr (put_conn a ?c s)) = Inr s1" "server_ok s1" "objects s1 a = Some c1" "revents c1 = revents ?c"
    "conn_id c1 = conn_id ?c" "sockfd c1 = sockfd ?c" "readable (out_buffer c1) = readable (out_buffer ?c) @ reply ?e"
    "trace s1 = trace (put_conn a ?c s) @ tr1" "set tr1 \<subseteq> {Epoll_ctl EPOLL_CTL_MOD (sockfd ?c) (EPOLLIN OR EPOLLOUT)}"
    by (rule read_half [OF ok1, of a ?c ?e n])
      (use assms(5,6) e in \<open>simp_all add: fits_def terminated_def Socket_Recv_def\<close>)
  have "EventLoop_round ?h (Ready [?e]) s = Inr s1"
    using round_conn [of s ?e a c ?h] conn_okD(5) [OF server_okD(5) [OF assms(1,2)]] assms(2) e(1-3) r(1,3,4)
      RunAllTask_idle [OF server_okD(3) [OF r(2)]]
    by (simp add: Channel_HandleEvent_def with_conn_Some del: EchoServer_handlers.simps)
  moreover have out: "readable (out_buffer c1) = echo_str" using r(7) assms(3) e(5) by (simp add: idle_def)
  moreover obtain s' tr where w: "EventLoop_Start ?h (map (\<lambda>k. Ready [write_event (sockfd c1) k]) ns) s1 = Inr s'"
    "server_ok s'" "trace s' = trace s1 @ tr" "sent_to (sockfd c1) tr = readable (out_buffer c1)"
    "objects s' a = None" "conns s' (conn_id c1) = None" "channels s' (sockfd c1) = None" "Close (sockfd c1) \<in> set tr"
    using write_rounds [OF r(2,3), of ns "Suc n"] out assms(7,8) by (auto simp del: EchoServer_handlers.simps)
  moreover have "sent_to (sockfd c) (tr1 @ tr) = ''hello world''"
    using w(4) out r(6) sent_to_ctl [OF r(9)] by (simp add: echo_str_def)
  ultimately show ?thesis
    using r(5,6,8) by (intro exI [of _ s'] exI [of _ "tr1 @ tr"]) (simp del: EchoServer_handlers.simps)
qed

theorem echo_answers_witness:
  "\<exists>s' tr. EventLoop_Start (EchoServer_handlers (Suc 0))
      (Ready [read_event 6 (Recv_data ''GET'')] # map (\<lambda>k. Ready [write_event 6 k]) [4, 7]) demo = Inr s'
    \<and> server_ok s' \<and> trace s' = trace demo @ tr \<and> sent_to 6 tr = ''hello world'' \<and> objects s' 0 = None"
proof -
  have "fits (new_conn (TcpServer_new 3 4 5 0) 6 False) (length ''GET'')"
    by (simp add: fits_def vec_max_size_def)
  moreover have "terminated (new_conn (TcpServer_new 3 4 5 0) 6 False) ''GET''"
    by (subst terminated_first) (simp_all add: vec_max_size_def)
  ultimately show ?thesis
    using echo_answers [OF demo_ok _ _, of "''GET''" "[4, 7]" 0] by (auto simp del: EchoServer_handlers.simps)
qed

text \<open>
  C15. A long request is read past its end: when the first request on a connection has 1024
  bytes or more, none of them NUL, the buffer is exactly full and the \<open>%s\<close> of the log line in
  \<open>OnMessage\<close> reads beyond the vector.
\<close>

theorem long_request_read_past_end:
  assumes "server_ok s" "objects s a = Some c" "in_buffer c = Buffer_new"
    and "1024 \<le> length bs" "CHR 0x00 \<notin> set bs" "1024 + length bs \<le> vec_max_size"
  shows "EventLoop_round (EchoServer_handlers (Suc n)) (Ready [read_event (sockfd c) (Recv_data bs)]) s = Inl Out_Of_Bounds"
proof -
  let ?h = "EchoServer_handlers (Suc n)" and ?e = "read_event (sockfd c) (Recv_data bs)"
  let ?c = "c\<lparr>revents := EPOLLIN\<rparr>"
  obtain ws where ws: "Connection_HandleEvent ?h a (put_conn a ?c s) = Inr (put_conn a ?c s\<lparr>wheel := ws\<rparr>)"
    by (rule connection_round_order [OF assms(1,2), of EPOLLIN "Suc n"]) simp_all
  let ?s = "put_conn a ?c s\<lparr>wheel := ws\<rparr>"
  have bs: "bs \<noteq> []" "Socket_Recv (Recv_data bs) = Some bs" using assms(4) by (auto simp: Socket_Recv_def)
  let ?b = "\<lparr>buffer = bs, reader_idx = 0, writer_idx = of_nat (length bs)\<rparr>"
  have b: "Buffer_WriteAndPush (in_buffer c) bs (of_nat (length bs)) = Inr ?b"
    using WriteAndPush_new [OF bs(1) assms(6)] assms(3,4) by simp
  have "unat (of_nat (length bs) :: u64) = length bs"
    using assms(6) by (intro unat_of_nat_le) (simp add: vec_max_size_def)
  then have "(of_nat (length bs) :: u64) \<noteq> 0" using bs(1) by (metis length_0_conv unat_0)
  then have pos: "0 < Buffer_ReadAbleSize ?b" by (simp add: Buffer_ReadAbleSize_def word_neq_0_conv)
  have "log_message ?b = Inl Out_Of_Bounds" using assms(5) by (simp add: log_message_def)
  then have "Connection_HandleRead ?h (Recv_data bs) a ?s = Inl Out_Of_Bounds"
    using bs(2) b pos
    by (simp add: Connection_HandleRead_def with_conn_Some call_or_throw_def call_shared_def share_def EchoServer_OnMessage_def)
  then have "Channel_HandleEvent ?h (Conn_Channel a) ?e (put_conn a ?c s) = Inl Out_Of_Bounds"
    using ws by (simp add: Channel_HandleEvent_def with_conn_Some event_defs del: EchoServer_handlers.simps)
  then show ?thesis
    using round_conn [of s ?e a c ?h] conn_okD(5) [OF server_okD(5) [OF assms(1,2)]] assms(2)
    by (simp add: event_defs del: EchoServer_handlers.simps)
qed

theorem long_request_read_past_end_witness:
  "EventLoop_round (EchoServer_handlers (Suc 0)) (Ready [read_event 6 (Recv_data (replicate 1024 CHR ''x''))]) demo
   = Inl Out_Of_Bounds"
  using long_request_read_past_end [OF demo_ok, of "replicate 1024 CHR ''x''" 0]
  by (simp add: vec_max_size_def del: EchoServer_handlers.simps)

text \<open>
  C17. A peer that hangs up destroys the object the loop is working on: when a read on an idle
  connection fails or finds the end of the stream, \<open>ReleaseInLoop\<close> drops the last pointer to the
  connection, and \<open>Channel::HandleEvent\<close> then reads \<open>_revents\<close> of the destroyed object.
\<close>

theorem hang_up_uses_freed_connection:
  assumes "server_ok s" "objects s a = Some c" "idle c"
    and "ev_fd e = sockfd c" "read_ready (ev_events e)" "Socket_Recv (ev_recv e) = None"
  shows "EventLoop_round (EchoServer_handlers n) (Ready [e]) s = Inl Use_After_Free"
proof -
  let ?h = "EchoServer_handlers n" and ?c = "c\<lparr>revents := ev_events e\<rparr>"
  obtain ws where ws: "Connection_HandleEvent ?h a (put_conn a ?c s) = Inr (put_conn a ?c s\<lparr>wheel := ws\<rparr>)"
    "server_ok (put_conn a ?c s\<lparr>wheel := ws\<rparr>)" by (rule connection_round_order [OF assms(1,2,5)])
  let ?s = "put_conn a ?c s\<lparr>wheel := ws\<rparr>"
  have c: "objects ?s a = Some ?c" by simp
  note co = conn_okD [OF server_okD(5) [OF ws(2) c]]
  let ?s2 = "put_conn a (?c\<lparr>statu := DISCONNECTING\<rparr>) ?s"
  have "Connection_ShutdownInLoop ?h a ?s = Connection_ReleaseInLoop ?h a ?s2"
    using ShutdownInLoop_idle [OF c] ReadAbleSize_0_iff [OF co(9)] ReadAbleSize_0_iff [OF co(11)] co(10) assms(3)
    by (simp add: idle_def)
  moreover have "Connection_ReleaseInLoop ?h a ?s2 = Inr (released a (?c\<lparr>statu := DISCONNECTING\<rparr>) ?s2)"
    by (rule ReleaseInLoop_eq) (use co wheel_okD(3) [OF server_okD(1) [OF ws(2)]] in \<open>auto simp: refs_def\<close>)
  ultimately have "Connection_HandleRead ?h (ev_recv e) a ?s = Inr (released a (?c\<lparr>statu := DISCONNECTING\<rparr>) ?s2)"
    using assms(6) by (simp add: Connection_HandleRead_def)
  moreover have "objects (released a (?c\<lparr>statu := DISCONNECTING\<rparr>) ?s2) a = None" by (simp add: released_def)
  ultimately have "Channel_HandleEvent ?h (Conn_Channel a) e (put_conn a ?c s) = Inl Use_After_Free"
    using ws(1) assms(5) by (simp add: Channel_HandleEvent_def with_conn_Some with_conn_None)
  then show ?thesis
    using round_conn [of s e a c ?h] conn_okD(5) [OF server_okD(5) [OF assms(1,2)]] assms(2,4) by simp
qed

theorem hang_up_uses_freed_connection_witness:
  "EventLoop_round (EchoServer_handlers 1) (Ready [read_event 6 (Recv_eof Other_errno)]) demo = Inl Use_After_Free"
  by (rule hang_up_uses_freed_connection [OF demo_ok]) (simp_all add: event_defs Socket_Recv_def)

text \<open>
  C16. Idle connections are dropped on time: a connection with an inactivity timeout stays
  untouched while its timer counts down, and at the tick the timer reaches, its object is
  destroyed, its entry in \<open>_conns\<close> and its channel are gone, and every other connection is as
  before.
\<close>

theorem idle_connection_is_released:
  assumes "server_ok s" "objects s a = Some c" "alarms s (conn_id c) = Some al" "\<not> muted al"
    and "remaining al = Suc n" "channels s tfd = Some Timerfd_Channel"
  shows "\<exists>s1 s2. EventLoop_Start (EchoServer_handlers k) (replicate n (Ready [timer_event tfd])) s = Inr s1
    \<and> objects s1 a = Some c
    \<and> EventLoop_round (EchoServer_handlers k) (Ready [timer_event tfd]) s1 = Inr s2
    \<and> objects s2 a = None \<and> conns s2 (conn_id c) = None \<and> channels s2 (sockfd c) = None
    \<and> (\<forall>b. b \<noteq> a \<and> \<not> timed_out s1 b \<longrightarrow> objects s2 b = objects s1 b) \<and> server_ok s2"
  using assms
proof (induction n arbitrary: s al)
  case 0
  note sel = ticked_sel [OF 0(1)] and co = conn_okD [OF server_okD(5) [OF 0(1,2)]]
  have "timed_out s a" using 0 by (auto simp: timed_out_def)
  moreover have "EventLoop_round (EchoServer_handlers k) (Ready [timer_event tfd]) s = Inr (ticked s)"
    by (rule timer_round [OF 0(1)]) (simp_all add: 0(6) event_defs)
  ultimately show ?case
    using 0(2) co(1,5) server_ok_ticked(1) [OF 0(1)] by (intro exI [of _ s] exI [of _ "ticked s"]) (simp add: sel)
next
  case (Suc n)
  note sel = ticked_sel [OF Suc(2)]
  have not: "\<not> timed_out s a" using Suc.prems by (auto simp: timed_out_def)
  have "alarms (ticked s) (conn_id c) = Some (al\<lparr>remaining := Suc n\<rparr>)"
    using Suc.prems(3,5) server_ok_ticked(2) [OF Suc(2)] by (simp add: alarm_tick_def)
  moreover have "EventLoop_round (EchoServer_handlers k) (Ready [timer_event tfd]) s = Inr (ticked s)"
    by (rule timer_round [OF Suc(2)]) (simp_all add: Suc(7) event_defs)
  ultimately show ?case
    using Suc.IH [OF server_ok_ticked(1) [OF Suc(2)], of "al\<lparr>remaining := Suc n\<rparr>"] Suc.prems not
    by (simp add: sel)
qed

theorem idle_connection_is_released_witness:
  "\<exists>s1 s2. EventLoop_Start (EchoServer_handlers 1) (replicate 1 (Ready [timer_event 3])) demo_timeout = Inr s1
    \<and> objects s1 0 \<noteq> None \<and> EventLoop_round (EchoServer_handlers 1) (Ready [timer_event 3]) s1 = Inr s2
    \<and> objects s2 0 = None \<and> channels s2 6 = None"
proof -
  have "srv_conn_id (TcpServer_EnableInactiveRelease 2 (TcpServer_new 3 4 5 0)) = 0"
    by (simp add: TcpServer_EnableInactiveRelease_def TcpServer_new_sel)
  then show ?thesis
    using idle_connection_is_released [OF demo_timeout_ok(1,2) _ _ _ demo_timeout_ok(3), of _ 1 1] demo_timeout_ok(5)
    by (auto simp del: EchoServer_handlers.simps EventLoop_Start.simps)
qed

text \<open>
  An event that is already in the batch of a poll survives its connection: when the timer
  that drops a connection and an event of this connection arrive together, the tick destroys
  the connection and the loop then handles the event on the dangling channel.
\<close>

theorem timeout_in_batch_uses_freed_connection:
  assumes "server_ok s" "objects s a = Some c" "timed_out s a"
    and "channels s tfd = Some Timerfd_Channel" "ev_fd e = sockfd c"
  shows "EventLoop_round (EchoServer_handlers n) (Ready [timer_event tfd, e]) s = Inl Use_After_Free"
proof -
  let ?h = "EchoServer_handlers n" and ?s = "put_conn a (c\<lparr>revents := ev_events e\<rparr>) s"
  have ok: "server_ok ?s" by (rule server_ok_revents [OF assms(1,2)])
  have "alarms ?s = alarms s" by (rule wheel_ok_cong) simp_all
  then have "timed_out ?s a" using assms(2,3) by (auto simp: timed_out_def)
  then have gone: "objects (ticked ?s) a = None" by (simp add: ticked_sel [OF ok])
  have "Poller_Poll (Ready [timer_event tfd, e]) s = Inr ([(Timerfd_Channel, timer_event tfd), (Conn_Channel a, e)], ?s)"
    using assms(2,4,5) conn_okD(5) [OF server_okD(5) [OF assms(1,2)]]
    by (simp add: Poller_Poll_def Channel_SetRevents_def with_conn_Some event_defs)
  moreover have "Channel_HandleEvent ?h Timerfd_Channel (timer_event tfd) ?s = Inr (ticked ?s)"
    using OnTime_eq [OF ok, of n 1] by (simp add: Channel_HandleEvent_def event_defs)
  moreover have "Channel_HandleEvent ?h (Conn_Channel a) e (ticked ?s) = Inl Use_After_Free"
    using gone by (simp add: Channel_HandleEvent_def with_conn_None)
  ultimately show ?thesis by (simp add: EventLoop_round_def)
qed

theorem timeout_in_batch_uses_freed_connection_witness:
  "EventLoop_round (EchoServer_handlers 1) (Ready [timer_event 3, read_event 6 (Recv_data ''x'')]) (ticked demo_timeout)
   = Inl Use_After_Free"
proof -
  let ?s0 = "TcpServer_EnableInactiveRelease 2 (TcpServer_new 3 4 5 0)"
  note sel = ticked_sel [OF demo_timeout_ok(1)]
  have id: "conn_id (new_conn ?s0 6 True) = 1" by (simp add: TcpServer_EnableInactiveRelease_def TcpServer_new_sel)
  have not: "\<not> timed_out demo_timeout 0"
    using demo_timeout_ok(2,5) id by (auto simp: timed_out_def)
  have c: "objects (ticked demo_timeout) 0 = Some (new_conn ?s0 6 True)" using not demo_timeout_ok(2) by (simp add: sel)
  have "alarms (ticked demo_timeout) 1 = Some \<lparr>remaining = 1, period = 2, muted = False, action = Release 0\<rparr>"
    using demo_timeout_ok(5) server_ok_ticked(2) [OF demo_timeout_ok(1)] by (simp add: alarm_tick_def)
  then have "timed_out (ticked demo_timeout) 0" using c id by (auto simp: timed_out_def)
  moreover have "channels (ticked demo_timeout) 3 = Some Timerfd_Channel" using demo_timeout_ok(3) by (simp add: sel)
  ultimately show ?thesis
    by (intro timeout_in_batch_uses_freed_connection [OF server_ok_ticked(1) [OF demo_timeout_ok(1)] c])
      (simp_all add: event_defs)
qed

lemma to_int32_big:
  assumes "2 ^ 31 \<le> x" "x < 2 ^ 32"
  shows "to_int32 x = x - 2 ^ 32"
proof -
  have "x div 2 ^ 31 = 1" using assms by (intro div_pos_geq [THEN trans]) (simp_all add: div_pos_pos_trivial)
  then have "bit x 31" by (simp add: bit_iff_odd)
  moreover have "take_bit 32 x = x" using assms by (intro take_bit_int_eq_self) simp_all
  ultimately have "signed_take_bit 31 x = x - 2 ^ 32" by (simp add: signed_take_bit_eq_take_bit_minus)
  then show ?thesis by (simp add: to_int32_def signed_of_int)
qed

lemma big_Connection_Id:
  assumes "2 ^ 31 \<le> uint (conn_id c)" "uint (conn_id c) < 2 ^ 32"
  shows "conn_id c < word_of_int (Connection_Id c)"
proof -
  have "uint (word_of_int (uint (conn_id c) - 2 ^ 32) :: u64) = (uint (conn_id c) - 2 ^ 32) mod 2 ^ 64"
    by (simp only: unsigned_of_int take_bit_eq_mod len_bit0 len_num1) simp
  also have "\<dots> = (uint (conn_id c) - 2 ^ 32 + 2 ^ 64) mod 2 ^ 64" by (rule mod_add_self2 [symmetric])
  also have "\<dots> = uint (conn_id c) - 2 ^ 32 + 2 ^ 64" using assms by (intro mod_pos_pos_trivial) simp_all
  finally show ?thesis using to_int32_big [OF assms] by (simp add: word_less_def Connection_Id_def)
qed

text \<open>
  \<open>Id()\<close> narrows the 64-bit connection number to \<open>int\<close>: from connection number 2 to the 31
  on, \<open>RemoveConnection\<close> finds no entry and changes nothing, so the entry in \<open>_conns\<close> and with
  it the connection's object stay for good.
\<close>

theorem RemoveConnection_misses_big_ids:
  assumes "objects s a = Some c" "1 \<le> shared c" "2 ^ 31 \<le> uint (conn_id c)" "uint (conn_id c) < 2 ^ 32"
    and "\<forall>k. conns s k \<noteq> None \<longrightarrow> k \<le> conn_id c"
  shows "TcpServer_RemoveConnection a s = Inr s"
proof -
  have "conns s (word_of_int (Connection_Id c)) = None"
    using big_Connection_Id [OF assms(3,4)] assms(5) by (metis not_le)
  moreover have "Connection_Id (c\<lparr>shared := n\<rparr>) = Connection_Id c" for n by (simp add: Connection_Id_def)
  ultimately show ?thesis
    using assms(1,2) put_conn_same [OF assms(1)]
    by (simp add: TcpServer_RemoveConnection_def call_shared_def share_def unshare_def with_conn_Some
        TcpServer_RemoveConnectionInLoop_def Let_def)
qed

theorem RemoveConnection_misses_big_ids_witness:
  "TcpServer_RemoveConnection 0 (demo\<lparr>objects := [0 \<mapsto> Connection_new (2 ^ 31) 6 0], conns := [2 ^ 31 \<mapsto> 0]\<rparr>)
   = Inr (demo\<lparr>objects := [0 \<mapsto> Connection_new (2 ^ 31) 6 0], conns := [2 ^ 31 \<mapsto> 0]\<rparr>)"
  by (rule RemoveConnection_misses_big_ids [where c = "Connection_new (2 ^ 31) 6 0"]) (simp_all add: Connection_new_def)

end
