(* ===== verification/Reactor_Pool.thy ===== *)
theory Reactor_Pool
  imports Prelude "HOL-Library.Multiset"
begin

text \<open>
  Two helpers of the reactor (\<open>Reactor_http/source/server.hpp\<close>): \<open>LoopThreadPool\<close>, which
  hands out the event loops of its threads in turn, and \<open>Any\<close>, an owner of one heap object of
  any type. A loop is named by a number; what a new thread's loop is comes as a parameter.
\<close>

section \<open>LoopThreadPool\<close>

record LoopThreadPool =
  thread_count :: int
  next_loop_idx :: int
  base_loop :: nat
  loops :: "nat list"

definition LoopThreadPool_new :: "nat \<Rightarrow> LoopThreadPool" where
  "LoopThreadPool_new b = \<lparr>thread_count = 0, next_loop_idx = 0, base_loop = b, loops = []\<rparr>"

definition LoopThreadPool_SetThreadCount :: "int \<Rightarrow> LoopThreadPool \<Rightarrow> LoopThreadPool" where
  "LoopThreadPool_SetThreadCount n pool = pool\<lparr>thread_count := n\<rparr>"

definition LoopThreadPool_Create :: "(nat \<Rightarrow> nat) \<Rightarrow> LoopThreadPool \<Rightarrow> LoopThreadPool" where
  "LoopThreadPool_Create thread_loop pool =
     (if thread_count pool > 0
      then pool\<lparr>loops := map thread_loop [0..<nat (thread_count pool)]\<rparr> else pool)"

text \<open>\<open>%\<close> truncates towards zero; an index outside the vector is undefined.\<close>

definition LoopThreadPool_NextLoop :: "LoopThreadPool \<Rightarrow> (nat \<times> LoopThreadPool) res" where
  "LoopThreadPool_NextLoop pool =
     (if thread_count pool = 0 then Inr (base_loop pool, pool)
      else
        let i = next_loop_idx pool + 1; n = thread_count pool;
            k = (if i \<ge> 0 then i mod \<bar>n\<bar> else - ((- i) mod \<bar>n\<bar>)) in
        if 0 \<le> k \<and> k < int (length (loops pool))
        then Inr (loops pool ! nat k, pool\<lparr>next_loop_idx := k\<rparr>)
        else Inl Out_Of_Bounds)"

fun next_loops :: "nat \<Rightarrow> LoopThreadPool \<Rightarrow> (nat list \<times> LoopThreadPool) res" where
  "next_loops 0 pool = Inr ([], pool)"
| "next_loops (Suc n) pool =
     bind_res (LoopThreadPool_NextLoop pool) (\<lambda>(l, pool).
     bind_res (next_loops n pool) (\<lambda>(ls, pool). Inr (l # ls, pool)))"

definition pool_ok :: "LoopThreadPool \<Rightarrow> bool" where
  "pool_ok pool \<longleftrightarrow> thread_count pool > 0 \<and> length (loops pool) = nat (thread_count pool)
     \<and> 0 \<le> next_loop_idx pool \<and> next_loop_idx pool < thread_count pool"

lemma NextLoop_ok:
  assumes "pool_ok pool"
  defines "n \<equiv> length (loops pool)" and "i \<equiv> nat (next_loop_idx pool)"
  shows "LoopThreadPool_NextLoop pool
    = Inr (loops pool ! (Suc i mod n), pool\<lparr>next_loop_idx := int (Suc i mod n)\<rparr>)"
proof -
  have "thread_count pool = int n" "next_loop_idx pool = int i" "0 < n" "i < n"
    using assms by (auto simp: pool_ok_def)
  moreover from this have "(int i + 1) mod int n = int (Suc i mod n)" by (simp add: zmod_int add.commute)
  ultimately show ?thesis
    by (simp add: LoopThreadPool_NextLoop_def Let_def n_def [symmetric])
qed

lemma pool_ok_next: "pool_ok pool \<Longrightarrow> pool_ok (pool\<lparr>next_loop_idx := int (k mod length (loops pool))\<rparr>)"
proof -
  assume "pool_ok pool"
  then have n: "int (length (loops pool)) = thread_count pool" "0 < length (loops pool)" "0 < thread_count pool"
    by (auto simp: pool_ok_def)
  then have "int (k mod length (loops pool)) < thread_count pool" by (metis mod_less_divisor of_nat_less_iff)
  with n show ?thesis by (simp add: pool_ok_def)
qed

lemma next_loops_ok:
  assumes "pool_ok pool"
  shows "\<exists>pool'. next_loops k pool
    = Inr (map (\<lambda>j. loops pool ! ((nat (next_loop_idx pool) + Suc j) mod length (loops pool))) [0..<k], pool')
    \<and> pool_ok pool' \<and> loops pool' = loops pool"
  using assms
proof (induction k arbitrary: pool)
  case 0
  then show ?case by simp
next
  case (Suc k)
  let ?n = "length (loops pool)" and ?i = "nat (next_loop_idx pool)"
  let ?p = "pool\<lparr>next_loop_idx := int (Suc ?i mod ?n)\<rparr>"
  obtain pool' where IH: "next_loops k ?p = Inr (map (\<lambda>j. loops pool ! ((Suc ?i mod ?n + Suc j) mod ?n)) [0..<k], pool')"
    "pool_ok pool'" "loops pool' = loops pool"
    using Suc.IH [of ?p] pool_ok_next [OF Suc.prems, of "Suc ?i"] by auto
  have "(Suc ?i mod ?n + Suc j) mod ?n = (?i + Suc (Suc j)) mod ?n" for j
    using mod_add_left_eq [of "Suc ?i" ?n "Suc j"] by simp
  then have "map (\<lambda>j. loops pool ! ((?i + Suc j) mod ?n)) [0..<Suc k]
    = loops pool ! (Suc ?i mod ?n) # map (\<lambda>j. loops pool ! ((Suc ?i mod ?n + Suc j) mod ?n)) [0..<k]"
    by (simp add: upt_conv_Cons map_Suc_upt [symmetric] del: upt_Suc add_Suc_right) simp
  with IH NextLoop_ok [OF Suc.prems] show ?case by simp
qed

lemma next_loops_rotate:
  assumes "pool_ok pool"
  obtains pool' where "next_loops (length (loops pool)) pool
    = Inr (rotate (Suc (nat (next_loop_idx pool))) (loops pool), pool')" "pool_ok pool'"
proof -
  let ?i = "Suc (nat (next_loop_idx pool))"
  have "map (\<lambda>j. loops pool ! ((nat (next_loop_idx pool) + Suc j) mod length (loops pool))) [0..<length (loops pool)]
    = rotate ?i (loops pool)"
    by (rule nth_equalityI) (simp_all add: nth_rotate del: rotate_Suc)
  then show ?thesis using next_loops_ok [OF assms, of "length (loops pool)"] that by auto
qed

section \<open>Any\<close>

text \<open>
  An \<open>Any\<close> is a pointer to a \<open>holder\<close> with a type and a value, or null; the holders live in a
  store. \<open>'t\<close> are the types \<open>typeid\<close> distinguishes.
\<close>

record ('t, 'v) any_heap =
  holders :: "nat \<rightharpoonup> ('t \<times> 'v)"
  next_holder :: nat

type_synonym any = "nat option"

definition Any_of :: "'t \<Rightarrow> 'v \<Rightarrow> ('t, 'v) any_heap \<Rightarrow> any \<times> ('t, 'v) any_heap" where
  "Any_of t v h = (Some (next_holder h),
     h\<lparr>holders := (holders h)(next_holder h \<mapsto> (t, v)), next_holder := Suc (next_holder h)\<rparr>)"

definition Any_copy :: "any \<Rightarrow> ('t, 'v) any_heap \<Rightarrow> (any \<times> ('t, 'v) any_heap) res" where
  "Any_copy other h =
     (case other of
        None \<Rightarrow> Inr (None, h)
      | Some p \<Rightarrow> (case holders h p of
          None \<Rightarrow> Inl Use_After_Free
        | Some (t, v) \<Rightarrow> Inr (Any_of t v h)))"

definition Any_delete :: "any \<Rightarrow> ('t, 'v) any_heap \<Rightarrow> ('t, 'v) any_heap res" where
  "Any_delete a h =
     (case a of
        None \<Rightarrow> Inr h
      | Some p \<Rightarrow> (case holders h p of
          None \<Rightarrow> Inl Use_After_Free
        | Some _ \<Rightarrow> Inr (h\<lparr>holders := (holders h)(p := None)\<rparr>)))"

definition Any_swap :: "any \<Rightarrow> any \<Rightarrow> any \<times> any" where
  "Any_swap a other = (other, a)"

definition Any_get :: "'t \<Rightarrow> any \<Rightarrow> ('t, 'v) any_heap \<Rightarrow> 'v res" where
  "Any_get t a h =
     (case a of
        None \<Rightarrow> Inl Null_Deref
      | Some p \<Rightarrow> (case holders h p of
          None \<Rightarrow> Inl Use_After_Free
        | Some (u, v) \<Rightarrow> if t = u then Inr v else Inl Assertion))"

text \<open>\<open>Any(val).swap(*this)\<close>: the temporary takes the old content and deletes it.\<close>

definition Any_assign_value :: "'t \<Rightarrow> 'v \<Rightarrow> any \<Rightarrow> ('t, 'v) any_heap \<Rightarrow> (any \<times> ('t, 'v) any_heap) res" where
  "Any_assign_value t v this h =
     (let (tmp, h) = Any_of t v h; (tmp, this) = Any_swap tmp this in
      bind_res (Any_delete tmp h) (\<lambda>h. Inr (this, h)))"

definition Any_assign :: "any \<Rightarrow> any \<Rightarrow> ('t, 'v) any_heap \<Rightarrow> (any \<times> ('t, 'v) any_heap) res" where
  "Any_assign other this h =
     bind_res (Any_copy other h) (\<lambda>(tmp, h).
     let (tmp, this) = Any_swap tmp this in
     bind_res (Any_delete tmp h) (\<lambda>h. Inr (this, h)))"

text \<open>The variables of a program own the holders: each holder has exactly one owner.\<close>

definition owned :: "('x \<Rightarrow> any) \<Rightarrow> ('t, 'v) any_heap \<Rightarrow> bool" where
  "owned vars h \<longleftrightarrow>
     (\<forall>p. holders h p \<noteq> None \<longleftrightarrow> (\<exists>x. vars x = Some p))
     \<and> (\<forall>x y p. vars x = Some p \<and> vars y = Some p \<longrightarrow> x = y)
     \<and> (\<forall>p. holders h p \<noteq> None \<longrightarrow> p < next_holder h)"

definition content_of :: "any \<Rightarrow> ('t, 'v) any_heap \<Rightarrow> ('t \<times> 'v) option" where
  "content_of a h = (case a of None \<Rightarrow> None | Some p \<Rightarrow> holders h p)"

section \<open>Properties\<close>

text \<open>
  The loops are handed out in turn: once the threads are created, as many calls of
  \<open>NextLoop\<close> as there are threads give every loop exactly once, from any position, and no call
  fails.
\<close>

theorem NextLoop_round_robin:
  assumes "pool_ok pool"
  shows "\<exists>ls pool'. next_loops (length (loops pool)) pool = Inr (ls, pool') \<and> mset ls = mset (loops pool) \<and> pool_ok pool'"
proof -
  obtain pool' where "next_loops (length (loops pool)) pool
    = Inr (rotate (Suc (nat (next_loop_idx pool))) (loops pool), pool')" "pool_ok pool'"
    by (rule next_loops_rotate [OF assms])
  moreover have "mset (rotate k xs) = mset xs" for k and xs :: "nat list"
    by (metis rotate_drop_take add.commute append_take_drop_id mset_append)
  ultimately show ?thesis by blast
qed

theorem NextLoop_round_robin_witness:
  "\<exists>ls pool'. next_loops 3 (LoopThreadPool_Create (\<lambda>i. i + 10) (LoopThreadPool_SetThreadCount 3 (LoopThreadPool_new 1)))
    = Inr (ls, pool') \<and> mset ls = {#10, 11, 12#}"
proof -
  let ?p = "LoopThreadPool_Create (\<lambda>i. i + 10) (LoopThreadPool_SetThreadCount 3 (LoopThreadPool_new 1))"
  have p: "loops ?p = [10, 11, 12]" "pool_ok ?p"
    by (simp_all add: LoopThreadPool_Create_def LoopThreadPool_SetThreadCount_def LoopThreadPool_new_def pool_ok_def
        upt_rec)
  then have "length (loops ?p) = 3" "mset (loops ?p) = {#10, 11, 12#}" by simp_all
  with NextLoop_round_robin [OF p(2)] show ?thesis by metis
qed

text \<open>
  C18. Assigning one \<open>Any\<close> to another copies the value and keeps ownership exact: afterwards the
  target holds what the source held, no other variable's value changes, every holder still has
  exactly one owner (nothing leaks and nothing is deleted twice), and this also holds for an
  assignment to itself.
\<close>

theorem Any_assign_copies:
  assumes "owned vars h"
  shows "\<exists>this h'. Any_assign (vars y) (vars x) h = Inr (this, h') \<and> owned (vars(x := this)) h'
    \<and> content_of this h' = content_of (vars y) h
    \<and> (\<forall>z. z \<noteq> x \<longrightarrow> content_of (vars z) h' = content_of (vars z) h)"
proof -
  define q where "q = next_holder h"
  have fresh: "holders h q = None" "\<And>z. vars z \<noteq> Some q"
  proof -
    show "holders h q = None" using assms unfolding owned_def q_def by (metis less_irrefl)
    then show "\<And>z. vars z \<noteq> Some q" using assms unfolding owned_def by metis
  qed
  have live: "\<And>z p. vars z = Some p \<Longrightarrow> holders h p \<noteq> None" using assms by (auto simp: owned_def)
  define h1 where "h1 = (case vars y of None \<Rightarrow> h | Some p \<Rightarrow> h\<lparr>holders := (holders h)(q := holders h p), next_holder := Suc q\<rparr>)"
  define this where "this = (case vars y of None \<Rightarrow> None | Some p \<Rightarrow> Some q)"
  define h2 where "h2 = (case vars x of None \<Rightarrow> h1 | Some r \<Rightarrow> h1\<lparr>holders := (holders h1)(r := None)\<rparr>)"
  have run: "Any_assign (vars y) (vars x) h = Inr (this, h2)"
    using live [of x] live [of y] fresh(1) fresh(2) [of x] fresh(2) [of y]
    by (auto simp: Any_assign_def Any_copy_def Any_of_def Any_delete_def Any_swap_def this_def h1_def h2_def q_def
        split: option.splits)
  have holders: "holders h2 p = (if vars x = Some p then None else if this = Some p then content_of (vars y) h else holders h p)" for p
    using fresh by (auto simp: h2_def h1_def this_def content_of_def split: option.splits)
  have "owned (vars(x := this)) h2"
    unfolding owned_def
  proof (intro conjI allI impI)
    fix p
    show "(holders h2 p \<noteq> None) = (\<exists>z. (vars(x := this)) z = Some p)"
    proof (cases "vars x = Some p \<or> this = Some p")
      case True
      moreover have "content_of (vars y) h \<noteq> None" if "this = Some p"
        using that live by (auto simp: this_def content_of_def split: option.splits)
      moreover have "this = Some p \<Longrightarrow> vars x \<noteq> Some p" using fresh(2) by (auto simp: this_def split: option.splits)
      ultimately show ?thesis using assms by (auto simp: holders owned_def)
    next
      case False
      then show ?thesis using assms by (auto simp: holders owned_def)
    qed
  next
    fix z w p assume "(vars(x := this)) z = Some p \<and> (vars(x := this)) w = Some p"
    then show "z = w"
      using assms fresh(2) by (auto simp: owned_def this_def split: if_splits option.splits)
  next
    fix p assume "holders h2 p \<noteq> None"
    then show "p < next_holder h2"
      using assms unfolding holders this_def owned_def h2_def h1_def q_def
      by (auto split: option.splits if_splits)
  qed
  moreover have "content_of this h2 = content_of (vars y) h"
    using fresh by (auto simp: content_of_def holders this_def split: option.splits)
  moreover have "content_of (vars z) h2 = content_of (vars z) h" if "z \<noteq> x" for z
    using assms fresh(2) that by (auto simp: content_of_def holders this_def owned_def split: option.splits)
  ultimately show ?thesis using run by blast
qed

theorem Any_assign_copies_witness:
  "\<exists>this h'. Any_assign (Some 1) (Some 0) \<lparr>holders = [0 \<mapsto> (''int'', 7), 1 \<mapsto> (''int'', 8 :: nat)], next_holder = 2\<rparr>
      = Inr (this, h') \<and> content_of this h' = Some (''int'', 8)"
proof -
  let ?v = "\<lambda>b. if b then Some (0 :: nat) else Some 1"
    and ?h = "\<lparr>holders = [0 \<mapsto> (''int'', 7), 1 \<mapsto> (''int'', 8 :: nat)], next_holder = 2\<rparr>"
  have "owned ?v ?h" by (auto simp: owned_def split: if_splits)
  from Any_assign_copies [OF this, of False True] show ?thesis by (auto simp: content_of_def)
qed

end
