(* ===== verification/Gobang_Util.thy ===== *)
theory Gobang_Util
  imports Prelude "HOL-Library.Sublist"
begin

text \<open>
  Text handling of the gobang server: \<open>string_util::split\<close> (\<open>game/source/util.hpp\<close>) and
  the lookup in a cookie line, \<open>get_cookie_val\<close> (\<open>game/source/server.hpp\<close>). A position that
  \<open>find\<close> does not find (\<open>npos\<close>) is \<open>None\<close>.
\<close>

section \<open>The model\<close>

fun find_sub :: "string \<Rightarrow> string \<Rightarrow> nat option" where
  "find_sub sep s =
     (if prefix sep s then Some 0
      else case s of [] \<Rightarrow> None | _ # t \<Rightarrow> map_option Suc (find_sub sep t))"

declare find_sub.simps [simp del]

definition str_find :: "string \<Rightarrow> string \<Rightarrow> nat \<Rightarrow> nat option" where
  "str_find src sep index = map_option (\<lambda>k. index + k) (find_sub sep (drop index src))"

text \<open>The loop of \<open>split\<close> does not end on an empty separator, so it runs on fuel.\<close>

fun split_loop :: "nat \<Rightarrow> string \<Rightarrow> string \<Rightarrow> nat \<Rightarrow> string list \<Rightarrow> string list option" where
  "split_loop 0 src sep index res = None"
| "split_loop (Suc n) src sep index res =
     (if index < length src then
        (case str_find src sep index of
           None \<Rightarrow> Some (res @ [drop index src])
         | Some pos \<Rightarrow>
             if pos = index then split_loop n src sep (index + length sep) res
             else split_loop n src sep (pos + length sep) (res @ [take (pos - index) (drop index src)]))
      else Some res)"

definition split :: "string \<Rightarrow> string \<Rightarrow> string list option" where
  "split src sep = split_loop (Suc (length src)) src sep 0 []"

fun cookie_search :: "string \<Rightarrow> string list \<Rightarrow> string option option" where
  "cookie_search key [] = Some None"
| "cookie_search key (str # rest) =
     (case split str ''='' of
        None \<Rightarrow> None
      | Some tmp \<Rightarrow>
          if length tmp \<noteq> 2 then cookie_search key rest
          else if tmp ! 0 = key then Some (Some (tmp ! 1))
          else cookie_search key rest)"

text \<open>The outer \<open>None\<close> is a split that did not end.\<close>

definition get_cookie_val :: "string \<Rightarrow> string \<Rightarrow> string option option" where
  "get_cookie_val cookie_str key =
     (case split cookie_str ''; '' of None \<Rightarrow> None | Some arr \<Rightarrow> cookie_search key arr)"

text \<open>Decimal text of \<open>std::to_string\<close> and \<open>%d\<close>, and its reading by \<open>std::stol\<close> and \<open>std::stoi\<close>.\<close>

definition digit_char :: "nat \<Rightarrow> char" where
  "digit_char d = char_of (48 + d)"

definition is_digit :: "char \<Rightarrow> bool" where
  "is_digit c \<longleftrightarrow> 48 \<le> (of_char c :: nat) \<and> (of_char c :: nat) \<le> 57"

fun decimal :: "nat \<Rightarrow> string" where
  "decimal n = (if n < 10 then [digit_char n] else decimal (n div 10) @ [digit_char (n mod 10)])"

declare decimal.simps [simp del]

definition to_string_int :: "int \<Rightarrow> string" where
  "to_string_int i = (if i < 0 then ''-'' @ decimal (nat (- i)) else decimal (nat i))"

definition is_space :: "char \<Rightarrow> bool" where
  "is_space c \<longleftrightarrow> c \<in> {CHR '' '', CHR 0x09, CHR 0x0A, CHR 0x0B, CHR 0x0C, CHR 0x0D}"

definition digits_value :: "string \<Rightarrow> nat" where
  "digits_value ds = foldl (\<lambda>v c. 10 * v + (of_char c - 48)) 0 ds"

definition stoi_width :: "nat \<Rightarrow> string \<Rightarrow> int res" where
  "stoi_width w s =
     (let t = dropWhile is_space s;
          neg = (t \<noteq> [] \<and> hd t = CHR ''-'');
          u = (if t \<noteq> [] \<and> hd t \<in> {CHR ''-'', CHR ''+''} then tl t else t);
          ds = takeWhile is_digit u;
          v = (if neg then - int (digits_value ds) else int (digits_value ds))
      in if ds = [] then Inl Exception
         else if v < - (2 ^ (w - 1)) \<or> 2 ^ (w - 1) \<le> v then Inl Exception
         else Inr v)"

definition stol :: "string \<Rightarrow> int res" where
  "stol = stoi_width 64"

definition stoi :: "string \<Rightarrow> int res" where
  "stoi = stoi_width 32"

section \<open>Decimal text\<close>

lemma of_char_digit [simp]: "d < 10 \<Longrightarrow> of_char (digit_char d) = (48 + d :: nat)"
  by (simp add: digit_char_def)

lemma is_digit_char [simp]: "d < 10 \<Longrightarrow> is_digit (digit_char d)"
  by (simp add: is_digit_def)

lemma decimal_digits: "c \<in> set (decimal n) \<Longrightarrow> is_digit c"
proof (induction n rule: decimal.induct)
  case (1 n)
  then show ?case by (cases "n < 10") (auto simp: decimal.simps [of n])
qed

lemma decimal_nonempty: "decimal n \<noteq> []"
  by (simp add: decimal.simps [of n])

lemma takeWhile_decimal [simp]: "takeWhile is_digit (decimal n) = decimal n"
  using decimal_digits by (simp add: takeWhile_eq_all_conv)

lemma digits_value_decimal: "digits_value (decimal n) = n"
proof (induction n rule: decimal.induct)
  case (1 n)
  then show ?case by (cases "n < 10") (simp_all add: decimal.simps [of n] digits_value_def)
qed

lemma is_digit_plain:
  assumes "is_digit c"
  shows "\<not> is_space c" "c \<noteq> CHR ''-''" "c \<noteq> CHR ''+''" "c \<noteq> CHR '';''" "c \<noteq> CHR ''=''"
  using assms by (auto simp: is_digit_def is_space_def)

lemma stoi_width_decimal:
  assumes "int n < 2 ^ (w - 1)"
  shows "stoi_width w (decimal n) = Inr (int n)"
proof -
  have d: "is_digit (hd (decimal n))" using decimal_digits decimal_nonempty hd_in_set by blast
  have "dropWhile is_space (decimal n) = decimal n"
    using is_digit_plain(1) [OF d] decimal_nonempty [of n] by (cases "decimal n") auto
  moreover have "\<not> int n < - (2 ^ (w - 1))" by (simp add: not_less order_trans [of _ 0])
  ultimately show ?thesis
    using is_digit_plain [OF d] decimal_nonempty [of n] digits_value_decimal [of n] assms
    by (simp add: stoi_width_def Let_def)
qed

section \<open>Finding a separator\<close>

lemma find_sub_Some:
  "find_sub sep s = Some k \<Longrightarrow> k \<le> length s \<and> prefix sep (drop k s) \<and> (\<forall>j < k. \<not> prefix sep (drop j s))"
proof (induction sep s arbitrary: k rule: find_sub.induct)
  case (1 sep s)
  show ?case
  proof (cases "prefix sep s")
    case True
    then show ?thesis using "1.prems" by (simp add: find_sub.simps)
  next
    case False
    then obtain c t k' where st: "s = c # t" "find_sub sep t = Some k'" "k = Suc k'"
      using "1.prems" by (subst (asm) find_sub.simps) (auto split: list.splits)
    with "1.IH" [OF False st(1)] False show ?thesis by (auto simp: less_Suc_eq_0_disj)
  qed
qed

lemma find_sub_None: "find_sub sep s = None \<longleftrightarrow> \<not> sublist sep s"
proof (induction sep s rule: find_sub.induct)
  case (1 sep s)
  then show ?case
    by (subst find_sub.simps) (auto simp: sublist_Cons_right split: list.splits)
qed

lemma find_sub_take:
  assumes "find_sub sep s = Some k" "sep \<noteq> []"
  shows "\<not> sublist sep (take k s)"
proof
  assume "sublist sep (take k s)"
  then obtain ps ss where e: "take k s = ps @ sep @ ss" by (auto simp: sublist_def)
  have "length ps + length sep \<le> k" using arg_cong [OF e, of length] by simp
  moreover have "0 < length sep" using assms(2) by simp
  ultimately have "length ps < k" by linarith
  moreover have "prefix sep (drop (length ps) s)"
  proof -
    have "s = (ps @ sep @ ss) @ drop k s" using e append_take_drop_id [of k s] by simp
    then show ?thesis by (metis append.assoc append_eq_conv_conj prefixI)
  qed
  ultimately show False using find_sub_Some [OF assms(1)] by blast
qed

section \<open>Splitting\<close>

lemma split_loop_total:
  assumes "sep \<noteq> []" "length src - index < n"
  shows "\<exists>out. split_loop n src sep index res = Some out"
  using assms(2)
proof (induction n arbitrary: index res)
  case 0
  then show ?case by simp
next
  case (Suc n)
  show ?case
  proof (cases "index < length src")
    case True
    show ?thesis
    proof (cases "str_find src sep index")
      case None
      with True show ?thesis by simp
    next
      case (Some pos)
      then have "index \<le> pos" by (auto simp: str_find_def)
      moreover have "0 < length sep" using assms(1) by simp
      ultimately have "length src - (index + length sep) < n" "length src - (pos + length sep) < n"
        using Suc.prems True by linarith+
      with Some True Suc.IH show ?thesis by simp
    qed
  qed simp
qed

text \<open>The fields between separators, empty ones included, as a reference.\<close>

function fields :: "string \<Rightarrow> string \<Rightarrow> string list" where
  "fields sep s =
     (if sep = [] then [s]
      else case find_sub sep s of
        None \<Rightarrow> [s]
      | Some k \<Rightarrow> take k s # fields sep (drop (k + length sep) s))"
  by pat_completeness auto
termination
proof (relation "measure (\<lambda>(sep, s). length s)")
  fix sep s :: string and k assume a: "sep \<noteq> []" "find_sub sep s = Some k"
  then have "prefix sep (drop k s)" using find_sub_Some by blast
  then have "length sep \<le> length s - k" using prefix_length_le by fastforce
  moreover have "0 < length sep" using a(1) by simp
  ultimately have "length s - (k + length sep) < length s" by linarith
  then show "((sep, drop (k + length sep) s), (sep, s)) \<in> measure (\<lambda>(sep, s). length s)" by simp
qed simp

declare fields.simps [simp del]

lemma split_loop_fields:
  assumes "sep \<noteq> []" "length src - index < n"
  shows "split_loop n src sep index res = Some (res @ filter (\<lambda>f. f \<noteq> []) (fields sep (drop index src)))"
  using assms(2)
proof (induction n arbitrary: index res)
  case 0
  then show ?case by simp
next
  case (Suc n)
  show ?case
  proof (cases "index < length src")
    case False
    then have "fields sep (drop index src) = [[]]"
      using assms(1) by (simp add: fields.simps find_sub.simps)
    with False show ?thesis by simp
  next
    case True
    show ?thesis
    proof (cases "find_sub sep (drop index src)")
      case None
      with True assms(1) show ?thesis by (simp add: str_find_def fields.simps [of sep "drop index src"])
    next
      case (Some k)
      have f: "fields sep (drop index src) = take k (drop index src) # fields sep (drop (index + k + length sep) src)"
        using Some assms(1) by (subst fields.simps) (simp add: add_ac)
      have "0 < length sep" using assms(1) by simp
      then have "length src - (index + k + length sep) < n" using Suc.prems True by linarith
      note IH = Suc.IH [OF this]
      show ?thesis using True Some f IH by (cases "k = 0") (simp_all add: str_find_def)
    qed
  qed
qed

lemma split_eq_fields: "sep \<noteq> [] \<Longrightarrow> split src sep = Some (filter (\<lambda>f. f \<noteq> []) (fields sep src))"
  by (simp add: split_def split_loop_fields del: split_loop.simps)

fun join :: "string \<Rightarrow> string list \<Rightarrow> string" where
  "join sep [] = []"
| "join sep [f] = f"
| "join sep (f # fs) = f @ sep @ join sep fs"

lemma find_sub_skip:
  "sep \<noteq> [] \<Longrightarrow> hd sep \<notin> set f \<Longrightarrow> find_sub sep (f @ r) = map_option (\<lambda>k. length f + k) (find_sub sep r)"
proof (induction f)
  case Nil
  then show ?case by (simp add: option.map_ident)
next
  case (Cons c f)
  then have "\<not> prefix sep (c # f @ r)" by (cases sep) auto
  with Cons show ?case by (simp add: find_sub.simps [of sep "c # f @ r"] option.map_comp comp_def)
qed

lemma find_sub_absent: "sep \<noteq> [] \<Longrightarrow> hd sep \<notin> set f \<Longrightarrow> find_sub sep f = None"
  using find_sub_skip [of sep f "[]"] by (simp add: find_sub.simps [of sep "[]"])

lemma find_sub_self: "find_sub sep (sep @ r) = Some 0"
  by (simp add: find_sub.simps)

lemma fields_join:
  assumes "sep \<noteq> []" "fs \<noteq> []" "\<forall>f \<in> set fs. hd sep \<notin> set f"
  shows "fields sep (join sep fs) = fs"
  using assms
proof (induction sep fs rule: join.induct)
  case (2 sep f)
  then show ?case by (subst fields.simps) (simp add: find_sub_absent)
next
  case (3 sep f g fs)
  then have "find_sub sep (f @ sep @ join sep (g # fs)) = Some (length f)"
    by (simp add: find_sub_skip find_sub_self)
  with 3 show ?case by (subst fields.simps) simp
qed simp

lemma split_join:
  assumes "sep \<noteq> []" "fs \<noteq> []" "\<forall>f \<in> set fs. f \<noteq> [] \<and> hd sep \<notin> set f"
  shows "split (join sep fs) sep = Some fs"
  using split_eq_fields [OF assms(1), of "join sep fs"] fields_join [OF assms(1,2)] assms(3) by (simp add: filter_id_conv)

lemma fields_clean: "sep \<noteq> [] \<Longrightarrow> f \<in> set (fields sep s) \<Longrightarrow> \<not> sublist sep f"
proof (induction sep s rule: fields.induct)
  case (1 sep s)
  show ?case
  proof (cases "find_sub sep s")
    case None
    then have "\<not> sublist sep s" using find_sub_None [of sep s] by simp
    with None show ?thesis using "1.prems" by (simp add: fields.simps [of sep s])
  next
    case (Some k)
    then show ?thesis
      using "1.prems" "1.IH" [OF _ Some] find_sub_take [OF Some] by (auto simp: fields.simps [of sep s])
  qed
qed

lemma cookie_search_pairs:
  assumes "\<forall>(k, v) \<in> set kvs. k \<noteq> [] \<and> v \<noteq> [] \<and> CHR ''='' \<notin> set k \<and> CHR ''='' \<notin> set v"
  shows "cookie_search key (map (\<lambda>(k, v). k @ ''='' @ v) kvs) = Some (map_of kvs key)"
  using assms
proof (induction kvs)
  case (Cons kv kvs)
  obtain k v where kv: "kv = (k, v)" by fastforce
  with Cons.prems have "split (join ''='' [k, v]) ''='' = Some [k, v]" by (intro split_join) auto
  with Cons kv show ?case by simp
qed simp

lemma get_cookie_val_pairs:
  assumes "kvs \<noteq> []"
    and "\<forall>(k, v) \<in> set kvs. k \<noteq> [] \<and> v \<noteq> [] \<and> set (k @ v) \<inter> {CHR '';'', CHR ''=''} = {}"
  shows "get_cookie_val (join ''; '' (map (\<lambda>(k, v). k @ ''='' @ v) kvs)) key = Some (map_of kvs key)"
proof -
  have "split (join ''; '' (map (\<lambda>(k, v). k @ ''='' @ v) kvs)) ''; '' = Some (map (\<lambda>(k, v). k @ ''='' @ v) kvs)"
    by (rule split_join) (use assms in auto)
  moreover have "cookie_search key (map (\<lambda>(k, v). k @ ''='' @ v) kvs) = Some (map_of kvs key)"
    by (rule cookie_search_pairs) (use assms(2) in auto)
  ultimately show ?thesis by (simp add: get_cookie_val_def)
qed

section \<open>Properties\<close>

text \<open>
  For any separator that is not empty, \<open>split\<close> ends and gives exactly the non-empty fields
  between the separators, in order; none of them is empty or contains the separator.
\<close>

theorem split_gives_fields:
  assumes "sep \<noteq> []"
  shows "\<exists>out. split src sep = Some out \<and> out = filter (\<lambda>f. f \<noteq> []) (fields sep src)
    \<and> (\<forall>f \<in> set out. f \<noteq> [] \<and> \<not> sublist sep f)"
  using split_eq_fields [OF assms, of src] fields_clean [OF assms, of _ src] by auto

theorem split_gives_fields_witness:
  "\<exists>out. split ''+abc+++gg'' ''+'' = Some out \<and> (\<forall>f \<in> set out. f \<noteq> [] \<and> \<not> sublist ''+'' f)"
  using split_gives_fields [of "''+''" "''+abc+++gg''"] by blast

text \<open>
  Splitting undoes joining: fields that are not empty and do not contain the first character
  of the separator come back unchanged.
\<close>

theorem split_undoes_join:
  assumes "sep \<noteq> []" "fs \<noteq> []" "\<forall>f \<in> set fs. f \<noteq> [] \<and> hd sep \<notin> set f"
  shows "split (join sep fs) sep = Some fs"
  using assms by (rule split_join)

theorem split_undoes_join_witness: "split (join ''; '' [''a=1'', ''SSID=42'']) ''; '' = Some [''a=1'', ''SSID=42'']"
  by (rule split_undoes_join) simp_all

text \<open>
  On an empty separator \<open>split\<close> never ends unless the text is empty: no number of rounds of
  its loop is enough.
\<close>

theorem split_empty_separator_loops:
  assumes "src \<noteq> []"
  shows "split_loop n src [] 0 res = None"
  by (induction n) (use assms in \<open>simp_all add: str_find_def find_sub.simps\<close>)

theorem split_empty_separator_loops_witness: "split_loop 7 ''ab'' [] 0 [] = None"
  by (rule split_empty_separator_loops) simp

text \<open>
  A cookie line made of \<open>key=value\<close> pairs joined by a semicolon and a space is looked up
  like an association list: the value of the first pair with the key, or nothing.
\<close>

theorem get_cookie_val_lookup:
  assumes "kvs \<noteq> []"
    and "\<forall>(k, v) \<in> set kvs. k \<noteq> [] \<and> v \<noteq> [] \<and> set (k @ v) \<inter> {CHR '';'', CHR ''=''} = {}"
  shows "get_cookie_val (join ''; '' (map (\<lambda>(k, v). k @ ''='' @ v) kvs)) key = Some (map_of kvs key)"
  using assms by (rule get_cookie_val_pairs)

theorem get_cookie_val_lookup_witness:
  "get_cookie_val (join ''; '' (map (\<lambda>(k, v). k @ ''='' @ v) [(''lang'', ''zh''), (''SSID'', ''42'')])) ''SSID'' = Some (Some ''42'')"
  using get_cookie_val_lookup [of "[(''lang'', ''zh''), (''SSID'', ''42'')]" "''SSID''"] by simp

end
