(* ===== verification/Gobang_Room.thy ===== *)
theory Gobang_Room
  imports Gobang_Util
begin

text \<open>
  The game room of the gobang server (\<open>game/source/room.hpp\<close>, class \<open>room\<close>) and the table of
  connected users it consults (\<open>game/source/online.hpp\<close>). A connection is a number. A JSON message
  is the record of the members the code reads or writes, each as its accessor (\<open>asInt\<close>,
  \<open>asUInt64\<close>, \<open>asString\<close>) sees it. What a room does outside itself (calls of the user table,
  messages sent) is a list of effects in the order of the calls.
\<close>

section \<open>Connected users\<close>

type_synonym conn = nat

record online_game =
  hall_user :: "u64 \<Rightarrow> conn option"
  room_user :: "u64 \<Rightarrow> conn option"

text \<open>\<open>unordered_map::insert\<close> keeps an entry that is already there.\<close>

definition insert_new :: "('k \<Rightarrow> 'v option) \<Rightarrow> 'k \<Rightarrow> 'v \<Rightarrow> 'k \<Rightarrow> 'v option" where
  "insert_new m k v = (if m k = None then m(k \<mapsto> v) else m)"

definition map_erase :: "('k \<Rightarrow> 'v option) \<Rightarrow> 'k \<Rightarrow> 'k \<Rightarrow> 'v option" where
  "map_erase m k = m(k := None)"

lemma insert_new_simps [simp]:
  "m k = None \<Longrightarrow> insert_new m k v = m(k \<mapsto> v)"
  "m k = Some w \<Longrightarrow> insert_new m k v = m"
  "k' \<noteq> k \<Longrightarrow> insert_new m k v k' = m k'"
  by (simp_all add: insert_new_def)

lemma insert_new_bound [simp]: "insert_new m k v k \<noteq> None"
  by (simp add: insert_new_def)

lemma map_erase_apply [simp]: "map_erase m k j = (if j = k then None else m j)"
  by (simp add: map_erase_def)

definition join_game_hall :: "u64 \<Rightarrow> conn \<Rightarrow> online_game \<Rightarrow> online_game" where
  "join_game_hall uid conn og = og\<lparr>hall_user := insert_new (hall_user og) uid conn\<rparr>"

definition join_game_room :: "u64 \<Rightarrow> conn \<Rightarrow> online_game \<Rightarrow> online_game" where
  "join_game_room uid conn og = og\<lparr>room_user := insert_new (room_user og) uid conn\<rparr>"

definition exit_game_hall :: "u64 \<Rightarrow> online_game \<Rightarrow> online_game" where
  "exit_game_hall uid og = og\<lparr>hall_user := map_erase (hall_user og) uid\<rparr>"

definition exit_game_room :: "u64 \<Rightarrow> online_game \<Rightarrow> online_game" where
  "exit_game_room uid og = og\<lparr>room_user := map_erase (room_user og) uid\<rparr>"

definition is_in_game_hall :: "online_game \<Rightarrow> u64 \<Rightarrow> bool" where
  "is_in_game_hall og uid = (case hall_user og uid of None \<Rightarrow> False | Some _ \<Rightarrow> True)"

definition is_in_game_room :: "online_game \<Rightarrow> u64 \<Rightarrow> bool" where
  "is_in_game_room og uid = (case room_user og uid of None \<Rightarrow> False | Some _ \<Rightarrow> True)"

definition get_conn_from_hall :: "online_game \<Rightarrow> u64 \<Rightarrow> conn option" where
  "get_conn_from_hall og uid = (case hall_user og uid of None \<Rightarrow> None | Some c \<Rightarrow> Some c)"

definition get_conn_from_room :: "online_game \<Rightarrow> u64 \<Rightarrow> conn option" where
  "get_conn_from_room og uid = (case room_user og uid of None \<Rightarrow> None | Some c \<Rightarrow> Some c)"

lemmas online_defs = join_game_hall_def join_game_room_def exit_game_hall_def exit_game_room_def
  is_in_game_hall_def is_in_game_room_def get_conn_from_hall_def get_conn_from_room_def

section \<open>Messages\<close>

text \<open>
  A member of a JSON object as one accessor sees it: missing or null (the accessor gives the
  default), of a type the accessor refuses with an exception, or a value.
\<close>

datatype 'a member = Null | Refused | Has 'a

definition as_member :: "'a \<Rightarrow> 'a member \<Rightarrow> 'a res" where
  "as_member d m = (case m of Null \<Rightarrow> Inr d | Refused \<Rightarrow> Inl Exception | Has v \<Rightarrow> Inr v)"

lemma as_member_simps [simp]:
  "as_member d Null = Inr d" "as_member d Refused = Inl Exception" "as_member d (Has v) = Inr v"
  by (simp_all add: as_member_def)

text \<open>The texts the server puts into \<open>reason\<close>, in the order of the sources.\<close>

datatype reason =
    Opponent_Offline      \<comment> \<open>a move while a player is not connected\<close>
  | Cell_Occupied
  | Five_In_A_Row
  | Sensitive_Word
  | Opponent_Left         \<comment> \<open>a player left during the game\<close>
  | Wrong_Room
  | Unknown_Request
  | Bad_Body
  | Name_Or_Password
  | Name_Taken
  | Registered
  | Logged_In
  | No_Cookie
  | No_Ssid
  | No_Session
  | No_User
  | Duplicate_Login
  | No_Room

record json_msg =
  j_optype :: "string member"
  j_room_id :: "u64 member"
  j_uid :: "u64 member"
  j_row :: "int member"
  j_col :: "int member"
  j_message :: "string member"
  j_winner :: "u64 member"
  j_result :: "bool member"
  j_reason :: "reason member"
  j_white_id :: "u64 member"
  j_black_id :: "u64 member"

definition json_null :: json_msg where
  "json_null = \<lparr>j_optype = Null, j_room_id = Null, j_uid = Null, j_row = Null, j_col = Null,
     j_message = Null, j_winner = Null, j_result = Null, j_reason = Null, j_white_id = Null,
     j_black_id = Null\<rparr>"

text \<open>Calls of \<open>user_table::win\<close> and \<open>user_table::lose\<close>, which take an \<open>int\<close>, and messages sent.\<close>

datatype effect =
    Win int
  | Lose int
  | Send conn json_msg

section \<open>The room\<close>

abbreviation BOARD_ROW :: int where "BOARD_ROW \<equiv> 15"
abbreviation BOARD_COL :: int where "BOARD_COL \<equiv> 15"
abbreviation CHESS_WHITE :: int where "CHESS_WHITE \<equiv> 1"
abbreviation CHESS_BLACK :: int where "CHESS_BLACK \<equiv> 2"

datatype room_statu = GAME_START | GAME_OVER

type_synonym board = "int list list"

record room =
  r_room_id :: u64
  r_statu :: room_statu
  r_player_count :: int
  r_white_id :: u64
  r_black_id :: u64
  r_board :: board

definition on_board :: "int \<Rightarrow> int \<Rightarrow> bool" where
  "on_board row col \<longleftrightarrow> row \<ge> 0 \<and> row < BOARD_ROW \<and> col \<ge> 0 \<and> col < BOARD_COL"

definition cell :: "board \<Rightarrow> int \<Rightarrow> int \<Rightarrow> int" where
  "cell b row col = b ! nat row ! nat col"

text \<open>
  One of the two loops of \<open>five\<close>, which step by an offset and by its negation. An offset of zero
  would never leave the board, so the loop runs on fuel.
\<close>

fun walk :: "nat \<Rightarrow> board \<Rightarrow> int \<Rightarrow> int \<Rightarrow> int \<Rightarrow> int \<Rightarrow> int \<Rightarrow> int \<Rightarrow> int option" where
  "walk 0 b color search_row search_col row_off col_off count = None"
| "walk (Suc n) b color search_row search_col row_off col_off count =
     (if on_board search_row search_col \<and> cell b search_row search_col = color
      then walk n b color (search_row + row_off) (search_col + col_off) row_off col_off (count + 1)
      else Some count)"

definition five :: "board \<Rightarrow> int \<Rightarrow> int \<Rightarrow> int \<Rightarrow> int \<Rightarrow> int \<Rightarrow> bool option" where
  "five b row col row_off col_off color =
     (case walk 16 b color (row + row_off) (col + col_off) row_off col_off 1 of
        None \<Rightarrow> None
      | Some count \<Rightarrow>
          (case walk 16 b color (row - row_off) (col - col_off) (- row_off) (- col_off) count of
             None \<Rightarrow> None
           | Some count \<Rightarrow> Some (count \<ge> 5)))"

fun any_five :: "board \<Rightarrow> int \<Rightarrow> int \<Rightarrow> int \<Rightarrow> (int \<times> int) list \<Rightarrow> bool option" where
  "any_five b row col color [] = Some False"
| "any_five b row col color ((dr, dc) # ds) =
     (case five b row col dr dc color of
        None \<Rightarrow> None
      | Some True \<Rightarrow> Some True
      | Some False \<Rightarrow> any_five b row col color ds)"

definition check_win :: "room \<Rightarrow> int \<Rightarrow> int \<Rightarrow> int \<Rightarrow> u64 res" where
  "check_win r row col color =
     (case any_five (r_board r) row col color [(0, 1), (1, 0), (-1, 1), (-1, -1)] of
        None \<Rightarrow> Inl Stack_Exhausted
      | Some True \<Rightarrow> Inr (if color = CHESS_WHITE then r_white_id r else r_black_id r)
      | Some False \<Rightarrow> Inr 0)"

text \<open>The constructor leaves the ids of the players unset: they are arguments of the model.\<close>

definition room_new :: "u64 \<Rightarrow> u64 \<Rightarrow> u64 \<Rightarrow> room" where
  "room_new rid white black = \<lparr>r_room_id = rid, r_statu = GAME_START, r_player_count = 0,
     r_white_id = white, r_black_id = black,
     r_board = replicate 15 (replicate 15 0)\<rparr>"

definition add_white_user :: "u64 \<Rightarrow> room \<Rightarrow> room" where
  "add_white_user uid r = r\<lparr>r_white_id := uid, r_player_count := r_player_count r + 1\<rparr>"

definition add_black_user :: "u64 \<Rightarrow> room \<Rightarrow> room" where
  "add_black_user uid r = r\<lparr>r_black_id := uid, r_player_count := r_player_count r + 1\<rparr>"

definition put_stone :: "int \<Rightarrow> int \<Rightarrow> int \<Rightarrow> room \<Rightarrow> room" where
  "put_stone row col color r =
     r\<lparr>r_board := (r_board r)[nat row := (r_board r ! nat row)[nat col := color]]\<rparr>"

definition handle_chess :: "online_game \<Rightarrow> room \<Rightarrow> json_msg \<Rightarrow> (room \<times> json_msg) res" where
  "handle_chess og r req =
     bind_res (as_member 0 (j_row req)) (\<lambda>chess_row.
     bind_res (as_member 0 (j_col req)) (\<lambda>chess_col.
     bind_res (as_member 0 (j_uid req)) (\<lambda>cur_uid.
       if \<not> is_in_game_room og (r_white_id r) then
         Inr (r, req\<lparr>j_result := Has True, j_reason := Has Opponent_Offline, j_winner := Has (r_black_id r)\<rparr>)
       else if \<not> is_in_game_room og (r_black_id r) then
         Inr (r, req\<lparr>j_result := Has True, j_reason := Has Opponent_Offline, j_winner := Has (r_white_id r)\<rparr>)
       else if \<not> on_board chess_row chess_col then Inl Out_Of_Bounds
       else if cell (r_board r) chess_row chess_col \<noteq> 0 then
         Inr (r, req\<lparr>j_result := Has False, j_reason := Has Cell_Occupied\<rparr>)
       else
         (let cur_color = (if cur_uid = r_white_id r then CHESS_WHITE else CHESS_BLACK);
              r' = put_stone chess_row chess_col cur_color r
          in bind_res (check_win r' chess_row chess_col cur_color) (\<lambda>winner_id.
               let resp = (if winner_id \<noteq> 0 then req\<lparr>j_reason := Has Five_In_A_Row\<rparr> else req)
               in Inr (r', resp\<lparr>j_result := Has True, j_winner := Has winner_id\<rparr>))))))"

text \<open>The bytes of the word that chat messages must not contain.\<close>

definition sensitive_word :: string where
  "sensitive_word = [CHR 0xE5, CHR 0x9E, CHR 0x83, CHR 0xE5, CHR 0x9C, CHR 0xBE]"

definition handle_chat :: "json_msg \<Rightarrow> json_msg res" where
  "handle_chat req =
     bind_res (as_member [] (j_message req)) (\<lambda>msg.
       if str_find msg sensitive_word 0 \<noteq> None then
         Inr (req\<lparr>j_result := Has False, j_reason := Has Sensitive_Word\<rparr>)
       else Inr (req\<lparr>j_result := Has True\<rparr>))"

definition send_to :: "conn option \<Rightarrow> json_msg \<Rightarrow> effect list" where
  "send_to c m = (case c of None \<Rightarrow> [] | Some c \<Rightarrow> [Send c m])"

definition broadcast :: "online_game \<Rightarrow> room \<Rightarrow> json_msg \<Rightarrow> effect list" where
  "broadcast og r rsp =
     send_to (get_conn_from_room og (r_white_id r)) rsp @ send_to (get_conn_from_room og (r_black_id r)) rsp"

definition narrow_id :: "u64 \<Rightarrow> int" where
  "narrow_id uid = to_int32 (uint uid)"

definition handle_exit :: "online_game \<Rightarrow> u64 \<Rightarrow> room \<Rightarrow> room \<times> effect list" where
  "handle_exit og uid r =
     (if r_statu r = GAME_START then
        let winner_id = (if uid = r_white_id r then r_black_id r else r_white_id r);
            json_resp = json_null\<lparr>j_optype := Has ''put_chess'', j_result := Has True,
              j_reason := Has Opponent_Left, j_room_id := Has (r_room_id r), j_uid := Has uid,
              j_row := Has (-1), j_col := Has (-1), j_winner := Has winner_id\<rparr>;
            loser_id = (if winner_id = r_white_id r then r_black_id r else r_white_id r);
            r' = r\<lparr>r_statu := GAME_OVER\<rparr>
        in (r'\<lparr>r_player_count := r_player_count r - 1\<rparr>,
            [Win (narrow_id winner_id), Lose (narrow_id loser_id)] @ broadcast og r' json_resp)
      else (r\<lparr>r_player_count := r_player_count r - 1\<rparr>, []))"

definition handle_request :: "online_game \<Rightarrow> room \<Rightarrow> json_msg \<Rightarrow> (room \<times> effect list) res" where
  "handle_request og r req =
     bind_res (as_member 0 (j_room_id req)) (\<lambda>room_id.
     bind_res (as_member [] (j_optype req)) (\<lambda>optype.
       if room_id \<noteq> r_room_id r then
         Inr (r, broadcast og r (json_null\<lparr>j_optype := Has optype, j_result := Has False, j_reason := Has Wrong_Room\<rparr>))
       else if optype = ''put_chess'' then
         bind_res (handle_chess og r req) (\<lambda>(r', json_resp).
         bind_res (as_member 0 (j_winner json_resp)) (\<lambda>winner_id.
           if winner_id \<noteq> 0 then
             let loser_id = (if winner_id = r_white_id r' then r_black_id r' else r_white_id r')
             in Inr (r'\<lparr>r_statu := GAME_OVER\<rparr>,
                     [Win (narrow_id winner_id), Lose (narrow_id loser_id)] @ broadcast og r' json_resp)
           else Inr (r', broadcast og r' json_resp)))
       else if optype = ''chat'' then
         bind_res (handle_chat req) (\<lambda>json_resp. Inr (r, broadcast og r json_resp))
       else
         Inr (r, broadcast og r (json_null\<lparr>j_optype := Has optype, j_result := Has False, j_reason := Has Unknown_Request\<rparr>))))"

section \<open>Five in a row\<close>

definition stone :: "board \<Rightarrow> int \<Rightarrow> int \<Rightarrow> int \<Rightarrow> bool" where
  "stone b color row col \<longleftrightarrow> on_board row col \<and> cell b row col = color"

text \<open>The rule of the game: five cells of one colour in a row, one of them the given cell.\<close>

definition line_of_five :: "board \<Rightarrow> int \<Rightarrow> int \<Rightarrow> int \<Rightarrow> int \<Rightarrow> int \<Rightarrow> bool" where
  "line_of_five b color row col dr dc \<longleftrightarrow>
     (\<exists>i \<in> {0..4}. \<forall>k \<in> {0..4}. stone b color (row + (k - i) * dr) (col + (k - i) * dc))"

text \<open>Exactly \<open>m\<close> stones of the colour follow the cell in a direction.\<close>

definition run :: "board \<Rightarrow> int \<Rightarrow> int \<Rightarrow> int \<Rightarrow> int \<Rightarrow> int \<Rightarrow> nat \<Rightarrow> bool" where
  "run b color row col dr dc m \<longleftrightarrow>
     (\<forall>j < m. stone b color (row + (int j + 1) * dr) (col + (int j + 1) * dc))
     \<and> \<not> stone b color (row + (int m + 1) * dr) (col + (int m + 1) * dc)"

lemma walk_run:
  "run b color row col dr dc m \<Longrightarrow> m < n \<Longrightarrow> walk n b color (row + dr) (col + dc) dr dc count = Some (count + int m)"
proof (induction m arbitrary: row col n count)
  case 0
  then obtain n' where "n = Suc n'" by (cases n) auto
  with 0 show ?case by (auto simp: run_def stone_def)
next
  case (Suc m)
  then obtain n' where n: "n = Suc n'" by (cases n) auto
  have "run b color (row + dr) (col + dc) dr dc m"
    unfolding run_def
  proof (intro conjI allI impI)
    fix j assume "j < m"
    then have "Suc j < Suc m" by simp
    with Suc.prems(1) have "stone b color (row + (int (Suc j) + 1) * dr) (col + (int (Suc j) + 1) * dc)"
      unfolding run_def by blast
    then show "stone b color (row + dr + (int j + 1) * dr) (col + dc + (int j + 1) * dc)"
      by (simp add: algebra_simps)
  next
    show "\<not> stone b color (row + dr + (int m + 1) * dr) (col + dc + (int m + 1) * dc)"
      using Suc.prems(1) by (simp add: run_def algebra_simps)
  qed
  moreover have "stone b color (row + dr) (col + dc)"
    using Suc.prems(1) unfolding run_def by force
  ultimately show ?case
    using Suc.IH [of "row + dr" "col + dc" n' "count + 1"] Suc.prems(2) n by (simp add: stone_def)
qed

definition unit_step :: "int \<Rightarrow> int \<Rightarrow> bool" where
  "unit_step dr dc \<longleftrightarrow> dr \<in> {-1, 0, 1} \<and> dc \<in> {-1, 0, 1} \<and> (dr, dc) \<noteq> (0, 0)"

lemma run_ex:
  assumes "on_board row col" "unit_step dr dc"
  obtains m where "m < 16" "run b color row col dr dc m"
proof -
  let ?out = "\<lambda>m. \<not> stone b color (row + (int m + 1) * dr) (col + (int m + 1) * dc)"
  have out: "?out 14" using assms by (auto simp: stone_def on_board_def unit_step_def)
  then have "?out (LEAST m. ?out m)" by (rule LeastI)
  moreover have "(LEAST m. ?out m) < 16" using Least_le [of ?out, OF out] by simp
  moreover have "\<forall>j < (LEAST m. ?out m). \<not> ?out j" using not_less_Least by blast
  ultimately show ?thesis using that [of "LEAST m. ?out m"] by (simp add: run_def)
qed

lemma line_of_five_runs:
  assumes "stone b color row col" "run b color row col dr dc m" "run b color row col (- dr) (- dc) m'"
  shows "line_of_five b color row col dr dc \<longleftrightarrow> 5 \<le> 1 + m + m'"
proof
  assume "line_of_five b color row col dr dc"
  then obtain i where i: "i \<in> {0..4}"
    and w: "\<And>k. k \<in> {0..4} \<Longrightarrow> stone b color (row + (k - i) * dr) (col + (k - i) * dc)"
    by (auto simp: line_of_five_def)
  have "4 - i \<le> int m"
  proof (rule ccontr)
    assume "\<not> 4 - i \<le> int m"
    then have "stone b color (row + (i + int m + 1 - i) * dr) (col + (i + int m + 1 - i) * dc)"
      using i by (intro w) auto
    then show False using assms(2) by (simp add: run_def add.commute)
  qed
  moreover have "i \<le> int m'"
  proof (rule ccontr)
    assume "\<not> i \<le> int m'"
    then have "stone b color (row + (i - int m' - 1 - i) * dr) (col + (i - int m' - 1 - i) * dc)"
      using i by (intro w) auto
    then show False using assms(3) by (simp add: run_def algebra_simps)
  qed
  ultimately show "5 \<le> 1 + m + m'" by linarith
next
  assume five: "5 \<le> 1 + m + m'"
  define i where "i = min 4 (int m')"
  have "stone b color (row + (k - i) * dr) (col + (k - i) * dc)" if k: "k \<in> {0..4}" for k
  proof -
    consider "k = i" | "i < k" | "k < i" by linarith
    then show ?thesis
    proof cases
      case 2
      then have "nat (k - i - 1) < m" using k five unfolding i_def by auto
      with assms(2) have "stone b color (row + (int (nat (k - i - 1)) + 1) * dr) (col + (int (nat (k - i - 1)) + 1) * dc)"
        unfolding run_def by blast
      with 2 show ?thesis by simp
    next
      case 3
      then have "nat (i - k - 1) < m'" using k unfolding i_def by auto
      with assms(3) have "stone b color (row + (int (nat (i - k - 1)) + 1) * - dr) (col + (int (nat (i - k - 1)) + 1) * - dc)"
        unfolding run_def by blast
      with 3 show ?thesis by (simp add: algebra_simps)
    qed (use assms(1) in simp)
  qed
  moreover have "i \<in> {0..4}" unfolding i_def by auto
  ultimately show "line_of_five b color row col dr dc" unfolding line_of_five_def by blast
qed

lemma five_line:
  assumes "stone b color row col" "unit_step dr dc"
  shows "five b row col dr dc color = Some (line_of_five b color row col dr dc)"
proof -
  have on: "on_board row col" using assms(1) by (simp add: stone_def)
  obtain m where m: "m < 16" "run b color row col dr dc m" using run_ex [OF on assms(2)] .
  have "unit_step (- dr) (- dc)" using assms(2) by (auto simp: unit_step_def)
  then obtain m' where m': "m' < 16" "run b color row col (- dr) (- dc) m'" using run_ex [OF on] by blast
  show ?thesis
    using walk_run [OF m(2,1), of 1] walk_run [OF m'(2,1), of "1 + int m"]
      line_of_five_runs [OF assms(1) m(2) m'(2)]
    by (simp add: five_def) linarith
qed

definition has_five :: "board \<Rightarrow> int \<Rightarrow> int \<Rightarrow> int \<Rightarrow> bool" where
  "has_five b color row col \<longleftrightarrow>
     (\<exists>(dr, dc) \<in> {(0, 1), (1, 0), (-1, 1), (-1, -1)}. line_of_five b color row col dr dc)"

lemma check_win_eq:
  assumes "stone (r_board r) color row col"
  shows "check_win r row col color =
    Inr (if has_five (r_board r) color row col
         then (if color = CHESS_WHITE then r_white_id r else r_black_id r) else 0)"
  using assms by (auto simp: check_win_def has_five_def five_line unit_step_def split: bool.split)

section \<open>The board\<close>

definition wf_board :: "board \<Rightarrow> bool" where
  "wf_board b \<longleftrightarrow> length b = 15 \<and> (\<forall>row \<in> set b. length row = 15)"

lemma wf_board_new: "wf_board (r_board (room_new rid w bl))"
  by (simp add: wf_board_def room_new_def)

lemma wf_board_row: "wf_board b \<Longrightarrow> on_board row col \<Longrightarrow> nat row < length b \<and> nat col < length (b ! nat row)"
  by (auto simp: wf_board_def on_board_def all_set_conv_all_nth)

lemma wf_board_put_stone:
  assumes "wf_board (r_board r)" "on_board row col"
  shows "wf_board (r_board (put_stone row col color r))"
proof -
  have "length (r_board r ! nat row) = 15"
    using wf_board_row [OF assms] assms(1) nth_mem unfolding wf_board_def by blast
  with assms show ?thesis
    by (auto simp: wf_board_def put_stone_def dest!: subsetD [OF set_update_subset_insert])
qed

lemma cell_put_stone:
  assumes "wf_board (r_board r)" "on_board row col" "on_board row' col'"
  shows "cell (r_board (put_stone row col color r)) row' col' =
    (if row' = row \<and> col' = col then color else cell (r_board r) row' col')"
  using wf_board_row [OF assms(1,2)] assms(2,3)
  by (auto simp: cell_def put_stone_def on_board_def nth_list_update)

lemma put_stone_fields [simp]:
  "r_room_id (put_stone row col color r) = r_room_id r"
  "r_statu (put_stone row col color r) = r_statu r"
  "r_player_count (put_stone row col color r) = r_player_count r"
  "r_white_id (put_stone row col color r) = r_white_id r"
  "r_black_id (put_stone row col color r) = r_black_id r"
  by (simp_all add: put_stone_def)

section \<open>Requests of a room\<close>

lemma stone_put_stone: "wf_board (r_board r) \<Longrightarrow> on_board row col \<Longrightarrow> stone (r_board (put_stone row col color r)) color row col"
  by (simp add: stone_def cell_put_stone)

text \<open>A move that reaches the board: both players are connected and the cell is empty.\<close>

lemma handle_chess_move:
  assumes "wf_board (r_board r)" "on_board row col" "cell (r_board r) row col = 0"
    and "is_in_game_room og (r_white_id r)" "is_in_game_room og (r_black_id r)"
    and "j_row req = Has row" "j_col req = Has col" "j_uid req = Has uid"
    and "color = (if uid = r_white_id r then CHESS_WHITE else CHESS_BLACK)" "r1 = put_stone row col color r"
    and "w = (if has_five (r_board r1) color row col then (if uid = r_white_id r then r_white_id r else r_black_id r) else 0)"
  shows "handle_chess og r req =
    Inr (r1, (if w \<noteq> 0 then req\<lparr>j_reason := Has Five_In_A_Row\<rparr> else req)\<lparr>j_result := Has True, j_winner := Has w\<rparr>)"
  using assms by (simp add: handle_chess_def check_win_eq stone_put_stone)

text \<open>Every answer of \<open>handle_chess\<close> leaves the room alone or puts one stone on an empty cell.\<close>

definition one_stone :: "room \<Rightarrow> room \<Rightarrow> bool" where
  "one_stone r r' \<longleftrightarrow>
     (\<exists>row col color. on_board row col \<and> cell (r_board r) row col = 0 \<and> color \<in> {CHESS_WHITE, CHESS_BLACK}
        \<and> r' = put_stone row col color r)"

lemma one_stone_put [simp]:
  assumes "on_board row col" "cell (r_board r) row col = 0"
  shows "one_stone r (put_stone row col 1 r)" "one_stone r (put_stone row col 2 r)"
  using assms unfolding one_stone_def by blast+

lemma handle_chess_room:
  assumes "handle_chess og r req = Inr (r', resp)"
  shows "r' = r \<or> one_stone r r'"
  using assms by (auto simp: handle_chess_def Let_def res_simps split: if_splits)

lemma handle_request_room:
  assumes "handle_request og r req = Inr (r', es)"
  shows "\<exists>r1. (r1 = r \<or> one_stone r r1) \<and> (r' = r1 \<or> r' = r1\<lparr>r_statu := GAME_OVER\<rparr>)"
  using assms handle_chess_room [of og r req]
  by (fastforce simp: handle_request_def Let_def res_simps split: if_splits)

text \<open>What requests keep: the shape of the board, the players, and every stone.\<close>

definition stones_kept :: "room \<Rightarrow> room \<Rightarrow> bool" where
  "stones_kept r r' \<longleftrightarrow> wf_board (r_board r') \<and> r_room_id r' = r_room_id r \<and> r_white_id r' = r_white_id r
     \<and> r_black_id r' = r_black_id r \<and> r_player_count r' = r_player_count r
     \<and> (r_statu r = GAME_OVER \<longrightarrow> r_statu r' = GAME_OVER)
     \<and> (\<forall>row col. on_board row col \<longrightarrow> cell (r_board r) row col \<noteq> 0
          \<longrightarrow> cell (r_board r') row col = cell (r_board r) row col)"

lemma stones_kept_refl: "wf_board (r_board r) \<Longrightarrow> stones_kept r r"
  by (simp add: stones_kept_def)

lemma stones_kept_trans: "stones_kept r r' \<Longrightarrow> stones_kept r' r'' \<Longrightarrow> stones_kept r r''"
  unfolding stones_kept_def by auto

lemma one_stone_kept: "wf_board (r_board r) \<Longrightarrow> one_stone r r' \<Longrightarrow> stones_kept r r'"
  by (auto simp: one_stone_def stones_kept_def wf_board_put_stone cell_put_stone)

lemma stones_kept_over: "stones_kept r r' \<Longrightarrow> stones_kept r (r'\<lparr>r_statu := GAME_OVER\<rparr>)"
  by (simp add: stones_kept_def)

lemma handle_request_kept:
  assumes "wf_board (r_board r)" "handle_request og r req = Inr (r', es)"
  shows "stones_kept r r'"
  using handle_request_room [OF assms(2)] stones_kept_refl [OF assms(1)] one_stone_kept [OF assms(1)] stones_kept_over
  by blast

text \<open>
  Requests the code is prepared for: their members have the types it asks for, and a move is on
  the board (a missing coordinate counts as 0).
\<close>

definition proper_request :: "json_msg \<Rightarrow> bool" where
  "proper_request req \<longleftrightarrow> j_room_id req \<noteq> Refused \<and> j_optype req \<noteq> Refused
     \<and> (j_optype req = Has ''put_chess'' \<longrightarrow> j_uid req \<noteq> Refused \<and> j_winner req \<noteq> Refused
          \<and> (case (as_member 0 (j_row req), as_member 0 (j_col req)) of
               (Inr row, Inr col) \<Rightarrow> on_board row col | _ \<Rightarrow> False))
     \<and> (j_optype req = Has ''chat'' \<longrightarrow> j_message req \<noteq> Refused)"

lemma as_member_Inr: "m \<noteq> Refused \<Longrightarrow> \<exists>v. as_member d m = Inr v"
  by (cases m) simp_all

lemma handle_chess_returns:
  assumes "wf_board (r_board r)" "proper_request req" "j_optype req = Has ''put_chess''"
  shows "\<exists>r' resp w. handle_chess og r req = Inr (r', resp) \<and> as_member 0 (j_winner resp) = Inr w"
proof -
  obtain row col where rc: "as_member 0 (j_row req) = Inr row" "as_member 0 (j_col req) = Inr col" "on_board row col"
    using assms(2,3) by (auto simp: proper_request_def split: sum.splits)
  obtain uid w where u: "as_member 0 (j_uid req) = Inr uid" "as_member 0 (j_winner req) = Inr w"
    using assms(2,3) as_member_Inr by (metis proper_request_def)
  have "\<exists>w. check_win (put_stone row col color r) row col color = Inr w" for color
    by (simp add: check_win_eq stone_put_stone [OF assms(1) rc(3)])
  then obtain f where "check_win (put_stone row col color r) row col color = Inr (f color)" for color by metis
  then show ?thesis using rc u by (auto simp: handle_chess_def Let_def)
qed

lemma handle_request_returns:
  assumes "wf_board (r_board r)" "proper_request req"
  shows "\<exists>r' es. handle_request og r req = Inr (r', es)"
proof -
  obtain i ot where io: "as_member 0 (j_room_id req) = Inr i" "as_member [] (j_optype req) = Inr ot"
    using assms(2) as_member_Inr by (metis proper_request_def)
  then have ot: "ot \<noteq> [] \<Longrightarrow> j_optype req = Has ot" by (auto simp: as_member_def split: member.splits)
  consider "i \<noteq> r_room_id r \<or> ot \<noteq> ''put_chess'' \<and> ot \<noteq> ''chat''" | "i = r_room_id r" "ot = ''put_chess''" | "i = r_room_id r" "ot = ''chat''"
    by blast
  then show ?thesis
  proof cases
    case 1
    then show ?thesis using io by (auto simp: handle_request_def)
  next
    case 2
    with ot handle_chess_returns [OF assms, of og] obtain r' resp w where
      "handle_chess og r req = Inr (r', resp)" "as_member 0 (j_winner resp) = Inr w" by auto
    then show ?thesis using io 2 by (simp add: handle_request_def Let_def)
  next
    case 3
    with ot assms(2) as_member_Inr obtain m where "as_member [] (j_message req) = Inr m"
      by (fastforce simp: proper_request_def)
    then show ?thesis using io 3 by (simp add: handle_request_def handle_chat_def)
  qed
qed

text \<open>A sequence of requests, each with the users connected at that moment.\<close>

fun handle_requests :: "room \<Rightarrow> (online_game \<times> json_msg) list \<Rightarrow> (room \<times> effect list) res" where
  "handle_requests r [] = Inr (r, [])"
| "handle_requests r ((og, req) # reqs) =
     bind_res (handle_request og r req) (\<lambda>(r', es).
     bind_res (handle_requests r' reqs) (\<lambda>(r'', es'). Inr (r'', es @ es')))"

lemma handle_requests_kept:
  "wf_board (r_board r) \<Longrightarrow> handle_requests r reqs = Inr (r', es) \<Longrightarrow> stones_kept r r'"
proof (induction reqs arbitrary: r es)
  case Nil
  then show ?case by (simp add: stones_kept_refl)
next
  case (Cons q reqs)
  obtain og req where q: "q = (og, req)" by fastforce
  with Cons.prems(2) obtain r1 e1 e2 where
    1: "handle_request og r req = Inr (r1, e1)" and 2: "handle_requests r1 reqs = Inr (r', e2)"
    by (auto simp: res_simps)
  have k: "stones_kept r r1" using handle_request_kept [OF Cons.prems(1) 1] .
  then have "wf_board (r_board r1)" by (simp add: stones_kept_def)
  from Cons.IH [OF this 2] k show ?case using stones_kept_trans by blast
qed

lemma handle_requests_returns:
  "wf_board (r_board r) \<Longrightarrow> \<forall>(og, req) \<in> set reqs. proper_request req \<Longrightarrow> \<exists>r' es. handle_requests r reqs = Inr (r', es)"
proof (induction reqs arbitrary: r)
  case (Cons q reqs)
  obtain og req where q: "q = (og, req)" by fastforce
  with Cons.prems obtain r1 e1 where 1: "handle_request og r req = Inr (r1, e1)"
    using handle_request_returns [of r req og] by auto
  then have "wf_board (r_board r1)" using handle_request_kept [OF Cons.prems(1) 1] by (simp add: stones_kept_def)
  with Cons obtain r2 e2 where "handle_requests r1 reqs = Inr (r2, e2)" by fastforce
  with 1 q show ?case by simp
qed simp

section \<open>Properties\<close>

text \<open>A room of two connected players, used by the examples below.\<close>

definition demo_online :: online_game where
  "demo_online = \<lparr>hall_user = Map.empty, room_user = [7 \<mapsto> 70, 9 \<mapsto> 90]\<rparr>"

definition demo_room :: room where
  "demo_room = add_black_user 9 (add_white_user 7 (room_new 1 0 0))"

definition demo_move :: "int \<Rightarrow> int \<Rightarrow> u64 \<Rightarrow> json_msg" where
  "demo_move row col uid = json_null\<lparr>j_optype := Has ''put_chess'', j_room_id := Has 1, j_uid := Has uid,
     j_row := Has row, j_col := Has col\<rparr>"

definition demo_won :: room where
  "demo_won = put_stone 3 2 1 (put_stone 3 3 1 (put_stone 3 4 1 (put_stone 3 5 1 (put_stone 3 6 1 demo_room))))"

lemma demo_room_ids [simp]:
  "r_room_id demo_room = 1" "r_white_id demo_room = 7" "r_black_id demo_room = 9" "r_statu demo_room = GAME_START"
  by (simp_all add: demo_room_def add_black_user_def add_white_user_def room_new_def)

lemma demo_move_members [simp]:
  "j_optype (demo_move row col uid) = Has ''put_chess''" "j_room_id (demo_move row col uid) = Has 1"
  "j_row (demo_move row col uid) = Has row" "j_col (demo_move row col uid) = Has col"
  "j_uid (demo_move row col uid) = Has uid"
  by (simp_all add: demo_move_def)

lemma demo_online_users [simp]: "room_user demo_online 7 = Some 70" "room_user demo_online 9 = Some 90"
  by (simp_all add: demo_online_def)

lemma demo_room_wf: "wf_board (r_board demo_room)"
  by (simp add: demo_room_def add_black_user_def add_white_user_def wf_board_new)

text \<open>
  C20. \<open>check_win\<close> decides the rule of the game: for a stone on the board it always returns, and it
  names the player of the colour exactly when five cells of that colour in a row, horizontally,
  vertically or on a diagonal, contain the stone; otherwise it returns zero.
\<close>

theorem check_win_decides_five:
  assumes "on_board row col" "cell (r_board r) row col = color"
  shows "check_win r row col color =
    Inr (if \<exists>(dr, dc) \<in> {(0, 1), (1, 0), (-1, 1), (-1, -1)}. \<exists>i \<in> {0..4}. \<forall>k \<in> {0..4}.
              on_board (row + (k - i) * dr) (col + (k - i) * dc)
              \<and> cell (r_board r) (row + (k - i) * dr) (col + (k - i) * dc) = color
         then (if color = CHESS_WHITE then r_white_id r else r_black_id r) else 0)"
  using check_win_eq [of r color row col] assms by (simp add: has_five_def line_of_five_def stone_def)

theorem check_win_decides_five_witness:
  "\<exists>(dr, dc) \<in> {(0, 1), (1, 0), (-1, 1), (-1, -1)}. \<exists>i \<in> {0..4}. \<forall>k \<in> {0..4}.
     on_board (3 + (k - i) * dr) (4 + (k - i) * dc)
     \<and> cell (r_board demo_won) (3 + (k - i) * dr) (4 + (k - i) * dc) = CHESS_WHITE"
proof -
  have "on_board 3 4" "cell (r_board demo_won) 3 4 = CHESS_WHITE" "check_win demo_won 3 4 CHESS_WHITE = Inr 7"
    by code_simp+
  with check_win_decides_five [OF this(1,2)] show ?thesis by (simp split: if_splits)
qed

text \<open>
  C22. A move on an empty cell while both players are connected is carried out completely: the
  stone of the mover's colour is on the board, the answer goes to both connections, and the game
  is won, counted once for the mover and once against the opponent, exactly when the stone
  completes five in a row. This holds whether or not the game is already over.
\<close>

theorem put_chess_carried_out:
  assumes "wf_board (r_board r)" "on_board row col" "cell (r_board r) row col = 0"
    and "room_user og (r_white_id r) = Some cw" "room_user og (r_black_id r) = Some cb"
    and "j_optype req = Has ''put_chess''" "j_room_id req = Has (r_room_id r)"
    and "j_row req = Has row" "j_col req = Has col" "j_uid req = Has uid"
    and "r_white_id r \<noteq> 0" "r_black_id r \<noteq> 0"
    and "color = (if uid = r_white_id r then CHESS_WHITE else CHESS_BLACK)" "r1 = put_stone row col color r"
    and "mover = (if uid = r_white_id r then r_white_id r else r_black_id r)"
    and "opponent = (if mover = r_white_id r then r_black_id r else r_white_id r)"
  shows "handle_request og r req =
    (let resp = req\<lparr>j_result := Has True\<rparr>; won = resp\<lparr>j_reason := Has Five_In_A_Row, j_winner := Has mover\<rparr>;
         on = resp\<lparr>j_winner := Has 0\<rparr>
     in if has_five (r_board r1) color row col
        then Inr (r1\<lparr>r_statu := GAME_OVER\<rparr>, [Win (narrow_id mover), Lose (narrow_id opponent), Send cw won, Send cb won])
        else Inr (r1, [Send cw on, Send cb on]))"
proof -
  have "is_in_game_room og (r_white_id r)" "is_in_game_room og (r_black_id r)"
    using assms(4,5) by (simp_all add: is_in_game_room_def)
  from handle_chess_move [OF assms(1-3) this assms(8-10) assms(13,14) refl]
  show ?thesis
    using assms(4-7,11-16)
    by (simp add: handle_request_def Let_def broadcast_def send_to_def get_conn_from_room_def)
qed

theorem put_chess_carried_out_witness:
  "\<exists>r es. handle_request demo_online (put_stone 3 2 1 (put_stone 3 3 1 (put_stone 3 5 1 (put_stone 3 6 1 demo_room)))) (demo_move 3 4 7)
     = Inr (r, es) \<and> r_statu r = GAME_OVER \<and> take 2 es = [Win 7, Lose 9]"
proof -
  let ?r = "put_stone 3 2 1 (put_stone 3 3 1 (put_stone 3 5 1 (put_stone 3 6 1 demo_room)))"
  have "stone (r_board (put_stone 3 4 1 ?r)) 1 3 4" "check_win (put_stone 3 4 1 ?r) 3 4 1 = Inr 7" by code_simp+
  then have five: "has_five (r_board (put_stone 3 4 1 ?r)) 1 3 4"
    using check_win_eq [of "put_stone 3 4 1 ?r" 1 3 4] by (simp split: if_splits)
  have h: "wf_board (r_board ?r)" "on_board 3 4" "cell (r_board ?r) 3 4 = 0" by code_simp+
  have n: "narrow_id 7 = 7" "narrow_id 9 = 9" by code_simp+
  note put_chess_carried_out [OF h, of demo_online 70 90 "demo_move 3 4 7" 7, OF _ _ _ _ _ _ _ _ _ refl refl refl refl]
  then show ?thesis using five n by (simp add: Let_def)
qed

text \<open>
  C24. Stones stay: requests whose members have the expected types and whose moves are on the
  board are all carried out without a fault, in any order, from any user and with anybody
  connected; afterwards every cell that held a stone still holds it, the players and the number of the
  room are the same, and a game that was over is still over. (A move off the board is not
  checked and reads outside the board.)
\<close>

theorem stones_stay:
  assumes "wf_board (r_board r)" "\<forall>(og, req) \<in> set reqs. proper_request req"
  shows "\<exists>r' es. handle_requests r reqs = Inr (r', es)
     \<and> wf_board (r_board r') \<and> r_room_id r' = r_room_id r \<and> r_white_id r' = r_white_id r
     \<and> r_black_id r' = r_black_id r \<and> (r_statu r = GAME_OVER \<longrightarrow> r_statu r' = GAME_OVER)
     \<and> (\<forall>row col. on_board row col \<and> cell (r_board r) row col \<noteq> 0
          \<longrightarrow> cell (r_board r') row col = cell (r_board r) row col)"
proof -
  obtain r' es where h: "handle_requests r reqs = Inr (r', es)" using handle_requests_returns [OF assms] by blast
  show ?thesis using h handle_requests_kept [OF assms(1) h] by (auto simp: stones_kept_def)
qed

theorem stones_stay_witness:
  "\<exists>r es. handle_requests demo_won [(demo_online, demo_move 3 4 9), (demo_online, demo_move 8 8 9)] = Inr (r, es)
     \<and> cell (r_board r) 3 4 = CHESS_WHITE"
proof -
  have wf: "wf_board (r_board demo_won)" "on_board 3 4" "cell (r_board demo_won) 3 4 = 1" by code_simp+
  have "\<forall>(og, req) \<in> set [(demo_online, demo_move 3 4 9), (demo_online, demo_move 8 8 9)]. proper_request req"
    by (simp add: proper_request_def demo_move_def json_null_def on_board_def)
  from stones_stay [OF wf(1) this] wf(2,3) show ?thesis by fastforce
qed

text \<open>
  A client can award the game to anybody: a move on an occupied cell is refused, but the
  answer is a copy of the request, and when that request carries a \<open>winner\<close> of its own the room
  counts a win for the user it names and a loss for a player, and ends the game.
\<close>

theorem client_claims_win:
  assumes "on_board row col" "cell (r_board r) row col \<noteq> 0"
    and "room_user og (r_white_id r) = Some cw" "room_user og (r_black_id r) = Some cb"
    and "j_optype req = Has ''put_chess''" "j_room_id req = Has (r_room_id r)"
    and "j_row req = Has row" "j_col req = Has col" "j_uid req = Has uid"
    and "j_winner req = Has w" "w \<noteq> 0"
  shows "\<exists>loser resp. loser \<in> {r_white_id r, r_black_id r} \<and> j_result resp = Has False
    \<and> handle_request og r req = Inr (r\<lparr>r_statu := GAME_OVER\<rparr>,
        [Win (narrow_id w), Lose (narrow_id loser), Send cw resp, Send cb resp])"
  using assms
  by (auto simp: handle_request_def handle_chess_def is_in_game_room_def broadcast_def send_to_def get_conn_from_room_def Let_def)

theorem client_claims_win_witness:
  "\<exists>loser resp. loser \<in> {7, 9} \<and> j_result resp = Has False
    \<and> handle_request demo_online (put_stone 0 0 1 demo_room) ((demo_move 0 0 9)\<lparr>j_winner := Has 9\<rparr>)
      = Inr ((put_stone 0 0 1 demo_room)\<lparr>r_statu := GAME_OVER\<rparr>,
          [Win (narrow_id 9), Lose (narrow_id loser), Send 70 resp, Send 90 resp])"
proof -
  have "on_board 0 0" "cell (r_board (put_stone 0 0 1 demo_room)) 0 0 \<noteq> 0" by code_simp+
  from client_claims_win [OF this, of demo_online 70 90 "(demo_move 0 0 9)\<lparr>j_winner := Has 9\<rparr>" 9 9]
  show ?thesis by simp
qed

text \<open>
  The coordinates of a move are not checked: while both players are connected, any move outside
  the board reads outside the board's vectors.
\<close>

theorem move_off_board_out_of_bounds:
  assumes "\<not> on_board row col"
    and "room_user og (r_white_id r) = Some cw" "room_user og (r_black_id r) = Some cb"
    and "j_optype req = Has ''put_chess''" "j_room_id req = Has (r_room_id r)"
    and "j_row req = Has row" "j_col req = Has col" "j_uid req = Has uid"
  shows "handle_request og r req = Inl Out_Of_Bounds"
  using assms by (simp add: handle_request_def handle_chess_def is_in_game_room_def)

theorem move_off_board_out_of_bounds_witness:
  "handle_request demo_online demo_room (demo_move 15 0 7) = Inl Out_Of_Bounds"
  by (rule move_off_board_out_of_bounds [of 15 0 _ _ 70 90 _ 7]) (simp_all add: on_board_def)

end
