(* ===== verification/Gobang_Db.thy ===== *)
theory Gobang_Db
  imports Gobang_Room
begin

text \<open>
  The user table of the gobang server (\<open>game/source/db.hpp\<close>): the text of each SQL statement, the
  buffer it is printed into, and the reading of the answer. MySQL and the number accessor of the
  JSON library are not part of the sources: they are the fields of the record \<open>backend\<close>, an argument
  of the operations.
\<close>

section \<open>The model\<close>

text \<open>
  \<open>my_query\<close>: whether \<open>mysql_query\<close> accepts a statement; \<open>my_result\<close>: the rows that
  \<open>mysql_store_result\<close> gives for it, if any; \<open>as_int\<close>: \<open>Json::Value::asInt\<close> on an unsigned value;
  \<open>as_uint64\<close>: \<open>Json::Value::asUInt64\<close> on a signed one.
\<close>

record backend =
  my_query :: "string \<Rightarrow> bool"
  my_result :: "string \<Rightarrow> string list list option"
  as_int :: "u64 \<Rightarrow> int res"
  as_uint64 :: "int \<Rightarrow> u64 res"

definition mysql_execl :: "backend \<Rightarrow> string \<Rightarrow> bool" where
  "mysql_execl my sql = (if \<not> my_query my sql then False else True)"

text \<open>Statements are printed into \<open>char sql[4096]\<close>, which also holds the final null character.\<close>

definition print_sql :: "string \<Rightarrow> string res" where
  "print_sql text = (if length text < 4096 then Inr text else Inl Out_Of_Bounds)"

definition c_str :: "string \<Rightarrow> string" where
  "c_str s = takeWhile (\<lambda>c. c \<noteq> CHR 0x00) s"

text \<open>The body of a registration or login request.\<close>

record credentials =
  c_username :: "string member"
  c_password :: "string member"

definition INSERT_USER :: "string \<Rightarrow> string \<Rightarrow> string" where
  "INSERT_USER u p = ''insert into user values(null,'' @ [CHR 0x27] @ u @ [CHR 0x27] @ '',password('' @ [CHR 0x27] @ p
     @ [CHR 0x27] @ ''),1000,0,0);''"

definition LOGIN_USER :: "string \<Rightarrow> string \<Rightarrow> string" where
  "LOGIN_USER u p = ''select id,score,total_count,win_count from user where username='' @ [CHR 0x27] @ u @ [CHR 0x27]
     @ '' and password=password('' @ [CHR 0x27] @ p @ [CHR 0x27] @ '');''"

definition USER_BY_NAME :: "string \<Rightarrow> string" where
  "USER_BY_NAME u = ''select id,score,total_count,win_count from user where username='' @ [CHR 0x27] @ u @ [CHR 0x27] @ '';''"

definition USER_BY_ID :: "int \<Rightarrow> string" where
  "USER_BY_ID i = ''select username,score,total_count,win_count from user where id='' @ [CHR 0x27] @ to_string_int i
     @ [CHR 0x27] @ '';''"

definition USER_WIN :: "int \<Rightarrow> string" where
  "USER_WIN i = ''update user set score=score+30,total_count=total_count+1,win_count=win_count+1 where id='' @ to_string_int i @ '';''"

definition USER_LOSE :: "int \<Rightarrow> string" where
  "USER_LOSE i = ''update user set score=score-30,total_count=total_count+1 where id='' @ to_string_int i @ '';''"

text \<open>A changing operation returns its answer and the statements it handed to MySQL.\<close>

definition user_insert :: "backend \<Rightarrow> credentials \<Rightarrow> (bool \<times> string list) res" where
  "user_insert my user =
     (if c_username user = Null \<or> c_password user = Null then Inr (False, [])
      else bind_res (as_member [] (c_username user)) (\<lambda>u.
           bind_res (as_member [] (c_password user)) (\<lambda>p.
           bind_res (print_sql (INSERT_USER (c_str u) (c_str p))) (\<lambda>sql.
             if \<not> mysql_execl my sql then Inr (False, [sql]) else Inr (True, [sql])))))"

record user_info =
  u_id :: int
  u_username :: string
  u_score :: int
  u_total_count :: int
  u_win_count :: int

text \<open>The answer of a query: the only row of its result, or nothing.\<close>

definition only_row :: "backend \<Rightarrow> string \<Rightarrow> string list option" where
  "only_row my sql =
     (if \<not> mysql_execl my sql then None
      else case my_result my sql of
             None \<Rightarrow> None
           | Some rows \<Rightarrow> if length rows \<noteq> 1 then None else Some (hd rows))"

definition column :: "string list \<Rightarrow> nat \<Rightarrow> string res" where
  "column row i = (if i < length row then Inr (row ! i) else Inl Out_Of_Bounds)"

definition user_login :: "backend \<Rightarrow> credentials \<Rightarrow> user_info option res" where
  "user_login my user =
     (if c_username user = Null \<or> c_password user = Null then Inr None
      else bind_res (as_member [] (c_username user)) (\<lambda>u.
           bind_res (as_member [] (c_password user)) (\<lambda>p.
           bind_res (print_sql (LOGIN_USER (c_str u) (c_str p))) (\<lambda>sql.
             case only_row my sql of
               None \<Rightarrow> Inr None
             | Some row \<Rightarrow>
                 bind_res (bind_res (column row 0) stoi) (\<lambda>i.
                 bind_res (bind_res (column row 1) stoi) (\<lambda>s.
                 bind_res (bind_res (column row 2) stoi) (\<lambda>t.
                 bind_res (bind_res (column row 3) stoi) (\<lambda>w.
                   Inr (Some \<lparr>u_id = i, u_username = u, u_score = s, u_total_count = t, u_win_count = w\<rparr>)))))))))"

definition select_by_name :: "backend \<Rightarrow> string \<Rightarrow> user_info option res" where
  "select_by_name my name =
     bind_res (print_sql (USER_BY_NAME (c_str name))) (\<lambda>sql.
       case only_row my sql of
         None \<Rightarrow> Inr None
       | Some row \<Rightarrow>
           bind_res (bind_res (column row 0) stoi) (\<lambda>i.
           bind_res (bind_res (column row 1) stoi) (\<lambda>s.
           bind_res (bind_res (column row 2) stoi) (\<lambda>t.
           bind_res (bind_res (column row 3) stoi) (\<lambda>w.
             Inr (Some \<lparr>u_id = i, u_username = name, u_score = s, u_total_count = t, u_win_count = w\<rparr>))))))"

text \<open>
  \<open>select_by_id\<close> prints the id with \<open>%d\<close> and stores the score as an unsigned number, so a negative
  score becomes a number close to 2^64.
\<close>

record user_by_id =
  s_id :: u64
  s_username :: string
  s_score :: u64
  s_total_count :: int
  s_win_count :: int

definition select_by_id :: "backend \<Rightarrow> u64 \<Rightarrow> user_by_id option res" where
  "select_by_id my i =
     bind_res (print_sql (USER_BY_ID (narrow_id i))) (\<lambda>sql.
       case only_row my sql of
         None \<Rightarrow> Inr None
       | Some row \<Rightarrow>
           bind_res (column row 0) (\<lambda>n.
           bind_res (bind_res (column row 1) stol) (\<lambda>s.
           bind_res (bind_res (column row 2) stoi) (\<lambda>t.
           bind_res (bind_res (column row 3) stoi) (\<lambda>w.
             Inr (Some \<lparr>s_id = i, s_username = n, s_score = word_of_int s, s_total_count = t, s_win_count = w\<rparr>))))))"

definition user_win :: "backend \<Rightarrow> int \<Rightarrow> (bool \<times> string list) res" where
  "user_win my i = bind_res (print_sql (USER_WIN i)) (\<lambda>sql.
     if \<not> mysql_execl my sql then Inr (False, [sql]) else Inr (True, [sql]))"

definition user_lose :: "backend \<Rightarrow> int \<Rightarrow> (bool \<times> string list) res" where
  "user_lose my i = bind_res (print_sql (USER_LOSE i)) (\<lambda>sql.
     if \<not> mysql_execl my sql then Inr (False, [sql]) else Inr (True, [sql]))"

section \<open>Statements that fit the buffer\<close>

lemma length_decimal: "0 < k \<Longrightarrow> n < 10 ^ k \<Longrightarrow> length (decimal n) \<le> k"
proof (induction k arbitrary: n)
  case (Suc k)
  show ?case
  proof (cases "n < 10")
    case True
    then show ?thesis by (simp add: decimal.simps [of n])
  next
    case False
    then have "0 < k" using Suc.prems(2) by (cases k) auto
    moreover have "n div 10 < 10 ^ k" using Suc.prems(2) by (simp add: less_mult_imp_div_less mult.commute)
    ultimately show ?thesis using Suc.IH [of "n div 10"] False by (simp add: decimal.simps [of n])
  qed
qed simp

lemma length_to_string_int:
  assumes "- (2 ^ 31) \<le> i" "i < 2 ^ 31"
  shows "length (to_string_int i) \<le> 11"
proof -
  have "nat (- i) < 10 ^ 10" "nat i < 10 ^ 10" using assms by simp_all
  from length_decimal [OF _ this(1)] length_decimal [OF _ this(2)]
  have "length (decimal (nat (- i))) \<le> 10" "length (decimal (nat i)) \<le> 10" by simp_all
  then show ?thesis by (simp add: to_string_int_def)
qed

lemma narrow_id_range: "- (2 ^ 31) \<le> narrow_id u" "narrow_id u < 2 ^ 31"
  using sint_greater_eq [of "word_of_int (uint u) :: u32"] sint_less [of "word_of_int (uint u) :: u32"]
  by (simp_all add: narrow_id_def to_int32_def)

lemma id_statements_fit:
  assumes "- (2 ^ 31) \<le> i" "i < 2 ^ 31"
  shows "print_sql (USER_BY_ID i) = Inr (USER_BY_ID i)" "print_sql (USER_WIN i) = Inr (USER_WIN i)"
    "print_sql (USER_LOSE i) = Inr (USER_LOSE i)"
  using length_to_string_int [OF assms] by (simp_all add: print_sql_def USER_BY_ID_def USER_WIN_def USER_LOSE_def)

text \<open>The two updates always reach MySQL, whatever the id.\<close>

lemma user_win_lose_total:
  assumes "- (2 ^ 31) \<le> i" "i < 2 ^ 31"
  shows "user_win my i = Inr (my_query my (USER_WIN i), [USER_WIN i])"
    and "user_lose my i = Inr (my_query my (USER_LOSE i), [USER_LOSE i])"
  using id_statements_fit [OF assms] by (simp_all add: user_win_def user_lose_def mysql_execl_def)

lemma select_by_id_answer:
  assumes "only_row my (USER_BY_ID (narrow_id i)) = Some [n, s, t, w]"
    and "stol s = Inr score" "stoi t = Inr games" "stoi w = Inr wins"
  shows "select_by_id my i =
    Inr (Some \<lparr>s_id = i, s_username = n, s_score = word_of_int score, s_total_count = games, s_win_count = wins\<rparr>)"
  using assms id_statements_fit(1) [OF narrow_id_range, of i] by (simp add: select_by_id_def column_def)

section \<open>Properties\<close>

text \<open>
  The name and the password of a registration are printed into a buffer of 4096 bytes without
  a check: when together they are 4041 bytes or longer (and free of null characters), registering
  writes past the end of the buffer.
\<close>

theorem long_registration_overflows:
  assumes "c_username user = Has u" "c_password user = Has p"
    and "CHR 0x00 \<notin> set u" "CHR 0x00 \<notin> set p" "4041 \<le> length u + length p"
  shows "user_insert my user = Inl Out_Of_Bounds"
proof -
  have "c_str u = u" "c_str p = p" using assms(3,4) by (auto simp: c_str_def takeWhile_eq_all_conv)
  moreover have "length (INSERT_USER u p) = length u + length p + 55" by (simp add: INSERT_USER_def)
  ultimately show ?thesis using assms by (simp add: user_insert_def print_sql_def)
qed

theorem long_registration_overflows_witness:
  "user_insert \<lparr>my_query = (\<lambda>_. True), my_result = (\<lambda>_. None), as_int = (\<lambda>s. Inr (uint s)),
     as_uint64 = (\<lambda>i. Inr (word_of_int i))\<rparr>
     \<lparr>c_username = Has (replicate 5000 (CHR ''a'')), c_password = Has ''pw''\<rparr> = Inl Out_Of_Bounds"
  by (rule long_registration_overflows [OF _ _ _ _, where u = "replicate 5000 (CHR ''a'')" and p = "''pw''"]) (simp_all add: set_replicate_conv_if)

end
