(* ===== verification/Gobang_Match.thy ===== *)
theory Gobang_Match
  imports Gobang_Db "HOL-Library.Multiset"
begin

text \<open>
  Rooms and matching of the gobang server: \<open>room_manager\<close> (\<open>game/source/room.hpp\<close>) and
  \<open>match_queue\<close> and \<open>matcher\<close> (\<open>game/source/matcher.hpp\<close>). The shared pointers to a room all lead to
  the entry of the room map, so a room is updated there. The operations run one after the other,
  as the mutexes of the code make them; a matching thread is the repetition of \<open>handle_match\<close>'s
  loop body.
\<close>

section \<open>The room manager\<close>

record room_manager =
  rm_next_rid :: u64
  rm_rooms :: "u64 \<Rightarrow> room option"
  rm_users :: "u64 \<Rightarrow> u64 option"

definition room_manager_new :: room_manager where
  "room_manager_new = \<lparr>rm_next_rid = 1, rm_rooms = Map.empty, rm_users = Map.empty\<rparr>"

text \<open>The first two arguments are the ids a fresh room has before the players are added.\<close>

definition create_room :: "u64 \<Rightarrow> u64 \<Rightarrow> online_game \<Rightarrow> u64 \<Rightarrow> u64 \<Rightarrow> room_manager \<Rightarrow> room option \<times> room_manager" where
  "create_room w0 b0 og uid1 uid2 rm =
     (if \<not> is_in_game_hall og uid1 then (None, rm)
      else if \<not> is_in_game_hall og uid2 then (None, rm)
      else
        let rp = add_black_user uid2 (add_white_user uid1 (room_new (rm_next_rid rm) w0 b0))
        in (Some rp, rm\<lparr>rm_rooms := insert_new (rm_rooms rm) (rm_next_rid rm) rp,
              rm_users := insert_new (insert_new (rm_users rm) uid1 (rm_next_rid rm)) uid2 (rm_next_rid rm),
              rm_next_rid := rm_next_rid rm + 1\<rparr>))"

definition get_room_by_rid :: "room_manager \<Rightarrow> u64 \<Rightarrow> room option" where
  "get_room_by_rid rm rid = (case rm_rooms rm rid of None \<Rightarrow> None | Some r \<Rightarrow> Some r)"

definition get_room_by_uid :: "room_manager \<Rightarrow> u64 \<Rightarrow> room option" where
  "get_room_by_uid rm uid =
     (case rm_users rm uid of
        None \<Rightarrow> None
      | Some rid \<Rightarrow> (case rm_rooms rm rid of None \<Rightarrow> None | Some r \<Rightarrow> Some r))"

text \<open>The effect of a method of \<open>room\<close> through the pointer that \<open>get_room_by_uid\<close> returned.\<close>

definition put_room_of :: "u64 \<Rightarrow> room \<Rightarrow> room_manager \<Rightarrow> room_manager" where
  "put_room_of uid r rm =
     (case rm_users rm uid of None \<Rightarrow> rm | Some rid \<Rightarrow> rm\<lparr>rm_rooms := (rm_rooms rm)(rid \<mapsto> r)\<rparr>)"

definition remove_room :: "u64 \<Rightarrow> room_manager \<Rightarrow> room_manager" where
  "remove_room rid rm =
     (case get_room_by_rid rm rid of
        None \<Rightarrow> rm
      | Some rp \<Rightarrow> rm\<lparr>rm_users := map_erase (map_erase (rm_users rm) (r_white_id rp)) (r_black_id rp),
          rm_rooms := map_erase (rm_rooms rm) rid\<rparr>)"

definition remove_room_user :: "online_game \<Rightarrow> u64 \<Rightarrow> room_manager \<Rightarrow> room_manager \<times> effect list" where
  "remove_room_user og uid rm =
     (case get_room_by_uid rm uid of
        None \<Rightarrow> (rm, [])
      | Some rp \<Rightarrow>
          (let (rp', es) = handle_exit og uid rp; rm' = put_room_of uid rp' rm
           in if r_player_count rp' = 0 then (remove_room (r_room_id rp') rm', es) else (rm', es)))"

section \<open>The matching queues\<close>

definition mq_push :: "'a \<Rightarrow> 'a list \<Rightarrow> 'a list" where
  "mq_push d q = q @ [d]"

definition mq_pop :: "'a list \<Rightarrow> ('a \<times> 'a list) option" where
  "mq_pop q = (case q of [] \<Rightarrow> None | d # q' \<Rightarrow> Some (d, q'))"

definition mq_remove :: "'a \<Rightarrow> 'a list \<Rightarrow> 'a list" where
  "mq_remove d q = filter (\<lambda>e. e \<noteq> d) q"

record matcher =
  q_normal :: "u64 list"
  q_high :: "u64 list"
  q_super :: "u64 list"

definition matcher_new :: matcher where
  "matcher_new = \<lparr>q_normal = [], q_high = [], q_super = []\<rparr>"

definition matcher_add :: "backend \<Rightarrow> u64 \<Rightarrow> matcher \<Rightarrow> (bool \<times> matcher) res" where
  "matcher_add my uid mm =
     bind_res (select_by_id my uid) (\<lambda>user.
       case user of
         None \<Rightarrow> Inr (False, mm)
       | Some u \<Rightarrow>
           bind_res (as_int my (s_score u)) (\<lambda>score.
             Inr (True,
               if score < 2000 then mm\<lparr>q_normal := mq_push uid (q_normal mm)\<rparr>
               else if score \<ge> 2000 \<and> score < 3000 then mm\<lparr>q_high := mq_push uid (q_high mm)\<rparr>
               else mm\<lparr>q_super := mq_push uid (q_super mm)\<rparr>)))"

definition matcher_del :: "backend \<Rightarrow> u64 \<Rightarrow> matcher \<Rightarrow> (bool \<times> matcher) res" where
  "matcher_del my uid mm =
     bind_res (select_by_id my uid) (\<lambda>user.
       case user of
         None \<Rightarrow> Inr (False, mm)
       | Some u \<Rightarrow>
           bind_res (as_int my (s_score u)) (\<lambda>score.
             Inr (True,
               if score < 2000 then mm\<lparr>q_normal := mq_remove uid (q_normal mm)\<rparr>
               else if score \<ge> 2000 \<and> score < 3000 then mm\<lparr>q_high := mq_remove uid (q_high mm)\<rparr>
               else mm\<lparr>q_super := mq_remove uid (q_super mm)\<rparr>)))"

datatype tier = Normal | High | Super

definition queue_of :: "tier \<Rightarrow> matcher \<Rightarrow> u64 list" where
  "queue_of t mm = (case t of Normal \<Rightarrow> q_normal mm | High \<Rightarrow> q_high mm | Super \<Rightarrow> q_super mm)"

definition set_queue :: "tier \<Rightarrow> u64 list \<Rightarrow> matcher \<Rightarrow> matcher" where
  "set_queue t q mm =
     (case t of Normal \<Rightarrow> mm\<lparr>q_normal := q\<rparr> | High \<Rightarrow> mm\<lparr>q_high := q\<rparr> | Super \<Rightarrow> mm\<lparr>q_super := q\<rparr>)"

definition match_success :: json_msg where
  "match_success = json_null\<lparr>j_optype := Has ''match_success'', j_result := Has True\<rparr>"

text \<open>
  The part of the loop of \<open>handle_match\<close> after the wait. It handles a queue of fewer than two
  users too, since a user may be removed between the wait and the two \<open>pop\<close> calls.
\<close>

definition match_body :: "backend \<Rightarrow> u64 \<Rightarrow> u64 \<Rightarrow> online_game \<Rightarrow> tier \<Rightarrow> matcher \<Rightarrow> room_manager
    \<Rightarrow> (matcher \<times> room_manager \<times> effect list) res" where
  "match_body my w0 b0 og t mm rm =
     (case mq_pop (queue_of t mm) of
        None \<Rightarrow> Inr (mm, rm, [])
      | Some (uid1, q1) \<Rightarrow>
          (case mq_pop q1 of
             None \<Rightarrow> bind_res (matcher_add my uid1 (set_queue t q1 mm)) (\<lambda>(_, mm'). Inr (mm', rm, []))
           | Some (uid2, q2) \<Rightarrow>
               (case get_conn_from_hall og uid1 of
                  None \<Rightarrow> bind_res (matcher_add my uid2 (set_queue t q2 mm)) (\<lambda>(_, mm'). Inr (mm', rm, []))
                | Some conn1 \<Rightarrow>
                    (case get_conn_from_hall og uid2 of
                       None \<Rightarrow> bind_res (matcher_add my uid1 (set_queue t q2 mm)) (\<lambda>(_, mm'). Inr (mm', rm, []))
                     | Some conn2 \<Rightarrow>
                         (case create_room w0 b0 og uid1 uid2 rm of
                            (None, rm') \<Rightarrow>
                              bind_res (matcher_add my uid1 (set_queue t q2 mm)) (\<lambda>(_, mm1).
                              bind_res (matcher_add my uid2 mm1) (\<lambda>(_, mm2). Inr (mm2, rm', [])))
                          | (Some rp, rm') \<Rightarrow>
                              Inr (set_queue t q2 mm, rm', [Send conn1 match_success, Send conn2 match_success]))))))"

definition handle_match :: "backend \<Rightarrow> u64 \<Rightarrow> u64 \<Rightarrow> online_game \<Rightarrow> tier \<Rightarrow> matcher \<Rightarrow> room_manager
    \<Rightarrow> (matcher \<times> room_manager \<times> effect list) res" where
  "handle_match my w0 b0 og t mm rm =
     (if length (queue_of t mm) < 2 then Inr (mm, rm, []) else match_body my w0 b0 og t mm rm)"

section \<open>The invariant of the room manager\<close>

definition room_ok :: "u64 \<Rightarrow> room \<Rightarrow> bool" where
  "room_ok rid r \<longleftrightarrow> r_room_id r = rid \<and> wf_board (r_board r) \<and> r_player_count r \<in> {1, 2}"

text \<open>
  Every room is stored under its own number, below the next one, with a board and one or two
  players; every user with an entry plays in the room the entry leads to.
\<close>

definition rm_ok :: "room_manager \<Rightarrow> bool" where
  "rm_ok rm \<longleftrightarrow>
     (\<forall>rid r. rm_rooms rm rid = Some r \<longrightarrow> room_ok rid r \<and> rid < rm_next_rid rm)
     \<and> (\<forall>uid rid. rm_users rm uid = Some rid \<longrightarrow>
          (\<exists>r. rm_rooms rm rid = Some r \<and> uid \<in> {r_white_id r, r_black_id r}))"

lemma rm_okD:
  assumes "rm_ok rm"
  shows "rm_rooms rm rid = Some r \<Longrightarrow> room_ok rid r" "rm_rooms rm rid = Some r \<Longrightarrow> rid < rm_next_rid rm"
    and "rm_users rm uid = Some rid \<Longrightarrow> \<exists>r. rm_rooms rm rid = Some r \<and> uid \<in> {r_white_id r, r_black_id r}"
  using assms by (simp_all add: rm_ok_def)

lemma rm_ok_fresh: "rm_ok rm \<Longrightarrow> rm_rooms rm (rm_next_rid rm) = None"
  using rm_okD(2) [of rm "rm_next_rid rm"] by (cases "rm_rooms rm (rm_next_rid rm)") auto

lemma rm_ok_new: "rm_ok room_manager_new"
  by (simp add: rm_ok_def room_manager_new_def)

definition room_for :: "u64 \<Rightarrow> u64 \<Rightarrow> u64 \<Rightarrow> room" where
  "room_for rid uid1 uid2 = add_black_user uid2 (add_white_user uid1 (room_new rid 0 0))"

lemma room_for_fields [simp]:
  "r_room_id (room_for rid uid1 uid2) = rid" "r_white_id (room_for rid uid1 uid2) = uid1"
  "r_black_id (room_for rid uid1 uid2) = uid2" "r_player_count (room_for rid uid1 uid2) = 2"
  "r_statu (room_for rid uid1 uid2) = GAME_START"
  by (simp_all add: room_for_def add_black_user_def add_white_user_def room_new_def)

lemma room_ok_for: "room_ok rid (room_for rid uid1 uid2)"
  by (simp add: room_ok_def) (simp add: room_for_def add_black_user_def add_white_user_def wf_board_new)

lemma create_room_eq:
  assumes "is_in_game_hall og uid1" "is_in_game_hall og uid2"
  shows "create_room w0 b0 og uid1 uid2 rm =
    (Some (room_for (rm_next_rid rm) uid1 uid2),
     rm\<lparr>rm_rooms := insert_new (rm_rooms rm) (rm_next_rid rm) (room_for (rm_next_rid rm) uid1 uid2),
        rm_users := insert_new (insert_new (rm_users rm) uid1 (rm_next_rid rm)) uid2 (rm_next_rid rm),
        rm_next_rid := rm_next_rid rm + 1\<rparr>)"
  using assms by (simp add: create_room_def room_for_def add_black_user_def add_white_user_def room_new_def Let_def)

lemma insert_new_Some: "insert_new m k v j = Some w \<Longrightarrow> m j = Some w \<or> (j = k \<and> w = v)"
  by (auto simp: insert_new_def split: if_splits)

lemma rm_ok_create:
  assumes "rm_ok rm" "rm_next_rid rm + 1 \<noteq> 0"
  shows "rm_ok (snd (create_room w0 b0 og uid1 uid2 rm))"
proof (cases "is_in_game_hall og uid1 \<and> is_in_game_hall og uid2")
  case True
  let ?n = "rm_next_rid rm"
  let ?rm = "snd (create_room w0 b0 og uid1 uid2 rm)"
  have fresh: "rm_rooms rm ?n = None" using rm_ok_fresh [OF assms(1)] .
  have rooms: "rm_rooms ?rm = (rm_rooms rm)(?n \<mapsto> room_for ?n uid1 uid2)" "rm_next_rid ?rm = ?n + 1"
    using True fresh by (simp_all add: create_room_eq)
  have less: "?n < ?n + 1" using assms(2) by (rule word_less_succ)
  show ?thesis
    unfolding rm_ok_def
  proof (intro conjI allI impI)
    fix rid r assume "rm_rooms ?rm rid = Some r"
    then show "room_ok rid r" "rid < rm_next_rid ?rm"
      using rm_okD(1,2) [OF assms(1), of rid r] rooms less by (auto simp: room_ok_for split: if_splits)
  next
    fix uid rid assume "rm_users ?rm uid = Some rid"
    then have "rm_users rm uid = Some rid \<or> (rid = ?n \<and> uid \<in> {uid1, uid2})"
      using True by (auto simp: create_room_eq dest!: insert_new_Some)
    then show "\<exists>r. rm_rooms ?rm rid = Some r \<and> uid \<in> {r_white_id r, r_black_id r}"
      using rm_okD(3) [OF assms(1), of uid rid] rooms fresh by auto
  qed
qed (use assms(1) in \<open>auto simp: create_room_def\<close>)

text \<open>Replacing the room of a user by one with the same number and players.\<close>

lemma rm_ok_put:
  assumes "rm_ok rm" "get_room_by_uid rm uid = Some r" "room_ok (r_room_id r) r'"
    and "r_white_id r' = r_white_id r" "r_black_id r' = r_black_id r"
  shows "rm_ok (put_room_of uid r' rm)"
proof -
  obtain rid where u: "rm_users rm uid = Some rid" and r: "rm_rooms rm rid = Some r"
    using assms(2) by (auto simp: get_room_by_uid_def split: option.splits)
  have "r_room_id r = rid" using rm_okD(1) [OF assms(1) r] by (simp add: room_ok_def)
  with assms u r show ?thesis
    by (auto simp: rm_ok_def put_room_of_def) (metis option.inject)+
qed

lemma get_room_by_uid_ok:
  assumes "rm_ok rm" "get_room_by_uid rm uid = Some r"
  shows "room_ok (r_room_id r) r" "rm_users rm uid = Some (r_room_id r)" "rm_rooms rm (r_room_id r) = Some r"
    "uid \<in> {r_white_id r, r_black_id r}"
proof -
  obtain rid where u: "rm_users rm uid = Some rid" and r: "rm_rooms rm rid = Some r"
    using assms(2) by (auto simp: get_room_by_uid_def split: option.splits)
  have "room_ok rid r" using rm_okD(1) [OF assms(1) r] .
  then show "room_ok (r_room_id r) r" "rm_users rm uid = Some (r_room_id r)" "rm_rooms rm (r_room_id r) = Some r"
    using u r by (simp_all add: room_ok_def)
  show "uid \<in> {r_white_id r, r_black_id r}" using rm_okD(3) [OF assms(1) u] r by simp
qed

lemma handle_exit_fields:
  assumes "handle_exit og uid r = (r', es)"
  shows "r_room_id r' = r_room_id r" "r_white_id r' = r_white_id r" "r_black_id r' = r_black_id r"
    "r_board r' = r_board r" "r_player_count r' = r_player_count r - 1" "r_statu r' = GAME_OVER"
  using assms by (auto simp: handle_exit_def Let_def split: if_splits) (metis room_statu.exhaust)

text \<open>Removing a room whose players' entries lead nowhere else keeps the invariant.\<close>

lemma rm_ok_removed:
  assumes "rm_ok rm" "rm_rooms rm rid = Some r"
    and "rm' = rm\<lparr>rm_users := map_erase (map_erase (rm_users rm) (r_white_id r)) (r_black_id r),
          rm_rooms := map_erase (rm_rooms rm) rid\<rparr>"
  shows "rm_ok rm'"
  using assms by (auto simp: rm_ok_def split: if_splits) (metis option.inject)+

lemma rm_ok_remove_user:
  assumes "rm_ok rm"
  shows "rm_ok (fst (remove_room_user og uid rm))"
proof (cases "get_room_by_uid rm uid")
  case (Some r)
  obtain r' es where x: "handle_exit og uid r = (r', es)" by fastforce
  note g = get_room_by_uid_ok [OF assms Some] and f = handle_exit_fields [OF x]
  show ?thesis
  proof (cases "r_player_count r' = 0")
    case True
    have "fst (remove_room_user og uid rm) =
        rm\<lparr>rm_users := map_erase (map_erase (rm_users rm) (r_white_id r)) (r_black_id r),
          rm_rooms := map_erase (rm_rooms rm) (r_room_id r)\<rparr>"
      using Some x True f g
      by (simp add: remove_room_user_def put_room_of_def remove_room_def get_room_by_rid_def map_erase_def)
    with rm_ok_removed [OF assms g(3)] show ?thesis by simp
  next
    case False
    then have "fst (remove_room_user og uid rm) = put_room_of uid r' rm"
      using Some x by (simp add: remove_room_user_def)
    moreover have "room_ok (r_room_id r) r'" using g(1) f False by (auto simp: room_ok_def)
    ultimately show ?thesis using rm_ok_put [OF assms Some] f by simp
  qed
qed (use assms in \<open>simp add: remove_room_user_def\<close>)

lemma room_ok_kept: "room_ok rid r \<Longrightarrow> stones_kept r r' \<Longrightarrow> room_ok rid r'"
  by (simp add: room_ok_def stones_kept_def)

lemma rm_ok_request:
  assumes "rm_ok rm" "get_room_by_uid rm uid = Some r" "handle_request og r req = Inr (r', es)"
  shows "rm_ok (put_room_of uid r' rm)"
proof -
  have ok: "room_ok (r_room_id r) r" using get_room_by_uid_ok(1) [OF assms(1,2)] .
  then have "stones_kept r r'" using handle_request_kept [OF _ assms(3)] by (simp add: room_ok_def)
  with rm_ok_put [OF assms(1,2)] room_ok_kept [OF ok] show ?thesis by (simp add: stones_kept_def)
qed

section \<open>Matching\<close>







lemma hall_conn: "get_conn_from_hall og uid = None \<longleftrightarrow> \<not> is_in_game_hall og uid"
  by (simp add: get_conn_from_hall_def is_in_game_hall_def split: option.split)

lemma match_body_pair:
  assumes "queue_of t mm = uid1 # uid2 # q" "hall_user og uid1 = Some c1" "hall_user og uid2 = Some c2"
  shows "match_body my w0 b0 og t mm rm =
    Inr (set_queue t q mm, snd (create_room w0 b0 og uid1 uid2 rm), [Send c1 match_success, Send c2 match_success])"
  using assms by (simp add: match_body_def mq_pop_def get_conn_from_hall_def create_room_eq is_in_game_hall_def)



section \<open>Properties\<close>

definition demo_backend :: "string \<Rightarrow> backend" where
  "demo_backend score = \<lparr>my_query = (\<lambda>_. True), my_result = (\<lambda>_. Some [[''ann'', score, ''3'', ''1'']]),
     as_int = (\<lambda>s. if uint s < 2 ^ 31 then Inr (uint s) else Inl Exception),
     as_uint64 = (\<lambda>i. if 0 \<le> i then Inr (word_of_int i) else Inl Exception)\<rparr>"

lemma demo_as_int [simp]:
  "as_int (demo_backend score) v = (if uint v < 2 ^ 31 then Inr (uint v) else Inl Exception)"
  by (simp add: demo_backend_def)

definition demo_hall :: online_game where
  "demo_hall = \<lparr>hall_user = [7 \<mapsto> 70, 9 \<mapsto> 90], room_user = Map.empty\<rparr>"

lemma select_demo_backend:
  assumes "stol score = Inr s"
  shows "select_by_id (demo_backend score) uid =
    Inr (Some \<lparr>s_id = uid, s_username = ''ann'', s_score = word_of_int s, s_total_count = 3, s_win_count = 1\<rparr>)"
proof (rule select_by_id_answer)
  show "only_row (demo_backend score) (USER_BY_ID (narrow_id uid)) = Some [''ann'', score, ''3'', ''1'']"
    by (simp add: only_row_def demo_backend_def mysql_execl_def)
  show "stoi ''3'' = Inr 3" "stoi ''1'' = Inr 1" by code_simp+
qed (rule assms)




text \<open>
  A user can be matched against themselves: asking for a match twice queues the user twice, and
  the next pass creates a room in which both players are that user.
\<close>

theorem matched_against_self:
  assumes "rm_ok rm" "hall_user og uid = Some c"
    and "select_by_id my uid = Inr (Some u)" "as_int my (s_score u) = Inr score" "score < 2000"
    and "matcher_add my uid matcher_new = Inr (ok1, m1)" "matcher_add my uid m1 = Inr (ok2, m2)"
  shows "\<exists>rm' r. handle_match my w0 b0 og Normal m2 rm = Inr (matcher_new, rm', [Send c match_success, Send c match_success])
    \<and> rm_rooms rm' (rm_next_rid rm) = Some r \<and> r_white_id r = uid \<and> r_black_id r = uid"
proof -
  have m2: "m2 = \<lparr>q_normal = [uid, uid], q_high = [], q_super = []\<rparr>"
    using assms(3-7) by (auto simp: matcher_add_def matcher_new_def mq_push_def)
  then have "queue_of Normal m2 = [uid, uid]" by (simp add: queue_of_def)
  from match_body_pair [OF this assms(2,2)] show ?thesis
    using assms(2) rm_ok_fresh [OF assms(1)] m2
    by (simp add: handle_match_def queue_of_def set_queue_def matcher_new_def create_room_eq is_in_game_hall_def)
qed

theorem matched_against_self_witness:
  "\<exists>rm' r. handle_match (demo_backend ''1000'') 0 0 demo_hall Normal \<lparr>q_normal = [7, 7], q_high = [], q_super = []\<rparr> room_manager_new
      = Inr (matcher_new, rm', [Send 70 match_success, Send 70 match_success])
    \<and> rm_rooms rm' 1 = Some r \<and> r_white_id r = 7 \<and> r_black_id r = 7"
proof -
  have s: "stol ''1000'' = Inr 1000" by code_simp
  note sel = select_demo_backend [OF s, of 7]
  have a: "matcher_add (demo_backend ''1000'') 7 matcher_new = Inr (True, \<lparr>q_normal = [7], q_high = [], q_super = []\<rparr>)"
    "matcher_add (demo_backend ''1000'') 7 \<lparr>q_normal = [7], q_high = [], q_super = []\<rparr>
       = Inr (True, \<lparr>q_normal = [7, 7], q_high = [], q_super = []\<rparr>)"
    by (simp_all add: matcher_add_def sel matcher_new_def mq_push_def)
  show ?thesis
    using matched_against_self [OF rm_ok_new _ sel _ _ a, of demo_hall 70 1000 0 0]
    by (simp add: demo_hall_def room_manager_new_def)
qed

text \<open>
  A player whose score has fallen below zero cannot start a match: the score is read as an
  unsigned number, which the accessor \<open>asInt\<close> refuses with an exception nothing catches.
\<close>

theorem negative_score_throws:
  assumes "only_row my (USER_BY_ID (narrow_id uid)) = Some [n, s, t, w]"
    and "stol s = Inr score" "score < 0" "stoi t = Inr games" "stoi w = Inr wins"
    and as_int: "\<And>v. as_int my v = (if uint v < 2 ^ 31 then Inr (uint v) else Inl Exception)"
  shows "matcher_add my uid mm = Inl Exception"
proof -
  have "- (2 ^ 63) \<le> score" using assms(2) by (auto simp: stol_def stoi_width_def Let_def split: if_splits)
  with assms(3) have "uint (word_of_int score :: u64) = score + 2 ^ 64"
    using mod_pos_pos_trivial [of "score + 2 ^ 64" "2 ^ 64"] mod_add_self2 [of score "2 ^ 64"] by (simp add: uint_word_of_int)
  with \<open>- (2 ^ 63) \<le> score\<close> have "\<not> uint (word_of_int score :: u64) < 2 ^ 31" by simp
  with select_by_id_answer [OF assms(1,2,4,5)] as_int show ?thesis by (simp add: matcher_add_def)
qed

theorem negative_score_throws_witness: "matcher_add (demo_backend ''-20'') 7 matcher_new = Inl Exception"
proof (rule negative_score_throws)
  show "only_row (demo_backend ''-20'') (USER_BY_ID (narrow_id 7)) = Some [''ann'', ''-20'', ''3'', ''1'']"
    by (simp add: only_row_def demo_backend_def mysql_execl_def)
  show "stol ''-20'' = Inr (-20)" "stoi ''3'' = Inr 3" "stoi ''1'' = Inr 1" by code_simp+
qed simp_all

text \<open>
  A new room does not replace an old entry: when a user who still has an entry for an earlier
  room is matched again, the new room is created for them, but their lookups still lead to the
  earlier room.
\<close>

theorem rematch_leads_to_old_room:
  assumes "rm_ok rm" "get_room_by_uid rm uid1 = Some old"
    and "is_in_game_hall og uid1" "is_in_game_hall og uid2"
    and "create_room w0 b0 og uid1 uid2 rm = (rp, rm')"
  shows "\<exists>r. rp = Some r \<and> r_white_id r = uid1 \<and> r_black_id r = uid2
    \<and> rm_rooms rm' (rm_next_rid rm) = Some r \<and> get_room_by_uid rm' uid1 = Some old \<and> old \<noteq> r"
proof -
  note g = get_room_by_uid_ok [OF assms(1,2)]
  have "r_room_id old < rm_next_rid rm" using rm_okD(2) [OF assms(1) g(3)] .
  then have ne: "r_room_id old \<noteq> rm_next_rid rm" by simp
  have "old \<noteq> room_for (rm_next_rid rm) uid1 uid2" using ne by auto
  then show ?thesis
    using assms(5) g(2,3) ne rm_ok_fresh [OF assms(1)]
    unfolding create_room_eq [OF assms(3,4)]
    by (cases "uid2 = uid1") (auto simp: get_room_by_uid_def)
qed

text \<open>Users 7 and 9 were matched and 7 left the room again.\<close>

definition demo_left :: room_manager where
  "demo_left = fst (remove_room_user demo_hall 7 (snd (create_room 0 0 demo_hall 7 9 room_manager_new)))"

lemma demo_left_ok: "rm_ok demo_left"
proof -
  have "rm_next_rid room_manager_new + 1 \<noteq> 0" by (simp add: room_manager_new_def)
  then show ?thesis unfolding demo_left_def by (intro rm_ok_remove_user rm_ok_create rm_ok_new)
qed

theorem rematch_leads_to_old_room_witness:
  "\<exists>old r rm'. create_room 0 0 demo_hall 7 9 demo_left = (Some r, rm') \<and> rm_rooms rm' 2 = Some r
    \<and> get_room_by_uid rm' 7 = Some old \<and> old \<noteq> r"
proof -
  have "get_room_by_uid demo_left 7 \<noteq> None" "rm_next_rid demo_left = 2"
    "is_in_game_hall demo_hall 7" "is_in_game_hall demo_hall 9" by code_simp+
  then obtain old where "get_room_by_uid demo_left 7 = Some old" "rm_next_rid demo_left = 2"
    "is_in_game_hall demo_hall 7" "is_in_game_hall demo_hall 9" by blast
  with rematch_leads_to_old_room [OF demo_left_ok this(1,3,4), of 0 0] show ?thesis
    by (cases "create_room 0 0 demo_hall 7 9 demo_left") auto
qed

end
