(* ===== verification/Gobang_Session.thy ===== *)
theory Gobang_Session
  imports Gobang_Room
begin

text \<open>
  Sessions of the gobang server (\<open>game/source/session.hpp\<close>). A \<open>session_ptr\<close> is the index of the
  session in the list of all sessions ever made, so that the pointers in the map, in a timer task
  and in a handler lead to one object. Timers belong to the websocket library: the model records
  the calls of \<open>set_timer\<close> and \<open>cancel\<close>, a timer is the number of its \<open>set_timer\<close> call, and the tasks
  are operations that the library runs later.
\<close>

section \<open>The model\<close>

datatype ss_statu = UNLOGIN | LOGIN

record session =
  ss_ssid :: u64
  ss_uid :: u64
  ss_state :: ss_statu
  ss_tp :: "nat option"

abbreviation SESSION_TIMEOUT :: int where "SESSION_TIMEOUT \<equiv> 30000"
abbreviation SESSION_FOREVER :: int where "SESSION_FOREVER \<equiv> -1"

datatype timer_task = Remove_Session u64 | Append_Session nat

datatype timer_call = Set_Timer nat int timer_task | Cancel nat

record session_manager =
  sm_next_ssid :: u64
  sm_session :: "u64 \<Rightarrow> nat option"
  sm_objects :: "session list"
  sm_timers :: nat
  sm_calls :: "timer_call list"

definition session_manager_new :: session_manager where
  "session_manager_new = \<lparr>sm_next_ssid = 1, sm_session = Map.empty, sm_objects = [], sm_timers = 0, sm_calls = []\<rparr>"

definition session_new :: "u64 \<Rightarrow> u64 \<Rightarrow> ss_statu \<Rightarrow> session" where
  "session_new ssid uid statu = \<lparr>ss_ssid = ssid, ss_uid = uid, ss_state = statu, ss_tp = None\<rparr>"

definition create_session :: "u64 \<Rightarrow> ss_statu \<Rightarrow> session_manager \<Rightarrow> nat \<times> session_manager" where
  "create_session uid statu sm =
     (let ssp = length (sm_objects sm)
      in (ssp, sm\<lparr>sm_objects := sm_objects sm @ [session_new (sm_next_ssid sm) uid statu],
            sm_session := insert_new (sm_session sm) (sm_next_ssid sm) ssp,
            sm_next_ssid := sm_next_ssid sm + 1\<rparr>))"

definition get_session_by_ssid :: "session_manager \<Rightarrow> u64 \<Rightarrow> nat option" where
  "get_session_by_ssid sm ssid = (case sm_session sm ssid of None \<Rightarrow> None | Some p \<Rightarrow> Some p)"

definition ws_set_timer :: "int \<Rightarrow> timer_task \<Rightarrow> session_manager \<Rightarrow> nat \<times> session_manager" where
  "ws_set_timer ms task sm =
     (sm_timers sm, sm\<lparr>sm_timers := sm_timers sm + 1, sm_calls := sm_calls sm @ [Set_Timer (sm_timers sm) ms task]\<rparr>)"

definition ws_cancel :: "nat \<Rightarrow> session_manager \<Rightarrow> session_manager" where
  "ws_cancel tp sm = sm\<lparr>sm_calls := sm_calls sm @ [Cancel tp]\<rparr>"

definition set_session_timer :: "nat \<Rightarrow> nat option \<Rightarrow> session_manager \<Rightarrow> session_manager" where
  "set_session_timer ssp tp sm = sm\<lparr>sm_objects := (sm_objects sm)[ssp := (sm_objects sm ! ssp)\<lparr>ss_tp := tp\<rparr>]\<rparr>"

definition set_session_expire_time :: "u64 \<Rightarrow> int \<Rightarrow> session_manager \<Rightarrow> session_manager" where
  "set_session_expire_time ssid ms sm =
     (case get_session_by_ssid sm ssid of
        None \<Rightarrow> sm
      | Some ssp \<Rightarrow>
          (case ss_tp (sm_objects sm ! ssp) of
             None \<Rightarrow>
               if ms = SESSION_FOREVER then sm
               else let (time_tp, sm) = ws_set_timer ms (Remove_Session ssid) sm
                    in set_session_timer ssp (Some time_tp) sm
           | Some tp \<Rightarrow>
               if ms = SESSION_FOREVER then
                 let sm = ws_cancel tp sm; sm = set_session_timer ssp None sm;
                     (_, sm) = ws_set_timer 0 (Append_Session ssp) sm
                 in sm
               else
                 let sm = ws_cancel tp sm; sm = set_session_timer ssp None sm;
                     (_, sm) = ws_set_timer 0 (Append_Session ssp) sm;
                     (timer_tp, sm) = ws_set_timer ms (Remove_Session (ss_ssid (sm_objects sm ! ssp))) sm
                 in set_session_timer ssp (Some timer_tp) sm))"

definition append_session :: "nat \<Rightarrow> session_manager \<Rightarrow> session_manager" where
  "append_session sp sm = sm\<lparr>sm_session := insert_new (sm_session sm) (ss_ssid (sm_objects sm ! sp)) sp\<rparr>"

definition remove_session :: "u64 \<Rightarrow> session_manager \<Rightarrow> session_manager" where
  "remove_session ssid sm = sm\<lparr>sm_session := map_erase (sm_session sm) ssid\<rparr>"

fun run_task :: "timer_task \<Rightarrow> session_manager \<Rightarrow> session_manager" where
  "run_task (Remove_Session ssid) sm = remove_session ssid sm"
| "run_task (Append_Session sp) sm = append_session sp sm"

section \<open>The invariant\<close>

text \<open>
  The map leads every session number to the session with that number, numbers are below the next
  one, and no number was given twice; timers that sessions hold were really set.
\<close>

definition sm_ok :: "session_manager \<Rightarrow> bool" where
  "sm_ok sm \<longleftrightarrow>
     (\<forall>ssid p. sm_session sm ssid = Some p \<longrightarrow> p < length (sm_objects sm) \<and> ss_ssid (sm_objects sm ! p) = ssid)
     \<and> (\<forall>s \<in> set (sm_objects sm). ss_ssid s < sm_next_ssid sm \<and> (\<forall>tp. ss_tp s = Some tp \<longrightarrow> tp < sm_timers sm))
     \<and> distinct (map ss_ssid (sm_objects sm))"

lemma sm_okD:
  assumes "sm_ok sm" "sm_session sm ssid = Some p"
  shows "p < length (sm_objects sm)" "ss_ssid (sm_objects sm ! p) = ssid"
  using assms by (simp_all add: sm_ok_def)

lemma sm_ok_new: "sm_ok session_manager_new"
  by (simp add: sm_ok_def session_manager_new_def)

lemma sm_ok_fresh:
  assumes "sm_ok sm"
  shows "sm_session sm (sm_next_ssid sm) = None"
proof (rule ccontr)
  assume "sm_session sm (sm_next_ssid sm) \<noteq> None"
  then obtain p where p: "sm_session sm (sm_next_ssid sm) = Some p" by blast
  then have "sm_objects sm ! p \<in> set (sm_objects sm)" "ss_ssid (sm_objects sm ! p) = sm_next_ssid sm"
    using sm_okD [OF assms p] by simp_all
  then have "ss_ssid (sm_objects sm ! p) < sm_next_ssid sm" using assms unfolding sm_ok_def by blast
  with \<open>ss_ssid (sm_objects sm ! p) = sm_next_ssid sm\<close> show False by simp
qed

lemma sm_ok_create:
  assumes "sm_ok sm" "sm_next_ssid sm + 1 \<noteq> 0"
  shows "sm_ok (snd (create_session uid statu sm))"
proof -
  note less = word_less_succ [OF assms(2)]
  have "ss_ssid s < sm_next_ssid sm + 1" if "s \<in> set (sm_objects sm)" for s
    using that assms(1) less unfolding sm_ok_def by force
  moreover have "sm_next_ssid sm \<notin> ss_ssid ` set (sm_objects sm)"
    using assms(1) unfolding sm_ok_def by force
  ultimately show ?thesis
    using assms(1) less sm_ok_fresh [OF assms(1)]
    by (auto simp: sm_ok_def create_session_def session_new_def nth_append Let_def less_Suc_eq split: if_splits)
qed

lemma sm_ok_remove: "sm_ok sm \<Longrightarrow> sm_ok (remove_session ssid sm)"
  by (simp add: sm_ok_def remove_session_def)

lemma sm_ok_append: "sm_ok sm \<Longrightarrow> sp < length (sm_objects sm) \<Longrightarrow> sm_ok (append_session sp sm)"
  by (auto simp: sm_ok_def append_session_def insert_new_def split: if_splits)

lemma sm_ok_cancel: "sm_ok sm \<Longrightarrow> sm_ok (ws_cancel tp sm)"
  by (simp add: sm_ok_def ws_cancel_def)

lemma sm_ok_set_timer: "sm_ok sm \<Longrightarrow> sm_timers sm \<le> n \<Longrightarrow> sm_ok (sm\<lparr>sm_timers := n, sm_calls := cs\<rparr>)"
  by (auto simp: sm_ok_def intro: less_le_trans)

lemma map_ssid_update [simp]: "map ss_ssid (xs[i := (xs ! i)\<lparr>ss_tp := tp\<rparr>]) = map ss_ssid xs"
  by (rule nth_equalityI) (simp_all add: nth_update_at)

lemma sm_ok_session_timer:
  assumes "sm_ok sm" "\<And>t. tp = Some t \<Longrightarrow> t < sm_timers sm"
  shows "sm_ok (set_session_timer p tp sm)"
proof -
  let ?xs = "sm_objects sm"
  have "ss_ssid s < sm_next_ssid sm \<and> (\<forall>t. ss_tp s = Some t \<longrightarrow> t < sm_timers sm)"
    if s: "s \<in> set (?xs[p := (?xs ! p)\<lparr>ss_tp := tp\<rparr>])" for s
  proof -
    obtain i where i: "i < length ?xs" "s = ?xs[p := (?xs ! p)\<lparr>ss_tp := tp\<rparr>] ! i"
      using s by (auto simp: in_set_conv_nth)
    then have "?xs ! i \<in> set ?xs" by simp
    then have "ss_ssid (?xs ! i) < sm_next_ssid sm" "\<forall>t. ss_tp (?xs ! i) = Some t \<longrightarrow> t < sm_timers sm"
      using assms(1) unfolding sm_ok_def by blast+
    with i assms(2) show ?thesis by (auto simp: nth_update_at [where f = "\<lambda>s. s\<lparr>ss_tp := tp\<rparr>"])
  qed
  moreover have "ss_ssid (?xs[p := (?xs ! p)\<lparr>ss_tp := tp\<rparr>] ! i) = ss_ssid (?xs ! i)" if "i < length ?xs" for i
    using that by (simp add: nth_update_at [where f = "\<lambda>s. s\<lparr>ss_tp := tp\<rparr>"])
  ultimately show ?thesis using assms(1) by (simp add: sm_ok_def set_session_timer_def)
qed

lemma sm_ok_expire:
  assumes "sm_ok sm"
  shows "sm_ok (set_session_expire_time ssid ms sm)"
  using assms
  by (auto simp: set_session_expire_time_def ws_set_timer_def Let_def split: option.split
      intro!: sm_ok_session_timer sm_ok_set_timer sm_ok_cancel)

lemma expire_session [simp]: "sm_session (set_session_expire_time ssid ms sm) = sm_session sm"
  by (simp add: set_session_expire_time_def ws_set_timer_def ws_cancel_def set_session_timer_def Let_def split: option.split)

lemma expire_next [simp]: "sm_next_ssid (set_session_expire_time ssid ms sm) = sm_next_ssid sm"
  by (simp add: set_session_expire_time_def ws_set_timer_def ws_cancel_def set_session_timer_def Let_def split: option.split)

lemma expire_length [simp]: "length (sm_objects (set_session_expire_time ssid ms sm)) = length (sm_objects sm)"
  by (simp add: set_session_expire_time_def ws_set_timer_def ws_cancel_def set_session_timer_def Let_def split: option.split)

lemma set_session_timer_ssid [simp]: "map ss_ssid (sm_objects (set_session_timer p tp sm)) = map ss_ssid (sm_objects sm)"
  by (simp add: set_session_timer_def)

lemma expire_ssid [simp]: "map ss_ssid (sm_objects (set_session_expire_time ssid ms sm)) = map ss_ssid (sm_objects sm)"
  by (simp add: set_session_expire_time_def ws_set_timer_def ws_cancel_def Let_def split: option.split)

section \<open>Properties\<close>

text \<open>
  Making a session permanent cancels its removal and asks for its re-insertion. Cancelling a
  timer makes the library run its task, so the session survives exactly when the cancelled removal
  runs before the re-insertion: in that order the same session is found again and has no timer, in
  the other order it is lost.
\<close>

theorem permanent_session_needs_order:
  assumes "sm_ok sm" "get_session_by_ssid sm ssid = Some p" "ss_tp (sm_objects sm ! p) = Some tp"
    and "sm1 = set_session_expire_time ssid SESSION_FOREVER sm"
  shows "sm_calls sm1 = sm_calls sm @ [Cancel tp, Set_Timer (sm_timers sm) 0 (Append_Session p)]
    \<and> ss_tp (sm_objects sm1 ! p) = None
    \<and> get_session_by_ssid (run_task (Append_Session p) (run_task (Remove_Session ssid) sm1)) ssid = Some p
    \<and> get_session_by_ssid (run_task (Remove_Session ssid) (run_task (Append_Session p) sm1)) ssid = None"
proof -
  have "sm_session sm ssid = Some p" using assms(2) by (simp add: get_session_by_ssid_def split: option.splits)
  with sm_okD [OF assms(1) this] assms(2-4) show ?thesis
    by (simp add: set_session_expire_time_def ws_set_timer_def ws_cancel_def set_session_timer_def
        remove_session_def append_session_def get_session_by_ssid_def)
qed

definition demo_sessions :: session_manager where
  "demo_sessions = set_session_expire_time 1 SESSION_TIMEOUT (snd (create_session 7 LOGIN session_manager_new))"

theorem permanent_session_needs_order_witness:
  "get_session_by_ssid (run_task (Append_Session 0) (run_task (Remove_Session 1)
     (set_session_expire_time 1 SESSION_FOREVER demo_sessions))) 1 = Some 0
   \<and> get_session_by_ssid (run_task (Remove_Session 1) (run_task (Append_Session 0)
     (set_session_expire_time 1 SESSION_FOREVER demo_sessions))) 1 = None"
proof -
  have "sm_next_ssid session_manager_new + 1 \<noteq> 0" by (simp add: session_manager_new_def)
  then have "sm_ok demo_sessions" unfolding demo_sessions_def by (intro sm_ok_expire sm_ok_create sm_ok_new)
  moreover have "get_session_by_ssid demo_sessions 1 = Some 0" "ss_tp (sm_objects demo_sessions ! 0) = Some 0" by code_simp+
  ultimately show ?thesis using permanent_session_needs_order [of demo_sessions 1 0 0, OF _ _ _ refl] by blast
qed

end
