(* ===== verification/Gobang_Server.thy ===== *)
theory Gobang_Server
  imports Gobang_Match Gobang_Session
begin

text \<open>
  The request handlers of the gobang server (\<open>game/source/server.hpp\<close>). A request carries the
  connection, the method, the path and the cookie header that the websocket library reports; the
  body or message comes decoded, or as \<open>None\<close> when \<open>json_util::unserialize\<close> fails. Every handler
  returns the new state of the server and what it does to its connections, in order.
\<close>

section \<open>State and requests\<close>

record gobang_server =
  g_og :: online_game
  g_rm :: room_manager
  g_sm :: session_manager
  g_mm :: matcher

definition gobang_server_new :: gobang_server where
  "gobang_server_new = \<lparr>g_og = \<lparr>hall_user = Map.empty, room_user = Map.empty\<rparr>, g_rm = room_manager_new,
     g_sm = session_manager_new, g_mm = matcher_new\<rparr>"

record request =
  q_conn :: conn
  q_method :: string
  q_uri :: string
  q_cookie :: string

text \<open>What lies outside: MySQL and the JSON library, the files below the root, the ids of a fresh room.\<close>

record env =
  e_backend :: backend
  e_file :: "string \<Rightarrow> string option"
  e_www_root :: string
  e_white :: u64
  e_black :: u64

datatype srv_effect =
    Room_Effect effect
  | Sql string
  | Http_Status conn nat
  | Http_Header conn string string
  | Http_Resp conn bool reason
  | Http_User conn user_by_id
  | Http_Body conn string

section \<open>HTTP requests\<close>

definition not_found_body :: string where
  "not_found_body = ''<html>'' @ ''<head>'' @ ''<meta charset='' @ [CHR 0x27] @ ''utf-8'' @ [CHR 0x27] @ ''/>'' @ ''</head>''
     @ ''<body>'' @ ''<h1> Not Found </h1>'' @ ''</body>''"

text \<open>\<open>realpath.back()\<close> of an empty path is undefined; the root of the server is never empty.\<close>

definition file_handler :: "env \<Rightarrow> request \<Rightarrow> srv_effect list res" where
  "file_handler e req =
     (let realpath = e_www_root e @ q_uri req
      in if realpath = [] then Inl Out_Of_Bounds
         else let realpath = (if last realpath = CHR ''/'' then realpath @ ''login.html'' else realpath)
              in case e_file e realpath of
                   None \<Rightarrow> Inr [Http_Status (q_conn req) 404, Http_Body (q_conn req) not_found_body]
                 | Some body \<Rightarrow> Inr [Http_Status (q_conn req) 200, Http_Body (q_conn req) body])"

definition http_resp :: "conn \<Rightarrow> bool \<Rightarrow> nat \<Rightarrow> reason \<Rightarrow> srv_effect list" where
  "http_resp c result code reason =
     [Http_Status c code, Http_Header c ''Content-Type'' ''application/json'', Http_Resp c result reason]"

definition reg :: "env \<Rightarrow> request \<Rightarrow> credentials option \<Rightarrow> srv_effect list res" where
  "reg e req body =
     (case body of
        None \<Rightarrow> Inr (http_resp (q_conn req) False 400 Bad_Body)
      | Some info \<Rightarrow>
          if c_username info = Null \<or> c_password info = Null
          then Inr (http_resp (q_conn req) False 400 Name_Or_Password)
          else bind_res (user_insert (e_backend e) info) (\<lambda>(flag, sqls).
            Inr (map Sql sqls @
              (if \<not> flag then http_resp (q_conn req) False 400 Name_Taken
               else http_resp (q_conn req) True 200 Registered))))"

text \<open>\<open>create_session\<close> always makes a session, so the branch for a null pointer is not there.\<close>

definition login :: "env \<Rightarrow> request \<Rightarrow> credentials option \<Rightarrow> gobang_server \<Rightarrow> (gobang_server \<times> srv_effect list) res" where
  "login e req body g =
     (case body of
        None \<Rightarrow> Inr (g, http_resp (q_conn req) False 400 Bad_Body)
      | Some info \<Rightarrow>
          if c_username info = Null \<or> c_password info = Null
          then Inr (g, http_resp (q_conn req) False 400 Name_Or_Password)
          else bind_res (user_login (e_backend e) info) (\<lambda>flag.
            case flag of
              None \<Rightarrow> Inr (g, http_resp (q_conn req) False 400 Name_Or_Password)
            | Some u \<Rightarrow>
                bind_res (as_uint64 (e_backend e) (u_id u)) (\<lambda>uid.
                  let (ssp, sm) = create_session uid LOGIN (g_sm g);
                      ssid = ss_ssid (sm_objects sm ! ssp);
                      sm = set_session_expire_time ssid SESSION_TIMEOUT sm
                  in Inr (g\<lparr>g_sm := sm\<rparr>,
                          Http_Header (q_conn req) ''Set-Cookie'' (''SSID='' @ decimal (unat ssid))
                          # http_resp (q_conn req) True 200 Logged_In))))"

text \<open>The session number in a cookie line: \<open>None\<close> when there is no such cookie.\<close>

definition cookie_ssid :: "string \<Rightarrow> u64 option res" where
  "cookie_ssid cookie =
     (case get_cookie_val cookie ''SSID'' of
        None \<Rightarrow> Inl Stack_Exhausted
      | Some None \<Rightarrow> Inr None
      | Some (Some ssid_str) \<Rightarrow> bind_res (stol ssid_str) (\<lambda>i. Inr (Some (word_of_int i))))"

definition info :: "env \<Rightarrow> request \<Rightarrow> gobang_server \<Rightarrow> (gobang_server \<times> srv_effect list) res" where
  "info e req g =
     (if q_cookie req = [] then Inr (g, http_resp (q_conn req) True 400 No_Cookie)
      else bind_res (cookie_ssid (q_cookie req)) (\<lambda>ssid.
        case ssid of
          None \<Rightarrow> Inr (g, http_resp (q_conn req) True 400 No_Ssid)
        | Some ssid \<Rightarrow>
            (case get_session_by_ssid (g_sm g) ssid of
               None \<Rightarrow> Inr (g, http_resp (q_conn req) True 400 No_Session)
             | Some ssp \<Rightarrow>
                 bind_res (select_by_id (e_backend e) (ss_uid (sm_objects (g_sm g) ! ssp))) (\<lambda>flag.
                   case flag of
                     None \<Rightarrow> Inr (g, http_resp (q_conn req) True 400 No_User)
                   | Some user_info \<Rightarrow>
                       Inr (g\<lparr>g_sm := set_session_expire_time (ss_ssid (sm_objects (g_sm g) ! ssp)) SESSION_TIMEOUT (g_sm g)\<rparr>,
                            [Http_User (q_conn req) user_info,
                             Http_Header (q_conn req) ''Content-Type'' ''application/json'',
                             Http_Status (q_conn req) 200])))))"

definition http_callback :: "env \<Rightarrow> request \<Rightarrow> credentials option \<Rightarrow> gobang_server \<Rightarrow> (gobang_server \<times> srv_effect list) res" where
  "http_callback e req body g =
     (if q_method req = ''POST'' \<and> q_uri req = ''/reg'' then bind_res (reg e req body) (\<lambda>es. Inr (g, es))
      else if q_method req = ''POST'' \<and> q_uri req = ''/login'' then login e req body g
      else if q_method req = ''GET'' \<and> q_uri req = ''/info'' then info e req g
      else bind_res (file_handler e req) (\<lambda>es. Inr (g, es)))"

section \<open>Websocket connections\<close>

definition ws_resp :: "conn \<Rightarrow> json_msg \<Rightarrow> srv_effect list" where
  "ws_resp c m = [Room_Effect (Send c m)]"

definition err_resp :: "string \<Rightarrow> reason \<Rightarrow> json_msg" where
  "err_resp optype reason = json_null\<lparr>j_optype := Has optype, j_reason := Has reason, j_result := Has False\<rparr>"

text \<open>After the message about a missing cookie the function goes on.\<close>

definition get_session_by_cookie :: "request \<Rightarrow> gobang_server \<Rightarrow> (nat option \<times> srv_effect list) res" where
  "get_session_by_cookie req g =
     (let es = (if q_cookie req = [] then ws_resp (q_conn req) (err_resp ''hall_ready'' No_Cookie) else [])
      in bind_res (cookie_ssid (q_cookie req)) (\<lambda>ssid.
           case ssid of
             None \<Rightarrow> Inr (None, es @ ws_resp (q_conn req) (err_resp ''hall_ready'' No_Ssid))
           | Some ssid \<Rightarrow>
               (case get_session_by_ssid (g_sm g) ssid of
                  None \<Rightarrow> Inr (None, es @ ws_resp (q_conn req) (err_resp ''hall_ready'' No_Session))
                | Some ssp \<Rightarrow> Inr (Some ssp, es))))"

abbreviation session_of :: "gobang_server \<Rightarrow> nat \<Rightarrow> session" where
  "session_of g ssp \<equiv> sm_objects (g_sm g) ! ssp"

text \<open>The start of every websocket handler: without a session it only reports the error.\<close>

definition with_session :: "request \<Rightarrow> gobang_server \<Rightarrow> (nat \<Rightarrow> (gobang_server \<times> srv_effect list) res)
    \<Rightarrow> (gobang_server \<times> srv_effect list) res" where
  "with_session req g body =
     bind_res (get_session_by_cookie req g) (\<lambda>(ssp, es).
       case ssp of
         None \<Rightarrow> Inr (g, es)
       | Some ssp \<Rightarrow> bind_res (body ssp) (\<lambda>(g', es'). Inr (g', es @ es')))"

definition wsopen_game_hall :: "request \<Rightarrow> gobang_server \<Rightarrow> (gobang_server \<times> srv_effect list) res" where
  "wsopen_game_hall req g = with_session req g (\<lambda>ssp.
     let uid = ss_uid (session_of g ssp)
     in if is_in_game_hall (g_og g) uid \<or> is_in_game_room (g_og g) uid
        then Inr (g, ws_resp (q_conn req) (err_resp ''hall_ready'' Duplicate_Login))
        else Inr (g\<lparr>g_og := join_game_hall uid (q_conn req) (g_og g),
                    g_sm := set_session_expire_time (ss_ssid (session_of g ssp)) SESSION_FOREVER (g_sm g)\<rparr>,
                  ws_resp (q_conn req) (json_null\<lparr>j_optype := Has ''hall_ready'', j_result := Has True\<rparr>)))"

definition wsopen_game_room :: "request \<Rightarrow> gobang_server \<Rightarrow> (gobang_server \<times> srv_effect list) res" where
  "wsopen_game_room req g = with_session req g (\<lambda>ssp.
     let uid = ss_uid (session_of g ssp)
     in if is_in_game_hall (g_og g) uid \<or> is_in_game_room (g_og g) uid
        then Inr (g, ws_resp (q_conn req) (err_resp ''room_ready'' Duplicate_Login))
        else case get_room_by_uid (g_rm g) uid of
               None \<Rightarrow> Inr (g, ws_resp (q_conn req) (err_resp ''room_ready'' No_Room))
             | Some rp \<Rightarrow>
                 Inr (g\<lparr>g_og := join_game_room uid (q_conn req) (g_og g),
                        g_sm := set_session_expire_time (ss_ssid (session_of g ssp)) SESSION_FOREVER (g_sm g)\<rparr>,
                      ws_resp (q_conn req) (json_null\<lparr>j_optype := Has ''room_ready'', j_result := Has True,
                        j_room_id := Has (r_room_id rp), j_uid := Has uid, j_white_id := Has (r_white_id rp),
                        j_black_id := Has (r_black_id rp)\<rparr>)))"

definition wsopen_callback :: "request \<Rightarrow> gobang_server \<Rightarrow> (gobang_server \<times> srv_effect list) res" where
  "wsopen_callback req g =
     (if q_uri req = ''/hall'' then wsopen_game_hall req g
      else if q_uri req = ''/room'' then wsopen_game_room req g
      else Inr (g, []))"

definition wsclose_game_hall :: "request \<Rightarrow> gobang_server \<Rightarrow> (gobang_server \<times> srv_effect list) res" where
  "wsclose_game_hall req g = with_session req g (\<lambda>ssp.
     Inr (g\<lparr>g_og := exit_game_hall (ss_uid (session_of g ssp)) (g_og g),
            g_sm := set_session_expire_time (ss_ssid (session_of g ssp)) SESSION_TIMEOUT (g_sm g)\<rparr>, []))"

definition wsclose_game_room :: "request \<Rightarrow> gobang_server \<Rightarrow> (gobang_server \<times> srv_effect list) res" where
  "wsclose_game_room req g = with_session req g (\<lambda>ssp.
     let uid = ss_uid (session_of g ssp);
         og = exit_game_room uid (g_og g);
         sm = set_session_expire_time (ss_ssid (session_of g ssp)) SESSION_TIMEOUT (g_sm g);
         (rm, es) = remove_room_user og uid (g_rm g)
     in Inr (g\<lparr>g_og := og, g_sm := sm, g_rm := rm\<rparr>, map Room_Effect es))"

definition wsclose_callback :: "request \<Rightarrow> gobang_server \<Rightarrow> (gobang_server \<times> srv_effect list) res" where
  "wsclose_callback req g =
     (if q_uri req = ''/hall'' then wsclose_game_hall req g
      else if q_uri req = ''/room'' then wsclose_game_room req g
      else Inr (g, []))"

definition wsmsg_game_hall :: "env \<Rightarrow> request \<Rightarrow> json_msg option \<Rightarrow> gobang_server \<Rightarrow> (gobang_server \<times> srv_effect list) res" where
  "wsmsg_game_hall e req msg g = with_session req g (\<lambda>ssp.
     let uid = ss_uid (session_of g ssp)
     in case msg of
          None \<Rightarrow> Inr (g, ws_resp (q_conn req) (json_null\<lparr>j_result := Has False, j_reason := Has Bad_Body\<rparr>))
        | Some req_json \<Rightarrow>
            bind_res (as_member [] (j_optype req_json)) (\<lambda>optype.
              if j_optype req_json \<noteq> Null \<and> optype = ''match_start'' then
                bind_res (matcher_add (e_backend e) uid (g_mm g)) (\<lambda>(_, mm).
                  Inr (g\<lparr>g_mm := mm\<rparr>,
                       ws_resp (q_conn req) (json_null\<lparr>j_result := Has True, j_optype := Has ''match_start''\<rparr>)))
              else if j_optype req_json \<noteq> Null \<and> optype = ''match_stop'' then
                bind_res (matcher_del (e_backend e) uid (g_mm g)) (\<lambda>(_, mm).
                  Inr (g\<lparr>g_mm := mm\<rparr>,
                       ws_resp (q_conn req) (json_null\<lparr>j_result := Has True, j_optype := Has ''match_stop''\<rparr>)))
              else Inr (g, ws_resp (q_conn req) (err_resp ''unknow'' Unknown_Request))))"

definition wsmsg_game_room :: "request \<Rightarrow> json_msg option \<Rightarrow> gobang_server \<Rightarrow> (gobang_server \<times> srv_effect list) res" where
  "wsmsg_game_room req msg g = with_session req g (\<lambda>ssp.
     let uid = ss_uid (session_of g ssp)
     in case get_room_by_uid (g_rm g) uid of
          None \<Rightarrow> Inr (g, ws_resp (q_conn req) (err_resp ''unknow'' No_Room))
        | Some rp \<Rightarrow>
            (case msg of
               None \<Rightarrow> Inr (g, ws_resp (q_conn req) (err_resp ''unknow'' Bad_Body))
             | Some req_json \<Rightarrow>
                 bind_res (handle_request (g_og g) rp req_json) (\<lambda>(rp', es).
                   Inr (g\<lparr>g_rm := put_room_of uid rp' (g_rm g)\<rparr>, map Room_Effect es))))"

definition wsmsg_callback :: "env \<Rightarrow> request \<Rightarrow> json_msg option \<Rightarrow> gobang_server \<Rightarrow> (gobang_server \<times> srv_effect list) res" where
  "wsmsg_callback e req msg g =
     (if q_uri req = ''/hall'' then wsmsg_game_hall e req msg g
      else if q_uri req = ''/room'' then wsmsg_game_room req msg g
      else Inr (g, []))"

section \<open>The server as a whole\<close>

text \<open>The callbacks the constructor registers, the passes of the matching threads, and timer tasks.\<close>

datatype event =
    Http request "credentials option"
  | Open request
  | Close request
  | Message request "json_msg option"
  | Match tier
  | Task timer_task

fun server_step :: "env \<Rightarrow> event \<Rightarrow> gobang_server \<Rightarrow> (gobang_server \<times> srv_effect list) res" where
  "server_step e (Http req body) g = http_callback e req body g"
| "server_step e (Open req) g = wsopen_callback req g"
| "server_step e (Close req) g = wsclose_callback req g"
| "server_step e (Message req msg) g = wsmsg_callback e req msg g"
| "server_step e (Match t) g =
     bind_res (handle_match (e_backend e) (e_white e) (e_black e) (g_og g) t (g_mm g) (g_rm g)) (\<lambda>(mm, rm, es).
       Inr (g\<lparr>g_mm := mm, g_rm := rm\<rparr>, map Room_Effect es))"
| "server_step e (Task t) g = Inr (g\<lparr>g_sm := run_task t (g_sm g)\<rparr>, [])"

text \<open>Only a task that was handed to the websocket library can run.\<close>

fun task_set :: "event \<Rightarrow> gobang_server \<Rightarrow> bool" where
  "task_set (Task t) g \<longleftrightarrow> (\<exists>n ms. Set_Timer n ms t \<in> set (sm_calls (g_sm g)))"
| "task_set _ g \<longleftrightarrow> True"

text \<open>The counters of rooms and sessions are below the largest 64-bit number.\<close>

definition no_wrap :: "gobang_server \<Rightarrow> bool" where
  "no_wrap g \<longleftrightarrow> rm_next_rid (g_rm g) + 1 \<noteq> 0 \<and> sm_next_ssid (g_sm g) + 1 \<noteq> 0"

inductive served :: "gobang_server \<Rightarrow> bool" where
  start: "served gobang_server_new"
| step: "served g \<Longrightarrow> task_set ev g \<Longrightarrow> no_wrap g \<Longrightarrow> server_step e ev g = Inr (g', es) \<Longrightarrow> served g'"

section \<open>The invariant of the server\<close>

definition calls_ok :: "session_manager \<Rightarrow> bool" where
  "calls_ok sm \<longleftrightarrow> (\<forall>n ms p. Set_Timer n ms (Append_Session p) \<in> set (sm_calls sm) \<longrightarrow> p < length (sm_objects sm))"

definition apart :: "online_game \<Rightarrow> bool" where
  "apart og \<longleftrightarrow> (\<forall>uid. \<not> (is_in_game_hall og uid \<and> is_in_game_room og uid))"

definition server_inv :: "gobang_server \<Rightarrow> bool" where
  "server_inv g \<longleftrightarrow> apart (g_og g) \<and> rm_ok (g_rm g) \<and> sm_ok (g_sm g) \<and> calls_ok (g_sm g)"

lemma calls_ok_expire:
  assumes "sm_ok sm" "calls_ok sm"
  shows "calls_ok (set_session_expire_time ssid ms sm)"
proof (cases "get_session_by_ssid sm ssid")
  case (Some p)
  then have "p < length (sm_objects sm)"
    using sm_okD(1) [OF assms(1)] by (simp add: get_session_by_ssid_def split: option.splits)
  with Some assms(2) show ?thesis
    by (auto simp: calls_ok_def set_session_expire_time_def ws_set_timer_def ws_cancel_def set_session_timer_def
        Let_def split: option.splits)
qed (use assms(2) in \<open>simp add: set_session_expire_time_def\<close>)

lemma server_inv_expire:
  "server_inv g \<Longrightarrow> apart og \<Longrightarrow> server_inv (g\<lparr>g_og := og, g_sm := set_session_expire_time ssid ms (g_sm g)\<rparr>)"
  by (simp add: server_inv_def sm_ok_expire calls_ok_expire)

lemma calls_ok_create: "calls_ok sm \<Longrightarrow> calls_ok (snd (create_session uid statu sm))"
  by (auto simp: calls_ok_def create_session_def Let_def less_SucI)

lemma calls_ok_run: "calls_ok sm \<Longrightarrow> calls_ok (run_task t sm)"
  by (cases t) (simp_all add: calls_ok_def remove_session_def append_session_def)

lemma apart_iff: "apart og \<longleftrightarrow> (\<forall>uid. hall_user og uid = None \<or> room_user og uid = None)"
  by (auto simp: apart_def online_defs split: option.splits)

lemma apart_join:
  assumes "apart og" "\<not> (is_in_game_hall og uid \<or> is_in_game_room og uid)"
  shows "apart (join_game_hall uid c og)" "apart (join_game_room uid c og)"
proof -
  have "insert_new m uid v u = (if u = uid then Some v else m u)" if "m uid = None" for m :: "u64 \<Rightarrow> conn option" and v u
    using that by simp
  with assms show "apart (join_game_hall uid c og)" "apart (join_game_room uid c og)"
    by (auto simp: apart_iff online_defs split: option.splits)
qed

lemma apart_exit:
  assumes "apart og"
  shows "apart (exit_game_hall uid og)" "apart (exit_game_room uid og)"
  using assms by (auto simp: apart_iff online_defs)

lemma with_session_inv:
  assumes "with_session req g body = Inr (g', es)" "server_inv g"
    and "\<And>ssp g' es. body ssp = Inr (g', es) \<Longrightarrow> server_inv g'"
  shows "server_inv g'"
  using assms by (fastforce simp: with_session_def res_simps split: option.splits)

lemma open_inv:
  assumes "wsopen_callback req g = Inr (g', es)" "server_inv g"
  shows "server_inv g'"
proof -
  have "apart (g_og g)" using assms(2) by (simp add: server_inv_def)
  note join = apart_join [OF this]
  have "server_inv g'" if "wsopen_game_hall req g = Inr (g', es)"
    using that assms(2) unfolding wsopen_game_hall_def
    by (rule with_session_inv) (auto simp: Let_def assms(2) split: if_splits intro!: server_inv_expire join)
  moreover have "server_inv g'" if "wsopen_game_room req g = Inr (g', es)"
    using that assms(2) unfolding wsopen_game_room_def
    by (rule with_session_inv) (auto simp: Let_def assms(2) split: if_splits option.splits intro!: server_inv_expire join)
  ultimately show ?thesis using assms by (auto simp: wsopen_callback_def split: if_splits)
qed

lemma close_inv:
  assumes "wsclose_callback req g = Inr (g', es)" "server_inv g"
  shows "server_inv g'"
proof -
  have "apart (g_og g)" and rm: "rm_ok (g_rm g)" using assms(2) by (simp_all add: server_inv_def)
  note exit = apart_exit [OF this(1)]
  have "server_inv g'" if "wsclose_game_hall req g = Inr (g', es)"
    using that assms(2) unfolding wsclose_game_hall_def
    by (rule with_session_inv) (auto simp: assms(2) intro!: server_inv_expire exit)
  moreover have "server_inv g'" if "wsclose_game_room req g = Inr (g', es)"
    using that assms(2) unfolding wsclose_game_room_def
  proof (rule with_session_inv)
    fix ssp g' es
    let ?u = "ss_uid (session_of g ssp)"
    obtain rm es' where r: "remove_room_user (exit_game_room ?u (g_og g)) ?u (g_rm g) = (rm, es')" by fastforce
    then have "rm_ok rm" using rm_ok_remove_user [OF rm, of "exit_game_room ?u (g_og g)" ?u] by simp
    moreover assume "(let uid = ss_uid (session_of g ssp); og = exit_game_room uid (g_og g);
        sm = set_session_expire_time (ss_ssid (session_of g ssp)) SESSION_TIMEOUT (g_sm g);
        (rm, es) = remove_room_user og uid (g_rm g)
      in Inr (g\<lparr>g_og := og, g_sm := sm, g_rm := rm\<rparr>, map Room_Effect es)) = Inr (g', es)"
    ultimately show "server_inv g'"
      using r assms(2) exit by (auto simp: server_inv_def Let_def sm_ok_expire calls_ok_expire)
  qed
  ultimately show ?thesis using assms by (auto simp: wsclose_callback_def split: if_splits)
qed

lemma message_inv:
  assumes "wsmsg_callback e req msg g = Inr (g', es)" "server_inv g"
  shows "server_inv g'"
proof -
  have mm: "server_inv (g\<lparr>g_mm := mm\<rparr>)" for mm using assms(2) by (simp add: server_inv_def)
  have rm: "server_inv (g\<lparr>g_rm := put_room_of uid r' (g_rm g)\<rparr>)"
    if "get_room_by_uid (g_rm g) uid = Some r" "handle_request (g_og g) r q = Inr (r', es')" for uid r r' q es'
    using that assms(2) rm_ok_request by (simp add: server_inv_def)
  have "server_inv g'" if "wsmsg_game_hall e req msg g = Inr (g', es)"
    using that assms(2) unfolding wsmsg_game_hall_def
    by (rule with_session_inv) (auto simp: Let_def assms(2) mm res_simps split: if_splits option.splits)
  moreover have "server_inv g'" if "wsmsg_game_room req msg g = Inr (g', es)"
    using that assms(2) unfolding wsmsg_game_room_def
    by (rule with_session_inv) (auto simp: Let_def assms(2) res_simps split: option.splits intro: rm)
  ultimately show ?thesis using assms by (auto simp: wsmsg_callback_def split: if_splits)
qed

lemma http_inv:
  assumes "http_callback e req body g = Inr (g', es)" "server_inv g" "no_wrap g"
  shows "server_inv g'"
proof -
  have sm: "sm_ok (g_sm g)" "calls_ok (g_sm g)" using assms(2) by (simp_all add: server_inv_def)
  have "sm_ok (snd (create_session uid LOGIN (g_sm g)))" for uid
    using sm_ok_create [OF sm(1)] assms(3) by (simp add: no_wrap_def)
  note create = this calls_ok_create [OF sm(2)]
  have "server_inv g'" if "login e req body g = Inr (g', es)"
    using that assms(2) create
    by (auto simp: login_def Let_def res_simps server_inv_def case_prod_beta split: option.splits if_splits
        intro!: sm_ok_expire calls_ok_expire)
  moreover have "server_inv g'" if "info e req g = Inr (g', es)"
    using that assms(2) server_inv_expire [OF assms(2), of "g_og g"]
    by (auto simp: info_def server_inv_def sm_ok_expire calls_ok_expire elim!: bind_res_InrE split: option.splits if_splits)
  ultimately show ?thesis using assms by (auto simp: http_callback_def res_simps split: if_splits)
qed

lemma match_rooms:
  assumes "handle_match my w0 b0 og t mm rm = Inr (mm', rm', es)"
  shows "rm' = rm \<or> (\<exists>uid1 uid2. rm' = snd (create_room w0 b0 og uid1 uid2 rm))"
proof -
  have s: "rm' = snd (create_room w0 b0 og uid1 uid2 rm)" if "create_room w0 b0 og uid1 uid2 rm = (x, rm')" for uid1 uid2 x
    using that by simp
  show ?thesis
    using assms
    by (auto simp: handle_match_def match_body_def res_simps split: if_splits option.splits prod.splits dest!: s)
qed

lemma server_step_inv:
  assumes "server_step e ev g = Inr (g', es)" "server_inv g" "task_set ev g" "no_wrap g"
  shows "server_inv g'"
proof (cases ev)
  case (Match t)
  then obtain mm rm es' where
    m: "handle_match (e_backend e) (e_white e) (e_black e) (g_og g) t (g_mm g) (g_rm g) = Inr (mm, rm, es')"
    and g': "g' = g\<lparr>g_mm := mm, g_rm := rm\<rparr>" using assms(1) by (auto simp: res_simps)
  have "rm_ok (g_rm g)" using assms(2) by (simp add: server_inv_def)
  then have "rm_ok rm" using match_rooms [OF m] rm_ok_create assms(4) by (auto simp: no_wrap_def)
  with assms(2) g' show ?thesis by (simp add: server_inv_def)
next
  case (Task t)
  with assms have "sm_ok (run_task t (g_sm g))"
    by (cases t) (auto simp: server_inv_def calls_ok_def sm_ok_remove intro!: sm_ok_append)
  with Task assms show ?thesis by (auto simp: server_inv_def calls_ok_run)
qed (use assms open_inv close_inv message_inv http_inv in auto)

lemma served_inv: "served g \<Longrightarrow> server_inv g"
proof (induction rule: served.induct)
  case start
  show ?case
    using rm_ok_new sm_ok_new
    by (simp add: server_inv_def gobang_server_new_def calls_ok_def apart_iff) (simp add: session_manager_new_def)
next
  case (step g ev e g' es)
  then show ?case using server_step_inv by blast
qed

section \<open>Cookies and sessions\<close>

lemma cookie_ssid_decimal:
  assumes "pre = [] \<or> (\<forall>(k, v) \<in> set pre. k \<noteq> [] \<and> v \<noteq> [] \<and> k \<noteq> ''SSID'' \<and> set (k @ v) \<inter> {CHR '';'', CHR ''=''} = {})"
    and "ssid < 2 ^ 63"
  shows "cookie_ssid (join ''; '' (map (\<lambda>(k, v). k @ ''='' @ v) (pre @ [(''SSID'', decimal (unat ssid))]))) = Inr (Some ssid)"
proof -
  have "CHR '';'' \<notin> set (decimal (unat ssid))" "CHR ''='' \<notin> set (decimal (unat ssid))"
    using decimal_digits is_digit_plain by blast+
  then have "get_cookie_val (join ''; '' (map (\<lambda>(k, v). k @ ''='' @ v) (pre @ [(''SSID'', decimal (unat ssid))]))) ''SSID''
      = Some (map_of (pre @ [(''SSID'', decimal (unat ssid))]) ''SSID'')"
    by (intro get_cookie_val_pairs) (use assms(1) decimal_nonempty in auto)
  moreover have "map_of pre ''SSID'' = None" using assms(1) by (auto simp: map_of_eq_None_iff)
  moreover have "int (unat ssid) < 2 ^ (64 - 1)" using assms(2) by (simp add: word_less_def)
  then have "stol (decimal (unat ssid)) = Inr (int (unat ssid))" unfolding stol_def by (rule stoi_width_decimal)
  ultimately show ?thesis by (simp add: cookie_ssid_def map_add_def)
qed

lemma login_session:
  assumes "sm_ok (g_sm g)" "c_username cred \<noteq> Null" "c_password cred \<noteq> Null"
    and "user_login (e_backend e) cred = Inr (Some u)" "as_uint64 (e_backend e) (u_id u) = Inr uid"
  obtains g' p where "login e req (Some cred) g =
      Inr (g', Http_Header (q_conn req) ''Set-Cookie'' (''SSID='' @ decimal (unat (sm_next_ssid (g_sm g))))
               # http_resp (q_conn req) True 200 Logged_In)"
    and "get_session_by_ssid (g_sm g') (sm_next_ssid (g_sm g)) = Some p"
    and "ss_uid (session_of g' p) = uid" "ss_state (session_of g' p) = LOGIN"
proof -
  note fresh = sm_ok_fresh [OF assms(1)]
  let ?n = "sm_next_ssid (g_sm g)"
  let ?sm = "set_session_expire_time ?n SESSION_TIMEOUT (snd (create_session uid LOGIN (g_sm g)))"
  show ?thesis
  proof (rule that [of "g\<lparr>g_sm := ?sm\<rparr>" "length (sm_objects (g_sm g))"])
    show "login e req (Some cred) g =
      Inr (g\<lparr>g_sm := ?sm\<rparr>, Http_Header (q_conn req) ''Set-Cookie'' (''SSID='' @ decimal (unat ?n))
               # http_resp (q_conn req) True 200 Logged_In)"
      using assms(2-5) by (simp add: login_def create_session_def session_new_def Let_def)
  qed (use fresh in \<open>simp_all add: create_session_def session_new_def get_session_by_ssid_def
      set_session_expire_time_def ws_set_timer_def set_session_timer_def Let_def\<close>)
qed

section \<open>Properties\<close>

text \<open>A backend that knows one user, number 7.\<close>

definition demo_users :: backend where
  "demo_users = (demo_backend ''1000'')\<lparr>my_result := (\<lambda>_. Some [[''7'', ''1000'', ''0'', ''0'']])\<rparr>"

definition demo_env :: env where
  "demo_env = \<lparr>e_backend = demo_users, e_file = (\<lambda>_. None), e_www_root = ''./wwwroot/'', e_white = 0, e_black = 0\<rparr>"

definition demo_request :: "conn \<Rightarrow> string \<Rightarrow> string \<Rightarrow> request" where
  "demo_request c uri cookie = \<lparr>q_conn = c, q_method = ''GET'', q_uri = uri, q_cookie = cookie\<rparr>"

definition demo_credentials :: credentials where
  "demo_credentials = \<lparr>c_username = Has ''ann'', c_password = Has ''pw''\<rparr>"

text \<open>Users 7 and 9 play in room 1; user 7 has session 1.\<close>

definition demo_server :: gobang_server where
  "demo_server = \<lparr>g_og = demo_online, g_rm = snd (create_room 0 0 demo_hall 7 9 room_manager_new),
     g_sm = demo_sessions, g_mm = matcher_new\<rparr>"

text \<open>
  C21. Logging in gives a cookie that works: when the user table accepts the name and the password,
  login answers with a cookie, and a client that presents it, also after other cookies, is taken
  for the user who logged in.
\<close>

theorem login_cookie_finds_session:
  assumes "sm_ok (g_sm g)" "sm_next_ssid (g_sm g) < 2 ^ 63"
    and "c_username cred \<noteq> Null" "c_password cred \<noteq> Null"
    and "user_login (e_backend e) cred = Inr (Some u)" "as_uint64 (e_backend e) (u_id u) = Inr uid"
    and "pre = [] \<or> (\<forall>(k, v) \<in> set pre. k \<noteq> [] \<and> v \<noteq> [] \<and> k \<noteq> ''SSID'' \<and> set (k @ v) \<inter> {CHR '';'', CHR ''=''} = {})"
  shows "\<exists>g' ssid es. login e req (Some cred) g = Inr (g', Http_Header (q_conn req) ''Set-Cookie'' (''SSID='' @ ssid) # es)
    \<and> (\<forall>req'. q_cookie req' = join ''; '' (map (\<lambda>(k, v). k @ ''='' @ v) (pre @ [(''SSID'', ssid)])) \<longrightarrow>
         (\<exists>p. get_session_by_cookie req' g' = Inr (Some p, [])
            \<and> ss_uid (session_of g' p) = uid \<and> ss_state (session_of g' p) = LOGIN))"
proof -
  obtain g' p where l: "login e req (Some cred) g =
      Inr (g', Http_Header (q_conn req) ''Set-Cookie'' (''SSID='' @ decimal (unat (sm_next_ssid (g_sm g))))
               # http_resp (q_conn req) True 200 Logged_In)"
    and p: "get_session_by_ssid (g_sm g') (sm_next_ssid (g_sm g)) = Some p"
      "ss_uid (session_of g' p) = uid" "ss_state (session_of g' p) = LOGIN"
    by (rule login_session [OF assms(1,3-6)])
  note c = cookie_ssid_decimal [OF assms(7,2)]
  have "cookie_ssid [] = Inr None" by code_simp
  with c p have "get_session_by_cookie req' g' = Inr (Some p, [])"
    if "q_cookie req' = join ''; '' (map (\<lambda>(k, v). k @ ''='' @ v) (pre @ [(''SSID'', decimal (unat (sm_next_ssid (g_sm g))))]))" for req'
    using that by (cases "q_cookie req' = []") (simp_all add: get_session_by_cookie_def)
  with l p show ?thesis by blast
qed

theorem login_cookie_finds_session_witness:
  "\<exists>g' ssid es. login demo_env (demo_request 70 ''/login'' []) (Some demo_credentials) gobang_server_new
      = Inr (g', Http_Header 70 ''Set-Cookie'' (''SSID='' @ ssid) # es)
    \<and> (\<exists>p. get_session_by_cookie (demo_request 71 ''/hall'' (''lang=zh; SSID='' @ ssid)) g' = Inr (Some p, [])
         \<and> ss_uid (session_of g' p) = 7)"
proof -
  have u: "user_login (e_backend demo_env) demo_credentials =
      Inr (Some \<lparr>u_id = 7, u_username = ''ann'', u_score = 1000, u_total_count = 0, u_win_count = 0\<rparr>)"
    and i: "as_uint64 (e_backend demo_env) (u_id \<lparr>u_id = 7, u_username = ''ann'', u_score = 1000, u_total_count = 0, u_win_count = 0\<rparr>)
      = Inr 7" by code_simp+
  have g: "sm_ok (g_sm gobang_server_new)" "sm_next_ssid (g_sm gobang_server_new) < 2 ^ 63"
    using sm_ok_new by (simp_all add: gobang_server_new_def) (simp add: session_manager_new_def)
  have c: "c_username demo_credentials \<noteq> Null" "c_password demo_credentials \<noteq> Null"
    by (simp_all add: demo_credentials_def)
  obtain g' ssid es where
    l: "login demo_env (demo_request 70 ''/login'' []) (Some demo_credentials) gobang_server_new
      = Inr (g', Http_Header (q_conn (demo_request 70 ''/login'' [])) ''Set-Cookie'' (''SSID='' @ ssid) # es)"
    and f: "\<forall>req'. q_cookie req' = join ''; '' (map (\<lambda>(k, v). k @ ''='' @ v) ([(''lang'', ''zh'')] @ [(''SSID'', ssid)])) \<longrightarrow>
         (\<exists>p. get_session_by_cookie req' g' = Inr (Some p, []) \<and> ss_uid (session_of g' p) = 7 \<and> ss_state (session_of g' p) = LOGIN)"
    using login_cookie_finds_session [OF g c u i, of "[(''lang'', ''zh'')]" "demo_request 70 ''/login'' []"] by auto
  have "\<exists>p. get_session_by_cookie (demo_request 71 ''/hall'' (''lang=zh; SSID='' @ ssid)) g' = Inr (Some p, [])
      \<and> ss_uid (session_of g' p) = 7 \<and> ss_state (session_of g' p) = LOGIN"
    using f by (intro f [rule_format]) (simp add: demo_request_def)
  with l show ?thesis unfolding demo_request_def by auto
qed

text \<open>
  C10. Whatever requests, messages, disconnections, matching passes and timer tasks reach the server
  and in whatever order, its tables fit together: nobody is in the hall and in a room at once,
  everyone who has a room is one of its players, every room has a full board and one or two
  players left, and every session number leads to the session with that number.
\<close>

theorem server_tables_fit:
  assumes "served g"
  shows "(\<forall>uid. \<not> (is_in_game_hall (g_og g) uid \<and> is_in_game_room (g_og g) uid))
    \<and> (\<forall>uid r. get_room_by_uid (g_rm g) uid = Some r \<longrightarrow>
         uid \<in> {r_white_id r, r_black_id r} \<and> wf_board (r_board r) \<and> r_player_count r \<in> {1, 2})
    \<and> (\<forall>uid. rm_users (g_rm g) uid \<noteq> None \<longrightarrow> get_room_by_uid (g_rm g) uid \<noteq> None)
    \<and> (\<forall>ssid p. get_session_by_ssid (g_sm g) ssid = Some p \<longrightarrow>
         p < length (sm_objects (g_sm g)) \<and> ss_ssid (session_of g p) = ssid)"
proof -
  have inv: "apart (g_og g)" "rm_ok (g_rm g)" "sm_ok (g_sm g)" using served_inv [OF assms] by (simp_all add: server_inv_def)
  have "get_room_by_uid (g_rm g) uid \<noteq> None" if u: "rm_users (g_rm g) uid \<noteq> None" for uid
    using u rm_okD(3) [OF inv(2), of uid] by (auto simp: get_room_by_uid_def split: option.splits)
  moreover have "uid \<in> {r_white_id r, r_black_id r} \<and> wf_board (r_board r) \<and> r_player_count r \<in> {1, 2}"
    if r: "get_room_by_uid (g_rm g) uid = Some r" for uid r
    using get_room_by_uid_ok(1,4) [OF inv(2) r] by (simp add: room_ok_def)
  moreover have "p < length (sm_objects (g_sm g)) \<and> ss_ssid (session_of g p) = ssid"
    if s: "get_session_by_ssid (g_sm g) ssid = Some p" for ssid p
    using s sm_okD [OF inv(3)] by (simp add: get_session_by_ssid_def split: option.splits)
  ultimately show ?thesis using inv(1) unfolding apart_def by blast
qed

text \<open>The server after user 7 logged in and entered the hall.\<close>

definition demo_logged :: gobang_server where
  "demo_logged = fst (projr (server_step demo_env (Http ((demo_request 70 ''/login'' [])\<lparr>q_method := ''POST''\<rparr>) (Some demo_credentials))
     gobang_server_new))"

definition demo_in_hall :: gobang_server where
  "demo_in_hall = fst (projr (server_step demo_env (Open (demo_request 71 ''/hall'' ''SSID=1'')) demo_logged))"

lemma projr_result: "\<not> isl m \<Longrightarrow> m = Inr (fst (projr m), snd (projr m))"
  by (cases m) auto

lemma served_demo: "served demo_in_hall"
proof -
  have "\<not> isl (server_step demo_env (Http ((demo_request 70 ''/login'' [])\<lparr>q_method := ''POST''\<rparr>) (Some demo_credentials)) gobang_server_new)"
    "no_wrap gobang_server_new" by code_simp+
  then have "served demo_logged"
    unfolding demo_logged_def by (intro served.step [OF served.start _ _ projr_result]) simp_all
  moreover have "\<not> isl (server_step demo_env (Open (demo_request 71 ''/hall'' ''SSID=1'')) demo_logged)"
    "no_wrap demo_logged" by code_simp+
  ultimately show ?thesis
    unfolding demo_in_hall_def by (intro served.step [OF _ _ _ projr_result]) simp_all
qed

theorem server_tables_fit_witness:
  "is_in_game_hall (g_og demo_in_hall) 7 \<and> \<not> is_in_game_room (g_og demo_in_hall) 7"
proof -
  have "is_in_game_hall (g_og demo_in_hall) 7" by code_simp
  with server_tables_fit [OF served_demo] show ?thesis by blast
qed

text \<open>
  C25. A refused second connection ends the game: while a user is connected to a running game, a
  further connection of the same session to \<open>/room\<close> is refused and changes nothing; when that
  connection closes, the user is taken out of the room and the game is counted as lost for them,
  although their first connection is still open.
\<close>

theorem refused_connection_ends_game:
  assumes "get_session_by_cookie req g = Inr (Some ssp, [])" "q_uri req = ''/room''"
    and "uid = ss_uid (session_of g ssp)" "room_user (g_og g) uid = Some c"
    and "get_room_by_uid (g_rm g) uid = Some r" "r_statu r = GAME_START" "uid \<in> {r_white_id r, r_black_id r}"
    and "opponent = (if uid = r_white_id r then r_black_id r else r_white_id r)" "opponent \<noteq> uid"
  shows "wsopen_callback req g = Inr (g, ws_resp (q_conn req) (err_resp ''room_ready'' Duplicate_Login))
    \<and> (\<exists>g' es. wsclose_callback req g = Inr (g', es) \<and> room_user (g_og g') uid = None
         \<and> Room_Effect (Win (narrow_id opponent)) \<in> set es \<and> Room_Effect (Lose (narrow_id uid)) \<in> set es)"
proof -
  let ?og = "exit_game_room uid (g_og g)"
  obtain rm es where r: "remove_room_user ?og uid (g_rm g) = (rm, es)" by fastforce
  have "snd (handle_exit ?og uid r) = es"
    using r assms(5) by (auto simp: remove_room_user_def Let_def case_prod_beta split: if_splits)
  then have "Win (narrow_id opponent) \<in> set es" "Lose (narrow_id uid) \<in> set es"
    using assms(6-9) by (auto simp: handle_exit_def Let_def)
  with assms r show ?thesis
    by (simp add: wsopen_callback_def wsopen_game_room_def wsclose_callback_def wsclose_game_room_def with_session_def
        is_in_game_room_def exit_game_room_def image_iff)
qed

theorem refused_connection_ends_game_witness:
  "\<exists>g' es. wsclose_callback (demo_request 71 ''/room'' ''SSID=1'') demo_server = Inr (g', es) \<and> room_user (g_og g') 7 = None
     \<and> Room_Effect (Win (narrow_id 9)) \<in> set es \<and> Room_Effect (Lose (narrow_id 7)) \<in> set es"
proof -
  let ?req = "demo_request 71 ''/room'' ''SSID=1''" and ?r = "room_for 1 7 9"
  have "get_session_by_cookie ?req demo_server = Inr (Some 0, [])" "ss_uid (session_of demo_server 0) = 7"
    "room_user (g_og demo_server) 7 = Some 70" by code_simp+
  moreover have "get_room_by_uid (g_rm demo_server) 7 = Some ?r"
    by (simp add: demo_server_def create_room_eq is_in_game_hall_def demo_hall_def get_room_by_uid_def room_manager_new_def)
  ultimately show ?thesis
    using refused_connection_ends_game [of ?req demo_server 0 7 70 ?r 9] by (simp add: demo_request_def)
qed

end
