(* ===== verification/Tree_Heap.thy ===== *)
theory Tree_Heap
  imports Prelude
begin

text \<open>
  Binary trees with parent pointers in a store, as \<open>Algorithm/AVLTree.hpp\<close> and
  \<open>Algorithm/RBTree.hpp\<close> build them: nodes with three pointers, a value and a balance factor or a
  colour, and the two rotations, which are the same pointer surgery in both files. A pointer is an
  address or null; using null is a fault. The second half relates stores to trees: a store holds a
  tree with one subtree in focus when every node has the right pointers, the one to the parent
  included, and no address is used twice.
\<close>

section \<open>Nodes and their fields\<close>

record ('d, 't) node =
  n_left :: ptr
  n_right :: ptr
  n_parent :: ptr
  n_data :: 'd
  n_tag :: 't

type_synonym ('d, 't) heap = "nat \<Rightarrow> ('d, 't) node option"

record ('d, 't) tstate =
  t_heap :: "('d, 't) heap"
  t_root :: ptr

definition node_new :: "'d \<Rightarrow> 't \<Rightarrow> ('d, 't) node" where
  "node_new d t = \<lparr>n_left = None, n_right = None, n_parent = None, n_data = d, n_tag = t\<rparr>"

definition get_node :: "('d, 't) tstate \<Rightarrow> ptr \<Rightarrow> ('d, 't) node res" where
  "get_node s p =
     (case p of
        None \<Rightarrow> Inl Null_Deref
      | Some a \<Rightarrow> (case t_heap s a of None \<Rightarrow> Inl Use_After_Free | Some n \<Rightarrow> Inr n))"

definition put_node :: "ptr \<Rightarrow> (('d, 't) node \<Rightarrow> ('d, 't) node) \<Rightarrow> ('d, 't) tstate \<Rightarrow> ('d, 't) tstate res" where
  "put_node p f s =
     (case p of
        None \<Rightarrow> Inl Null_Deref
      | Some a \<Rightarrow> (case t_heap s a of None \<Rightarrow> Inl Use_After_Free
                    | Some n \<Rightarrow> Inr (s\<lparr>t_heap := (t_heap s)(a \<mapsto> f n)\<rparr>)))"

definition set_left :: "ptr \<Rightarrow> ptr \<Rightarrow> ('d, 't) tstate \<Rightarrow> ('d, 't) tstate res" where
  "set_left p v = put_node p (\<lambda>n. n\<lparr>n_left := v\<rparr>)"

definition set_right :: "ptr \<Rightarrow> ptr \<Rightarrow> ('d, 't) tstate \<Rightarrow> ('d, 't) tstate res" where
  "set_right p v = put_node p (\<lambda>n. n\<lparr>n_right := v\<rparr>)"

definition set_parent :: "ptr \<Rightarrow> ptr \<Rightarrow> ('d, 't) tstate \<Rightarrow> ('d, 't) tstate res" where
  "set_parent p v = put_node p (\<lambda>n. n\<lparr>n_parent := v\<rparr>)"

definition set_tag :: "ptr \<Rightarrow> 't \<Rightarrow> ('d, 't) tstate \<Rightarrow> ('d, 't) tstate res" where
  "set_tag p v = put_node p (\<lambda>n. n\<lparr>n_tag := v\<rparr>)"

definition set_tag3 :: "ptr \<Rightarrow> 't \<Rightarrow> ptr \<Rightarrow> 't \<Rightarrow> ptr \<Rightarrow> 't \<Rightarrow> ('d, 't) tstate \<Rightarrow> ('d, 't) tstate res" where
  "set_tag3 p u q v r w s =
     bind_res (set_tag p u s) (\<lambda>s. bind_res (set_tag q v s) (\<lambda>s. set_tag r w s))"

definition alloc_node :: "nat \<Rightarrow> 'd \<Rightarrow> 't \<Rightarrow> ('d, 't) tstate \<Rightarrow> ('d, 't) tstate" where
  "alloc_node a d t s = s\<lparr>t_heap := (t_heap s)(a \<mapsto> node_new d t)\<rparr>"

section \<open>Rotations\<close>

definition RotateL :: "ptr \<Rightarrow> ('d, 't) tstate \<Rightarrow> ('d, 't) tstate res" where
  "RotateL parent s =
     bind_res (get_node s parent) (\<lambda>pn. let subR = n_right pn in
     bind_res (get_node s subR) (\<lambda>rn. let subRL = n_left rn in
     bind_res (set_right parent subRL s) (\<lambda>s.
     bind_res (if subRL \<noteq> None then set_parent subRL parent s else Inr s) (\<lambda>s.
     bind_res (get_node s parent) (\<lambda>pn. let ppNode = n_parent pn in
     bind_res (set_left subR parent s) (\<lambda>s.
     bind_res (set_parent parent subR s) (\<lambda>s.
       if ppNode = None then set_parent subR None (s\<lparr>t_root := subR\<rparr>)
       else
         bind_res (get_node s ppNode) (\<lambda>ppn.
         bind_res (if n_left ppn = parent then set_left ppNode subR s else set_right ppNode subR s) (\<lambda>s.
           set_parent subR ppNode s)))))))))"

definition RotateR :: "ptr \<Rightarrow> ('d, 't) tstate \<Rightarrow> ('d, 't) tstate res" where
  "RotateR parent s =
     bind_res (get_node s parent) (\<lambda>pn. let subL = n_left pn in
     bind_res (get_node s subL) (\<lambda>ln. let subLR = n_right ln in
     bind_res (set_left parent subLR s) (\<lambda>s.
     bind_res (if subLR \<noteq> None then set_parent subLR parent s else Inr s) (\<lambda>s.
     bind_res (get_node s parent) (\<lambda>pn. let ppNode = n_parent pn in
     bind_res (set_right subL parent s) (\<lambda>s.
     bind_res (set_parent parent subL s) (\<lambda>s.
       if ppNode = None then set_parent subL None (s\<lparr>t_root := subL\<rparr>)
       else
         bind_res (get_node s ppNode) (\<lambda>ppn.
         bind_res (if n_left ppn = parent then set_left ppNode subL s else set_right ppNode subL s) (\<lambda>s.
           set_parent subL ppNode s)))))))))"

section \<open>Stores that hold a tree\<close>

datatype ('d, 't) tree = Tip | Nd nat "('d, 't) tree" 'd 't "('d, 't) tree"

fun addr :: "('d, 't) tree \<Rightarrow> ptr" where
  "addr Tip = None"
| "addr (Nd a l d t r) = Some a"

fun addrs :: "('d, 't) tree \<Rightarrow> nat list" where
  "addrs Tip = []"
| "addrs (Nd a l d t r) = a # addrs l @ addrs r"

fun inorder :: "('d, 't) tree \<Rightarrow> 'd list" where
  "inorder Tip = []"
| "inorder (Nd a l d t r) = inorder l @ d # inorder r"

text \<open>The way from a subtree to the root: each frame is a node with the other child.\<close>

datatype ('d, 't) frame = LF nat 'd 't "('d, 't) tree" | RF "('d, 't) tree" nat 'd 't

fun frame_addr :: "('d, 't) frame \<Rightarrow> nat" where
  "frame_addr (LF a d t r) = a"
| "frame_addr (RF l a d t) = a"

fun plug :: "('d, 't) frame list \<Rightarrow> ('d, 't) tree \<Rightarrow> ('d, 't) tree" where
  "plug [] x = x"
| "plug (LF a d t r # fs) x = plug fs (Nd a x d t r)"
| "plug (RF l a d t # fs) x = plug fs (Nd a l d t x)"

fun up_ptr :: "('d, 't) frame list \<Rightarrow> ptr" where
  "up_ptr [] = None"
| "up_ptr (f # fs) = Some (frame_addr f)"

fun top_ptr :: "ptr \<Rightarrow> ('d, 't) frame list \<Rightarrow> ptr" where
  "top_ptr q [] = q"
| "top_ptr q (f # fs) = top_ptr (Some (frame_addr f)) fs"

fun path_addrs :: "('d, 't) frame list \<Rightarrow> nat list" where
  "path_addrs [] = []"
| "path_addrs (LF a d t r # fs) = a # addrs r @ path_addrs fs"
| "path_addrs (RF l a d t # fs) = a # addrs l @ path_addrs fs"

fun tree_at :: "('d, 't) heap \<Rightarrow> ptr \<Rightarrow> ('d, 't) tree \<Rightarrow> bool" where
  "tree_at h par Tip \<longleftrightarrow> True"
| "tree_at h par (Nd a l d t r) \<longleftrightarrow>
     h a = Some \<lparr>n_left = addr l, n_right = addr r, n_parent = par, n_data = d, n_tag = t\<rparr>
     \<and> tree_at h (Some a) l \<and> tree_at h (Some a) r"

fun path_at :: "('d, 't) heap \<Rightarrow> ptr \<Rightarrow> ('d, 't) frame list \<Rightarrow> bool" where
  "path_at h q [] \<longleftrightarrow> True"
| "path_at h q (LF a d t r # fs) \<longleftrightarrow>
     h a = Some \<lparr>n_left = q, n_right = addr r, n_parent = up_ptr fs, n_data = d, n_tag = t\<rparr>
     \<and> tree_at h (Some a) r \<and> path_at h (Some a) fs"
| "path_at h q (RF l a d t # fs) \<longleftrightarrow>
     h a = Some \<lparr>n_left = addr l, n_right = q, n_parent = up_ptr fs, n_data = d, n_tag = t\<rparr>
     \<and> tree_at h (Some a) l \<and> path_at h (Some a) fs"

definition holds :: "('d, 't) tstate \<Rightarrow> ('d, 't) tree \<Rightarrow> ('d, 't) frame list \<Rightarrow> bool" where
  "holds s x fs \<longleftrightarrow> tree_at (t_heap s) (up_ptr fs) x \<and> path_at (t_heap s) (addr x) fs \<and> t_root s = top_ptr (addr x) fs
     \<and> distinct (addrs x @ path_addrs fs)"

lemma holds_up_LF: "holds s x (LF a d t r # fs) \<longleftrightarrow> holds s (Nd a x d t r) fs"
  by (auto simp: holds_def)

lemma holds_up_RF: "holds s x (RF l a d t # fs) \<longleftrightarrow> holds s (Nd a l d t x) fs"
  by (auto simp: holds_def)

lemma holds_plug: "holds s x fs \<longleftrightarrow> holds s (plug fs x) []"
  by (induction fs x rule: plug.induct) (simp_all add: holds_up_LF holds_up_RF)

lemma addr_in: "addr x = Some a \<Longrightarrow> a \<in> set (addrs x)"
  by (cases x) auto

lemma addr_None [simp]: "addr x = None \<longleftrightarrow> x = Tip" "None = addr x \<longleftrightarrow> x = Tip"
  by (cases x; simp)+

lemma tree_at_upd [simp]: "a \<notin> set (addrs x) \<Longrightarrow> tree_at (h(a \<mapsto> n)) par x = tree_at h par x"
  by (induction x arbitrary: par) auto

lemma path_at_upd [simp]: "a \<notin> set (path_addrs fs) \<Longrightarrow> path_at (h(a \<mapsto> n)) q fs = path_at h q fs"
  by (induction fs arbitrary: q rule: path_addrs.induct) auto

lemma holds_get:
  assumes "holds s (Nd a l d t r) fs"
  shows "get_node s (Some a) = Inr \<lparr>n_left = addr l, n_right = addr r, n_parent = up_ptr fs, n_data = d, n_tag = t\<rparr>"
  using assms by (simp add: holds_def get_node_def)

lemma holds_set_tag:
  assumes "holds s (Nd a l d t r) fs"
  obtains s' where "set_tag (Some a) t' s = Inr s'" "holds s' (Nd a l d t' r) fs"
  using assms by (simp add: holds_def set_tag_def put_node_def)

lemma holds_get_left:
  assumes "holds s (Nd p (Nd q x dq tq y) dp tp z) fs"
  shows "get_node s (Some q) = Inr \<lparr>n_left = addr x, n_right = addr y, n_parent = Some p, n_data = dq, n_tag = tq\<rparr>"
  using assms by (simp add: holds_def get_node_def)

lemma holds_get_right:
  assumes "holds s (Nd p z dp tp (Nd q x dq tq y)) fs"
  shows "get_node s (Some q) = Inr \<lparr>n_left = addr x, n_right = addr y, n_parent = Some p, n_data = dq, n_tag = tq\<rparr>"
  using assms by (simp add: holds_def get_node_def)

text \<open>A node with two children, whose three tags are set in any order.\<close>

definition three :: "nat \<Rightarrow> ('d, 't) tree \<Rightarrow> 'd \<Rightarrow> 't \<Rightarrow> ('d, 't) tree \<Rightarrow> nat \<Rightarrow> 'd \<Rightarrow> 't \<Rightarrow> nat
    \<Rightarrow> ('d, 't) tree \<Rightarrow> 'd \<Rightarrow> 't \<Rightarrow> ('d, 't) tree \<Rightarrow> ('d, 't) tree" where
  "three a u da ta v b db tb c w dc tc x = Nd b (Nd a u da ta v) db tb (Nd c w dc tc x)"

lemma set_tag3_three:
  assumes "holds s (three a u da ta v b db tb c w dc tc x) fs"
  obtains s' where "set_tag3 (Some a) i (Some b) j (Some c) k s = Inr s'" "set_tag3 (Some a) i (Some c) k (Some b) j s = Inr s'"
    "set_tag3 (Some c) k (Some b) j (Some a) i s = Inr s'" "set_tag3 (Some c) k (Some a) i (Some b) j s = Inr s'"
    "set_tag3 (Some b) j (Some a) i (Some c) k s = Inr s'" "set_tag3 (Some b) j (Some c) k (Some a) i s = Inr s'"
    "holds s' (three a u da i v b db j c w dc k x) fs"
proof -
  let ?s = "s\<lparr>t_heap := (t_heap s)(a \<mapsto> (the (t_heap s a))\<lparr>n_tag := i\<rparr>, b \<mapsto> (the (t_heap s b))\<lparr>n_tag := j\<rparr>,
      c \<mapsto> (the (t_heap s c))\<lparr>n_tag := k\<rparr>)\<rparr>"
  show ?thesis
    by (rule that [of ?s])
      (use assms in \<open>simp_all add: three_def set_tag3_def set_tag_def put_node_def holds_def fun_upd_twist\<close>)
qed

lemma plug_inorder: "\<exists>xs ys. \<forall>x. inorder (plug fs x) = xs @ inorder x @ ys"
proof (induction fs)
  case Nil
  have "\<forall>x :: ('a, 'b) tree. inorder (plug [] x) = [] @ inorder x @ []" by simp
  then show ?case by blast
next
  case (Cons f fs)
  then obtain xs ys where *: "\<And>x. inorder (plug fs x) = xs @ inorder x @ ys" by blast
  show ?case
  proof (cases f)
    case (LF a d t r)
    then have "\<forall>x. inorder (plug (f # fs) x) = xs @ inorder x @ (d # inorder r @ ys)" using * by simp
    then show ?thesis by blast
  next
    case (RF l a d t)
    then have "\<forall>x. inorder (plug (f # fs) x) = (xs @ inorder l @ [d]) @ inorder x @ ys" using * by simp
    then show ?thesis by blast
  qed
qed

lemma plug_inorder_cong: "inorder x = inorder y \<Longrightarrow> inorder (plug fs x) = inorder (plug fs y)"
  using plug_inorder [of fs] by metis

section \<open>Rotations on trees\<close>

lemmas heap_ops = set_left_def set_right_def set_parent_def put_node_def get_node_def

lemma RotateL_holds:
  assumes "holds s (Nd p x dp tp (Nd q y dq tq z)) fs"
  obtains s' where "RotateL (Some p) s = Inr s'" "holds s' (Nd q (Nd p x dp tp y) dq tq z) fs"
proof -
  have "\<exists>s'. RotateL (Some p) s = Inr s' \<and> holds s' (Nd q (Nd p x dp tp y) dq tq z) fs"
  proof (cases fs)
    case Nil
    then show ?thesis
      using assms by (cases y) (auto simp: holds_def RotateL_def heap_ops Let_def)
  next
    case (Cons f fs')
    then show ?thesis
      using assms addr_in
      by (cases f; cases y) (auto simp: holds_def RotateL_def heap_ops Let_def)
  qed
  with that show ?thesis by blast
qed

lemma RotateR_holds:
  assumes "holds s (Nd p (Nd q x dq tq y) dp tp z) fs"
  obtains s' where "RotateR (Some p) s = Inr s'" "holds s' (Nd q x dq tq (Nd p y dp tp z)) fs"
proof -
  have "\<exists>s'. RotateR (Some p) s = Inr s' \<and> holds s' (Nd q x dq tq (Nd p y dp tp z)) fs"
  proof (cases fs)
    case Nil
    then show ?thesis
      using assms by (cases y) (auto simp: holds_def RotateR_def heap_ops Let_def)
  next
    case (Cons f fs')
    then show ?thesis
      using assms addr_in
      by (cases f; cases y) (auto simp: holds_def RotateR_def heap_ops Let_def)
  qed
  with that show ?thesis by blast
qed

section \<open>New leaves\<close>

lemma tree_at_alloc: "tree_at h par x \<Longrightarrow> a \<in> set (addrs x) \<Longrightarrow> h a \<noteq> None"
  by (induction x arbitrary: par) auto

lemma path_at_alloc: "path_at h q fs \<Longrightarrow> a \<in> set (path_addrs fs) \<Longrightarrow> h a \<noteq> None"
  by (induction h q fs rule: path_at.induct) (auto dest: tree_at_alloc)

lemma holds_fresh: "holds s x fs \<Longrightarrow> t_heap s a = None \<Longrightarrow> a \<notin> set (addrs x) \<and> a \<notin> set (path_addrs fs)"
  using tree_at_alloc path_at_alloc unfolding holds_def by blast

lemma attach_root:
  assumes "holds s Tip []"
  shows "holds ((alloc_node a d t s)\<lparr>t_root := Some a\<rparr>) (Nd a Tip d t Tip) []"
  by (simp add: holds_def alloc_node_def node_new_def)

lemma attach_LF:
  assumes "holds s Tip (LF p dp tp r # fs)" "t_heap s a = None"
  obtains s1 s2 where "set_left (Some p) (Some a) (alloc_node a d t s) = Inr s1"
    "set_parent (Some a) (Some p) s1 = Inr s2" "holds s2 (Nd a Tip d t Tip) (LF p dp tp r # fs)"
  using assms holds_fresh [OF assms] by (simp add: holds_def alloc_node_def node_new_def heap_ops)

lemma attach_RF:
  assumes "holds s Tip (RF l p dp tp # fs)" "t_heap s a = None"
  obtains s1 s2 where "set_right (Some p) (Some a) (alloc_node a d t s) = Inr s1"
    "set_parent (Some a) (Some p) s1 = Inr s2" "holds s2 (Nd a Tip d t Tip) (RF l p dp tp # fs)"
  using assms holds_fresh [OF assms] by (simp add: holds_def alloc_node_def node_new_def heap_ops)

section \<open>Search paths\<close>

text \<open>A path that a search for a key takes: left of larger keys, right of smaller ones.\<close>

fun between :: "('d \<Rightarrow> 'k::linorder) \<Rightarrow> 'k \<Rightarrow> ('d, 't) frame list \<Rightarrow> bool" where
  "between kot k [] \<longleftrightarrow> True"
| "between kot k (LF a d t r # fs) \<longleftrightarrow> k < kot d \<and> (\<forall>x \<in> set (inorder r). k < kot x) \<and> between kot k fs"
| "between kot k (RF l a d t # fs) \<longleftrightarrow> kot d < k \<and> (\<forall>x \<in> set (inorder l). kot x < k) \<and> between kot k fs"

definition insert_sorted :: "('d \<Rightarrow> 'k::linorder) \<Rightarrow> 'd \<Rightarrow> 'd list \<Rightarrow> 'd list" where
  "insert_sorted kot d xs = filter (\<lambda>x. kot x < kot d) xs @ [d] @ filter (\<lambda>x. kot d < kot x) xs"

lemma between_inorder:
  "between kot k fs \<Longrightarrow> \<exists>xs ys. (\<forall>x. inorder (plug fs x) = xs @ inorder x @ ys)
     \<and> (\<forall>x \<in> set xs. kot x < k) \<and> (\<forall>y \<in> set ys. k < kot y)"
proof (induction kot k fs rule: between.induct)
  case (1 kot k)
  have "\<forall>x :: ('a, 'c) tree. inorder (plug [] x) = [] @ inorder x @ []" by simp
  then show ?case by (metis empty_iff empty_set)
next
  case (2 kot k a d t r fs)
  then obtain xs ys where *: "\<And>x. inorder (plug fs x) = xs @ inorder x @ ys"
    "\<forall>x \<in> set xs. kot x < k" "\<forall>y \<in> set ys. k < kot y" by auto
  show ?case by (rule exI [of _ xs], rule exI [of _ "d # inorder r @ ys"]) (use 2 * in auto)
next
  case (3 kot k l a d t fs)
  then obtain xs ys where *: "\<And>x. inorder (plug fs x) = xs @ inorder x @ ys"
    "\<forall>x \<in> set xs. kot x < k" "\<forall>y \<in> set ys. k < kot y" by auto
  show ?case by (rule exI [of _ "xs @ inorder l @ [d]"], rule exI [of _ ys]) (use 3 * in auto)
qed

lemma between_insert:
  assumes "between kot (kot d) fs"
  shows "inorder (plug fs (Nd a Tip d t Tip)) = insert_sorted kot d (inorder (plug fs Tip))"
    and "\<forall>x \<in> set (inorder (plug fs Tip)). kot x \<noteq> kot d"
proof -
  obtain xs ys where *: "\<And>x. inorder (plug fs x) = xs @ inorder x @ ys"
    "\<forall>x \<in> set xs. kot x < kot d" "\<forall>y \<in> set ys. kot d < kot y"
    using between_inorder [OF assms] by blast
  then have "filter (\<lambda>x. kot x < kot d) (xs @ ys) = xs" "filter (\<lambda>x. kot d < kot x) (xs @ ys) = ys"
    by (auto simp: filter_id_conv filter_empty_conv)
  then show "inorder (plug fs (Nd a Tip d t Tip)) = insert_sorted kot d (inorder (plug fs Tip))"
    by (simp add: * insert_sorted_def)
  show "\<forall>x \<in> set (inorder (plug fs Tip)). kot x \<noteq> kot d" using * by fastforce
qed

text \<open>Strictly increasing keys.\<close>

abbreviation ascending :: "('d \<Rightarrow> 'k::linorder) \<Rightarrow> 'd list \<Rightarrow> bool" where
  "ascending kot \<equiv> sorted_wrt (\<lambda>x y. kot x < kot y)"

lemma ascending_insert: "ascending kot xs \<Longrightarrow> ascending kot (insert_sorted kot d xs)"
  by (auto simp: insert_sorted_def sorted_wrt_append intro: sorted_wrt_filter)

section \<open>Sizes and elements\<close>

fun ht :: "('d, 't) tree \<Rightarrow> nat" where
  "ht Tip = 0"
| "ht (Nd a l d t r) = Suc (max (ht l) (ht r))"

lemma ht_addrs: "ht x \<le> length (addrs x)"
  by (induction x) auto

lemma length_inorder: "length (inorder x) = length (addrs x)"
  by (induction x) auto

text \<open>The element a pointer leads to.\<close>

definition data_at :: "('d, 't) tstate \<Rightarrow> ptr \<Rightarrow> 'd option" where
  "data_at s p = (case p of None \<Rightarrow> None | Some a \<Rightarrow> map_option n_data (t_heap s a))"

text \<open>No step but the allocation of a node changes the element a pointer leads to.\<close>

lemma put_node_data:
  "put_node p f s = Inr s' \<Longrightarrow> (\<And>n. n_data (f n) = n_data n) \<Longrightarrow> data_at s' = data_at s"
  by (auto simp: put_node_def data_at_def fun_eq_iff split: option.splits)

lemma set_data:
  "set_left p v s = Inr s' \<Longrightarrow> data_at s' = data_at s" "set_right p v s = Inr s' \<Longrightarrow> data_at s' = data_at s"
  "set_parent p v s = Inr s' \<Longrightarrow> data_at s' = data_at s" "set_tag p c s = Inr s' \<Longrightarrow> data_at s' = data_at s"
  unfolding set_left_def set_right_def set_parent_def set_tag_def by (erule put_node_data; simp)+

lemma data_at_root [simp]: "data_at (s\<lparr>t_root := q\<rparr>) = data_at s"
  by (auto simp: data_at_def fun_eq_iff split: option.split)

lemma data_at_alloc [simp]: "data_at (alloc_node a d t s) (Some a) = Some d"
  by (simp add: data_at_def alloc_node_def node_new_def)

lemma Rotate_data: "RotateL p s = Inr s' \<Longrightarrow> data_at s' = data_at s" "RotateR p s = Inr s' \<Longrightarrow> data_at s' = data_at s"
  unfolding RotateL_def RotateR_def Let_def
  by (auto elim!: bind_res_InrE split: if_splits dest!: set_data)+

lemma set_tag3_data: "set_tag3 p u q v r w s = Inr s' \<Longrightarrow> data_at s' = data_at s"
  unfolding set_tag3_def by (auto elim!: bind_res_InrE dest!: set_data)

lemma dom_data: "dom (t_heap s) = {a. data_at s (Some a) \<noteq> None}"
  by (auto simp: data_at_def)

lemma data_at_alloc_other [simp]: "b \<noteq> a \<Longrightarrow> data_at (alloc_node a d t s) (Some b) = data_at s (Some b)"
  by (simp add: data_at_def alloc_node_def)

lemma dom_alloc: "data_at s' = data_at (alloc_node a d t s) \<Longrightarrow> dom (t_heap s') = insert a (dom (t_heap s))"
  unfolding dom_data by (auto simp: data_at_def alloc_node_def node_new_def split: if_splits)

end
