(* ===== verification/Sorted_Store.thy ===== *)
theory Sorted_Store
  imports Tree_Heap
begin

text \<open>
  What a client of the search trees relies on: a store whose contents are a list with strictly
  ascending keys, and an insertion that adds an element at its place unless its key is there. The
  consequences for sequences of insertions are proved once, in the locale \<open>sorted_store\<close>; both AVL
  trees and the red-black tree are instances.
\<close>

definition inserted :: "('d \<Rightarrow> 'k::linorder) \<Rightarrow> 'd \<Rightarrow> 'd list \<Rightarrow> 'd list" where
  "inserted kot d xs = (if kot d \<in> kot ` set xs then xs else insert_sorted kot d xs)"

text \<open>The first element with a key.\<close>

definition lookup_key :: "('d \<Rightarrow> 'k) \<Rightarrow> 'k \<Rightarrow> 'd list \<Rightarrow> 'd option" where
  "lookup_key kot k xs = find (\<lambda>d. kot d = k) xs"

lemma lookup_key_simps [simp]:
  "lookup_key kot k [] = None"
  "lookup_key kot k (d # xs) = (if kot d = k then Some d else lookup_key kot k xs)"
  by (simp_all add: lookup_key_def)

lemma lookup_key_append:
  "lookup_key kot k (xs @ ys) = (case lookup_key kot k xs of None \<Rightarrow> lookup_key kot k ys | Some d \<Rightarrow> Some d)"
  by (induction xs) simp_all

lemma lookup_key_None: "lookup_key kot k xs = None \<longleftrightarrow> k \<notin> kot ` set xs"
  by (induction xs) auto

lemma lookup_filter_less:
  "lookup_key kot k (filter (\<lambda>x. kot x < b) xs) = (if k < b then lookup_key kot k xs else None)"
  "lookup_key kot k (filter (\<lambda>x. b < kot x) xs) = (if b < k then lookup_key kot k xs else None)"
  for kot :: "'d \<Rightarrow> 'k::linorder"
  by (induction xs) auto

lemma lookup_inserted:
  "lookup_key kot k (inserted kot d xs) = (case lookup_key kot k xs of None \<Rightarrow> if kot d = k then Some d else None | Some e \<Rightarrow> Some e)"
proof (cases "kot d \<in> kot ` set xs")
  case True
  then have "lookup_key kot (kot d) xs \<noteq> None" by (simp add: lookup_key_None)
  then show ?thesis using True by (auto simp: inserted_def split: option.split)
next
  case False
  then have "lookup_key kot (kot d) xs = None" by (simp add: lookup_key_None)
  then show ?thesis
    using False
    by (cases "k = kot d") (auto simp: inserted_def insert_sorted_def lookup_key_append lookup_filter_less
        not_less_iff_gr_or_eq split: option.splits)
qed

lemma set_inserted: "set (inserted kot d xs) \<subseteq> insert d (set xs)" "kot ` set (inserted kot d xs) = insert (kot d) (kot ` set xs)"
proof -
  show "set (inserted kot d xs) \<subseteq> insert d (set xs)" by (auto simp: inserted_def insert_sorted_def)
  show "kot ` set (inserted kot d xs) = insert (kot d) (kot ` set xs)"
  proof (cases "kot d \<in> kot ` set xs")
    case False
    then have "set xs = {x \<in> set xs. kot x < kot d} \<union> {x \<in> set xs. kot d < kot x}"
      by (force simp: not_less_iff_gr_or_eq)
    with False show ?thesis by (auto simp: inserted_def insert_sorted_def)
  qed (auto simp: inserted_def)
qed

lemma ascending_inserted: "ascending kot xs \<Longrightarrow> ascending kot (inserted kot d xs)"
  by (simp add: inserted_def ascending_insert)

lemma ascending_sorted_list:
  fixes xs :: "'k::linorder list"
  assumes "ascending (\<lambda>x. x) xs"
  shows "xs = sorted_list_of_set (set xs)"
  using assms by (simp add: sorted_list_of_set.idem_if_sorted_distinct strict_sorted_iff)

text \<open>A sequence of insertions, each with the address of its node.\<close>

fun ins_all :: "(nat \<Rightarrow> 'd \<Rightarrow> 's \<Rightarrow> (bool \<times> 's) res) \<Rightarrow> (nat \<times> 'd) list \<Rightarrow> 's \<Rightarrow> 's res" where
  "ins_all ins [] s = Inr s"
| "ins_all ins ((a, d) # es) s = bind_res (ins a d s) (\<lambda>(_, s). ins_all ins es s)"

locale sorted_store =
  fixes kot :: "'d \<Rightarrow> 'k::linorder"
    and contents :: "'s \<Rightarrow> 'd list \<Rightarrow> bool"
    and used :: "'s \<Rightarrow> nat set"
    and ins :: "nat \<Rightarrow> nat \<Rightarrow> 'd \<Rightarrow> 's \<Rightarrow> (bool \<times> 's) res"
  assumes contents_ascending: "contents s xs \<Longrightarrow> ascending kot xs"
    and ins_contents: "contents s xs \<Longrightarrow> a \<notin> used s \<Longrightarrow> length xs < n \<Longrightarrow>
      \<exists>s'. ins n a d s = Inr (kot d \<notin> kot ` set xs, s') \<and> contents s' (inserted kot d xs) \<and> used s' \<subseteq> insert a (used s)"
begin

lemma length_inserted: "length (inserted kot d xs) \<le> Suc (length xs)" if "ascending kot xs"
proof -
  have "length (filter (\<lambda>x. kot x < kot d) xs) + length (filter (\<lambda>x. kot d < kot x) xs) \<le> length xs"
    by (induction xs) auto
  then show ?thesis by (simp add: inserted_def insert_sorted_def)
qed

theorem ins_all_contents:
  assumes "contents s xs" "distinct (map fst es)" "used s \<inter> fst ` set es = {}" "length xs + length es < n"
  shows "\<exists>s'. ins_all (ins n) es s = Inr s' \<and> contents s' (foldl (\<lambda>xs d. inserted kot d xs) xs (map snd es))"
  using assms
proof (induction es arbitrary: s xs)
  case (Cons e es)
  obtain a d where e: "e = (a, d)" by fastforce
  obtain s1 where s1: "ins n a d s = Inr (kot d \<notin> kot ` set xs, s1)" "contents s1 (inserted kot d xs)" "used s1 \<subseteq> insert a (used s)"
    using ins_contents [of s xs a n d] Cons.prems e by auto
  have "length (inserted kot d xs) + length es < n"
    using length_inserted [OF contents_ascending [OF Cons.prems(1)], of d] Cons.prems(4) by simp
  moreover have "distinct (map fst es)" "used s1 \<inter> fst ` set es = {}" using Cons.prems(2,3) e s1(3) by auto
  ultimately have "\<exists>s'. ins_all (ins n) es s1 = Inr s' \<and> contents s' (foldl (\<lambda>xs d. inserted kot d xs) (inserted kot d xs) (map snd es))"
    using Cons.IH [OF s1(2)] by blast
  with e s1(1) show ?case by simp
qed simp

theorem ins_all_lookup:
  assumes "contents s []" "distinct (map fst es)" "used s \<inter> fst ` set es = {}" "length es < n"
  shows "\<exists>s' xs. ins_all (ins n) es s = Inr s' \<and> contents s' xs \<and> ascending kot xs
    \<and> (\<forall>k. lookup_key kot k xs = lookup_key kot k (map snd es)) \<and> kot ` set xs = kot ` set (map snd es)"
proof -
  have fold: "lookup_key kot k (foldl (\<lambda>xs d. inserted kot d xs) xs ds) = lookup_key kot k (xs @ ds)" for k xs ds
    by (induction ds arbitrary: xs) (auto simp: lookup_inserted lookup_key_append split: option.splits)
  obtain s' where "ins_all (ins n) es s = Inr s'" "contents s' (foldl (\<lambda>xs d. inserted kot d xs) [] (map snd es))"
    using ins_all_contents [OF assms(1-3)] assms(4) by auto
  moreover define xs where "xs = foldl (\<lambda>xs d. inserted kot d xs) [] (map snd es)"
  ultimately have s': "ins_all (ins n) es s = Inr s'" "contents s' xs" by simp_all
  have l: "lookup_key kot k xs = lookup_key kot k (map snd es)" for k using fold [of k "[]" "map snd es"] xs_def by simp
  have "kot ` set xs = kot ` set (map snd es)"
  proof (rule set_eqI)
    fix k
    show "k \<in> kot ` set xs \<longleftrightarrow> k \<in> kot ` set (map snd es)"
      using l [of k] lookup_key_None [of kot k xs] lookup_key_None [of kot k "map snd es"] by metis
  qed
  with s' l contents_ascending [OF s'(2)] show ?thesis by (intro exI [of _ s'] exI [of _ xs]) simp
qed

end

end
