(* ===== verification/AVL_Tree.thy ===== *)
theory AVL_Tree
  imports Sorted_Store
begin

text \<open>
  The AVL trees of \<open>Algorithm/AVLTree.hpp\<close>: class \<open>zhc::AVLTree\<close> and class \<open>bit::AVLTree\<close>, on the
  store of nodes with balance factors. The address of a node that \<open>new\<close> allocates is an argument.
  Loops and recursions run on fuel; the lemmas give the fuel that is enough.
\<close>

section \<open>The class \<open>zhc::AVLTree\<close>\<close>

type_synonym ('k, 'v) avl = "('k \<times> 'v, int) tstate"

text \<open>The loop that looks for the place of a key: the equal node, or the last node passed.\<close>

fun avl_descend :: "nat \<Rightarrow> ('k::linorder, 'v) avl \<Rightarrow> 'k \<Rightarrow> ptr \<Rightarrow> ptr \<Rightarrow> (bool \<times> ptr) res" where
  "avl_descend 0 s k cur parent = Inl Stack_Exhausted"
| "avl_descend (Suc n) s k cur parent =
     (if cur = None then Inr (False, parent)
      else bind_res (get_node s cur) (\<lambda>c.
        if fst (n_data c) < k then avl_descend n s k (n_right c) cur
        else if fst (n_data c) > k then avl_descend n s k (n_left c) cur
        else Inr (True, cur)))"

definition avl_RotateL :: "ptr \<Rightarrow> ('k, 'v) avl \<Rightarrow> ('k, 'v) avl res" where
  "avl_RotateL parent s =
     bind_res (get_node s parent) (\<lambda>pn. let subR = n_right pn in
     bind_res (RotateL parent s) (\<lambda>s.
     bind_res (set_tag subR 0 s) (\<lambda>s. set_tag parent 0 s)))"

definition avl_RotateR :: "ptr \<Rightarrow> ('k, 'v) avl \<Rightarrow> ('k, 'v) avl res" where
  "avl_RotateR parent s =
     bind_res (get_node s parent) (\<lambda>pn. let subL = n_left pn in
     bind_res (RotateR parent s) (\<lambda>s.
     bind_res (set_tag parent 0 s) (\<lambda>s. set_tag subL 0 s)))"

definition avl_RotateLR :: "ptr \<Rightarrow> ('k, 'v) avl \<Rightarrow> ('k, 'v) avl res" where
  "avl_RotateLR parent s =
     bind_res (get_node s parent) (\<lambda>pn. let subL = n_left pn in
     bind_res (get_node s subL) (\<lambda>ln. let subLR = n_right ln in
     bind_res (get_node s subLR) (\<lambda>lrn. let bf = n_tag lrn in
     bind_res (avl_RotateL subL s) (\<lambda>s.
     bind_res (avl_RotateR parent s) (\<lambda>s.
       if bf = 0 then set_tag3 parent 0 subLR 0 subL 0 s
       else if bf = -1 then set_tag3 parent 1 subL 0 subLR 0 s
       else if bf = 1 then set_tag3 subL (-1) subLR 0 parent 0 s
       else Inl Assertion)))))"

definition avl_RotateRL :: "ptr \<Rightarrow> ('k, 'v) avl \<Rightarrow> ('k, 'v) avl res" where
  "avl_RotateRL parent s =
     bind_res (get_node s parent) (\<lambda>pn. let subR = n_right pn in
     bind_res (get_node s subR) (\<lambda>rn. let subRL = n_left rn in
     bind_res (get_node s subRL) (\<lambda>rln. let bf = n_tag rln in
     bind_res (avl_RotateR subR s) (\<lambda>s.
     bind_res (avl_RotateL parent s) (\<lambda>s.
       if bf = 1 then set_tag3 parent (-1) subR 0 subRL 0 s
       else if bf = -1 then set_tag3 parent 0 subR 1 subRL 0 s
       else if bf = 0 then set_tag3 parent 0 subR 0 subRL 0 s
       else Inl Assertion)))))"

text \<open>The choice of the rotation; the second and third conjuncts are evaluated as in the source.\<close>

definition avl_rotate :: "ptr \<Rightarrow> ptr \<Rightarrow> int \<Rightarrow> ('k, 'v) avl \<Rightarrow> ('k, 'v) avl res" where
  "avl_rotate cur parent bf s =
     bind_res (get_node s parent) (\<lambda>pn.
     bind_res (if bf = 2 then bind_res (get_node s (n_right pn)) (\<lambda>rn. Inr (n_tag rn = 1)) else Inr False) (\<lambda>c1.
       if c1 then avl_RotateL parent s
       else
         bind_res (if bf = -2 then bind_res (get_node s (n_left pn)) (\<lambda>ln. Inr (n_tag ln = -1)) else Inr False) (\<lambda>c2.
           if c2 then avl_RotateR parent s
           else
             bind_res (get_node s cur) (\<lambda>cn.
               if bf = 2 \<and> n_tag cn = -1 then avl_RotateRL parent s
               else if bf = -2 \<and> n_tag cn = 1 then avl_RotateLR parent s
               else Inl Assertion))))"

fun avl_update :: "nat \<Rightarrow> ptr \<Rightarrow> ptr \<Rightarrow> ('k, 'v) avl \<Rightarrow> ('k, 'v) avl res" where
  "avl_update 0 cur parent s = Inl Stack_Exhausted"
| "avl_update (Suc n) cur parent s =
     (if parent = None then Inr s
      else bind_res (get_node s parent) (\<lambda>pn.
        let bf = (if cur = n_left pn then n_tag pn - 1 else n_tag pn + 1) in
        bind_res (set_tag parent bf s) (\<lambda>s.
          if bf = 0 then Inr s
          else if bf = 1 \<or> bf = -1 then avl_update n parent (n_parent pn) s
          else if bf = 2 \<or> bf = -2 then avl_rotate cur parent bf s
          else Inl Assertion)))"

definition avl_attach :: "nat \<Rightarrow> 'k::linorder \<times> 'v \<Rightarrow> ptr \<Rightarrow> ('k, 'v) avl \<Rightarrow> ('k, 'v) avl res" where
  "avl_attach a kv parent s =
     (let s = alloc_node a kv 0 s in
      bind_res (get_node s parent) (\<lambda>pn.
      bind_res (if fst (n_data pn) > fst kv then set_left parent (Some a) s else set_right parent (Some a) s) (\<lambda>s.
        set_parent (Some a) parent s)))"

definition avl_insert :: "nat \<Rightarrow> nat \<Rightarrow> 'k::linorder \<times> 'v \<Rightarrow> ('k, 'v) avl \<Rightarrow> (bool \<times> ('k, 'v) avl) res" where
  "avl_insert n a kv s =
     (if t_root s = None then Inr (True, (alloc_node a kv 0 s)\<lparr>t_root := Some a\<rparr>)
      else bind_res (avl_descend n s (fst kv) (t_root s) None) (\<lambda>(found, parent).
        if found then Inr (False, s)
        else bind_res (avl_attach a kv parent s) (\<lambda>s.
             bind_res (avl_update n (Some a) parent s) (\<lambda>s. Inr (True, s)))))"

fun avl_Hight :: "nat \<Rightarrow> ('k, 'v) avl \<Rightarrow> ptr \<Rightarrow> int res" where
  "avl_Hight 0 s root = Inl Stack_Exhausted"
| "avl_Hight (Suc n) s root =
     (if root = None then Inr 0
      else bind_res (get_node s root) (\<lambda>rn.
        bind_res (avl_Hight n s (n_left rn)) (\<lambda>left.
        bind_res (avl_Hight n s (n_right rn)) (\<lambda>right.
          Inr (if left > right then left + 1 else right + 1)))))"

fun avl_IsBalance :: "nat \<Rightarrow> ('k, 'v) avl \<Rightarrow> ptr \<Rightarrow> bool res" where
  "avl_IsBalance 0 s root = Inl Stack_Exhausted"
| "avl_IsBalance (Suc n) s root =
     (if root = None then Inr True
      else bind_res (get_node s root) (\<lambda>rn.
        bind_res (avl_Hight n s (n_left rn)) (\<lambda>leftHight.
        bind_res (avl_Hight n s (n_right rn)) (\<lambda>rightHight.
          if \<not> \<bar>rightHight - leftHight\<bar> < 2 then Inr False
          else bind_res (avl_IsBalance n s (n_left rn)) (\<lambda>b.
            if \<not> b then Inr False else avl_IsBalance n s (n_right rn))))))"

text \<open>The entries \<open>_Inorder\<close> prints, in order.\<close>

fun avl_Inorder :: "nat \<Rightarrow> ('k, 'v) avl \<Rightarrow> ptr \<Rightarrow> ('k \<times> 'v) list res" where
  "avl_Inorder 0 s root = Inl Stack_Exhausted"
| "avl_Inorder (Suc n) s root =
     (if root = None then Inr []
      else bind_res (get_node s root) (\<lambda>rn.
        bind_res (avl_Inorder n s (n_left rn)) (\<lambda>xs.
        bind_res (avl_Inorder n s (n_right rn)) (\<lambda>ys. Inr (xs @ n_data rn # ys)))))"

section \<open>The class \<open>bit::AVLTree\<close>\<close>

text \<open>The search is the same code as above; the rest is written out again, with other tests.\<close>

definition bit_RotateL :: "ptr \<Rightarrow> ('k, 'v) avl \<Rightarrow> ('k, 'v) avl res" where
  "bit_RotateL parent s =
     bind_res (get_node s parent) (\<lambda>pn. let subR = n_right pn in
     bind_res (RotateL parent s) (\<lambda>s.
     bind_res (set_tag subR 0 s) (\<lambda>s. set_tag parent 0 s)))"

definition bit_RotateR :: "ptr \<Rightarrow> ('k, 'v) avl \<Rightarrow> ('k, 'v) avl res" where
  "bit_RotateR parent s =
     bind_res (get_node s parent) (\<lambda>pn. let subL = n_left pn in
     bind_res (RotateR parent s) (\<lambda>s.
     bind_res (set_tag parent 0 s) (\<lambda>s. set_tag subL 0 s)))"

definition bit_RotateLR :: "ptr \<Rightarrow> ('k, 'v) avl \<Rightarrow> ('k, 'v) avl res" where
  "bit_RotateLR parent s =
     bind_res (get_node s parent) (\<lambda>pn. let subL = n_left pn in
     bind_res (get_node s subL) (\<lambda>ln. let subLR = n_right ln in
     bind_res (get_node s subLR) (\<lambda>lrn. let bf = n_tag lrn in
     bind_res (bit_RotateL subL s) (\<lambda>s.
     bind_res (bit_RotateR parent s) (\<lambda>s.
       if bf = -1 then set_tag3 subL 0 parent 1 subLR 0 s
       else if bf = 1 then set_tag3 parent 0 subL (-1) subLR 0 s
       else if bf = 0 then set_tag3 parent 0 subL 0 subLR 0 s
       else Inl Assertion)))))"

definition bit_RotateRL :: "ptr \<Rightarrow> ('k, 'v) avl \<Rightarrow> ('k, 'v) avl res" where
  "bit_RotateRL parent s =
     bind_res (get_node s parent) (\<lambda>pn. let subR = n_right pn in
     bind_res (get_node s subR) (\<lambda>rn. let subRL = n_left rn in
     bind_res (get_node s subRL) (\<lambda>rln. let bf = n_tag rln in
     bind_res (bit_RotateR subR s) (\<lambda>s.
     bind_res (bit_RotateL parent s) (\<lambda>s.
       if bf = 1 then set_tag3 subR 0 subRL 0 parent (-1) s
       else if bf = -1 then set_tag3 subR 1 subRL 0 parent 0 s
       else if bf = 0 then set_tag3 subR 0 subRL 0 parent 0 s
       else Inl Assertion)))))"

definition bit_rotate :: "ptr \<Rightarrow> ptr \<Rightarrow> int \<Rightarrow> ('k, 'v) avl \<Rightarrow> ('k, 'v) avl res" where
  "bit_rotate cur parent bf s =
     bind_res (get_node s cur) (\<lambda>cn.
       if bf = 2 \<and> n_tag cn = 1 then bit_RotateL parent s
       else if bf = -2 \<and> n_tag cn = -1 then bit_RotateR parent s
       else if bf = -2 \<and> n_tag cn = 1 then bit_RotateLR parent s
       else if bf = 2 \<and> n_tag cn = -1 then bit_RotateRL parent s
       else Inl Assertion)"

fun bit_update :: "nat \<Rightarrow> ptr \<Rightarrow> ptr \<Rightarrow> ('k, 'v) avl \<Rightarrow> ('k, 'v) avl res" where
  "bit_update 0 cur parent s = Inl Stack_Exhausted"
| "bit_update (Suc n) cur parent s =
     (if parent = None then Inr s
      else bind_res (get_node s parent) (\<lambda>pn.
        let bf = (if cur = n_left pn then n_tag pn - 1 else n_tag pn + 1) in
        bind_res (set_tag parent bf s) (\<lambda>s.
          if bf = 0 then Inr s
          else if bf = 1 \<or> bf = -1 then bit_update n parent (n_parent pn) s
          else if bf = 2 \<or> bf = -2 then bit_rotate cur parent bf s
          else Inl Assertion)))"

definition bit_attach :: "nat \<Rightarrow> 'k::linorder \<times> 'v \<Rightarrow> ptr \<Rightarrow> ('k, 'v) avl \<Rightarrow> ('k, 'v) avl res" where
  "bit_attach a kv parent s =
     (let s = alloc_node a kv 0 s in
      bind_res (get_node s parent) (\<lambda>pn.
      bind_res (if fst (n_data pn) < fst kv then set_right parent (Some a) s else set_left parent (Some a) s) (\<lambda>s.
        set_parent (Some a) parent s)))"

definition bit_Insert :: "nat \<Rightarrow> nat \<Rightarrow> 'k::linorder \<times> 'v \<Rightarrow> ('k, 'v) avl \<Rightarrow> (bool \<times> ('k, 'v) avl) res" where
  "bit_Insert n a kv s =
     (if t_root s = None then Inr (True, (alloc_node a kv 0 s)\<lparr>t_root := Some a\<rparr>)
      else bind_res (avl_descend n s (fst kv) (t_root s) None) (\<lambda>(found, parent).
        if found then Inr (False, s)
        else bind_res (bit_attach a kv parent s) (\<lambda>s.
             bind_res (bit_update n (Some a) parent s) (\<lambda>s. Inr (True, s)))))"

fun bit_Height :: "nat \<Rightarrow> ('k, 'v) avl \<Rightarrow> ptr \<Rightarrow> int res" where
  "bit_Height 0 s root = Inl Stack_Exhausted"
| "bit_Height (Suc n) s root =
     (if root = None then Inr 0
      else bind_res (get_node s root) (\<lambda>rn.
        bind_res (bit_Height n s (n_left rn)) (\<lambda>lh.
        bind_res (bit_Height n s (n_right rn)) (\<lambda>rh.
          Inr (if lh > rh then lh + 1 else rh + 1)))))"

fun bit_IsBalance :: "nat \<Rightarrow> ('k, 'v) avl \<Rightarrow> ptr \<Rightarrow> bool res" where
  "bit_IsBalance 0 s root = Inl Stack_Exhausted"
| "bit_IsBalance (Suc n) s root =
     (if root = None then Inr True
      else bind_res (get_node s root) (\<lambda>rn.
        bind_res (bit_Height n s (n_left rn)) (\<lambda>leftHeight.
        bind_res (bit_Height n s (n_right rn)) (\<lambda>rightHeight.
          if rightHeight - leftHeight \<noteq> n_tag rn then Inr False
          else if \<not> \<bar>rightHeight - leftHeight\<bar> < 2 then Inr False
          else bind_res (bit_IsBalance n s (n_left rn)) (\<lambda>b.
            if \<not> b then Inr False else bit_IsBalance n s (n_right rn))))))"

lemma bit_simple_rotations: "bit_RotateL = avl_RotateL" "bit_RotateR = avl_RotateR"
  by (intro ext, simp add: bit_RotateL_def avl_RotateL_def bit_RotateR_def avl_RotateR_def)+

section \<open>Balanced trees\<close>

text \<open>Every balance factor is the difference of the heights and at most one in size.\<close>

fun avl :: "('d, int) tree \<Rightarrow> bool" where
  "avl Tip \<longleftrightarrow> True"
| "avl (Nd a l d bf r) \<longleftrightarrow> bf = int (ht r) - int (ht l) \<and> bf \<in> {-1, 0, 1} \<and> avl l \<and> avl r"

text \<open>A path that is balanced around a subtree of height \<open>k\<close>.\<close>

fun avl_path :: "nat \<Rightarrow> ('d, int) frame list \<Rightarrow> bool" where
  "avl_path k [] \<longleftrightarrow> True"
| "avl_path k (LF a d bf r # fs) \<longleftrightarrow>
     bf = int (ht r) - int k \<and> bf \<in> {-1, 0, 1} \<and> avl r \<and> avl_path (Suc (max k (ht r))) fs"
| "avl_path k (RF l a d bf # fs) \<longleftrightarrow>
     bf = int k - int (ht l) \<and> bf \<in> {-1, 0, 1} \<and> avl l \<and> avl_path (Suc (max (ht l) k)) fs"

lemma avl_plug: "avl (plug fs x) \<longleftrightarrow> avl x \<and> avl_path (ht x) fs"
  by (induction fs x rule: plug.induct) auto

section \<open>Rotations\<close>

lemma avl_RotateL_holds:
  assumes "holds s (Nd p x dp tp (Nd q y dq tq z)) fs"
  obtains s' where "avl_RotateL (Some p) s = Inr s'" "holds s' (Nd q (Nd p x dp 0 y) dq 0 z) fs"
proof -
  obtain s1 where 1: "RotateL (Some p) s = Inr s1" "holds s1 (Nd q (Nd p x dp tp y) dq tq z) fs"
    using RotateL_holds [OF assms] .
  obtain s2 where 2: "set_tag (Some q) 0 s1 = Inr s2" "holds s2 (Nd q (Nd p x dp tp y) dq 0 z) fs"
    using holds_set_tag [OF 1(2)] .
  have "holds s2 (Nd p x dp tp y) (LF q dq 0 z # fs)" using 2(2) by (simp add: holds_up_LF)
  then obtain s3 where 3: "set_tag (Some p) 0 s2 = Inr s3" "holds s3 (Nd p x dp 0 y) (LF q dq 0 z # fs)"
    by (rule holds_set_tag)
  have "avl_RotateL (Some p) s = Inr s3"
    using holds_get [OF assms] 1(1) 2(1) 3(1) by (simp add: avl_RotateL_def)
  with 3(2) show ?thesis by (intro that) (simp_all add: holds_up_LF)
qed

lemma avl_RotateR_holds:
  assumes "holds s (Nd p (Nd q x dq tq y) dp tp z) fs"
  obtains s' where "avl_RotateR (Some p) s = Inr s'" "holds s' (Nd q x dq 0 (Nd p y dp 0 z)) fs"
proof -
  obtain s1 where 1: "RotateR (Some p) s = Inr s1" "holds s1 (Nd q x dq tq (Nd p y dp tp z)) fs"
    using RotateR_holds [OF assms] .
  have "holds s1 (Nd p y dp tp z) (RF x q dq tq # fs)" using 1(2) by (simp add: holds_up_RF)
  then obtain s2 where 2: "set_tag (Some p) 0 s1 = Inr s2" "holds s2 (Nd p y dp 0 z) (RF x q dq tq # fs)"
    by (rule holds_set_tag)
  have "holds s2 (Nd q x dq tq (Nd p y dp 0 z)) fs" using 2(2) by (simp add: holds_up_RF)
  then obtain s3 where 3: "set_tag (Some q) 0 s2 = Inr s3" "holds s3 (Nd q x dq 0 (Nd p y dp 0 z)) fs"
    by (rule holds_set_tag)
  have "avl_RotateR (Some p) s = Inr s3"
    using holds_get [OF assms] 1(1) 2(1) 3(1) by (simp add: avl_RotateR_def)
  with 3(2) show ?thesis by (intro that) simp_all
qed

text \<open>The balance factors after a double rotation, from that of the middle node.\<close>

definition low :: "int \<Rightarrow> int" where "low bf = (if bf = 1 then -1 else 0)"
definition high :: "int \<Rightarrow> int" where "high bf = (if bf = -1 then 1 else 0)"

lemma rotate_twice_LR:
  assumes "holds s (Nd p (Nd q x dq tq (Nd m y dm tm z)) dp tp w) fs"
  obtains s1 s2 where "avl_RotateL (Some q) s = Inr s1" "avl_RotateR (Some p) s1 = Inr s2"
    "holds s2 (three q x dq 0 y m dm 0 p z dp 0 w) fs"
proof -
  have "holds s (Nd q x dq tq (Nd m y dm tm z)) (LF p dp tp w # fs)" using assms by (simp add: holds_up_LF)
  then obtain s1 where 1: "avl_RotateL (Some q) s = Inr s1" "holds s1 (Nd m (Nd q x dq 0 y) dm 0 z) (LF p dp tp w # fs)"
    by (rule avl_RotateL_holds)
  have "holds s1 (Nd p (Nd m (Nd q x dq 0 y) dm 0 z) dp tp w) fs" using 1(2) by (simp add: holds_up_LF)
  then obtain s2 where "avl_RotateR (Some p) s1 = Inr s2" "holds s2 (Nd m (Nd q x dq 0 y) dm 0 (Nd p z dp 0 w)) fs"
    by (rule avl_RotateR_holds)
  with 1(1) show ?thesis by (intro that) (simp_all add: three_def)
qed

lemma rotate_twice_RL:
  assumes "holds s (Nd p x dp tp (Nd q (Nd m y dm tm z) dq tq w)) fs"
  obtains s1 s2 where "avl_RotateR (Some q) s = Inr s1" "avl_RotateL (Some p) s1 = Inr s2"
    "holds s2 (three p x dp 0 y m dm 0 q z dq 0 w) fs"
proof -
  have "holds s (Nd q (Nd m y dm tm z) dq tq w) (RF x p dp tp # fs)" using assms by (simp add: holds_up_RF)
  then obtain s1 where 1: "avl_RotateR (Some q) s = Inr s1" "holds s1 (Nd m y dm 0 (Nd q z dq 0 w)) (RF x p dp tp # fs)"
    by (rule avl_RotateR_holds)
  have "holds s1 (Nd p x dp tp (Nd m y dm 0 (Nd q z dq 0 w))) fs" using 1(2) by (simp add: holds_up_RF)
  then obtain s2 where "avl_RotateL (Some p) s1 = Inr s2" "holds s2 (Nd m (Nd p x dp 0 y) dm 0 (Nd q z dq 0 w)) fs"
    by (rule avl_RotateL_holds)
  with 1(1) show ?thesis by (intro that) (simp_all add: three_def)
qed

lemma avl_RotateLR_holds:
  assumes h: "holds s (Nd p (Nd q x dq tq (Nd m y dm tm z)) dp tp w) fs" and tm: "tm \<in> {-1, 0, 1}"
  obtains s' where "avl_RotateLR (Some p) s = Inr s'" "bit_RotateLR (Some p) s = Inr s'"
    "holds s' (three q x dq (low tm) y m dm 0 p z dp (high tm) w) fs"
proof -
  obtain s1 s2 where r: "avl_RotateL (Some q) s = Inr s1" "avl_RotateR (Some p) s1 = Inr s2"
    "holds s2 (three q x dq 0 y m dm 0 p z dp 0 w) fs" by (rule rotate_twice_LR [OF h])
  have "get_node s (Some m) = Inr \<lparr>n_left = addr y, n_right = addr z, n_parent = Some q, n_data = dm, n_tag = tm\<rparr>"
    using h by (simp add: holds_def get_node_def)
  note g = this holds_get [OF h] holds_get_left [OF h] r(1,2)
  have a: "avl_RotateLR (Some p) s =
      (if tm = 0 then set_tag3 (Some p) 0 (Some m) 0 (Some q) 0 s2
       else if tm = -1 then set_tag3 (Some p) 1 (Some q) 0 (Some m) 0 s2
       else if tm = 1 then set_tag3 (Some q) (-1) (Some m) 0 (Some p) 0 s2 else Inl Assertion)"
    using g by (simp add: avl_RotateLR_def)
  have b: "bit_RotateLR (Some p) s =
      (if tm = -1 then set_tag3 (Some q) 0 (Some p) 1 (Some m) 0 s2
       else if tm = 1 then set_tag3 (Some p) 0 (Some q) (-1) (Some m) 0 s2
       else if tm = 0 then set_tag3 (Some p) 0 (Some q) 0 (Some m) 0 s2 else Inl Assertion)"
    using g by (simp add: bit_RotateLR_def bit_simple_rotations)
  obtain s' where s': "set_tag3 (Some q) (low tm) (Some m) 0 (Some p) (high tm) s2 = Inr s'"
    "set_tag3 (Some q) (low tm) (Some p) (high tm) (Some m) 0 s2 = Inr s'"
    "set_tag3 (Some p) (high tm) (Some m) 0 (Some q) (low tm) s2 = Inr s'"
    "set_tag3 (Some p) (high tm) (Some q) (low tm) (Some m) 0 s2 = Inr s'"
    "holds s' (three q x dq (low tm) y m dm 0 p z dp (high tm) w) fs" by (rule set_tag3_three [OF r(3)])
  show ?thesis by (rule that [of s']) (use a b s' tm in \<open>auto simp: low_def high_def\<close>)
qed

lemma avl_RotateRL_holds:
  assumes h: "holds s (Nd p x dp tp (Nd q (Nd m y dm tm z) dq tq w)) fs" and tm: "tm \<in> {-1, 0, 1}"
  obtains s' where "avl_RotateRL (Some p) s = Inr s'" "bit_RotateRL (Some p) s = Inr s'"
    "holds s' (three p x dp (low tm) y m dm 0 q z dq (high tm) w) fs"
proof -
  obtain s1 s2 where r: "avl_RotateR (Some q) s = Inr s1" "avl_RotateL (Some p) s1 = Inr s2"
    "holds s2 (three p x dp 0 y m dm 0 q z dq 0 w) fs" by (rule rotate_twice_RL [OF h])
  have "get_node s (Some m) = Inr \<lparr>n_left = addr y, n_right = addr z, n_parent = Some q, n_data = dm, n_tag = tm\<rparr>"
    using h by (simp add: holds_def get_node_def)
  note g = this holds_get [OF h] holds_get_right [OF h] r(1,2)
  have a: "avl_RotateRL (Some p) s =
      (if tm = 1 then set_tag3 (Some p) (-1) (Some q) 0 (Some m) 0 s2
       else if tm = -1 then set_tag3 (Some p) 0 (Some q) 1 (Some m) 0 s2
       else if tm = 0 then set_tag3 (Some p) 0 (Some q) 0 (Some m) 0 s2 else Inl Assertion)"
    using g by (simp add: avl_RotateRL_def)
  have b: "bit_RotateRL (Some p) s =
      (if tm = 1 then set_tag3 (Some q) 0 (Some m) 0 (Some p) (-1) s2
       else if tm = -1 then set_tag3 (Some q) 1 (Some m) 0 (Some p) 0 s2
       else if tm = 0 then set_tag3 (Some q) 0 (Some m) 0 (Some p) 0 s2 else Inl Assertion)"
    using g by (simp add: bit_RotateRL_def bit_simple_rotations)
  obtain s' where s': "set_tag3 (Some p) (low tm) (Some m) 0 (Some q) (high tm) s2 = Inr s'"
    "set_tag3 (Some p) (low tm) (Some q) (high tm) (Some m) 0 s2 = Inr s'"
    "set_tag3 (Some q) (high tm) (Some m) 0 (Some p) (low tm) s2 = Inr s'"
    "set_tag3 (Some q) (high tm) (Some p) (low tm) (Some m) 0 s2 = Inr s'"
    "holds s' (three p x dp (low tm) y m dm 0 q z dq (high tm) w) fs" by (rule set_tag3_three [OF r(3)])
  show ?thesis by (rule that [of s']) (use a b s' tm in \<open>auto simp: low_def high_def\<close>)
qed

section \<open>The way back up\<close>

text \<open>
  Restoring the balance: the subtree in focus is balanced and has grown by one level. A subtree
  that grew from a level above zero leans to one side.
\<close>

definition grown :: "nat \<Rightarrow> ('d, int) tree \<Rightarrow> bool" where
  "grown k x \<longleftrightarrow> avl x \<and> ht x = Suc k
     \<and> (case x of Tip \<Rightarrow> False | Nd a l d bf r \<Rightarrow> 0 < k \<longrightarrow> bf \<noteq> 0)"

lemma restored_plug:
  assumes "holds s' y fs" "avl y" "avl_path (ht y) fs" "inorder y = inorder x"
  shows "holds s' (plug fs y) []" "avl (plug fs y)" "inorder (plug fs y) = inorder (plug fs x)"
  using assms holds_plug plug_inorder_cong by (auto simp: avl_plug)

lemma grown_Nd:
  assumes "grown k x" "0 < k"
  obtains q l dq tq u where "x = Nd q l dq tq u" "tq = 1 \<or> tq = -1" "tq = int (ht u) - int (ht l)"
    "avl l" "avl u" "max (ht l) (ht u) = k"
  using assms by (cases x) (auto simp: grown_def)

lemma rotate_left_heavy:
  assumes h: "holds s (Nd p x d bf r) fs" and g: "grown k x" and r: "avl r" "Suc (ht r) = k" and path: "avl_path (Suc k) fs"
  obtains s' y where "avl_rotate (addr x) (Some p) (-2) s = Inr s'" "bit_rotate (addr x) (Some p) (-2) s = Inr s'"
    "holds s' y []" "avl y" "inorder y = inorder (plug fs (Nd p x d bf r))"
proof -
  obtain q l dq tq u where x: "x = Nd q l dq tq u"
    and tq: "tq = 1 \<or> tq = -1" "tq = int (ht u) - int (ht l)" "avl l" "avl u" "max (ht l) (ht u) = k"
    using grown_Nd [OF g] r(2) by blast
  note h' = h [unfolded x]
  note get = holds_get [OF h'] holds_get_left [OF h']
  from tq(1) show ?thesis
  proof
    assume one: "tq = -1"
    obtain s' where s': "avl_RotateR (Some p) s = Inr s'" "holds s' (Nd q l dq 0 (Nd p u d 0 r)) fs"
      by (rule avl_RotateR_holds [OF h'])
    have "avl (Nd q l dq 0 (Nd p u d 0 r))" "ht (Nd q l dq 0 (Nd p u d 0 r)) = Suc k" using tq r one by auto
    from restored_plug [OF s'(2) this(1), of "Nd p x d bf r"] this(2) path x
    show ?thesis
      by (intro that [of s' "plug fs (Nd q l dq 0 (Nd p u d 0 r))"])
        (use s'(1) get one x in \<open>simp_all add: avl_rotate_def bit_rotate_def bit_simple_rotations\<close>)
  next
    assume one: "tq = 1"
    then obtain m y dm tm z where u: "u = Nd m y dm tm z" using tq(2) by (cases u) auto
    have tm: "tm \<in> {-1, 0, 1}" "tm = int (ht z) - int (ht y)" "avl y" "avl z" using tq(4) u by auto
    obtain s' where s': "avl_RotateLR (Some p) s = Inr s'" "bit_RotateLR (Some p) s = Inr s'"
      "holds s' (three q l dq (low tm) y m dm 0 p z d (high tm) r) fs"
      using avl_RotateLR_holds [OF h' [unfolded u] tm(1)] .
    have "avl (three q l dq (low tm) y m dm 0 p z d (high tm) r)" "ht (three q l dq (low tm) y m dm 0 p z d (high tm) r) = Suc k"
      using tq r one u tm by (auto simp: three_def low_def high_def max_def split: if_splits)
    from restored_plug [OF s'(3) this(1), of "Nd p x d bf r"] this(2) path x u
    show ?thesis
      by (intro that [of s' "plug fs (three q l dq (low tm) y m dm 0 p z d (high tm) r)"])
        (use s'(1,2) get one x in \<open>simp_all add: avl_rotate_def bit_rotate_def three_def\<close>)
  qed
qed

lemma rotate_right_heavy:
  assumes h: "holds s (Nd p r d bf x) fs" and g: "grown k x" and r: "avl r" "Suc (ht r) = k" and path: "avl_path (Suc k) fs"
  obtains s' y where "avl_rotate (addr x) (Some p) 2 s = Inr s'" "bit_rotate (addr x) (Some p) 2 s = Inr s'"
    "holds s' y []" "avl y" "inorder y = inorder (plug fs (Nd p r d bf x))"
proof -
  obtain q l dq tq u where x: "x = Nd q l dq tq u"
    and tq: "tq = 1 \<or> tq = -1" "tq = int (ht u) - int (ht l)" "avl l" "avl u" "max (ht l) (ht u) = k"
    using grown_Nd [OF g] r(2) by blast
  note h' = h [unfolded x]
  note get = holds_get [OF h'] holds_get_right [OF h']
  from tq(1) show ?thesis
  proof
    assume one: "tq = 1"
    obtain s' where s': "avl_RotateL (Some p) s = Inr s'" "holds s' (Nd q (Nd p r d 0 l) dq 0 u) fs"
      by (rule avl_RotateL_holds [OF h'])
    have "avl (Nd q (Nd p r d 0 l) dq 0 u)" "ht (Nd q (Nd p r d 0 l) dq 0 u) = Suc k" using tq r one by auto
    from restored_plug [OF s'(2) this(1), of "Nd p r d bf x"] this(2) path x
    show ?thesis
      by (intro that [of s' "plug fs (Nd q (Nd p r d 0 l) dq 0 u)"])
        (use s'(1) get one x in \<open>simp_all add: avl_rotate_def bit_rotate_def bit_simple_rotations\<close>)
  next
    assume one: "tq = -1"
    then obtain m y dm tm z where l: "l = Nd m y dm tm z" using tq(2) by (cases l) auto
    have tm: "tm \<in> {-1, 0, 1}" "tm = int (ht z) - int (ht y)" "avl y" "avl z" using tq(3) l by auto
    obtain s' where s': "avl_RotateRL (Some p) s = Inr s'" "bit_RotateRL (Some p) s = Inr s'"
      "holds s' (three p r d (low tm) y m dm 0 q z dq (high tm) u) fs"
      using avl_RotateRL_holds [OF h' [unfolded l] tm(1)] .
    have "avl (three p r d (low tm) y m dm 0 q z dq (high tm) u)" "ht (three p r d (low tm) y m dm 0 q z dq (high tm) u) = Suc k"
      using tq r one l tm by (auto simp: three_def low_def high_def max_def split: if_splits)
    from restored_plug [OF s'(3) this(1), of "Nd p r d bf x"] this(2) path x l
    show ?thesis
      by (intro that [of s' "plug fs (three p r d (low tm) y m dm 0 q z dq (high tm) u)"])
        (use s'(1,2) get one x in \<open>simp_all add: avl_rotate_def bit_rotate_def three_def\<close>)
  qed
qed

text \<open>Both classes climb from the new leaf to the root and do the same.\<close>

definition climbs :: "nat \<Rightarrow> ('k, 'v) avl \<Rightarrow> ('k \<times> 'v, int) tree \<Rightarrow> ('k \<times> 'v, int) frame list \<Rightarrow> bool" where
  "climbs n s x fs \<longleftrightarrow> (\<exists>s' y. avl_update n (addr x) (up_ptr fs) s = Inr s' \<and> bit_update n (addr x) (up_ptr fs) s = Inr s'
     \<and> holds s' y [] \<and> avl y \<and> inorder y = inorder (plug fs x))"

lemma climbs_LF:
  assumes h: "holds s (Nd p x d bf r) fs" and g: "grown k x" and path: "avl_path k (LF p d bf r # fs)"
    and IH: "\<And>s x k. holds s x fs \<Longrightarrow> grown k x \<Longrightarrow> avl_path k fs \<Longrightarrow> climbs n s x fs"
  shows "climbs (Suc n) s x (LF p d bf r # fs)"
proof -
  have x: "avl x" "ht x = Suc k" using g by (simp_all add: grown_def)
  obtain s1 where s1: "set_tag (Some p) (bf - 1) s = Inr s1" "holds s1 (Nd p x d (bf - 1) r) fs" by (rule holds_set_tag [OF h])
  note go = holds_get [OF h] s1(1)
  consider "bf = 1" | "bf = 0" | "bf = -1" using path by auto
  then show ?thesis
  proof cases
    case 1
    then have "ht r = Suc k" using path by auto
    with 1 have "avl (Nd p x d 0 r)" "avl_path (ht (Nd p x d 0 r)) fs" using path x by auto
    with restored_plug [of s1 "Nd p x d 0 r" fs "Nd p x d bf r"] s1(2) 1
    show ?thesis unfolding climbs_def using go 1 by (intro exI [of _ s1] exI [of _ "plug fs (Nd p x d 0 r)"]) simp
  next
    case 2
    then have "grown (Suc k) (Nd p x d (-1) r)" "avl_path (Suc k) fs" using path x by (auto simp: grown_def)
    with IH [of s1 "Nd p x d (-1) r" "Suc k"] s1(2) 2 have c: "climbs n s1 (Nd p x d (-1) r) fs" by simp
    have "inorder (plug fs (Nd p x d (-1) r)) = inorder (plug fs (Nd p x d bf r))" by (rule plug_inorder_cong) simp
    with c show ?thesis unfolding climbs_def using go 2 by simp
  next
    case 3
    then have "avl r" "Suc (ht r) = k" "avl_path (Suc k) fs" using path by (auto simp: max_def split: if_splits)
    from rotate_left_heavy [OF s1(2) g this] obtain s' y where
      r: "avl_rotate (addr x) (Some p) (-2) s1 = Inr s'" "bit_rotate (addr x) (Some p) (-2) s1 = Inr s'"
      "holds s' y []" "avl y" "inorder y = inorder (plug fs (Nd p x d (bf - 1) r))" .
    have "inorder (plug fs (Nd p x d (bf - 1) r)) = inorder (plug fs (Nd p x d bf r))" by (rule plug_inorder_cong) simp
    with r show ?thesis unfolding climbs_def using go 3 by (intro exI [of _ s'] exI [of _ y]) simp
  qed
qed

lemma climbs_RF:
  assumes h: "holds s (Nd p l d bf x) fs" and g: "grown k x" and path: "avl_path k (RF l p d bf # fs)"
    and IH: "\<And>s x k. holds s x fs \<Longrightarrow> grown k x \<Longrightarrow> avl_path k fs \<Longrightarrow> climbs n s x fs"
  shows "climbs (Suc n) s x (RF l p d bf # fs)"
proof -
  have x: "avl x" "ht x = Suc k" using g by (simp_all add: grown_def)
  obtain q where q: "addr x = Some q" using x(2) by (cases x) auto
  have "addr x \<noteq> addr l" using h addr_in [OF q] addr_in [of l q] q by (auto simp: holds_def)
  moreover obtain s1 where s1: "set_tag (Some p) (bf + 1) s = Inr s1" "holds s1 (Nd p l d (bf + 1) x) fs" by (rule holds_set_tag [OF h])
  ultimately have go: "get_node s (Some p) = Inr \<lparr>n_left = addr l, n_right = addr x, n_parent = up_ptr fs, n_data = d, n_tag = bf\<rparr>"
    "addr x \<noteq> addr l" "set_tag (Some p) (bf + 1) s = Inr s1" using holds_get [OF h] by simp_all
  consider "bf = -1" | "bf = 0" | "bf = 1" using path by auto
  then show ?thesis
  proof cases
    case 1
    then have "ht l = Suc k" using path by auto
    with 1 have "avl (Nd p l d 0 x)" "avl_path (ht (Nd p l d 0 x)) fs" using path x by auto
    with restored_plug [of s1 "Nd p l d 0 x" fs "Nd p l d bf x"] s1(2) 1
    show ?thesis unfolding climbs_def using go 1 by (intro exI [of _ s1] exI [of _ "plug fs (Nd p l d 0 x)"]) simp
  next
    case 2
    then have "grown (Suc k) (Nd p l d 1 x)" "avl_path (Suc k) fs" using path x by (auto simp: grown_def)
    with IH [of s1 "Nd p l d 1 x" "Suc k"] s1(2) 2 have c: "climbs n s1 (Nd p l d 1 x) fs" by simp
    have "inorder (plug fs (Nd p l d 1 x)) = inorder (plug fs (Nd p l d bf x))" by (rule plug_inorder_cong) simp
    with c show ?thesis unfolding climbs_def using go 2 by simp
  next
    case 3
    then have "avl l" "Suc (ht l) = k" "avl_path (Suc k) fs" using path by (auto simp: max_def split: if_splits)
    from rotate_right_heavy [OF s1(2) g this] obtain s' y where
      r: "avl_rotate (addr x) (Some p) 2 s1 = Inr s'" "bit_rotate (addr x) (Some p) 2 s1 = Inr s'"
      "holds s' y []" "avl y" "inorder y = inorder (plug fs (Nd p l d (bf + 1) x))" .
    have "inorder (plug fs (Nd p l d (bf + 1) x)) = inorder (plug fs (Nd p l d bf x))" by (rule plug_inorder_cong) simp
    with r show ?thesis unfolding climbs_def using go 3 by (intro exI [of _ s'] exI [of _ y]) simp
  qed
qed

lemma update_climbs:
  "holds s x fs \<Longrightarrow> grown k x \<Longrightarrow> avl_path k fs \<Longrightarrow> length fs < n \<Longrightarrow> climbs n s x fs"
proof (induction fs arbitrary: s x k n)
  case Nil
  then obtain n' where "n = Suc n'" by (cases n) auto
  with Nil show ?case by (auto simp: climbs_def grown_def)
next
  case (Cons f fs)
  then obtain n' where n: "n = Suc n'" "length fs < n'" by (cases n) auto
  note IH = Cons.IH [OF _ _ _ n(2)]
  show ?case
  proof (cases f)
    case (LF p d bf r)
    with Cons.prems IH n(1) show ?thesis by (simp only: holds_up_LF climbs_LF)
  next
    case (RF l p d bf)
    with Cons.prems IH n(1) show ?thesis by (simp only: holds_up_RF climbs_RF)
  qed
qed

section \<open>Insertion\<close>

lemma descend_holds:
  assumes "holds s x fs" "between fst k fs" "ascending fst (inorder x)" "length (addrs x) < n"
  shows "(k \<in> fst ` set (inorder x) \<and> (\<exists>q. avl_descend n s k (addr x) (up_ptr fs) = Inr (True, q)))
    \<or> (k \<notin> fst ` set (inorder x) \<and> (\<exists>fs'. avl_descend n s k (addr x) (up_ptr fs) = Inr (False, up_ptr fs')
         \<and> between fst k fs' \<and> plug fs' Tip = plug fs x \<and> length fs' \<le> length fs + length (addrs x)))"
  using assms
proof (induction x arbitrary: fs n)
  case Tip
  then obtain n' where "n = Suc n'" by (cases n) auto
  with Tip show ?case by auto
next
  case (Nd a l d t r)
  then obtain n' where n: "n = Suc n'" by (cases n) auto
  note get = holds_get [OF Nd.prems(1)]
  have l: "holds s l (LF a d t r # fs)" and r: "holds s r (RF l a d t # fs)"
    using Nd.prems(1) by (simp_all add: holds_up_LF holds_up_RF)
  have asc: "ascending fst (inorder l)" "ascending fst (inorder r)"
    "\<forall>x \<in> set (inorder l). fst x < fst d" "\<forall>x \<in> set (inorder r). fst d < fst x"
    using Nd.prems(3) by (auto simp: sorted_wrt_append)
  consider "fst d < k" | "k < fst d" | "k = fst d" by (meson linorder_cases)
  then show ?case
  proof cases
    case 1
    then have "between fst k (RF l a d t # fs)" using Nd.prems(2) asc(3) by fastforce
    from Nd.IH(2) [OF r this asc(2), of n'] n Nd.prems(4) 1 get asc(3) show ?thesis by auto
  next
    case 2
    then have "between fst k (LF a d t r # fs)" using Nd.prems(2) asc(4) by fastforce
    from Nd.IH(1) [OF l this asc(1), of n'] n Nd.prems(4) 2 get asc(4) show ?thesis by auto
  next
    case 3
    with n get show ?thesis by auto
  qed
qed

lemma attach_holds:
  assumes "holds s Tip fs" "between fst (fst kv) fs" "fs \<noteq> []" "t_heap s a = None"
  obtains s' where "avl_attach a kv (up_ptr fs) s = Inr s'" "bit_attach a kv (up_ptr fs) s = Inr s'"
    "holds s' (Nd a Tip kv 0 Tip) fs"
proof -
  obtain f fs' where fs: "fs = f # fs'" using assms(3) by (cases fs) auto
  show ?thesis
  proof (cases f)
    case (LF p d t r)
    then have h: "holds s Tip (LF p d t r # fs')" and k: "fst kv < fst d" using assms(1,2) fs by auto
    obtain s1 s2 where 1: "set_left (Some p) (Some a) (alloc_node a kv 0 s) = Inr s1"
      "set_parent (Some a) (Some p) s1 = Inr s2" "holds s2 (Nd a Tip kv 0 Tip) (LF p d t r # fs')"
      by (rule attach_LF [OF h assms(4)])
    have "get_node (alloc_node a kv 0 s) (Some p) = get_node s (Some p)"
      using holds_fresh [OF h assms(4)] by (auto simp: get_node_def alloc_node_def)
    then have g: "get_node (alloc_node a kv 0 s) (Some p)
        = Inr \<lparr>n_left = None, n_right = addr r, n_parent = up_ptr fs', n_data = d, n_tag = t\<rparr>"
      using h by (simp add: holds_up_LF holds_get)
    show ?thesis
      by (rule that [of s2]) (use 1 k g fs LF in \<open>auto simp: avl_attach_def bit_attach_def Let_def\<close>)
  next
    case (RF l p d t)
    then have h: "holds s Tip (RF l p d t # fs')" and k: "fst d < fst kv" using assms(1,2) fs by auto
    obtain s1 s2 where 1: "set_right (Some p) (Some a) (alloc_node a kv 0 s) = Inr s1"
      "set_parent (Some a) (Some p) s1 = Inr s2" "holds s2 (Nd a Tip kv 0 Tip) (RF l p d t # fs')"
      by (rule attach_RF [OF h assms(4)])
    have "get_node (alloc_node a kv 0 s) (Some p) = get_node s (Some p)"
      using holds_fresh [OF h assms(4)] by (auto simp: get_node_def alloc_node_def)
    then have g: "get_node (alloc_node a kv 0 s) (Some p)
        = Inr \<lparr>n_left = addr l, n_right = None, n_parent = up_ptr fs', n_data = d, n_tag = t\<rparr>"
      using h by (simp add: holds_up_RF holds_get)
    show ?thesis
      by (rule that [of s2]) (use 1 k g fs RF in \<open>auto simp: avl_attach_def bit_attach_def Let_def\<close>)
  qed
qed

text \<open>The store holds a balanced search tree.\<close>

definition avl_tree :: "('k::linorder, 'v) avl \<Rightarrow> ('k \<times> 'v, int) tree \<Rightarrow> bool" where
  "avl_tree s t \<longleftrightarrow> holds s t [] \<and> avl t \<and> ascending fst (inorder t)"

lemma insert_tree:
  assumes t: "avl_tree s t" and fresh: "t_heap s a = None" and n: "length (addrs t) < n"
  obtains s' t' where "avl_insert n a kv s = Inr (fst kv \<notin> fst ` set (inorder t), s')"
    "bit_Insert n a kv s = Inr (fst kv \<notin> fst ` set (inorder t), s')"
    "avl_tree s' t'" "inorder t' = inserted fst kv (inorder t)"
proof (cases t)
  case Tip
  then have "t_root s = None" "holds s Tip []" using t by (simp_all add: avl_tree_def holds_def)
  from attach_root [OF this(2), of a kv 0] this(1) Tip show ?thesis
    by (intro that [of "(alloc_node a kv 0 s)\<lparr>t_root := Some a\<rparr>" "Nd a Tip kv 0 Tip"])
      (simp_all add: avl_insert_def bit_Insert_def avl_tree_def inserted_def insert_sorted_def)
next
  case (Nd b l d bf r)
  have h: "holds s t []" "avl t" "ascending fst (inorder t)" using t by (simp_all add: avl_tree_def)
  then have root: "t_root s = addr t" "t_root s \<noteq> None" using Nd by (simp_all add: holds_def)
  from descend_holds [OF h(1) _ h(3) n, of "fst kv"] consider
    (found) q where "fst kv \<in> fst ` set (inorder t)" "avl_descend n s (fst kv) (addr t) None = Inr (True, q)"
  | (new) fs where "fst kv \<notin> fst ` set (inorder t)" "avl_descend n s (fst kv) (addr t) None = Inr (False, up_ptr fs)"
      "between fst (fst kv) fs" "plug fs Tip = t" "length fs \<le> length (addrs t)" by auto
  then show ?thesis
  proof cases
    case found
    with root t show ?thesis
      by (intro that [of s t]) (auto simp: avl_insert_def bit_Insert_def inserted_def)
  next
    case new
    have "fs \<noteq> []" using new(4) Nd by auto
    moreover have "holds s Tip fs" using h(1) new(4) holds_plug by metis
    ultimately obtain s1 where s1: "avl_attach a kv (up_ptr fs) s = Inr s1" "bit_attach a kv (up_ptr fs) s = Inr s1"
      "holds s1 (Nd a Tip kv 0 Tip) fs" using attach_holds [OF _ new(3) _ fresh] by blast
    have "avl_path 0 fs" using h(2) new(4) avl_plug [of fs Tip] by simp
    then have "climbs n s1 (Nd a Tip kv 0 Tip) fs"
      using update_climbs [OF s1(3), of 0 n] new(5) n by (simp add: grown_def)
    then obtain s' y where y: "avl_update n (Some a) (up_ptr fs) s1 = Inr s'" "bit_update n (Some a) (up_ptr fs) s1 = Inr s'"
      "holds s' y []" "avl y" "inorder y = inorder (plug fs (Nd a Tip kv 0 Tip))" by (auto simp: climbs_def)
    have "inorder y = insert_sorted fst kv (inorder t)" using y(5) between_insert(1) [OF new(3)] new(4) by simp
    moreover from this have "avl_tree s' y" using y(3,4) ascending_insert [OF h(3), of kv] by (simp add: avl_tree_def)
    ultimately show ?thesis
      by (intro that [of s' y]) (use y(1,2) new root s1 in \<open>simp_all add: avl_insert_def bit_Insert_def inserted_def\<close>)
  qed
qed

section \<open>Height, balance and traversal\<close>

lemma Hight_holds: "tree_at (t_heap s) par t \<Longrightarrow> ht t < n \<Longrightarrow> avl_Hight n s (addr t) = Inr (int (ht t)) \<and> bit_Height n s (addr t) = Inr (int (ht t))"
proof (induction t arbitrary: par n)
  case Tip
  then obtain n' where "n = Suc n'" by (cases n) auto
  then show ?case by simp
next
  case (Nd a l d t r)
  then obtain n' where n: "n = Suc n'" by (cases n) auto
  with Nd.prems Nd.IH(1) [of "Some a" n'] Nd.IH(2) [of "Some a" n'] show ?case by (auto simp: get_node_def)
qed

lemma IsBalance_holds:
  "tree_at (t_heap s) par t \<Longrightarrow> ht t < n \<Longrightarrow> avl t \<Longrightarrow> avl_IsBalance n s (addr t) = Inr True \<and> bit_IsBalance n s (addr t) = Inr True"
proof (induction t arbitrary: par n)
  case Tip
  then obtain n' where "n = Suc n'" by (cases n) auto
  then show ?case by simp
next
  case (Nd a l d t r)
  then obtain n' where n: "n = Suc n'" by (cases n) auto
  with Nd.prems Nd.IH(1) [of "Some a" n'] Nd.IH(2) [of "Some a" n']
    Hight_holds [of s "Some a" l n'] Hight_holds [of s "Some a" r n']
  show ?case by (auto simp: get_node_def)
qed

lemma Inorder_holds: "tree_at (t_heap s) par t \<Longrightarrow> ht t < n \<Longrightarrow> avl_Inorder n s (addr t) = Inr (inorder t)"
proof (induction t arbitrary: par n)
  case Tip
  then obtain n' where "n = Suc n'" by (cases n) auto
  then show ?case by simp
next
  case (Nd a l d t r)
  then obtain n' where n: "n = Suc n'" by (cases n) auto
  with Nd.prems Nd.IH(1) [of "Some a" n'] Nd.IH(2) [of "Some a" n'] show ?case by (auto simp: get_node_def)
qed

definition avl_new :: "('k, 'v) avl" where
  "avl_new = \<lparr>t_heap = (\<lambda>_. None), t_root = None\<rparr>"

lemma avl_tree_new: "avl_tree avl_new Tip"
  by (simp add: avl_tree_def avl_new_def holds_def)

section \<open>AVL trees as sorted stores\<close>

lemma avl_Rotate_data:
  "avl_RotateL p s = Inr s' \<Longrightarrow> data_at s' = data_at s" "avl_RotateR p s = Inr s' \<Longrightarrow> data_at s' = data_at s"
  unfolding avl_RotateL_def avl_RotateR_def Let_def
  by (auto elim!: bind_res_InrE dest!: set_data Rotate_data)

lemma avl_double_data:
  "avl_RotateLR p s = Inr s' \<Longrightarrow> data_at s' = data_at s" "avl_RotateRL p s = Inr s' \<Longrightarrow> data_at s' = data_at s"
  unfolding avl_RotateLR_def avl_RotateRL_def Let_def
  by (auto elim!: bind_res_InrE split: if_splits dest!: set_tag3_data avl_Rotate_data)

lemma avl_rotate_data: "avl_rotate cur p bf s = Inr s' \<Longrightarrow> data_at s' = data_at s"
  unfolding avl_rotate_def
  by (auto elim!: bind_res_InrE split: if_splits dest!: avl_Rotate_data avl_double_data)

lemma avl_update_data: "avl_update n cur p s = Inr s' \<Longrightarrow> data_at s' = data_at s"
proof (induction n arbitrary: cur p s)
  case (Suc n)
  then show ?case
    by (auto simp: Let_def elim!: bind_res_InrE split: if_splits dest!: Suc.IH avl_rotate_data set_data)
qed simp

lemma avl_attach_data: "avl_attach a kv p s = Inr s' \<Longrightarrow> data_at s' = data_at (alloc_node a kv 0 s)"
  unfolding avl_attach_def Let_def by (auto elim!: bind_res_InrE split: if_splits dest!: set_data)

lemma avl_insert_dom:
  assumes "avl_insert n a kv s = Inr (new, s')"
  shows "dom (t_heap s') \<subseteq> insert a (dom (t_heap s))"
proof -
  consider "s' = s" | "data_at s' = data_at (alloc_node a kv 0 s)"
    using assms unfolding avl_insert_def
    by (auto elim!: bind_res_InrE split: if_splits prod.splits dest!: avl_update_data avl_attach_data)
  then show ?thesis using dom_alloc [of s' a kv 0 s] by cases auto
qed

definition avl_contents :: "('k::linorder, 'v) avl \<Rightarrow> ('k \<times> 'v) list \<Rightarrow> bool" where
  "avl_contents s xs \<longleftrightarrow> (\<exists>t. avl_tree s t \<and> inorder t = xs)"

interpretation avl: sorted_store fst avl_contents "\<lambda>s. dom (t_heap s)" avl_insert
proof unfold_locales
  fix s :: "('k::linorder, 'v) avl" and xs
  assume "avl_contents s xs"
  then show "ascending fst xs" by (auto simp: avl_contents_def avl_tree_def)
next
  fix s :: "('k::linorder, 'v) avl" and xs a n d
  assume c: "avl_contents s xs" and a: "a \<notin> dom (t_heap s)" and n: "length xs < n"
  then obtain t where t: "avl_tree s t" "inorder t = xs" by (auto simp: avl_contents_def)
  have f: "t_heap s a = None" "length (addrs t) < n" using a n t(2) length_inorder [of t] by (auto simp: dom_def)
  obtain s' t' where i: "avl_insert n a d s = Inr (fst d \<notin> fst ` set (inorder t), s')" "avl_tree s' t'"
    "inorder t' = inserted fst d (inorder t)" by (rule insert_tree [OF t(1) f])
  with avl_insert_dom [OF i(1)] t(2)
  show "\<exists>s'. avl_insert n a d s = Inr (fst d \<notin> fst ` set xs, s') \<and> avl_contents s' (inserted fst d xs)
      \<and> dom (t_heap s') \<subseteq> insert a (dom (t_heap s))"
    by (auto simp: avl_contents_def)
qed

section \<open>Properties\<close>

text \<open>
  C26. Inserting into a balanced search tree: the call never fails an assertion, never uses a null
  pointer and ends; it returns whether the key is new, and leaves the tree as it is or adds the
  entry at its place; the result is again a search tree with correct balance factors of at most
  one and correct parent pointers.
\<close>

theorem avl_insert_correct:
  assumes "avl_tree s t" "t_heap s a = None" "length (addrs t) < n"
  shows "\<exists>s' t'. avl_insert n a kv s = Inr (fst kv \<notin> fst ` set (inorder t), s') \<and> avl_tree s' t'
    \<and> inorder t' = (if fst kv \<in> fst ` set (inorder t) then inorder t
        else filter (\<lambda>x. fst x < fst kv) (inorder t) @ [kv] @ filter (\<lambda>x. fst kv < fst x) (inorder t))
    \<and> avl_IsBalance (Suc (length (addrs t'))) s' (t_root s') = Inr True
    \<and> avl_Inorder (Suc (length (addrs t'))) s' (t_root s') = Inr (inorder t')"
proof -
  obtain s' t' where i: "avl_insert n a kv s = Inr (fst kv \<notin> fst ` set (inorder t), s')"
    "avl_tree s' t'" "inorder t' = inserted fst kv (inorder t)" by (rule insert_tree [OF assms])
  have h: "tree_at (t_heap s') None t'" "t_root s' = addr t'" "avl t'" using i(2) by (simp_all add: avl_tree_def holds_def)
  have "ht t' < Suc (length (addrs t'))" using ht_addrs [of t'] by simp
  from IsBalance_holds [OF h(1) this h(3)] Inorder_holds [OF h(1) this] i h(2) show ?thesis
    by (intro exI [of _ s'] exI [of _ t']) (simp add: inserted_def insert_sorted_def)
qed

text \<open>
  C27. The two classes are interchangeable: on every balanced search tree \<open>bit::AVLTree::Insert\<close> and
  \<open>zhc::AVLTree::insert\<close> return the same answer and leave the same nodes with the same pointers and
  balance factors.
\<close>

theorem bit_Insert_agrees:
  assumes "avl_tree s t" "t_heap s a = None" "length (addrs t) < n"
  shows "bit_Insert n a kv s = avl_insert n a kv s"
proof -
  obtain s' where "avl_insert n a kv s = Inr (fst kv \<notin> fst ` set (inorder t), s')"
    "bit_Insert n a kv s = Inr (fst kv \<notin> fst ` set (inorder t), s')" by (rule insert_tree [OF assms])
  then show ?thesis by simp
qed

text \<open>The tree after inserting 3, 2, 1 (a rotation) at the addresses 10, 20, 30.\<close>

definition demo_avl :: "(int, int) avl" where
  "demo_avl = projr (ins_all (avl_insert 5) [(10, 3, 30), (20, 2, 20), (30, 1, 10)] avl_new)"

definition demo_avl_tree :: "(int \<times> int, int) tree" where
  "demo_avl_tree = Nd 20 (Nd 30 Tip (1, 10) 0 Tip) (2, 20) 0 (Nd 10 Tip (3, 30) 0 Tip)"

lemma demo_avl_ok: "avl_tree demo_avl demo_avl_tree" "t_heap demo_avl 40 = None"
  by code_simp+

theorem avl_insert_correct_witness:
  "\<exists>s' t'. avl_insert 5 40 (0, 0) demo_avl = Inr (True, s') \<and> avl_tree s' t'
     \<and> inorder t' = [(0, 0), (1, 10), (2, 20), (3, 30)]"
  using avl_insert_correct [OF demo_avl_ok, of 5 "(0, 0)"] by (auto simp: demo_avl_tree_def)

theorem bit_Insert_agrees_witness: "bit_Insert 5 40 (0, 0) demo_avl = avl_insert 5 40 (0, 0) demo_avl"
  by (rule bit_Insert_agrees [OF demo_avl_ok]) (simp add: demo_avl_tree_def)

end
