(* ===== verification/RB_Tree.thy ===== *)
theory RB_Tree
  imports Sorted_Store
begin

text \<open>
  The red-black tree of \<open>Algorithm/RBTree.hpp\<close> on the store of nodes with colours: insertion with
  recolouring and rotations, and the checking function \<open>IsRBTree\<close>. The functor \<open>KeyOFT\<close> that reads
  the key of an element is the argument \<open>kot\<close>; the address of a new node is an argument too.
\<close>

section \<open>The model\<close>

datatype Color = RED | BLACK

type_synonym 'd rb = "('d, Color) tstate"

fun rb_descend :: "('d \<Rightarrow> 'k::linorder) \<Rightarrow> nat \<Rightarrow> 'd rb \<Rightarrow> 'k \<Rightarrow> ptr \<Rightarrow> ptr \<Rightarrow> (bool \<times> ptr) res" where
  "rb_descend kot 0 s k cur parent = Inl Stack_Exhausted"
| "rb_descend kot (Suc n) s k cur parent =
     (if cur = None then Inr (False, parent)
      else bind_res (get_node s cur) (\<lambda>c.
        if kot (n_data c) > k then rb_descend kot n s k (n_left c) cur
        else if kot (n_data c) < k then rb_descend kot n s k (n_right c) cur
        else Inr (True, cur)))"

definition rb_attach :: "('d \<Rightarrow> 'k::linorder) \<Rightarrow> nat \<Rightarrow> 'd \<Rightarrow> ptr \<Rightarrow> 'd rb \<Rightarrow> 'd rb res" where
  "rb_attach kot a d parent s =
     (let s = alloc_node a d RED s in
      bind_res (get_node s parent) (\<lambda>pn.
      bind_res (if kot (n_data pn) > kot d then set_left parent (Some a) s else set_right parent (Some a) s) (\<lambda>s.
        set_parent (Some a) parent s)))"

text \<open>Whether a pointer is not null and leads to a red node.\<close>

definition is_red :: "'d rb \<Rightarrow> ptr \<Rightarrow> bool res" where
  "is_red s p = (if p = None then Inr False else bind_res (get_node s p) (\<lambda>n. Inr (n_tag n = RED)))"

text \<open>The loop that repairs two red nodes in a row.\<close>

fun rb_fix :: "nat \<Rightarrow> ptr \<Rightarrow> ptr \<Rightarrow> 'd rb \<Rightarrow> 'd rb res" where
  "rb_fix 0 cur parent s = Inl Stack_Exhausted"
| "rb_fix (Suc n) cur parent s =
     bind_res (is_red s parent) (\<lambda>red.
       if \<not> red then Inr s
       else
         bind_res (get_node s parent) (\<lambda>pn. let grandfater = n_parent pn in
           if grandfater = None then Inl Assertion
           else
             bind_res (get_node s grandfater) (\<lambda>gn.
               if n_left gn = parent then
                 (let uncle = n_right gn in
                  bind_res (is_red s uncle) (\<lambda>ured.
                    if ured then
                      bind_res (set_tag3 uncle BLACK parent BLACK grandfater RED s) (\<lambda>s.
                      bind_res (get_node s grandfater) (\<lambda>gn. rb_fix n grandfater (n_parent gn) s))
                    else if n_left pn = cur then
                      bind_res (RotateR grandfater s) (\<lambda>s. set_tag3 parent BLACK grandfater RED cur RED s)
                    else
                      bind_res (RotateL parent s) (\<lambda>s.
                      bind_res (RotateR grandfater s) (\<lambda>s. set_tag3 cur BLACK grandfater RED parent RED s))))
               else if n_right gn = parent then
                 (let uncle = n_left gn in
                  bind_res (is_red s uncle) (\<lambda>ured.
                    if ured then
                      bind_res (set_tag3 parent BLACK uncle BLACK grandfater RED s) (\<lambda>s.
                      bind_res (get_node s grandfater) (\<lambda>gn. rb_fix n grandfater (n_parent gn) s))
                    else if n_right pn = cur then
                      bind_res (RotateL grandfater s) (\<lambda>s. set_tag3 parent BLACK grandfater RED cur RED s)
                    else
                      bind_res (RotateR parent s) (\<lambda>s.
                      bind_res (RotateL grandfater s) (\<lambda>s. set_tag3 cur BLACK grandfater RED parent RED s))))
               else Inl Assertion)))"

text \<open>The result is the position of the element with the key, whether it is new, and the tree.\<close>

definition rb_insert :: "('d \<Rightarrow> 'k::linorder) \<Rightarrow> nat \<Rightarrow> nat \<Rightarrow> 'd \<Rightarrow> 'd rb \<Rightarrow> (ptr \<times> bool \<times> 'd rb) res" where
  "rb_insert kot n a d s =
     (if t_root s = None then
        bind_res (set_tag (Some a) BLACK ((alloc_node a d RED s)\<lparr>t_root := Some a\<rparr>)) (\<lambda>s. Inr (Some a, True, s))
      else bind_res (rb_descend kot n s (kot d) (t_root s) None) (\<lambda>(found, p).
        if found then Inr (p, False, s)
        else bind_res (rb_attach kot a d p s) (\<lambda>s.
             bind_res (rb_fix n (Some a) p s) (\<lambda>s.
             bind_res (set_tag (t_root s) BLACK s) (\<lambda>s. Inr (Some a, True, s))))))"

fun rb_left_blacks :: "nat \<Rightarrow> 'd rb \<Rightarrow> ptr \<Rightarrow> int \<Rightarrow> int res" where
  "rb_left_blacks 0 s left ref = Inl Stack_Exhausted"
| "rb_left_blacks (Suc n) s left ref =
     (if left = None then Inr ref
      else bind_res (get_node s left) (\<lambda>ln.
        rb_left_blacks n s (n_left ln) (if n_tag ln = BLACK then ref + 1 else ref)))"

fun rb_check :: "nat \<Rightarrow> 'd rb \<Rightarrow> ptr \<Rightarrow> int \<Rightarrow> int \<Rightarrow> bool res" where
  "rb_check 0 s root BlackNum ref = Inl Stack_Exhausted"
| "rb_check (Suc n) s root BlackNum ref =
     (if root = None then Inr (\<not> BlackNum \<noteq> ref)
      else bind_res (get_node s root) (\<lambda>rn.
        bind_res (if n_tag rn = RED then bind_res (get_node s (n_parent rn)) (\<lambda>pn. Inr (n_tag pn = RED)) else Inr False) (\<lambda>two.
          if two then Inr False
          else
            let BlackNum = (if n_tag rn = BLACK then BlackNum + 1 else BlackNum) in
            bind_res (rb_check n s (n_left rn) BlackNum ref) (\<lambda>b.
              if \<not> b then Inr False else rb_check n s (n_right rn) BlackNum ref))))"

definition IsRBTree :: "nat \<Rightarrow> 'd rb \<Rightarrow> bool res" where
  "IsRBTree n s =
     (if t_root s = None then Inr True
      else bind_res (get_node s (t_root s)) (\<lambda>rn.
        if n_tag rn = RED then Inr False
        else bind_res (rb_left_blacks n s (t_root s) 0) (\<lambda>ref. rb_check n s (t_root s) 0 ref)))"

section \<open>Red-black trees\<close>

fun color :: "('d, Color) tree \<Rightarrow> Color" where
  "color Tip = BLACK"
| "color (Nd a l d c r) = c"

abbreviation black_one :: "Color \<Rightarrow> nat" where
  "black_one c \<equiv> (if c = BLACK then 1 else 0)"

fun bh :: "('d, Color) tree \<Rightarrow> nat" where
  "bh Tip = 0"
| "bh (Nd a l d c r) = bh l + black_one c"

fun invc :: "('d, Color) tree \<Rightarrow> bool" where
  "invc Tip \<longleftrightarrow> True"
| "invc (Nd a l d c r) \<longleftrightarrow> invc l \<and> invc r \<and> (c = RED \<longrightarrow> color l = BLACK \<and> color r = BLACK)"

fun invh :: "('d, Color) tree \<Rightarrow> bool" where
  "invh Tip \<longleftrightarrow> True"
| "invh (Nd a l d c r) \<longleftrightarrow> invh l \<and> invh r \<and> bh l = bh r"

text \<open>A path around a subtree of black height \<open>k\<close>.\<close>

fun path_h :: "nat \<Rightarrow> ('d, Color) frame list \<Rightarrow> bool" where
  "path_h k [] \<longleftrightarrow> True"
| "path_h k (LF a d c r # fs) \<longleftrightarrow> invh r \<and> bh r = k \<and> path_h (k + black_one c) fs"
| "path_h k (RF l a d c # fs) \<longleftrightarrow> invh l \<and> bh l = k \<and> path_h (k + black_one c) fs"

fun frame_color :: "('d, Color) frame \<Rightarrow> Color" where
  "frame_color (LF a d c r) = c"
| "frame_color (RF l a d c) = c"

text \<open>Red frames have a black sibling subtree and a black frame above, so the root is black.\<close>

definition black_above :: "('d, Color) frame list \<Rightarrow> bool" where
  "black_above fs \<longleftrightarrow> (case fs of [] \<Rightarrow> False | f # _ \<Rightarrow> frame_color f = BLACK)"

fun path_c :: "('d, Color) frame list \<Rightarrow> bool" where
  "path_c [] \<longleftrightarrow> True"
| "path_c (LF a d c r # fs) \<longleftrightarrow> invc r \<and> (c = RED \<longrightarrow> color r = BLACK \<and> black_above fs) \<and> path_c fs"
| "path_c (RF l a d c # fs) \<longleftrightarrow> invc l \<and> (c = RED \<longrightarrow> color l = BLACK \<and> black_above fs) \<and> path_c fs"

lemma plug_invh: "invh (plug fs x) \<longleftrightarrow> invh x \<and> path_h (bh x) fs"
  by (induction fs x rule: plug.induct) auto

lemma plug_invc:
  "invc x \<Longrightarrow> path_c fs \<Longrightarrow> (color x = RED \<Longrightarrow> fs = [] \<or> black_above fs) \<Longrightarrow> invc (plug fs x)"
proof (induction fs x rule: plug.induct)
  case (2 a d t r fs x)
  then show ?case by (cases t; cases "color x") (auto simp: black_above_def)
next
  case (3 l a d t fs x)
  then show ?case by (cases t; cases "color x") (auto simp: black_above_def)
qed simp

text \<open>The other direction, for a tree with a black root.\<close>

lemma unplug_invc:
  "invc (plug fs x) \<Longrightarrow> color (plug fs x) = BLACK \<Longrightarrow> invc x \<and> path_c fs \<and> (color x = RED \<longrightarrow> black_above fs)"
proof (induction fs x rule: plug.induct)
  case (2 a d t r fs x)
  then show ?case by (cases t; cases "color x") (auto simp: black_above_def)
next
  case (3 l a d t fs x)
  then show ?case by (cases t; cases "color x") (auto simp: black_above_def)
qed simp

section \<open>Repairing\<close>

lemma is_red_holds: "tree_at (t_heap s) par x \<Longrightarrow> is_red s (addr x) = Inr (color x = RED)"
  by (cases x) (auto simp: is_red_def get_node_def)

text \<open>What the loop achieves from a red subtree in focus.\<close>

definition repairs :: "nat \<Rightarrow> 'd rb \<Rightarrow> ('d, Color) tree \<Rightarrow> ('d, Color) frame list \<Rightarrow> bool" where
  "repairs n s x fs \<longleftrightarrow> (\<exists>s' y. rb_fix n (addr x) (up_ptr fs) s = Inr s' \<and> holds s' y []
     \<and> inorder y = inorder (plug fs x) \<and> invc y \<and> invh y)"

lemma repairsI:
  assumes "rb_fix n (addr x) (up_ptr fs) s = Inr s'" "holds s' y fs'" "inorder (plug fs' y) = inorder (plug fs x)"
    and "invc y" "path_c fs'" "color y = BLACK" "invh y" "path_h (bh y) fs'"
  shows "repairs n s x fs"
  unfolding repairs_def using assms holds_plug plug_invc [of y fs'] plug_invh [of fs' y] by (metis Color.distinct(1))

lemma repairs_recur:
  assumes "rb_fix (Suc n) (addr x) (up_ptr fs) s = rb_fix n (addr y) (up_ptr fs') s'" "repairs n s' y fs'"
    and "inorder (plug fs' y) = inorder (plug fs x)"
  shows "repairs (Suc n) s x fs"
  using assms unfolding repairs_def by metis

text \<open>The parent is red and a left child; the grandparent is then black.\<close>

lemma repair_left:
  assumes h: "holds s (Nd g (Nd p l dp RED r) dg BLACK u) fs"
    and x: "(x = l \<and> f = LF p dp RED r) \<or> (x = r \<and> f = RF l p dp RED)" "x = Nd a xl d RED xr"
    and inv: "invc x" "path_c (f # LF g dg BLACK u # fs)" "invh x" "path_h (bh x) (f # LF g dg BLACK u # fs)"
    and IH: "\<And>s x. holds s x fs \<Longrightarrow> color x = RED \<Longrightarrow> invc x \<Longrightarrow> path_c fs \<Longrightarrow> invh x \<Longrightarrow> path_h (bh x) fs \<Longrightarrow> repairs n s x fs"
  shows "repairs (Suc n) s x (f # LF g dg BLACK u # fs)"
proof -
  have gp: "get_node s (Some p) = Inr \<lparr>n_left = addr l, n_right = addr r, n_parent = Some g, n_data = dp, n_tag = RED\<rparr>"
    using holds_get_left [OF h] .
  have gg: "get_node s (Some g) = Inr \<lparr>n_left = Some p, n_right = addr u, n_parent = up_ptr fs, n_data = dg, n_tag = BLACK\<rparr>"
    using holds_get [OF h] by simp
  have red: "is_red s (Some p) = Inr True" "is_red s (addr u) = Inr (color u = RED)"
    using is_red_holds [of s "Some g" "Nd p l dp RED r"] is_red_holds [of s "Some g" u] h by (simp_all add: holds_def)
  have up: "up_ptr (f # LF g dg BLACK u # fs) = Some p" "addr x = Some a" using x by auto
  show ?thesis
  proof (cases "color u = RED")
    case True
    then obtain ua ul du ur where u: "u = Nd ua ul du RED ur" by (cases u) auto
    have "holds s (three p l dp RED r g dg BLACK ua ul du RED ur) fs" using h u by (simp add: three_def)
    then obtain s1 where s1: "set_tag3 (Some ua) BLACK (Some p) BLACK (Some g) RED s = Inr s1"
      "holds s1 (three p l dp BLACK r g dg RED ua ul du BLACK ur) fs" by (rule set_tag3_three)
    let ?y = "three p l dp BLACK r g dg RED ua ul du BLACK ur"
    have "repairs n s1 ?y fs"
      by (rule IH) (use s1(2) inv x u in \<open>auto simp: three_def\<close>)
    moreover have "rb_fix (Suc n) (addr x) (Some p) s = rb_fix n (addr ?y) (up_ptr fs) s1"
      using gp gg red True s1(1) u holds_get [OF s1(2) [unfolded three_def]] by (simp add: three_def)
    moreover have "inorder (plug fs ?y) = inorder (plug (f # LF g dg BLACK u # fs) x)"
      using x u by (auto simp: three_def intro!: plug_inorder_cong)
    ultimately show ?thesis using repairs_recur up by metis
  next
    case False
    then have ub: "color u = BLACK" using Color.exhaust by blast
    from x(1) show ?thesis
    proof
      assume xl: "x = l \<and> f = LF p dp RED r"
      obtain s1 where s1: "RotateR (Some g) s = Inr s1" "holds s1 (Nd p l dp RED (Nd g r dg BLACK u)) fs"
        by (rule RotateR_holds [OF h])
      have "holds s1 (three a xl d RED xr p dp RED g r dg BLACK u) fs" using s1(2) xl x(2) by (simp add: three_def)
      then obtain s2 where s2: "set_tag3 (Some p) BLACK (Some g) RED (Some a) RED s1 = Inr s2"
        "holds s2 (three a xl d RED xr p dp BLACK g r dg RED u) fs" by (rule set_tag3_three)
      show ?thesis
        by (rule repairsI [OF _ s2(2)])
          (use gp gg red ub s1(1) s2(1) up xl x(2) inv in \<open>auto simp: three_def intro!: plug_inorder_cong\<close>)
    next
      assume xr: "x = r \<and> f = RF l p dp RED"
      then have ne: "addr l \<noteq> Some a" using h x(2) addr_in [of l a] by (auto simp: holds_def)
      have "holds s (Nd p l dp RED (Nd a xl d RED xr)) (LF g dg BLACK u # fs)" using h xr x(2) by (simp add: holds_up_LF)
      then obtain s1 where s1: "RotateL (Some p) s = Inr s1" "holds s1 (Nd a (Nd p l dp RED xl) d RED xr) (LF g dg BLACK u # fs)"
        by (rule RotateL_holds)
      then have "holds s1 (Nd g (Nd a (Nd p l dp RED xl) d RED xr) dg BLACK u) fs" by (simp add: holds_up_LF)
      then obtain s2 where s2: "RotateR (Some g) s1 = Inr s2" "holds s2 (Nd a (Nd p l dp RED xl) d RED (Nd g xr dg BLACK u)) fs"
        by (rule RotateR_holds)
      then have "holds s2 (three p l dp RED xl a d RED g xr dg BLACK u) fs" by (simp add: three_def)
      then obtain s3 where s3: "set_tag3 (Some a) BLACK (Some g) RED (Some p) RED s2 = Inr s3"
        "holds s3 (three p l dp RED xl a d BLACK g xr dg RED u) fs" by (rule set_tag3_three)
      show ?thesis
        by (rule repairsI [OF _ s3(2)])
          (use gp gg red ub ne s1(1) s2(1) s3(1) up xr x(2) inv in \<open>auto simp: three_def intro!: plug_inorder_cong\<close>)
    qed
  qed
qed

lemma repair_right:
  assumes h: "holds s (Nd g u dg BLACK (Nd p l dp RED r)) fs"
    and x: "(x = l \<and> f = LF p dp RED r) \<or> (x = r \<and> f = RF l p dp RED)" "x = Nd a xl d RED xr"
    and inv: "invc x" "path_c (f # RF u g dg BLACK # fs)" "invh x" "path_h (bh x) (f # RF u g dg BLACK # fs)"
    and IH: "\<And>s x. holds s x fs \<Longrightarrow> color x = RED \<Longrightarrow> invc x \<Longrightarrow> path_c fs \<Longrightarrow> invh x \<Longrightarrow> path_h (bh x) fs \<Longrightarrow> repairs n s x fs"
  shows "repairs (Suc n) s x (f # RF u g dg BLACK # fs)"
proof -
  have gp: "get_node s (Some p) = Inr \<lparr>n_left = addr l, n_right = addr r, n_parent = Some g, n_data = dp, n_tag = RED\<rparr>"
    using holds_get_right [OF h] .
  have gg: "get_node s (Some g) = Inr \<lparr>n_left = addr u, n_right = Some p, n_parent = up_ptr fs, n_data = dg, n_tag = BLACK\<rparr>"
    using holds_get [OF h] by simp
  have red: "is_red s (Some p) = Inr True" "is_red s (addr u) = Inr (color u = RED)"
    using is_red_holds [of s "Some g" "Nd p l dp RED r"] is_red_holds [of s "Some g" u] h by (simp_all add: holds_def)
  have neu: "addr u \<noteq> Some p" using h addr_in [of u p] by (auto simp: holds_def)
  have up: "up_ptr (f # RF u g dg BLACK # fs) = Some p" "addr x = Some a" using x by auto
  show ?thesis
  proof (cases "color u = RED")
    case True
    then obtain ua ul du ur where u: "u = Nd ua ul du RED ur" by (cases u) auto
    have "holds s (three ua ul du RED ur g dg BLACK p l dp RED r) fs" using h u by (simp add: three_def)
    then obtain s1 where s1: "set_tag3 (Some p) BLACK (Some ua) BLACK (Some g) RED s = Inr s1"
      "holds s1 (three ua ul du BLACK ur g dg RED p l dp BLACK r) fs" by (rule set_tag3_three)
    let ?y = "three ua ul du BLACK ur g dg RED p l dp BLACK r"
    have "repairs n s1 ?y fs"
      by (rule IH) (use s1(2) inv x u in \<open>auto simp: three_def\<close>)
    moreover have "rb_fix (Suc n) (addr x) (Some p) s = rb_fix n (addr ?y) (up_ptr fs) s1"
      using gp gg red neu True s1(1) u holds_get [OF s1(2) [unfolded three_def]] by (simp add: three_def)
    moreover have "inorder (plug fs ?y) = inorder (plug (f # RF u g dg BLACK # fs) x)"
      using x u by (auto simp: three_def intro!: plug_inorder_cong)
    ultimately show ?thesis using repairs_recur up by metis
  next
    case False
    then have ub: "color u = BLACK" using Color.exhaust by blast
    from x(1) show ?thesis
    proof
      assume xr: "x = r \<and> f = RF l p dp RED"
      obtain s1 where s1: "RotateL (Some g) s = Inr s1" "holds s1 (Nd p (Nd g u dg BLACK l) dp RED r) fs"
        by (rule RotateL_holds [OF h])
      have "holds s1 (three g u dg BLACK l p dp RED a xl d RED xr) fs" using s1(2) xr x(2) by (simp add: three_def)
      then obtain s2 where s2: "set_tag3 (Some p) BLACK (Some g) RED (Some a) RED s1 = Inr s2"
        "holds s2 (three g u dg RED l p dp BLACK a xl d RED xr) fs" by (rule set_tag3_three)
      show ?thesis
        by (rule repairsI [OF _ s2(2)])
          (use gp gg red neu ub s1(1) s2(1) up xr x(2) inv in \<open>auto simp: three_def intro!: plug_inorder_cong\<close>)
    next
      assume xl: "x = l \<and> f = LF p dp RED r"
      then have ne: "addr r \<noteq> Some a" using h x(2) addr_in [of r a] by (auto simp: holds_def)
      have "holds s (Nd p (Nd a xl d RED xr) dp RED r) (RF u g dg BLACK # fs)" using h xl x(2) by (simp add: holds_up_RF)
      then obtain s1 where s1: "RotateR (Some p) s = Inr s1" "holds s1 (Nd a xl d RED (Nd p xr dp RED r)) (RF u g dg BLACK # fs)"
        by (rule RotateR_holds)
      then have "holds s1 (Nd g u dg BLACK (Nd a xl d RED (Nd p xr dp RED r))) fs" by (simp add: holds_up_RF)
      then obtain s2 where s2: "RotateL (Some g) s1 = Inr s2" "holds s2 (Nd a (Nd g u dg BLACK xl) d RED (Nd p xr dp RED r)) fs"
        by (rule RotateL_holds)
      then have "holds s2 (three g u dg BLACK xl a d RED p xr dp RED r) fs" by (simp add: three_def)
      then obtain s3 where s3: "set_tag3 (Some a) BLACK (Some g) RED (Some p) RED s2 = Inr s3"
        "holds s3 (three g u dg RED xl a d BLACK p xr dp RED r) fs" by (rule set_tag3_three)
      show ?thesis
        by (rule repairsI [OF _ s3(2)])
          (use gp gg red neu ub ne s1(1) s2(1) s3(1) up xl x(2) inv in \<open>auto simp: three_def intro!: plug_inorder_cong\<close>)
    qed
  qed
qed

lemma repairs_all:
  "holds s x fs \<Longrightarrow> color x = RED \<Longrightarrow> invc x \<Longrightarrow> path_c fs \<Longrightarrow> invh x \<Longrightarrow> path_h (bh x) fs \<Longrightarrow> length fs < n
    \<Longrightarrow> repairs n s x fs"
proof (induction n arbitrary: s x fs)
  case (Suc n)
  obtain a xl d xr where x: "x = Nd a xl d RED xr" using Suc.prems(2) by (cases x) auto
  show ?case
  proof (cases fs)
    case Nil
    with Suc.prems show ?thesis by (auto simp: repairs_def is_red_def)
  next
    case (Cons f fs1)
    have pr: "is_red s (up_ptr fs) = Inr (frame_color f = RED)"
      using Suc.prems(1) Cons by (cases f) (auto simp: holds_def is_red_def get_node_def)
    show ?thesis
    proof (cases "frame_color f")
      case BLACK
      then have "black_above fs" using Cons by (simp add: black_above_def)
      with Suc.prems have "invc (plug fs x)" "invh (plug fs x)" using plug_invc plug_invh by blast+
      moreover have "holds s (plug fs x) []" using Suc.prems(1) holds_plug by blast
      ultimately show ?thesis using pr BLACK unfolding repairs_def by (intro exI [of _ s] exI [of _ "plug fs x"]) simp
    next
      case RED
      then have "black_above fs1" using Suc.prems(4) Cons by (cases f) auto
      then obtain g fs2 where fs1: "fs1 = g # fs2" "frame_color g = BLACK" by (auto simp: black_above_def split: list.splits)
      have len: "length fs2 < n" using Suc.prems(7) Cons fs1 by simp
      note IH = Suc.IH [OF _ _ _ _ _ _ len]
      obtain l p dp r where f: "(x = l \<and> f = LF p dp RED r) \<or> (x = r \<and> f = RF l p dp RED)" "plug [f] x = Nd p l dp RED r"
        using RED by (cases f) auto
      then have h1: "holds s (Nd p l dp RED r) (g # fs2)"
        using Suc.prems(1) Cons fs1 by (auto simp: holds_up_LF holds_up_RF)
      show ?thesis
      proof (cases g)
        case (LF ga dg c u)
        with h1 fs1 have "holds s (Nd ga (Nd p l dp RED r) dg BLACK u) fs2" by (simp add: holds_up_LF)
        from repair_left [OF this f(1) x] Suc.prems IH Cons fs1 LF show ?thesis by auto
      next
        case (RF u ga dg c)
        with h1 fs1 have "holds s (Nd ga u dg BLACK (Nd p l dp RED r)) fs2" by (simp add: holds_up_RF)
        from repair_right [OF this f(1) x] Suc.prems IH Cons fs1 RF show ?thesis by auto
      qed
    qed
  qed
qed simp

section \<open>Insertion\<close>

lemma rb_descend_holds:
  assumes "holds s x fs" "between kot k fs" "ascending kot (inorder x)" "length (addrs x) < n"
  shows "(\<exists>q d. rb_descend kot n s k (addr x) (up_ptr fs) = Inr (True, Some q) \<and> d \<in> set (inorder x) \<and> kot d = k
           \<and> (\<exists>nd. t_heap s q = Some nd \<and> n_data nd = d))
    \<or> (k \<notin> kot ` set (inorder x) \<and> (\<exists>fs'. rb_descend kot n s k (addr x) (up_ptr fs) = Inr (False, up_ptr fs')
         \<and> between kot k fs' \<and> plug fs' Tip = plug fs x \<and> length fs' \<le> length fs + length (addrs x)))"
  using assms
proof (induction x arbitrary: fs n)
  case Tip
  then obtain n' where "n = Suc n'" by (cases n) auto
  with Tip show ?case by auto
next
  case (Nd a l d t r)
  then obtain n' where n: "n = Suc n'" by (cases n) auto
  note get = holds_get [OF Nd.prems(1)]
  have l: "holds s l (LF a d t r # fs)" and r: "holds s r (RF l a d t # fs)"
    using Nd.prems(1) by (simp_all add: holds_up_LF holds_up_RF)
  have asc: "ascending kot (inorder l)" "ascending kot (inorder r)"
    "\<forall>x \<in> set (inorder l). kot x < kot d" "\<forall>x \<in> set (inorder r). kot d < kot x"
    using Nd.prems(3) by (auto simp: sorted_wrt_append)
  consider "kot d < k" | "k < kot d" | "kot d = k" by (meson linorder_cases)
  then show ?case
  proof cases
    case 1
    then have "between kot k (RF l a d t # fs)" using Nd.prems(2) asc(3) by fastforce
    from Nd.IH(2) [OF r this asc(2), of n'] n Nd.prems(4) 1 get asc(3) show ?thesis by auto
  next
    case 2
    then have "between kot k (LF a d t r # fs)" using Nd.prems(2) asc(4) by fastforce
    from Nd.IH(1) [OF l this asc(1), of n'] n Nd.prems(4) 2 get asc(4) show ?thesis by auto
  next
    case 3
    moreover have "t_heap s a = Some \<lparr>n_left = addr l, n_right = addr r, n_parent = up_ptr fs, n_data = d, n_tag = t\<rparr>"
      using Nd.prems(1) by (simp add: holds_def)
    ultimately show ?thesis using n get by auto
  qed
qed

lemma rb_attach_holds:
  assumes "holds s Tip fs" "between kot (kot d) fs" "fs \<noteq> []" "t_heap s a = None"
  obtains s' where "rb_attach kot a d (up_ptr fs) s = Inr s'" "holds s' (Nd a Tip d RED Tip) fs"
proof -
  obtain f fs' where fs: "fs = f # fs'" using assms(3) by (cases fs) auto
  have old: "get_node (alloc_node a d RED s) (Some p) = get_node s (Some p)" if "p \<in> set (path_addrs fs)" for p
    using holds_fresh [OF assms(1,4)] that by (auto simp: get_node_def alloc_node_def)
  show ?thesis
  proof (cases f)
    case (LF p dp t r)
    then have h: "holds s Tip (LF p dp t r # fs')" and k: "kot d < kot dp" using assms(1,2) fs by auto
    obtain s1 s2 where 1: "set_left (Some p) (Some a) (alloc_node a d RED s) = Inr s1"
      "set_parent (Some a) (Some p) s1 = Inr s2" "holds s2 (Nd a Tip d RED Tip) (LF p dp t r # fs')"
      by (rule attach_LF [OF h assms(4)])
    have "get_node (alloc_node a d RED s) (Some p) = Inr \<lparr>n_left = None, n_right = addr r, n_parent = up_ptr fs', n_data = dp, n_tag = t\<rparr>"
      using h old [of p] fs LF by (simp add: holds_up_LF holds_get)
    with 1 k fs LF show ?thesis by (intro that [of s2]) (auto simp: rb_attach_def Let_def)
  next
    case (RF l p dp t)
    then have h: "holds s Tip (RF l p dp t # fs')" and k: "kot dp < kot d" using assms(1,2) fs by auto
    obtain s1 s2 where 1: "set_right (Some p) (Some a) (alloc_node a d RED s) = Inr s1"
      "set_parent (Some a) (Some p) s1 = Inr s2" "holds s2 (Nd a Tip d RED Tip) (RF l p dp t # fs')"
      by (rule attach_RF [OF h assms(4)])
    have "get_node (alloc_node a d RED s) (Some p) = Inr \<lparr>n_left = addr l, n_right = None, n_parent = up_ptr fs', n_data = dp, n_tag = t\<rparr>"
      using h old [of p] fs RF by (simp add: holds_up_RF holds_get)
    with 1 k fs RF show ?thesis by (intro that [of s2]) (auto simp: rb_attach_def Let_def)
  qed
qed

text \<open>The store holds a red-black search tree.\<close>

definition rb_tree :: "('d \<Rightarrow> 'k::linorder) \<Rightarrow> 'd rb \<Rightarrow> ('d, Color) tree \<Rightarrow> bool" where
  "rb_tree kot s t \<longleftrightarrow> holds s t [] \<and> color t = BLACK \<and> invc t \<and> invh t \<and> ascending kot (inorder t)"

lemma rb_fix_data: "rb_fix n cur parent s = Inr s' \<Longrightarrow> data_at s' = data_at s"
proof (induction n arbitrary: cur parent s)
  case (Suc n)
  then show ?case
    by (auto simp: Let_def elim!: bind_res_InrE split: if_splits dest!: Suc.IH Rotate_data set_tag3_data)
qed simp

lemma rb_attach_data: "rb_attach kot a d p s = Inr s' \<Longrightarrow> data_at s' (Some a) = Some d"
  unfolding rb_attach_def Let_def
  by (auto elim!: bind_res_InrE split: if_splits dest!: set_data)

lemma rb_tree_blacken:
  assumes "holds s y []" "invc y" "invh y" "ascending kot (inorder y)" "y \<noteq> Tip"
  obtains s' t where "set_tag (t_root s) BLACK s = Inr s'" "rb_tree kot s' t" "inorder t = inorder y"
    "\<And>p. data_at s' p = data_at s p"
proof -
  obtain a l d c r where y: "y = Nd a l d c r" using assms(5) by (cases y) auto
  have root: "t_root s = Some a" using assms(1) y by (simp add: holds_def)
  obtain s' where s': "set_tag (Some a) BLACK s = Inr s'" "holds s' (Nd a l d BLACK r) []"
    using assms(1) unfolding y by (rule holds_set_tag)
  have "data_at s' p = data_at s p" for p
    using s'(1) by (auto simp: data_at_def set_tag_def put_node_def split: option.splits)
  with s' root y assms show ?thesis by (intro that [of s' "Nd a l d BLACK r"]) (auto simp: rb_tree_def)
qed

lemma rb_insert_tree:
  assumes t: "rb_tree kot s t" and fresh: "t_heap s a = None" and n: "length (addrs t) < n"
  obtains p new s' t' d' where "rb_insert kot n a d s = Inr (p, new, s')" "new \<longleftrightarrow> kot d \<notin> kot ` set (inorder t)"
    "rb_tree kot s' t'" "inorder t' = (if new then insert_sorted kot d (inorder t) else inorder t)"
    "data_at s' p = Some d'" "kot d' = kot d" "new \<longrightarrow> p = Some a \<and> d' = d"
proof (cases t)
  case Tip
  then have root: "t_root s = None" "holds s Tip []" using t by (simp_all add: rb_tree_def holds_def)
  obtain s1 where s1: "set_tag (Some a) BLACK ((alloc_node a d RED s)\<lparr>t_root := Some a\<rparr>) = Inr s1"
    "holds s1 (Nd a Tip d BLACK Tip) []" by (rule holds_set_tag [OF attach_root [OF root(2), of a d RED]])
  have "data_at s1 (Some a) = Some d"
    using set_data(4) [OF s1(1)] by (simp add: data_at_def alloc_node_def node_new_def)
  then show ?thesis
    by (intro that [of "Some a" True s1 "Nd a Tip d BLACK Tip" d])
      (use root(1) Tip s1 in \<open>simp_all add: rb_insert_def rb_tree_def insert_sorted_def\<close>)
next
  case (Nd b l db c r)
  have h: "holds s t []" "invc t" "invh t" "color t = BLACK" "ascending kot (inorder t)" using t by (simp_all add: rb_tree_def)
  then have root: "t_root s = addr t" "t_root s \<noteq> None" using Nd by (simp_all add: holds_def)
  from rb_descend_holds [OF h(1) _ h(5) n, of "kot d"] consider
    (found) q d' nd where "rb_descend kot n s (kot d) (addr t) None = Inr (True, Some q)" "d' \<in> set (inorder t)" "kot d' = kot d"
      "t_heap s q = Some nd" "n_data nd = d'"
  | (new) fs where "kot d \<notin> kot ` set (inorder t)" "rb_descend kot n s (kot d) (addr t) None = Inr (False, up_ptr fs)"
      "between kot (kot d) fs" "plug fs Tip = t" "length fs \<le> length (addrs t)" by auto
  then show ?thesis
  proof cases
    case found
    have "kot d \<in> kot ` set (inorder t)" using imageI [OF found(2), of kot] found(3) by simp
    then show ?thesis
      by (intro that [of "Some q" False s t d'])
        (use root t found in \<open>simp_all add: rb_insert_def data_at_def\<close>)
  next
    case new
    have "fs \<noteq> []" using new(4) Nd by auto
    moreover have "holds s Tip fs" using h(1) new(4) holds_plug by metis
    ultimately obtain s1 where s1: "rb_attach kot a d (up_ptr fs) s = Inr s1" "holds s1 (Nd a Tip d RED Tip) fs"
      using rb_attach_holds [OF _ new(3) _ fresh] by blast
    have "path_c fs" "path_h 0 fs" using unplug_invc [of fs Tip] plug_invh [of fs Tip] h new(4) by auto
    then have "repairs n s1 (Nd a Tip d RED Tip) fs"
      using repairs_all [OF s1(2), of n] new(5) n by simp
    then obtain s2 y where y: "rb_fix n (Some a) (up_ptr fs) s1 = Inr s2" "holds s2 y []" "invc y" "invh y"
      "inorder y = inorder (plug fs (Nd a Tip d RED Tip))" by (auto simp: repairs_def)
    have yi: "inorder y = insert_sorted kot d (inorder t)" using y(5) between_insert(1) [OF new(3)] new(4) by simp
    then have "y \<noteq> Tip" by (auto simp: insert_sorted_def)
    then obtain s3 t' where s3: "set_tag (t_root s2) BLACK s2 = Inr s3" "rb_tree kot s3 t'" "inorder t' = inorder y"
      "\<And>p. data_at s3 p = data_at s2 p"
      using rb_tree_blacken [OF y(2-4)] yi ascending_insert [OF h(5)] by metis
    have "data_at s3 (Some a) = Some d" using s3(4) rb_fix_data [OF y(1)] rb_attach_data [OF s1(1)] by simp
    then show ?thesis
      by (intro that [of "Some a" True s3 t' d])
        (use root new(1,2) s1(1) y(1) s3(1,2,3) yi in \<open>simp_all add: rb_insert_def\<close>)
  qed
qed

section \<open>The checking function\<close>

lemma rb_left_blacks_holds:
  "tree_at (t_heap s) par t \<Longrightarrow> ht t < n \<Longrightarrow> rb_left_blacks n s (addr t) ref = Inr (ref + int (bh t))"
proof (induction t arbitrary: par n ref)
  case Tip
  then obtain n' where "n = Suc n'" by (cases n) auto
  then show ?case by simp
next
  case (Nd a l d t r)
  then obtain n' where n: "n = Suc n'" by (cases n) auto
  with Nd.prems Nd.IH(1) [of "Some a" n'] show ?case by (auto simp: get_node_def)
qed

lemma rb_check_holds:
  assumes "tree_at (t_heap s) par t" "ht t < n" "invc t" "invh t"
    and "color t = RED \<longrightarrow> (\<exists>p nd. par = Some p \<and> t_heap s p = Some nd \<and> n_tag nd = BLACK)"
  shows "rb_check n s (addr t) num (num + int (bh t)) = Inr True"
  using assms
proof (induction t arbitrary: par n num)
  case Tip
  then obtain n' where "n = Suc n'" by (cases n) auto
  then show ?case by simp
next
  case (Nd a l d t r)
  then obtain n' where n: "n = Suc n'" by (cases n) auto
  let ?num = "if t = BLACK then num + 1 else num"
  have sub: "color l = RED \<longrightarrow> (\<exists>p nd. Some a = Some p \<and> t_heap s p = Some nd \<and> n_tag nd = BLACK)"
    "color r = RED \<longrightarrow> (\<exists>p nd. Some a = Some p \<and> t_heap s p = Some nd \<and> n_tag nd = BLACK)"
    using Nd.prems(1,3) by (cases t; auto)+
  have "rb_check n' s (addr l) ?num (?num + int (bh l)) = Inr True"
    by (rule Nd.IH(1) [OF _ _ _ _ sub(1)]) (use Nd.prems n in simp_all)
  moreover have "rb_check n' s (addr r) ?num (?num + int (bh r)) = Inr True"
    by (rule Nd.IH(2) [OF _ _ _ _ sub(2)]) (use Nd.prems n in simp_all)
  moreover have "?num + int (bh l) = num + int (bh (Nd a l d t r))" "bh r = bh l" using Nd.prems(4) by auto
  ultimately show ?case using Nd.prems(1,5) n by (cases t) (auto simp: get_node_def Let_def add.assoc)
qed

lemma IsRBTree_holds:
  assumes "rb_tree kot s t"
  shows "IsRBTree (Suc (length (addrs t))) s = Inr True"
proof (cases t)
  case (Nd a l d c r)
  have h: "tree_at (t_heap s) None t" "t_root s = addr t" "invc t" "invh t" "color t = BLACK"
    using assms by (simp_all add: rb_tree_def holds_def)
  have n: "ht t < Suc (length (addrs t))" using ht_addrs [of t] by simp
  have "get_node s (addr t) = Inr \<lparr>n_left = addr l, n_right = addr r, n_parent = None, n_data = d, n_tag = BLACK\<rparr>"
    using h Nd by (simp add: get_node_def)
  moreover have "addr t \<noteq> None" using Nd by simp
  moreover have "rb_left_blacks (Suc (length (addrs t))) s (addr t) 0 = Inr (int (bh t))"
    using rb_left_blacks_holds [OF h(1) n, of 0] by (simp del: rb_left_blacks.simps)
  moreover have "rb_check (Suc (length (addrs t))) s (addr t) 0 (int (bh t)) = Inr True"
    using rb_check_holds [OF h(1) n h(3,4), of 0] h(5) by (simp del: rb_check.simps)
  ultimately show ?thesis
    unfolding IsRBTree_def h(2) by (simp del: rb_check.simps rb_left_blacks.simps addr_None)
qed (use assms in \<open>simp add: IsRBTree_def rb_tree_def holds_def\<close>)

section \<open>Red-black trees as sorted stores\<close>

lemma rb_attach_data_all: "rb_attach kot a d p s = Inr s' \<Longrightarrow> data_at s' = data_at (alloc_node a d RED s)"
  unfolding rb_attach_def Let_def by (auto elim!: bind_res_InrE split: if_splits dest!: set_data)

lemma rb_insert_dom:
  assumes "rb_insert kot n a d s = Inr (p, new, s')"
  shows "dom (t_heap s') \<subseteq> insert a (dom (t_heap s))"
proof -
  consider "s' = s" | "data_at s' = data_at (alloc_node a d RED s)"
    using assms unfolding rb_insert_def
    by (auto elim!: bind_res_InrE split: if_splits prod.splits dest!: rb_fix_data rb_attach_data_all set_data)
  then show ?thesis using dom_alloc [of s' a d RED s] by cases auto
qed

text \<open>Insertion without the position it returns.\<close>

definition rb_add :: "('d \<Rightarrow> 'k::linorder) \<Rightarrow> nat \<Rightarrow> nat \<Rightarrow> 'd \<Rightarrow> 'd rb \<Rightarrow> (bool \<times> 'd rb) res" where
  "rb_add kot n a d s = bind_res (rb_insert kot n a d s) (\<lambda>(_, new, s). Inr (new, s))"

definition rb_contents :: "('d \<Rightarrow> 'k::linorder) \<Rightarrow> 'd rb \<Rightarrow> 'd list \<Rightarrow> bool" where
  "rb_contents kot s xs \<longleftrightarrow> (\<exists>t. rb_tree kot s t \<and> inorder t = xs)"

interpretation rb: sorted_store kot "rb_contents kot" "\<lambda>s. dom (t_heap s)" "rb_add kot"
  for kot :: "'d \<Rightarrow> 'k::linorder"
proof unfold_locales
  fix s :: "'d rb" and xs
  assume "rb_contents kot s xs"
  then show "ascending kot xs" by (auto simp: rb_contents_def rb_tree_def)
next
  fix s :: "'d rb" and xs a n d
  assume c: "rb_contents kot s xs" and a: "a \<notin> dom (t_heap s)" and n: "length xs < n"
  then obtain t where t: "rb_tree kot s t" "inorder t = xs" by (auto simp: rb_contents_def)
  have f: "t_heap s a = None" "length (addrs t) < n" using a n t(2) length_inorder [of t] by (auto simp: dom_def)
  obtain p new s' t' where i: "rb_insert kot n a d s = Inr (p, new, s')" "new \<longleftrightarrow> kot d \<notin> kot ` set (inorder t)" "rb_tree kot s' t'"
    "inorder t' = (if new then insert_sorted kot d (inorder t) else inorder t)"
    by (rule rb_insert_tree [OF t(1) f])
  with rb_insert_dom [OF i(1)] t(2)
  show "\<exists>s'. rb_add kot n a d s = Inr (kot d \<notin> kot ` set xs, s') \<and> rb_contents kot s' (inserted kot d xs)
      \<and> dom (t_heap s') \<subseteq> insert a (dom (t_heap s))"
    by (auto simp: rb_contents_def rb_add_def inserted_def)
qed

section \<open>Properties\<close>

text \<open>
  C13. Inserting into a red-black search tree: the call never fails its assertion, never uses a null
  pointer and ends. It returns whether the key is new and the position of the element with that
  key. The tree stays as it is or gains the element at its place in the order, and the result is
  again a red-black search tree with correct parent pointers, which \<open>IsRBTree\<close> confirms.
\<close>

theorem rb_insert_correct:
  assumes "rb_tree kot s t" "t_heap s a = None" "length (addrs t) < n"
  shows "\<exists>p new s' t' d'. rb_insert kot n a d s = Inr (p, new, s') \<and> (new \<longleftrightarrow> kot d \<notin> kot ` set (inorder t))
    \<and> rb_tree kot s' t'
    \<and> inorder t' = (if new then filter (\<lambda>x. kot x < kot d) (inorder t) @ [d] @ filter (\<lambda>x. kot d < kot x) (inorder t)
                    else inorder t)
    \<and> data_at s' p = Some d' \<and> kot d' = kot d \<and> (new \<longrightarrow> d' = d)
    \<and> IsRBTree (Suc (length (addrs t'))) s' = Inr True"
proof -
  obtain p new s' t' d' where i: "rb_insert kot n a d s = Inr (p, new, s')" "new \<longleftrightarrow> kot d \<notin> kot ` set (inorder t)"
    "rb_tree kot s' t'" "inorder t' = (if new then insert_sorted kot d (inorder t) else inorder t)"
    "data_at s' p = Some d'" "kot d' = kot d" "new \<longrightarrow> p = Some a \<and> d' = d" by (rule rb_insert_tree [OF assms])
  then show ?thesis
    using IsRBTree_holds [OF i(3)]
    by (intro exI [of _ p] exI [of _ new] exI [of _ s'] exI [of _ t'] exI [of _ d']) (simp add: insert_sorted_def)
qed

definition rb_new :: "'d rb" where
  "rb_new = \<lparr>t_heap = (\<lambda>_. None), t_root = None\<rparr>"

lemma rb_tree_new: "rb_tree kot rb_new Tip"
  by (simp add: rb_tree_def rb_new_def holds_def)

text \<open>The tree after inserting 3, 1, 2 (a double rotation) at the addresses 10, 20, 30.\<close>

definition demo_rb :: "int rb" where
  "demo_rb = projr (ins_all (rb_add (\<lambda>x. x) 5) [(10, 3), (20, 1), (30, 2)] rb_new)"

definition demo_rb_tree :: "(int, Color) tree" where
  "demo_rb_tree = Nd 30 (Nd 20 Tip 1 RED Tip) 2 BLACK (Nd 10 Tip 3 RED Tip)"

lemma demo_rb_ok: "rb_tree (\<lambda>x. x) demo_rb demo_rb_tree" "t_heap demo_rb 40 = None"
  by code_simp+

theorem rb_insert_correct_witness:
  "\<exists>p s' t'. rb_insert (\<lambda>x. x) 5 40 7 demo_rb = Inr (p, True, s') \<and> rb_tree (\<lambda>x. x) s' t' \<and> inorder t' = [1, 2, 3, 7]"
proof -
  obtain p new s' t' d' where "rb_insert (\<lambda>x. x) 5 40 7 demo_rb = Inr (p, new, s')" "new \<longleftrightarrow> 7 \<notin> set (inorder demo_rb_tree)"
    "rb_tree (\<lambda>x. x) s' t'" "inorder t' = (if new then filter (\<lambda>x. x < 7) (inorder demo_rb_tree) @ [7]
      @ filter (\<lambda>x. 7 < x) (inorder demo_rb_tree) else inorder demo_rb_tree)"
    using rb_insert_correct [OF demo_rb_ok, of 5 7] by (auto simp: demo_rb_tree_def)
  then show ?thesis by (auto simp: demo_rb_tree_def)
qed

end
