(* ===== verification/RB_Iter.thy ===== *)
theory RB_Iter
  imports RB_Tree
begin

text \<open>
  The iterators of \<open>Algorithm/RBTree.hpp\<close>: \<open>begin\<close>, \<open>rbegin\<close>, the steps of the forward and of the
  reverse iterator through the parent pointers, and the loops a client writes with them. An
  iterator is its node pointer, the end is null.
\<close>

section \<open>The model\<close>

text \<open>The loops that run down one side.\<close>

fun go_left :: "nat \<Rightarrow> 'd rb \<Rightarrow> ptr \<Rightarrow> ptr res" where
  "go_left 0 s left = Inl Stack_Exhausted"
| "go_left (Suc n) s left =
     (if left = None then Inr None
      else bind_res (get_node s left) (\<lambda>ln. if n_left ln = None then Inr left else go_left n s (n_left ln)))"

fun go_right :: "nat \<Rightarrow> 'd rb \<Rightarrow> ptr \<Rightarrow> ptr res" where
  "go_right 0 s right = Inl Stack_Exhausted"
| "go_right (Suc n) s right =
     (if right = None then Inr None
      else bind_res (get_node s right) (\<lambda>rn. if n_right rn = None then Inr right else go_right n s (n_right rn)))"

text \<open>The loops that climb while the node is a right (left) child.\<close>

fun climb_right :: "nat \<Rightarrow> 'd rb \<Rightarrow> ptr \<Rightarrow> ptr \<Rightarrow> ptr res" where
  "climb_right 0 s parent cur = Inl Stack_Exhausted"
| "climb_right (Suc n) s parent cur =
     (if parent = None then Inr None
      else bind_res (get_node s parent) (\<lambda>pn.
        if n_right pn = cur
        then bind_res (get_node s cur) (\<lambda>cn. climb_right n s (n_parent pn) (n_parent cn))
        else Inr parent))"

fun climb_left :: "nat \<Rightarrow> 'd rb \<Rightarrow> ptr \<Rightarrow> ptr \<Rightarrow> ptr res" where
  "climb_left 0 s parent cur = Inl Stack_Exhausted"
| "climb_left (Suc n) s parent cur =
     (if parent = None then Inr None
      else bind_res (get_node s parent) (\<lambda>pn.
        if n_left pn = cur
        then bind_res (get_node s cur) (\<lambda>cn. climb_left n s (n_parent pn) (n_parent cn))
        else Inr parent))"

definition rb_begin :: "nat \<Rightarrow> 'd rb \<Rightarrow> ptr res" where
  "rb_begin n s = go_left n s (t_root s)"

definition rb_end :: ptr where
  "rb_end = None"

definition rb_rbegin :: "nat \<Rightarrow> 'd rb \<Rightarrow> ptr res" where
  "rb_rbegin n s = go_right n s (t_root s)"

definition rb_rend :: ptr where
  "rb_rend = None"

definition iter_deref :: "'d rb \<Rightarrow> ptr \<Rightarrow> 'd res" where
  "iter_deref s p = bind_res (get_node s p) (\<lambda>x. Inr (n_data x))"

definition iter_inc :: "nat \<Rightarrow> 'd rb \<Rightarrow> ptr \<Rightarrow> ptr res" where
  "iter_inc n s p =
     bind_res (get_node s p) (\<lambda>x.
       if n_right x \<noteq> None then go_left n s (n_right x) else climb_right n s (n_parent x) p)"

definition iter_dec :: "nat \<Rightarrow> 'd rb \<Rightarrow> ptr \<Rightarrow> ptr res" where
  "iter_dec n s p =
     bind_res (get_node s p) (\<lambda>x.
       if n_left x \<noteq> None then go_right n s (n_left x) else climb_left n s (n_parent x) p)"

definition riter_inc :: "nat \<Rightarrow> 'd rb \<Rightarrow> ptr \<Rightarrow> ptr res" where
  "riter_inc n s p =
     bind_res (get_node s p) (\<lambda>x.
       if n_left x \<noteq> None then go_right n s (n_left x) else climb_left n s (n_parent x) p)"

text \<open>\<open>for (it = first; it != end; ++it)\<close>, collecting \<open>*it\<close>.\<close>

fun traverse :: "('d rb \<Rightarrow> ptr \<Rightarrow> ptr res) \<Rightarrow> nat \<Rightarrow> 'd rb \<Rightarrow> ptr \<Rightarrow> 'd list res" where
  "traverse inc 0 s p = Inl Stack_Exhausted"
| "traverse inc (Suc m) s p =
     (if p = rb_end then Inr []
      else bind_res (iter_deref s p) (\<lambda>d.
           bind_res (inc s p) (\<lambda>q.
           bind_res (traverse inc m s q) (\<lambda>ds. Inr (d # ds)))))"

section \<open>Positions in order\<close>

fun inaddrs :: "('d, 't) tree \<Rightarrow> nat list" where
  "inaddrs Tip = []"
| "inaddrs (Nd a l d t r) = inaddrs l @ a # inaddrs r"

definition first_of :: "nat list \<Rightarrow> ptr" where
  "first_of xs = (case xs of [] \<Rightarrow> None | a # _ \<Rightarrow> Some a)"

lemma first_of_simps [simp]: "first_of [] = None" "first_of (a # xs) = Some a"
  by (simp_all add: first_of_def)

lemma first_of_append [simp]: "xs \<noteq> [] \<Longrightarrow> first_of (xs @ ys) = first_of xs"
  by (cases xs) simp_all

lemma inaddrs_empty [simp]: "inaddrs x = [] \<longleftrightarrow> x = Tip"
  by (cases x) simp_all

text \<open>The positions after the subtree in focus, and those before it, from near to far.\<close>

fun after :: "('d, 't) frame list \<Rightarrow> nat list" where
  "after [] = []"
| "after (LF a d t r # fs) = a # inaddrs r @ after fs"
| "after (RF l a d t # fs) = after fs"

fun before :: "('d, 't) frame list \<Rightarrow> nat list" where
  "before [] = []"
| "before (LF a d t r # fs) = before fs"
| "before (RF l a d t # fs) = a # rev (inaddrs l) @ before fs"

lemma go_left_holds:
  "tree_at (t_heap s) par x \<Longrightarrow> ht x < n \<Longrightarrow> go_left n s (addr x) = Inr (first_of (inaddrs x))"
proof (induction x arbitrary: par n)
  case Tip
  then obtain n' where "n = Suc n'" by (cases n) auto
  then show ?case by simp
next
  case (Nd a l d t r)
  then obtain n' where n: "n = Suc n'" by (cases n) auto
  with Nd.prems Nd.IH(1) [of "Some a" n'] show ?case by (cases "l = Tip") (auto simp: get_node_def)
qed

lemma go_right_holds:
  "tree_at (t_heap s) par x \<Longrightarrow> ht x < n \<Longrightarrow> go_right n s (addr x) = Inr (first_of (rev (inaddrs x)))"
proof (induction x arbitrary: par n)
  case Tip
  then obtain n' where "n = Suc n'" by (cases n) auto
  then show ?case by simp
next
  case (Nd a l d t r)
  then obtain n' where n: "n = Suc n'" by (cases n) auto
  with Nd.prems Nd.IH(2) [of "Some a" n'] show ?case by (cases "r = Tip") (auto simp: get_node_def)
qed

lemma climb_right_holds:
  "holds s x fs \<Longrightarrow> x \<noteq> Tip \<Longrightarrow> length fs < n \<Longrightarrow> climb_right n s (up_ptr fs) (addr x) = Inr (first_of (after fs))"
proof (induction fs arbitrary: x n)
  case Nil
  then obtain n' where "n = Suc n'" by (cases n) auto
  then show ?case by simp
next
  case (Cons f fs)
  then obtain n' where n: "n = Suc n'" "length fs < n'" by (cases n) auto
  obtain a l d t r where x: "x = Nd a l d t r" using Cons.prems(2) by (cases x) auto
  show ?case
  proof (cases f)
    case (LF p dp tp u)
    with Cons.prems(1) x have h: "holds s (Nd p (Nd a l d t r) dp tp u) fs" by (simp add: holds_up_LF)
    then have "addr u \<noteq> Some a" using addr_in [of u a] by (auto simp: holds_def)
    with holds_get [OF h] n LF x show ?thesis by simp
  next
    case (RF u p dp tp)
    with Cons.prems(1) x have h: "holds s (Nd p u dp tp (Nd a l d t r)) fs" by (simp add: holds_up_RF)
    from Cons.IH [OF h _ n(2)] holds_get [OF h] holds_get_right [OF h] n RF x show ?thesis by simp
  qed
qed

lemma climb_left_holds:
  "holds s x fs \<Longrightarrow> x \<noteq> Tip \<Longrightarrow> length fs < n \<Longrightarrow> climb_left n s (up_ptr fs) (addr x) = Inr (first_of (before fs))"
proof (induction fs arbitrary: x n)
  case Nil
  then obtain n' where "n = Suc n'" by (cases n) auto
  then show ?case by simp
next
  case (Cons f fs)
  then obtain n' where n: "n = Suc n'" "length fs < n'" by (cases n) auto
  obtain a l d t r where x: "x = Nd a l d t r" using Cons.prems(2) by (cases x) auto
  show ?case
  proof (cases f)
    case (RF u p dp tp)
    with Cons.prems(1) x have h: "holds s (Nd p u dp tp (Nd a l d t r)) fs" by (simp add: holds_up_RF)
    then have "addr u \<noteq> Some a" using addr_in [of u a] by (auto simp: holds_def)
    with holds_get [OF h] n RF x show ?thesis by simp
  next
    case (LF p dp tp u)
    with Cons.prems(1) x have h: "holds s (Nd p (Nd a l d t r) dp tp u) fs" by (simp add: holds_up_LF)
    from Cons.IH [OF h _ n(2)] holds_get [OF h] holds_get_left [OF h] n LF x show ?thesis by simp
  qed
qed

section \<open>Steps and traversals\<close>

text \<open>Fuel that is enough for every loop of a step.\<close>

definition enough :: "nat \<Rightarrow> ('d, 't) tree \<Rightarrow> ('d, 't) frame list \<Rightarrow> bool" where
  "enough n x fs \<longleftrightarrow> length fs + ht x < n"

lemma iter_inc_holds:
  assumes "holds s (Nd a l d t r) fs" "enough n (Nd a l d t r) fs"
  shows "iter_inc n s (Some a) = Inr (first_of (inaddrs r @ after fs))"
proof (cases "r = Tip")
  case True
  with climb_right_holds [OF assms(1), of n] holds_get [OF assms(1)] assms(2) show ?thesis
    by (simp add: iter_inc_def enough_def)
next
  case False
  have "tree_at (t_heap s) (Some a) r" "ht r < n" using assms by (auto simp: holds_def enough_def)
  from go_left_holds [OF this] holds_get [OF assms(1)] False show ?thesis by (simp add: iter_inc_def)
qed

lemma iter_dec_holds:
  assumes "holds s (Nd a l d t r) fs" "enough n (Nd a l d t r) fs"
  shows "iter_dec n s (Some a) = Inr (first_of (rev (inaddrs l) @ before fs))"
proof (cases "l = Tip")
  case True
  with climb_left_holds [OF assms(1), of n] holds_get [OF assms(1)] assms(2) show ?thesis
    by (simp add: iter_dec_def enough_def)
next
  case False
  have "tree_at (t_heap s) (Some a) l" "ht l < n" using assms by (auto simp: holds_def enough_def)
  from go_right_holds [OF this] holds_get [OF assms(1)] False show ?thesis by (simp add: iter_dec_def)
qed

lemma enough_sub:
  "enough n (Nd a l d t r) fs \<Longrightarrow> enough n l (LF a d t r # fs)" "enough n (Nd a l d t r) fs \<Longrightarrow> enough n r (RF l a d t # fs)"
  by (auto simp: enough_def)

lemma traverse_inc:
  "holds s x fs \<Longrightarrow> enough n x fs \<Longrightarrow>
   traverse (iter_inc n) (length (inorder x) + m) s (first_of (inaddrs x @ after fs))
   = bind_res (traverse (iter_inc n) m s (first_of (after fs))) (\<lambda>ys. Inr (inorder x @ ys))"
proof (induction x arbitrary: fs m)
  case Tip
  then show ?case by (cases "traverse (iter_inc n) m s (first_of (after fs))") simp_all
next
  case (Nd a l d t r)
  let ?T = "\<lambda>m. traverse (iter_inc n) m s"
  have l: "holds s l (LF a d t r # fs)" and r: "holds s r (RF l a d t # fs)"
    using Nd.prems(1) by (simp_all add: holds_up_LF holds_up_RF)
  note sub = enough_sub [OF Nd.prems(2)]
  have "?T (Suc (length (inorder r) + m)) (Some a) =
      bind_res (?T (length (inorder r) + m) (first_of (inaddrs r @ after fs))) (\<lambda>ys. Inr (d # ys))"
    using holds_get [OF Nd.prems(1)] iter_inc_holds [OF Nd.prems] by (simp add: iter_deref_def rb_end_def)
  also have "\<dots> = bind_res (?T m (first_of (after fs))) (\<lambda>ys. Inr (d # inorder r @ ys))"
    using Nd.IH(2) [OF r sub(2), of m] by (simp add: bind_res_assoc)
  finally have "?T (Suc (length (inorder r) + m)) (Some a) = bind_res (?T m (first_of (after fs))) (\<lambda>ys. Inr (d # inorder r @ ys))" .
  with Nd.IH(1) [OF l sub(1), of "Suc (length (inorder r) + m)"] show ?case
    by (simp add: bind_res_assoc add.assoc)
qed

lemma riter_inc_eq: "riter_inc = iter_dec"
  by (intro ext) (simp add: riter_inc_def iter_dec_def)

lemma traverse_rinc:
  "holds s x fs \<Longrightarrow> enough n x fs \<Longrightarrow>
   traverse (riter_inc n) (length (inorder x) + m) s (first_of (rev (inaddrs x) @ before fs))
   = bind_res (traverse (riter_inc n) m s (first_of (before fs))) (\<lambda>ys. Inr (rev (inorder x) @ ys))"
proof (induction x arbitrary: fs m)
  case Tip
  then show ?case by (cases "traverse (riter_inc n) m s (first_of (before fs))") simp_all
next
  case (Nd a l d t r)
  let ?T = "\<lambda>m. traverse (riter_inc n) m s"
  have l: "holds s l (LF a d t r # fs)" and r: "holds s r (RF l a d t # fs)"
    using Nd.prems(1) by (simp_all add: holds_up_LF holds_up_RF)
  note sub = enough_sub [OF Nd.prems(2)]
  have "?T (Suc (length (inorder l) + m)) (Some a) =
      bind_res (?T (length (inorder l) + m) (first_of (rev (inaddrs l) @ before fs))) (\<lambda>ys. Inr (d # ys))"
    using holds_get [OF Nd.prems(1)] iter_dec_holds [OF Nd.prems] by (simp add: iter_deref_def rb_end_def riter_inc_eq)
  also have "\<dots> = bind_res (?T m (first_of (before fs))) (\<lambda>ys. Inr (d # rev (inorder l) @ ys))"
    using Nd.IH(1) [OF l sub(1), of m] by (simp add: bind_res_assoc)
  finally have "?T (Suc (length (inorder l) + m)) (Some a) = bind_res (?T m (first_of (before fs))) (\<lambda>ys. Inr (d # rev (inorder l) @ ys))" .
  with Nd.IH(2) [OF r sub(2), of "Suc (length (inorder l) + m)"] show ?case
    by (simp add: bind_res_assoc add_ac)
qed

lemma traverse_both:
  assumes "rb_tree kot s t" "length (addrs t) < n"
  shows "bind_res (rb_begin n s) (traverse (iter_inc n) n s) = Inr (inorder t)
    \<and> bind_res (rb_rbegin n s) (traverse (riter_inc n) n s) = Inr (rev (inorder t))
    \<and> ascending kot (inorder t)"
proof -
  have h: "holds s t []" "ascending kot (inorder t)" using assms(1) by (simp_all add: rb_tree_def)
  then have at: "tree_at (t_heap s) None t" "t_root s = addr t" by (simp_all add: holds_def)
  have ht: "ht t < n" using ht_addrs [of t] assms(2) by simp
  then have e: "enough n t []" by (simp add: enough_def)
  obtain m where m: "n = length (inorder t) + Suc m"
    using assms(2) less_imp_Suc_add [of "length (inorder t)" n] by (auto simp: length_inorder)
  have "traverse (iter_inc n) n s (first_of (inaddrs t)) = Inr (inorder t)"
    using traverse_inc [OF h(1) e, of "Suc m"] m by (simp add: rb_end_def)
  moreover have "traverse (riter_inc n) n s (first_of (rev (inaddrs t))) = Inr (rev (inorder t))"
    using traverse_rinc [OF h(1) e, of "Suc m"] m by (simp add: rb_end_def)
  ultimately show ?thesis
    using go_left_holds [OF at(1) ht] go_right_holds [OF at(1) ht] at(2) h(2) by (simp add: rb_begin_def rb_rbegin_def)
qed

lemmas traverse_from_begin = traverse_both [THEN conjunct1]

section \<open>Properties\<close>

text \<open>
  C28. Iterating over a tree visits exactly its elements, in ascending order of their keys, and
  ends; the reverse iterators visit them in descending order.
\<close>

theorem iteration_in_order:
  assumes "rb_tree kot s t" "length (addrs t) < n"
  shows "bind_res (rb_begin n s) (traverse (iter_inc n) n s) = Inr (inorder t)
    \<and> bind_res (rb_rbegin n s) (traverse (riter_inc n) n s) = Inr (rev (inorder t))
    \<and> ascending kot (inorder t)"
  using traverse_both [OF assms] .

theorem iteration_in_order_witness:
  "bind_res (rb_begin 9 demo_rb) (traverse (iter_inc 9) 9 demo_rb) = Inr [1, 2, 3]
   \<and> bind_res (rb_rbegin 9 demo_rb) (traverse (riter_inc 9) 9 demo_rb) = Inr [3, 2, 1]"
  using iteration_in_order [OF demo_rb_ok(1), of 9] by (simp add: demo_rb_tree_def)

end
