(* ===== verification/Ordered_Map.thy ===== *)
theory Ordered_Map
  imports RB_Iter
begin

text \<open>
  The containers on top of the red-black tree: \<open>zhc::map\<close> (\<open>Algorithm/Map.hpp\<close>) and \<open>zhc::set\<close>
  (\<open>Algorithm/Set.hpp\<close>). The key functor of the map is declared to return a reference to the mapped
  type, so the map is only meaningful when keys and values have one type, as in the model.
\<close>

section \<open>The model\<close>

definition mapKeyOft :: "'k \<times> 'k \<Rightarrow> 'k" where
  "mapKeyOft v = fst v"

definition map_begin :: "nat \<Rightarrow> ('k \<times> 'k) rb \<Rightarrow> ptr res" where
  "map_begin n s = rb_begin n s"

definition map_end :: ptr where
  "map_end = rb_end"

definition map_rbegin :: "nat \<Rightarrow> ('k \<times> 'k) rb \<Rightarrow> ptr res" where
  "map_rbegin n s = rb_rbegin n s"

definition map_rend :: ptr where
  "map_rend = rb_rend"

definition map_insert :: "nat \<Rightarrow> nat \<Rightarrow> 'k::linorder \<times> 'k \<Rightarrow> ('k \<times> 'k) rb \<Rightarrow> (ptr \<times> bool \<times> ('k \<times> 'k) rb) res" where
  "map_insert n a kv s = rb_insert mapKeyOft n a kv s"

text \<open>
  \<open>operator[]\<close> returns a reference to the value: the pointer to the node. Reading and assigning
  through it are the two operations after it; \<open>dflt\<close> is \<open>V()\<close>.
\<close>

definition map_index :: "nat \<Rightarrow> nat \<Rightarrow> 'k::linorder \<Rightarrow> 'k \<Rightarrow> ('k \<times> 'k) rb \<Rightarrow> (ptr \<times> ('k \<times> 'k) rb) res" where
  "map_index n a k dflt s = bind_res (map_insert n a (k, dflt) s) (\<lambda>(res, _, s). Inr (res, s))"

definition ref_read :: "('k \<times> 'k) rb \<Rightarrow> ptr \<Rightarrow> 'k res" where
  "ref_read s p = bind_res (iter_deref s p) (\<lambda>kv. Inr (snd kv))"

definition ref_assign :: "ptr \<Rightarrow> 'k \<Rightarrow> ('k \<times> 'k) rb \<Rightarrow> ('k \<times> 'k) rb res" where
  "ref_assign p v s = put_node p (\<lambda>x. x\<lparr>n_data := (fst (n_data x), v)\<rparr>) s"

definition setKeyOFt :: "'k \<Rightarrow> 'k" where
  "setKeyOFt k = k"

definition set_begin :: "nat \<Rightarrow> 'k rb \<Rightarrow> ptr res" where
  "set_begin n s = rb_begin n s"

definition set_end :: ptr where
  "set_end = rb_end"

definition set_rbegin :: "nat \<Rightarrow> 'k rb \<Rightarrow> ptr res" where
  "set_rbegin n s = rb_rbegin n s"

definition set_rend :: ptr where
  "set_rend = rb_rend"

text \<open>The two members of a constant set: the end of the reversed range is its beginning.\<close>

definition set_const_rbegin :: "nat \<Rightarrow> 'k rb \<Rightarrow> ptr res" where
  "set_const_rbegin n s = rb_rbegin n s"

definition set_const_rend :: "nat \<Rightarrow> 'k rb \<Rightarrow> ptr res" where
  "set_const_rend n s = rb_rbegin n s"

definition set_insert :: "nat \<Rightarrow> nat \<Rightarrow> 'k::linorder \<Rightarrow> 'k rb \<Rightarrow> (ptr \<times> bool \<times> 'k rb) res" where
  "set_insert n a k s = rb_insert setKeyOFt n a k s"

section \<open>Nodes inside a tree\<close>

lemma plug_append: "plug (fs @ gs) x = plug gs (plug fs x)"
  by (induction fs x rule: plug.induct) auto

lemma focus: "a \<in> set (addrs x) \<Longrightarrow> \<exists>fs l d t r. x = plug fs (Nd a l d t r)"
proof (induction x)
  case (Nd b l d t r)
  consider "a = b" | "a \<in> set (addrs l)" | "a \<in> set (addrs r)" using Nd.prems by auto
  then show ?case
  proof cases
    case 1
    then have "Nd b l d t r = plug [] (Nd a l d t r)" by simp
    then show ?thesis by blast
  next
    case 2
    then obtain fs l' d' t' r' where "l = plug fs (Nd a l' d' t' r')" using Nd.IH(1) by blast
    then have "Nd b l d t r = plug (fs @ [LF b d t r]) (Nd a l' d' t' r')" by (simp add: plug_append)
    then show ?thesis by blast
  next
    case 3
    then obtain fs l' d' t' r' where "r = plug fs (Nd a l' d' t' r')" using Nd.IH(2) by blast
    then have "Nd b l d t r = plug (fs @ [RF l b d t]) (Nd a l' d' t' r')" by (simp add: plug_append)
    then show ?thesis by blast
  qed
qed simp

lemma rb_plug_data:
  "color (plug fs (Nd a l d' t r)) = color (plug fs (Nd a l d t r))"
  "invc (plug fs (Nd a l d' t r)) = invc (plug fs (Nd a l d t r))"
  "invh (plug fs (Nd a l d' t r)) = invh (plug fs (Nd a l d t r))"
  "set (addrs (plug fs (Nd a l d' t r))) = set (addrs (plug fs (Nd a l d t r)))"
proof -
  have gen: "color (plug fs x) = color (plug fs y) \<and> invc (plug fs x) = invc (plug fs y) \<and> invh (plug fs x) = invh (plug fs y)
      \<and> set (addrs (plug fs x)) = set (addrs (plug fs y))"
    if "color x = color y \<and> invc x = invc y \<and> invh x = invh y \<and> bh x = bh y \<and> set (addrs x) = set (addrs y)"
    for x y :: "('a, Color) tree"
    using that
  proof (induction fs arbitrary: x y)
    case (Cons f fs)
    show ?case
    proof (cases f)
      case (LF b e c u)
      with Cons.IH [of "Nd b x e c u" "Nd b y e c u"] Cons.prems show ?thesis by simp
    next
      case (RF u b e c)
      with Cons.IH [of "Nd b u e c x" "Nd b u e c y"] Cons.prems show ?thesis by simp
    qed
  qed simp
  note g = gen [of "Nd a l d' t r" "Nd a l d t r", simplified]
  show "color (plug fs (Nd a l d' t r)) = color (plug fs (Nd a l d t r))"
    "invc (plug fs (Nd a l d' t r)) = invc (plug fs (Nd a l d t r))"
    "invh (plug fs (Nd a l d' t r)) = invh (plug fs (Nd a l d t r))"
    "set (addrs (plug fs (Nd a l d' t r))) = set (addrs (plug fs (Nd a l d t r)))" using g by simp_all
qed

text \<open>Every node of the store belongs to the tree.\<close>

definition exact :: "('d, 't) tstate \<Rightarrow> ('d, 't) tree \<Rightarrow> bool" where
  "exact s t \<longleftrightarrow> dom (t_heap s) = set (addrs t)"

definition map_tree :: "('k::linorder \<times> 'k) rb \<Rightarrow> ('k \<times> 'k, Color) tree \<Rightarrow> bool" where
  "map_tree s t \<longleftrightarrow> rb_tree mapKeyOft s t \<and> exact s t"

lemma ref_assign_tree:
  assumes t: "map_tree s t" and p: "data_at s (Some a) = Some (k, v)"
  obtains s' t' where "ref_assign (Some a) w s = Inr s'" "map_tree s' t'" "map_of (inorder t') = (map_of (inorder t))(k \<mapsto> w)"
proof -
  have h: "holds s t []" "color t = BLACK" "invc t" "invh t" "ascending fst (inorder t)" "dom (t_heap s) = set (addrs t)"
    using t by (simp_all add: map_tree_def rb_tree_def exact_def mapKeyOft_def [abs_def])
  have "a \<in> set (addrs t)" using p h(6) by (auto simp: data_at_def)
  then obtain fs l d c r where x: "t = plug fs (Nd a l d c r)" using focus by blast
  have f: "holds s (Nd a l d c r) fs" using h(1) holds_plug x by blast
  then have d: "d = (k, v)" using p by (simp add: holds_def data_at_def)
  let ?y = "Nd a l (k, w) c r"
  obtain s' where s': "ref_assign (Some a) w s = Inr s'" "holds s' ?y fs" "dom (t_heap s') = dom (t_heap s)"
    using f d by (auto simp: holds_def ref_assign_def put_node_def)
  obtain xs ys where io: "\<And>x. inorder (plug fs x) = xs @ inorder x @ ys" using plug_inorder [of fs] by metis
  have asc: "ascending fst (xs @ inorder l @ (k, v) # inorder r @ ys)" using h(5) x d io by simp
  then have ks: "\<forall>e \<in> set (xs @ inorder l). fst e < k" by (auto simp: sorted_wrt_append)
  have "ascending fst (inorder (plug fs ?y))" using asc io by (auto simp: sorted_wrt_append)
  moreover have "map_of (inorder (plug fs ?y)) = (map_of (inorder t))(k \<mapsto> w)"
  proof -
    have n: "map_of xs k = None" "map_of (inorder l) k = None" using ks by (auto simp: map_of_eq_None_iff)
    show ?thesis using x d io n by (auto simp: fun_eq_iff map_add_def split: option.split)
  qed
  moreover have "holds s' (plug fs ?y) []" using s'(2) holds_plug by blast
  ultimately show ?thesis
    using s' h x d rb_plug_data [of fs a l "(k, w)" c r d]
    by (intro that [of s' "plug fs ?y"]) (simp_all add: map_tree_def rb_tree_def exact_def mapKeyOft_def [abs_def])
qed

lemma map_of_lookup: "map_of xs k = map_option snd (lookup_key fst k xs)"
  by (induction xs) auto

lemma length_insert_sorted:
  assumes "kot d \<notin> kot ` set xs"
  shows "length (insert_sorted kot d xs) = Suc (length xs)"
proof -
  have "length (filter (\<lambda>x. kot x < kot d) xs) + length (filter (\<lambda>x. kot d < kot x) xs) = length xs"
    using assms by (induction xs) (auto simp: not_less_iff_gr_or_eq)
  then show ?thesis by (simp add: insert_sorted_def)
qed

lemma holds_distinct: "holds s t [] \<Longrightarrow> distinct (addrs t)"
  by (simp add: holds_def)

lemma holds_dom: "holds s t [] \<Longrightarrow> set (addrs t) \<subseteq> dom (t_heap s)"
  using tree_at_alloc [of "t_heap s" None t] by (auto simp: holds_def)

lemma exact_insert:
  assumes "rb_tree kot s t" "exact s t" "rb_insert kot n a d s = Inr (p, True, s')" "rb_tree kot s' t'"
    and "inorder t' = insert_sorted kot d (inorder t)" "kot d \<notin> kot ` set (inorder t)"
  shows "exact s' t'"
proof -
  have sub: "set (addrs t') \<subseteq> dom (t_heap s')" and dist: "distinct (addrs t')" "distinct (addrs t)"
    using assms(1,4) holds_dom holds_distinct by (auto simp: rb_tree_def)
  have dom: "dom (t_heap s') \<subseteq> insert a (set (addrs t))" using rb_insert_dom [OF assms(3)] assms(2) by (simp add: exact_def)
  have "length (addrs t') = Suc (length (addrs t))"
    using assms(5) length_insert_sorted [OF assms(6)] length_inorder [of t'] length_inorder [of t] by simp
  then have "card (insert a (set (addrs t))) \<le> card (set (addrs t'))"
    using dist by (simp add: distinct_card card_insert_if)
  with sub dom have "set (addrs t') = insert a (set (addrs t))" by (intro card_seteq) auto
  with sub dom show ?thesis by (auto simp: exact_def)
qed

lemma rb_insert_old: "rb_insert kot n a d s = Inr (p, False, s') \<Longrightarrow> s' = s"
  by (auto simp: rb_insert_def elim!: bind_res_InrE split: if_splits prod.splits)

lemma data_in_tree:
  assumes "holds s t []" "exact s t" "data_at s (Some q) = Some d"
  shows "d \<in> set (inorder t)"
proof -
  have "q \<in> set (addrs t)" using assms(2,3) by (auto simp: exact_def data_at_def)
  then obtain fs l e c r where x: "t = plug fs (Nd q l e c r)" using focus by blast
  then have "holds s (Nd q l e c r) fs" using assms(1) holds_plug by blast
  then have "e = d" using assms(3) by (simp add: holds_def data_at_def)
  then show ?thesis using x plug_inorder [of fs] by force
qed

lemma map_index_tree:
  assumes t: "map_tree s t" and fresh: "t_heap s a = None" "length (addrs t) < n"
  obtains q s' t' v where "map_index n a k dflt s = Inr (Some q, s')" "map_tree s' t'" "data_at s' (Some q) = Some (k, v)"
    "v = (case map_of (inorder t) k of None \<Rightarrow> dflt | Some v \<Rightarrow> v)" "map_of (inorder t') = (map_of (inorder t))(k \<mapsto> v)"
proof -
  have rb: "rb_tree mapKeyOft s t" "exact s t" using t by (simp_all add: map_tree_def)
  have kot: "mapKeyOft = (fst :: 'a \<times> 'a \<Rightarrow> 'a)" by (simp add: mapKeyOft_def [abs_def])
  obtain p new s' t' d' where i: "rb_insert mapKeyOft n a (k, dflt) s = Inr (p, new, s')"
    "new \<longleftrightarrow> mapKeyOft (k, dflt) \<notin> mapKeyOft ` set (inorder t)" "rb_tree mapKeyOft s' t'"
    "inorder t' = (if new then insert_sorted mapKeyOft (k, dflt) (inorder t) else inorder t)"
    "data_at s' p = Some d'" "mapKeyOft d' = mapKeyOft (k, dflt)" "new \<longrightarrow> p = Some a \<and> d' = (k, dflt)"
    by (rule rb_insert_tree [OF rb(1) fresh])
  obtain q where q: "p = Some q" using i(5) by (cases p) (auto simp: data_at_def)
  have m: "map_index n a k dflt s = Inr (Some q, s')" using i(1) q by (simp add: map_index_def map_insert_def)
  show ?thesis
  proof (cases new)
    case True
    have nk: "k \<notin> fst ` set (inorder t)" using i(2) True by (simp add: kot)
    then have "lookup_key fst k (inorder t) = None" by (simp add: lookup_key_None)
    moreover have "exact s' t'" using exact_insert [OF rb _ i(3)] i(1,2,4) True by simp
    moreover have "inorder t' = inserted fst (k, dflt) (inorder t)" using i(4) True nk by (simp add: inserted_def kot)
    ultimately show ?thesis
      by (intro that [of q s' t' dflt])
        (use m i(3,5,7) True q in \<open>auto simp: map_tree_def map_of_lookup lookup_inserted fun_eq_iff split: option.split\<close>)
  next
    case False
    then have s': "s' = s" using rb_insert_old [of mapKeyOft n a "(k, dflt)" s p s'] i(1) by simp
    obtain v where v: "d' = (k, v)" using i(6) by (cases d') (simp add: kot)
    have h: "holds s t []" "ascending fst (inorder t)" using rb(1) by (simp_all add: rb_tree_def kot)
    have "(k, v) \<in> set (inorder t)" using data_in_tree [OF h(1) rb(2)] i(5) q s' v by simp
    moreover have "distinct (map fst (inorder t))"
      using h(2) strict_sorted_iff [of "map fst (inorder t)"] by (simp add: sorted_wrt_map)
    ultimately have "map_of (inorder t) k = Some v" by (simp add: map_of_is_SomeI)
    then show ?thesis
      by (intro that [of q s t v]) (use m s' t i(5) q v in \<open>auto simp: map_upd_triv\<close>)
  qed
qed

section \<open>Properties\<close>

text \<open>
  C29. \<open>m[k] = w\<close> is an update of a finite map: \<open>operator[]\<close> gives a reference to the value of the key,
  a fresh default when the key was not there; assigning through it makes exactly this key map to
  the new value; the tree stays a red-black search tree and no node is lost.
\<close>

theorem map_subscript_updates:
  assumes "map_tree s t" "t_heap s a = None" "length (addrs t) < n"
  shows "\<exists>p s1. map_index n a k dflt s = Inr (p, s1)
    \<and> ref_read s1 p = Inr (case map_of (inorder t) k of None \<Rightarrow> dflt | Some v \<Rightarrow> v)
    \<and> (\<exists>s2 t2. ref_assign p w s1 = Inr s2 \<and> map_tree s2 t2 \<and> map_of (inorder t2) = (map_of (inorder t))(k \<mapsto> w))"
proof -
  obtain q s1 t1 v where i: "map_index n a k dflt s = Inr (Some q, s1)" "map_tree s1 t1" "data_at s1 (Some q) = Some (k, v)"
    "v = (case map_of (inorder t) k of None \<Rightarrow> dflt | Some v \<Rightarrow> v)" "map_of (inorder t1) = (map_of (inorder t))(k \<mapsto> v)"
    by (rule map_index_tree [OF assms])
  obtain s2 t2 where a: "ref_assign (Some q) w s1 = Inr s2" "map_tree s2 t2" "map_of (inorder t2) = (map_of (inorder t1))(k \<mapsto> w)"
    by (rule ref_assign_tree [OF i(2,3)])
  have "ref_read s1 (Some q) = Inr v"
    using i(3) by (auto simp: ref_read_def iter_deref_def get_node_def data_at_def)
  with i a show ?thesis by (intro exI [of _ "Some q"] exI [of _ s1]) auto
qed

theorem map_subscript_updates_witness:
  "\<exists>p s1. map_index 3 10 (5 :: int) 0 rb_new = Inr (p, s1) \<and> ref_read s1 p = Inr 0
    \<and> (\<exists>s2 t2. ref_assign p 50 s1 = Inr s2 \<and> map_tree s2 t2 \<and> map_of (inorder t2) = [5 \<mapsto> 50])"
proof -
  have "map_tree rb_new Tip" using rb_tree_new by (auto simp: map_tree_def exact_def rb_new_def)
  moreover have "t_heap rb_new 10 = None" by (simp add: rb_new_def)
  ultimately show ?thesis using map_subscript_updates [of rb_new Tip 10 3 5 0 50] by simp
qed

text \<open>
  A set sorts: after inserting any elements into an empty set, iterating over it gives the
  different elements in ascending order, each once.
\<close>

theorem set_iterates_sorted:
  assumes "distinct (map fst es)" "length es < n"
  shows "\<exists>s. ins_all (\<lambda>a k s. bind_res (set_insert n a k s) (\<lambda>(_, new, s). Inr (new, s))) es rb_new = Inr s
    \<and> bind_res (set_begin n s) (traverse (iter_inc n) n s) = Inr (sorted_list_of_set (snd ` set es))"
proof -
  have "rb_contents (\<lambda>k. k) rb_new []" using rb_tree_new [of "\<lambda>k. k"] by (auto simp: rb_contents_def)
  moreover have "dom (t_heap rb_new) \<inter> fst ` set es = {}" by (simp add: rb_new_def)
  ultimately obtain s xs where s: "ins_all (rb_add (\<lambda>k. k) n) es rb_new = Inr s" "rb_contents (\<lambda>k. k) s xs" "ascending (\<lambda>k. k) xs"
    "(\<lambda>k. k) ` set xs = (\<lambda>k. k) ` set (map snd es)"
    using rb.ins_all_lookup [of "\<lambda>k. k" rb_new es n] assms by blast
  obtain t where t: "rb_tree (\<lambda>k. k) s t" "inorder t = xs" using s(2) by (auto simp: rb_contents_def)
  have xs: "xs = sorted_list_of_set (snd ` set es)" using ascending_sorted_list [OF s(3)] s(4) by simp
  have "length xs = card (snd ` set es)" using xs by simp
  also have "\<dots> \<le> length es" using card_image_le [of "set es" snd] card_length [of es] by (meson finite_set le_trans)
  finally have n: "length (addrs t) < n" using t(2) length_inorder [of t] assms(2) by simp
  have "ht t < n" using ht_addrs [of t] n by simp
  have "bind_res (rb_begin n s) (traverse (iter_inc n) n s) = Inr (inorder t)" using traverse_from_begin [OF t(1) n] .
  moreover have eq: "(\<lambda>a k s. bind_res (set_insert n a k s) (\<lambda>(_, new, s). Inr (new, s))) = rb_add (\<lambda>k. k) n"
    by (intro ext) (simp add: set_insert_def rb_add_def setKeyOFt_def [abs_def])
  ultimately show ?thesis unfolding eq using s(1) t(2) xs by (auto simp: set_begin_def)
qed

theorem set_iterates_sorted_witness:
  "\<exists>s. ins_all (\<lambda>a k s. bind_res (set_insert 9 a k s) (\<lambda>(_, new, s). Inr (new, s))) [(10, 3), (20, 1), (30, 3), (40, 2 :: int)] rb_new = Inr s
    \<and> bind_res (set_begin 9 s) (traverse (iter_inc 9) 9 s) = Inr (sorted_list_of_set {3, 1, 2})"
  using set_iterates_sorted [of "[(10, 3), (20, 1), (30, 3), (40, 2 :: int)]" 9] by (simp add: insert_commute)

text \<open>Iterating backwards over a constant set visits nothing: its end is where it begins.\<close>

lemma const_reverse_range_empty: "set_const_rend n s = set_const_rbegin n s"
  by (simp add: set_const_rend_def set_const_rbegin_def)

end
