(* ===== verification/Hash_Chain.thy ===== *)
theory Hash_Chain
  imports Prelude "HOL-Library.Multiset"
begin

text \<open>
  The chained hash tables of \<open>Algorithm/HashTable.hpp\<close>, at the level of nodes and pointers:
  \<open>Hash::HashTable\<close> (names beginning with \<open>ht\<close>), \<open>zhc_hash::HashTable\<close> with its iterators (names
  beginning with \<open>zht\<close>), and the loops both classes share. The hash function and the projection to
  the key are template parameters of the code and arguments here. A table is an array of pointers
  into a heap of nodes; the second half relates it to a list of buckets, and shows that growing,
  inserting, erasing and iterating act on the set of elements as they should.
\<close>

section \<open>Hash functions\<close>

text \<open>\<open>char\<close> is signed, so its conversion to \<open>size_t\<close> extends the sign.\<close>

definition char_to_size :: "char \<Rightarrow> u64" where
  "char_to_size ch = scast (of_char ch :: 8 word)"

definition HashFunc_string :: "string \<Rightarrow> u64" where
  "HashFunc_string s = foldl (\<lambda>n ch. n * 131 + char_to_size ch) 0 s"

definition HashFunc_int :: "int \<Rightarrow> u64" where
  "HashFunc_int k = of_int k"

section \<open>Nodes and tables\<close>

record 'd Hash_data =
  h_data :: 'd
  h_next :: ptr

record 'd HashTable =
  stable :: "ptr list"
  ht_size :: nat
  ht_heap :: "nat \<Rightarrow> 'd Hash_data option"

definition get_hnode :: "'d HashTable \<Rightarrow> ptr \<Rightarrow> 'd Hash_data res" where
  "get_hnode s p =
     (case p of
        None \<Rightarrow> Inl Null_Deref
      | Some a \<Rightarrow> (case ht_heap s a of None \<Rightarrow> Inl Use_After_Free | Some x \<Rightarrow> Inr x))"

definition set_next :: "ptr \<Rightarrow> ptr \<Rightarrow> 'd HashTable \<Rightarrow> 'd HashTable res" where
  "set_next p q s =
     (case p of
        None \<Rightarrow> Inl Null_Deref
      | Some a \<Rightarrow> (case ht_heap s a of None \<Rightarrow> Inl Use_After_Free
                    | Some x \<Rightarrow> Inr (s\<lparr>ht_heap := (ht_heap s)(a \<mapsto> x\<lparr>h_next := q\<rparr>)\<rparr>)))"

definition delete_hnode :: "ptr \<Rightarrow> 'd HashTable \<Rightarrow> 'd HashTable res" where
  "delete_hnode p s =
     (case p of
        None \<Rightarrow> Inr s
      | Some a \<Rightarrow> (if ht_heap s a = None then Inl Double_Free else Inr (s\<lparr>ht_heap := (ht_heap s)(a := None)\<rparr>)))"

definition slot :: "('k \<Rightarrow> u64) \<Rightarrow> 'k \<Rightarrow> nat \<Rightarrow> nat" where
  "slot hf k m = unat (hf k) mod m"

definition at_index :: "'a list \<Rightarrow> nat \<Rightarrow> 'a res" where
  "at_index xs i = (if i < length xs then Inr (xs ! i) else Inl Out_Of_Bounds)"

definition ht_new :: "'d HashTable" where
  "ht_new = \<lparr>stable = replicate 10 None, ht_size = 0, ht_heap = Map.empty\<rparr>"

definition zht_new :: "'d HashTable" where
  "zht_new = \<lparr>stable = replicate 10 None, ht_size = 0, ht_heap = Map.empty\<rparr>"

section \<open>Searching\<close>

fun chain_find :: "('d \<Rightarrow> 'k) \<Rightarrow> nat \<Rightarrow> 'd HashTable \<Rightarrow> 'k \<Rightarrow> ptr \<Rightarrow> ptr res" where
  "chain_find kot 0 s key cur = Inl Stack_Exhausted"
| "chain_find kot (Suc n) s key cur =
     (if cur = None then Inr None
      else bind_res (get_hnode s cur) (\<lambda>x.
        if kot (h_data x) = key then Inr cur else chain_find kot n s key (h_next x)))"

definition zht_find :: "('k \<Rightarrow> u64) \<Rightarrow> ('d \<Rightarrow> 'k) \<Rightarrow> nat \<Rightarrow> 'd HashTable \<Rightarrow> 'k \<Rightarrow> ptr res" where
  "zht_find hf kot n s key =
     bind_res (at_index (stable s) (slot hf key (length (stable s)))) (\<lambda>cur. chain_find kot n s key cur)"

definition ht_find :: "('k \<Rightarrow> u64) \<Rightarrow> nat \<Rightarrow> ('k \<times> 'v) HashTable \<Rightarrow> 'k \<Rightarrow> ptr res" where
  "ht_find hf n s key =
     bind_res (at_index (stable s) (slot hf key (length (stable s)))) (\<lambda>cur. chain_find fst n s key cur)"

section \<open>Inserting\<close>

text \<open>Moving the nodes of one chain to the front of their chains in the new table.\<close>

fun move_chain :: "('k \<Rightarrow> u64) \<Rightarrow> ('d \<Rightarrow> 'k) \<Rightarrow> nat \<Rightarrow> ptr \<Rightarrow> ptr list \<Rightarrow> 'd HashTable \<Rightarrow> (ptr list \<times> 'd HashTable) res" where
  "move_chain hf kot 0 cur newTable s = Inl Stack_Exhausted"
| "move_chain hf kot (Suc n) cur newTable s =
     (if cur = None then Inr (newTable, s)
      else bind_res (get_hnode s cur) (\<lambda>x.
        let index = slot hf (kot (h_data x)) (length newTable) in
        bind_res (at_index newTable index) (\<lambda>first.
        bind_res (set_next cur first s) (\<lambda>s.
          move_chain hf kot n (h_next x) (newTable[index := cur]) s))))"

fun move_all :: "('k \<Rightarrow> u64) \<Rightarrow> ('d \<Rightarrow> 'k) \<Rightarrow> nat \<Rightarrow> nat list \<Rightarrow> ptr list \<Rightarrow> 'd HashTable \<Rightarrow> (ptr list \<times> 'd HashTable) res" where
  "move_all hf kot n [] newTable s = Inr (newTable, s)"
| "move_all hf kot n (i # is) newTable s =
     bind_res (at_index (stable s) i) (\<lambda>cur.
     bind_res (move_chain hf kot n cur newTable s) (\<lambda>(newTable, s).
       move_all hf kot n is newTable (s\<lparr>stable := (stable s)[i := None]\<rparr>)))"

definition grow :: "('k \<Rightarrow> u64) \<Rightarrow> ('d \<Rightarrow> 'k) \<Rightarrow> nat \<Rightarrow> 'd HashTable \<Rightarrow> 'd HashTable res" where
  "grow hf kot n s =
     (if ht_size s = length (stable s)
      then bind_res (move_all hf kot n [0..<length (stable s)] (replicate (length (stable s) * 2) None) s) (\<lambda>(newTable, s).
        Inr (s\<lparr>stable := newTable\<rparr>))
      else Inr s)"

text \<open>A new node, at the address the allocator returns, becomes the first of its chain.\<close>

definition push_node :: "('k \<Rightarrow> u64) \<Rightarrow> ('d \<Rightarrow> 'k) \<Rightarrow> nat \<Rightarrow> 'd \<Rightarrow> 'd HashTable \<Rightarrow> 'd HashTable res" where
  "push_node hf kot a data s =
     (let index = slot hf (kot data) (length (stable s)) in
      bind_res (at_index (stable s) index) (\<lambda>first.
        Inr (s\<lparr>ht_heap := (ht_heap s)(a \<mapsto> \<lparr>h_data = data, h_next = first\<rparr>),
               stable := (stable s)[index := Some a], ht_size := ht_size s + 1\<rparr>)))"

definition zht_insert :: "('k \<Rightarrow> u64) \<Rightarrow> ('d \<Rightarrow> 'k) \<Rightarrow> nat \<Rightarrow> nat \<Rightarrow> 'd \<Rightarrow> 'd HashTable \<Rightarrow> (ptr \<times> bool \<times> 'd HashTable) res" where
  "zht_insert hf kot n a data s =
     bind_res (zht_find hf kot n s (kot data)) (\<lambda>it.
     if it \<noteq> None then Inr (it, False, s)
     else bind_res (grow hf kot n s) (\<lambda>s.
          bind_res (push_node hf kot a data s) (\<lambda>s. Inr (Some a, False, s))))"

definition ht_insert :: "('k \<Rightarrow> u64) \<Rightarrow> nat \<Rightarrow> nat \<Rightarrow> 'k \<times> 'v \<Rightarrow> ('k \<times> 'v) HashTable \<Rightarrow> (bool \<times> ('k \<times> 'v) HashTable) res" where
  "ht_insert hf n a kv s =
     bind_res (ht_find hf n s (fst kv)) (\<lambda>pos.
     if pos \<noteq> None then Inr (False, s)
     else bind_res (grow hf fst n s) (\<lambda>s.
          bind_res (push_node hf fst a kv s) (\<lambda>s. Inr (True, s))))"

section \<open>Erasing and destroying\<close>

text \<open>The loop of \<open>erase\<close>: the node with the key, or null, and the node before it.\<close>

fun chain_seek :: "nat \<Rightarrow> ('k \<times> 'v) HashTable \<Rightarrow> 'k \<Rightarrow> ptr \<Rightarrow> ptr \<Rightarrow> (ptr \<times> ptr) res" where
  "chain_seek 0 s key prev cur = Inl Stack_Exhausted"
| "chain_seek (Suc n) s key prev cur =
     (if cur = None then Inr (prev, cur)
      else bind_res (get_hnode s cur) (\<lambda>x.
        if fst (h_data x) = key then Inr (prev, cur) else chain_seek n s key cur (h_next x)))"

text \<open>The size stays as it is.\<close>

definition ht_erase :: "('k \<Rightarrow> u64) \<Rightarrow> nat \<Rightarrow> 'k \<times> 'v \<Rightarrow> ('k \<times> 'v) HashTable \<Rightarrow> (bool \<times> ('k \<times> 'v) HashTable) res" where
  "ht_erase hf n kv s =
     bind_res (ht_find hf n s (fst kv)) (\<lambda>pos.
     if pos = None then Inr (False, s)
     else let index = slot hf (fst kv) (length (stable s)) in
       bind_res (at_index (stable s) index) (\<lambda>first.
       bind_res (chain_seek n s (fst kv) None first) (\<lambda>(prev, cur).
       bind_res (get_hnode s cur) (\<lambda>x.
         if cur = first
         then bind_res (delete_hnode cur (s\<lparr>stable := (stable s)[index := h_next x]\<rparr>)) (\<lambda>s. Inr (True, s))
         else bind_res (set_next prev (h_next x) s) (\<lambda>s.
              bind_res (delete_hnode cur s) (\<lambda>s. Inr (True, s)))))))"

fun free_chain :: "nat \<Rightarrow> ptr \<Rightarrow> 'd HashTable \<Rightarrow> 'd HashTable res" where
  "free_chain 0 cur s = Inl Stack_Exhausted"
| "free_chain (Suc n) cur s =
     (if cur = None then Inr s
      else bind_res (get_hnode s cur) (\<lambda>x.
           bind_res (delete_hnode cur s) (\<lambda>s. free_chain n (h_next x) s)))"

fun free_all :: "nat \<Rightarrow> nat list \<Rightarrow> 'd HashTable \<Rightarrow> 'd HashTable res" where
  "free_all n [] s = Inr s"
| "free_all n (i # is) s =
     bind_res (at_index (stable s) i) (\<lambda>cur.
     bind_res (free_chain n cur s) (\<lambda>s. free_all n is (s\<lparr>stable := (stable s)[i := None]\<rparr>)))"

definition ht_destroy :: "nat \<Rightarrow> 'd HashTable \<Rightarrow> 'd HashTable res" where
  "ht_destroy n s = free_all n [0..<length (stable s)] s"

section \<open>Iterating\<close>

fun first_bucket :: "ptr list \<Rightarrow> ptr" where
  "first_bucket [] = None"
| "first_bucket (p # ps) = (if p \<noteq> None then p else first_bucket ps)"

definition zht_begin :: "'d HashTable \<Rightarrow> ptr" where
  "zht_begin s = first_bucket (stable s)"

definition zht_end :: ptr where
  "zht_end = None"

definition zit_inc :: "('k \<Rightarrow> u64) \<Rightarrow> ('d \<Rightarrow> 'k) \<Rightarrow> 'd HashTable \<Rightarrow> ptr \<Rightarrow> ptr res" where
  "zit_inc hf kot s node =
     bind_res (get_hnode s node) (\<lambda>x.
       if h_next x \<noteq> None then Inr (h_next x)
       else Inr (first_bucket (drop (slot hf (kot (h_data x)) (length (stable s)) + 1) (stable s))))"

definition zit_deref :: "'d HashTable \<Rightarrow> ptr \<Rightarrow> 'd res" where
  "zit_deref s node = bind_res (get_hnode s node) (\<lambda>x. Inr (h_data x))"

text \<open>\<open>for (it = first; it != end; ++it)\<close>, collecting \<open>*it\<close>.\<close>

fun zht_traverse :: "('k \<Rightarrow> u64) \<Rightarrow> ('d \<Rightarrow> 'k) \<Rightarrow> nat \<Rightarrow> 'd HashTable \<Rightarrow> ptr \<Rightarrow> 'd list res" where
  "zht_traverse hf kot 0 s it = Inl Stack_Exhausted"
| "zht_traverse hf kot (Suc n) s it =
     (if it = zht_end then Inr []
      else bind_res (zit_deref s it) (\<lambda>d.
           bind_res (zit_inc hf kot s it) (\<lambda>it.
           bind_res (zht_traverse hf kot n s it) (\<lambda>ds. Inr (d # ds)))))"

section \<open>Chains and buckets\<close>

text \<open>A chain holds addresses with their data, in the order of the pointers.\<close>

fun chain_at :: "(nat \<Rightarrow> 'd Hash_data option) \<Rightarrow> ptr \<Rightarrow> (nat \<times> 'd) list \<Rightarrow> bool" where
  "chain_at h p [] = (p = None)"
| "chain_at h p ((a, d) # xs) =
     (p = Some a \<and> (case h a of None \<Rightarrow> False | Some x \<Rightarrow> h_data x = d \<and> chain_at h (h_next x) xs))"

lemma chain_at_None [simp]: "chain_at h None xs \<longleftrightarrow> xs = []"
  by (cases xs) auto

lemma chain_at_Cons:
  "chain_at h p (x # xs) \<longleftrightarrow> p = Some (fst x) \<and> (\<exists>q. h (fst x) = Some \<lparr>h_data = snd x, h_next = q\<rparr> \<and> chain_at h q xs)"
  by (cases x, cases "h (fst x)") (auto, metis Hash_data.surjective old.unit.exhaust)

lemma chain_at_frame: "chain_at h p xs \<Longrightarrow> a \<notin> fst ` set xs \<Longrightarrow> chain_at (h(a := v)) p xs"
  by (induction xs arbitrary: p) (auto simp: chain_at_Cons)

lemma chain_at_cong: "chain_at h p xs \<Longrightarrow> (\<And>a. a \<in> fst ` set xs \<Longrightarrow> h' a = h a) \<Longrightarrow> chain_at h' p xs"
  by (induction xs arbitrary: p) (auto simp: chain_at_Cons)

lemma chain_at_alloc: "chain_at h p xs \<Longrightarrow> (a, d) \<in> set xs \<Longrightarrow> \<exists>q. h a = Some \<lparr>h_data = d, h_next = q\<rparr>"
  by (induction xs arbitrary: p) (auto simp: chain_at_Cons)

definition buckets_at :: "(nat \<Rightarrow> 'd Hash_data option) \<Rightarrow> ptr list \<Rightarrow> (nat \<times> 'd) list list \<Rightarrow> bool" where
  "buckets_at h ps bs = list_all2 (chain_at h) ps bs"

lemma buckets_at_length: "buckets_at h ps bs \<Longrightarrow> length ps = length bs"
  by (simp add: buckets_at_def list_all2_lengthD)

lemma buckets_at_nth: "buckets_at h ps bs \<Longrightarrow> i < length bs \<Longrightarrow> chain_at h (ps ! i) (bs ! i)"
  by (simp add: buckets_at_def list_all2_conv_all_nth)

lemma buckets_at_cong:
  "buckets_at h ps bs \<Longrightarrow> (\<And>a. a \<in> fst ` set (concat bs) \<Longrightarrow> h' a = h a) \<Longrightarrow> buckets_at h' ps bs"
  unfolding buckets_at_def by (erule list.rel_mono_strong) (auto intro: chain_at_cong)

lemma buckets_at_update:
  "buckets_at h ps bs \<Longrightarrow> chain_at h p xs \<Longrightarrow> buckets_at h (ps[i := p]) (bs[i := xs])"
  unfolding buckets_at_def by (rule list_all2_update_cong)

lemma buckets_at_replicate: "buckets_at h (replicate m None) (replicate m [])"
  by (simp add: buckets_at_def list_all2_conv_all_nth)

text \<open>Replacing one bucket.\<close>

lemma mset_concat_update:
  assumes "i < length bs"
  shows "mset (concat (bs[i := xs])) + mset (bs ! i) = mset (concat bs) + mset xs"
proof -
  have "concat bs = concat (take i bs) @ bs ! i @ concat (drop (Suc i) bs)"
    using assms id_take_nth_drop [of i bs] by (metis concat.simps(2) concat_append)
  moreover have "concat (bs[i := xs]) = concat (take i bs) @ xs @ concat (drop (Suc i) bs)"
    using assms by (simp add: upd_conv_take_nth_drop)
  ultimately show ?thesis by simp
qed

lemma mset_concat_push: "i < length bs \<Longrightarrow> mset (concat (bs[i := x # bs ! i])) = add_mset x (mset (concat bs))"
  using mset_concat_update [of i bs "x # bs ! i"] by simp

lemma bucket_subset: "i < length bs \<Longrightarrow> set (bs ! i) \<subseteq> set (concat bs)"
  by (force simp: in_set_conv_nth)

lemma bucket_distinct: "i < length bs \<Longrightarrow> distinct (map f (concat bs)) \<Longrightarrow> distinct (map f (bs ! i))"
  by (metis concat.simps(2) concat_append distinct_append id_take_nth_drop map_append)

lemma bucket_disjoint:
  assumes "distinct (map f (concat bs))" "i < length bs" "j < length bs" "i \<noteq> j" "x \<in> set (bs ! i)"
  shows "f x \<notin> f ` set (bs ! j)"
  using assms
proof (induction bs arbitrary: i j)
  case (Cons b bs)
  have d: "f ` set b \<inter> f ` set (concat bs) = {}" using Cons.prems(1) by auto
  show ?case
  proof (cases i)
    case 0
    with Cons.prems obtain j' where "j = Suc j'" "j' < length bs" by (cases j) auto
    then have "f ` set ((b # bs) ! j) \<subseteq> f ` set (concat bs)" using bucket_subset [of j' bs] by auto
    moreover have "f x \<in> f ` set b" using Cons.prems(5) 0 by simp
    ultimately show ?thesis using d by blast
  next
    case (Suc i')
    then have i': "i' < length bs" "x \<in> set (bs ! i')" using Cons.prems by auto
    then have x: "f x \<in> f ` set (concat bs)" using bucket_subset [of i' bs] by blast
    show ?thesis
    proof (cases j)
      case 0
      with x d show ?thesis by auto
    next
      case (Suc j')
      with Cons.IH [of i' j'] Cons.prems i' \<open>i = Suc i'\<close> show ?thesis by auto
    qed
  qed
qed simp

text \<open>Every element is in the bucket of its hash value.\<close>

definition placed :: "('k \<Rightarrow> u64) \<Rightarrow> ('d \<Rightarrow> 'k) \<Rightarrow> (nat \<times> 'd) list list \<Rightarrow> bool" where
  "placed hf kot bs = (\<forall>i < length bs. \<forall>x \<in> set (bs ! i). slot hf (kot (snd x)) (length bs) = i)"

lemma placedD: "placed hf kot bs \<Longrightarrow> x \<in> set (concat bs) \<Longrightarrow> x \<in> set (bs ! slot hf (kot (snd x)) (length bs))"
  by (auto simp: placed_def in_set_conv_nth) (metis nth_mem)

lemma placed_update:
  assumes "placed hf kot bs" "\<And>x. x \<in> set xs \<Longrightarrow> slot hf (kot (snd x)) (length bs) = i"
  shows "placed hf kot (bs[i := xs])"
  unfolding placed_def
proof (intro allI impI ballI)
  fix j x
  assume "j < length (bs[i := xs])" "x \<in> set (bs[i := xs] ! j)"
  then show "slot hf (kot (snd x)) (length (bs[i := xs])) = j"
    by (cases "j = i") (simp_all add: assms(2) assms(1) [unfolded placed_def, rule_format])
qed

lemma placed_replicate: "placed hf kot (replicate m [])"
  by (simp add: placed_def)

lemma slot_less [simp]: "0 < m \<Longrightarrow> slot hf k m < m"
  by (simp add: slot_def)

text \<open>What a table holds: addresses and keys are used once, and the size bounds the number of elements.\<close>

definition ht_at :: "('k \<Rightarrow> u64) \<Rightarrow> ('d \<Rightarrow> 'k) \<Rightarrow> 'd HashTable \<Rightarrow> (nat \<times> 'd) list list \<Rightarrow> bool" where
  "ht_at hf kot s bs \<longleftrightarrow>
     buckets_at (ht_heap s) (stable s) bs \<and> bs \<noteq> [] \<and> placed hf kot bs
     \<and> distinct (map fst (concat bs)) \<and> distinct (map (kot \<circ> snd) (concat bs))
     \<and> dom (ht_heap s) = fst ` set (concat bs)
     \<and> length (concat bs) \<le> ht_size s \<and> ht_size s \<le> length (stable s)"

lemma ht_atD:
  assumes "ht_at hf kot s bs"
  shows "buckets_at (ht_heap s) (stable s) bs" "0 < length bs" "length (stable s) = length bs" "placed hf kot bs"
    "distinct (map fst (concat bs))" "distinct (map (kot \<circ> snd) (concat bs))" "dom (ht_heap s) = fst ` set (concat bs)"
    "length (concat bs) \<le> ht_size s" "ht_size s \<le> length (stable s)"
  using assms buckets_at_length by (auto simp: ht_at_def)

section \<open>Searching\<close>

lemma find_unique:
  "distinct (map f xs) \<Longrightarrow> x \<in> set xs \<Longrightarrow> f x = k \<Longrightarrow> find (\<lambda>x. f x = k) xs = Some x"
  by (induction xs) (auto simp: image_iff)

lemma get_hnode_Some [simp]: "ht_heap s a = Some x \<Longrightarrow> get_hnode s (Some a) = Inr x"
  by (simp add: get_hnode_def)

lemma set_next_Some [simp]:
  "ht_heap s a = Some x \<Longrightarrow> set_next (Some a) q s = Inr (s\<lparr>ht_heap := (ht_heap s)(a \<mapsto> x\<lparr>h_next := q\<rparr>)\<rparr>)"
  by (simp add: set_next_def)

lemma delete_hnode_Some [simp]:
  "ht_heap s a = Some x \<Longrightarrow> delete_hnode (Some a) s = Inr (s\<lparr>ht_heap := (ht_heap s)(a := None)\<rparr>)"
  by (simp add: delete_hnode_def)

lemma at_index_less [simp]: "i < length xs \<Longrightarrow> at_index xs i = Inr (xs ! i)"
  by (simp add: at_index_def)

lemma chain_find_at:
  "chain_at (ht_heap s) p xs \<Longrightarrow> length xs < n \<Longrightarrow>
   chain_find kot n s k p = Inr (map_option fst (find (\<lambda>x. kot (snd x) = k) xs))"
proof (induction xs arbitrary: p n)
  case Nil
  then show ?case by (cases n) auto
next
  case (Cons x xs)
  then obtain m where "n = Suc m" by (cases n) auto
  with Cons show ?case by (auto simp: chain_at_Cons)
qed

lemma length_bucket: "i < length bs \<Longrightarrow> length (bs ! i) \<le> length (concat bs)"
  using elem_le_sum_list [of i "map length bs"] by (simp add: length_concat)

text \<open>The node with a key, wherever it is.\<close>

definition located :: "('d \<Rightarrow> 'k) \<Rightarrow> (nat \<times> 'd) list list \<Rightarrow> 'k \<Rightarrow> (nat \<times> 'd) option" where
  "located kot bs k = find (\<lambda>x. kot (snd x) = k) (concat bs)"

lemma located_None: "located kot bs k = None \<longleftrightarrow> k \<notin> kot ` snd ` set (concat bs)"
  by (force simp: located_def find_None_iff)

lemma located_SomeD: "located kot bs k = Some x \<Longrightarrow> x \<in> set (concat bs) \<and> kot (snd x) = k"
  unfolding located_def find_Some_iff by (metis nth_mem)

lemma located_Some:
  "distinct (map (kot \<circ> snd) (concat bs)) \<Longrightarrow> x \<in> set (concat bs) \<Longrightarrow> located kot bs (kot (snd x)) = Some x"
  unfolding located_def using find_unique [of "kot \<circ> snd" "concat bs" x "kot (snd x)"] by simp

lemma located_in_bucket:
  assumes "ht_at hf kot s bs"
  shows "find (\<lambda>x. kot (snd x) = k) (bs ! slot hf k (length bs)) = located kot bs k"
proof (cases "located kot bs k")
  case None
  have "slot hf k (length bs) < length bs" using ht_atD(2) [OF assms] by simp
  then have "find (\<lambda>x. kot (snd x) = k) (bs ! slot hf k (length bs)) = None"
    using None bucket_subset [of "slot hf k (length bs)" bs] unfolding find_None_iff located_None by blast
  with None show ?thesis by simp
next
  case (Some x)
  then have x: "x \<in> set (concat bs)" "kot (snd x) = k" using located_SomeD by fast+
  then have "x \<in> set (bs ! slot hf k (length bs))" using placedD [OF ht_atD(4) [OF assms]] by blast
  moreover have "distinct (map (kot \<circ> snd) (bs ! slot hf k (length bs)))"
    using bucket_distinct ht_atD(2,6) [OF assms] by (metis slot_less)
  ultimately show ?thesis using find_unique [of "kot \<circ> snd" _ x k] x(2) Some by simp
qed

lemma zht_find_at:
  assumes "ht_at hf kot s bs" "length (concat bs) < n"
  shows "zht_find hf kot n s k = Inr (map_option fst (located kot bs k))"
proof -
  let ?i = "slot hf k (length bs)"
  have i: "?i < length bs" "length (stable s) = length bs" using ht_atD [OF assms(1)] by simp_all
  have "chain_find kot n s k (stable s ! ?i) = Inr (map_option fst (find (\<lambda>x. kot (snd x) = k) (bs ! ?i)))"
    by (rule chain_find_at [OF buckets_at_nth [OF ht_atD(1) [OF assms(1)] i(1)]])
      (use length_bucket [OF i(1)] assms(2) in simp)
  with i located_in_bucket [OF assms(1)] show ?thesis by (simp add: zht_find_def)
qed

lemma ht_find_zht: "ht_find hf = zht_find hf fst"
  by (intro ext) (simp add: ht_find_def zht_find_def)

lemmas ht_find_at = zht_find_at [where kot = fst, folded ht_find_zht]

section \<open>Growing\<close>

definition push_bucket :: "('k \<Rightarrow> u64) \<Rightarrow> ('d \<Rightarrow> 'k) \<Rightarrow> nat \<times> 'd \<Rightarrow> (nat \<times> 'd) list list \<Rightarrow> (nat \<times> 'd) list list" where
  "push_bucket hf kot x bs = (let i = slot hf (kot (snd x)) (length bs) in bs[i := x # bs ! i])"

lemma push_bucket_facts:
  assumes "bs \<noteq> []"
  shows "length (push_bucket hf kot x bs) = length bs"
    "mset (concat (push_bucket hf kot x bs)) = add_mset x (mset (concat bs))"
    "placed hf kot bs \<Longrightarrow> placed hf kot (push_bucket hf kot x bs)"
proof -
  let ?i = "slot hf (kot (snd x)) (length bs)"
  have i: "?i < length bs" using assms by simp
  show "length (push_bucket hf kot x bs) = length bs" by (simp add: push_bucket_def Let_def)
  show "mset (concat (push_bucket hf kot x bs)) = add_mset x (mset (concat bs))"
    using mset_concat_push [OF i] by (simp add: push_bucket_def Let_def)
  show "placed hf kot (push_bucket hf kot x bs)" if "placed hf kot bs"
    unfolding push_bucket_def Let_def
    by (rule placed_update [OF that]) (use that i in \<open>auto simp: placed_def\<close>)
qed

lemma buckets_at_push:
  assumes "buckets_at h ps bs" "bs \<noteq> []" "h' = h(a \<mapsto> \<lparr>h_data = d, h_next = ps ! slot hf (kot d) (length ps)\<rparr>)"
    and "a \<notin> fst ` set (concat bs)"
  shows "buckets_at h' (ps[slot hf (kot d) (length ps) := Some a]) (push_bucket hf kot (a, d) bs)"
proof -
  let ?i = "slot hf (kot d) (length bs)"
  have i: "?i < length bs" using assms(2) by simp
  have b: "buckets_at h' ps bs" by (rule buckets_at_cong [OF assms(1)]) (use assms(3,4) in auto)
  have "chain_at h' (Some a) ((a, d) # bs ! ?i)"
    using buckets_at_nth [OF b i] assms(3) buckets_at_length [OF assms(1)] by (simp add: chain_at_Cons)
  with buckets_at_update [OF b] show ?thesis
    using buckets_at_length [OF assms(1)] by (simp add: push_bucket_def Let_def)
qed

lemma move_chain_at:
  assumes "chain_at (ht_heap s) p xs" "buckets_at (ht_heap s) ps bs" "bs \<noteq> []" "distinct (map fst (xs @ concat bs))" "length xs < n"
  shows "\<exists>ps' h'. move_chain hf kot n p ps s = Inr (ps', s\<lparr>ht_heap := h'\<rparr>)
    \<and> buckets_at h' ps' (fold (push_bucket hf kot) xs bs) \<and> (\<forall>a. a \<notin> fst ` set xs \<longrightarrow> h' a = ht_heap s a) \<and> dom h' = dom (ht_heap s)"
  using assms
proof (induction xs arbitrary: p ps bs s n)
  case Nil
  then obtain m where "n = Suc m" by (cases n) auto
  with Nil show ?case by (intro exI [of _ ps] exI [of _ "ht_heap s"]) auto
next
  case (Cons x xs)
  obtain m where m: "n = Suc m" using Cons.prems(5) by (cases n) auto
  obtain a d where x: "x = (a, d)" by fastforce
  obtain q where q: "p = Some a" "ht_heap s a = Some \<lparr>h_data = d, h_next = q\<rparr>" "chain_at (ht_heap s) q xs"
    using Cons.prems(1) x by (auto simp: chain_at_Cons)
  let ?i = "slot hf (kot d) (length ps)"
  define s1 where "s1 = s\<lparr>ht_heap := (ht_heap s)(a \<mapsto> \<lparr>h_data = d, h_next = ps ! ?i\<rparr>)\<rparr>"
  have len: "length ps = length bs" "0 < length ps" using buckets_at_length [OF Cons.prems(2)] Cons.prems(3) by auto
  have step: "move_chain hf kot n p ps s = move_chain hf kot m q (ps[?i := Some a]) s1"
    using q m len(2) by (simp add: s1_def Let_def)
  have "chain_at (ht_heap s1) q xs" using q(3) Cons.prems(4) x by (auto simp: s1_def intro: chain_at_frame)
  moreover have "buckets_at (ht_heap s1) (ps[?i := Some a]) (push_bucket hf kot x bs)"
    unfolding x by (rule buckets_at_push [OF Cons.prems(2,3)]) (use Cons.prems(4) x in \<open>auto simp: s1_def\<close>)
  moreover have "push_bucket hf kot x bs \<noteq> []" using push_bucket_facts(1) [OF Cons.prems(3)] Cons.prems(3) by (metis length_0_conv)
  moreover have "distinct (map fst (xs @ concat (push_bucket hf kot x bs)))"
  proof -
    have "mset (map fst (xs @ concat (push_bucket hf kot x bs))) = mset (map fst ((x # xs) @ concat bs))"
      using push_bucket_facts(2) [OF Cons.prems(3), of hf kot x] by simp
    then show ?thesis using Cons.prems(4) mset_eq_imp_distinct_iff by blast
  qed
  ultimately obtain ps' h' where i: "move_chain hf kot m q (ps[?i := Some a]) s1 = Inr (ps', s1\<lparr>ht_heap := h'\<rparr>)"
    "buckets_at h' ps' (fold (push_bucket hf kot) xs (push_bucket hf kot x bs))" "\<forall>a. a \<notin> fst ` set xs \<longrightarrow> h' a = ht_heap s1 a"
    "dom h' = dom (ht_heap s1)"
    using Cons.IH [of s1 q "ps[?i := Some a]" "push_bucket hf kot x bs" m] Cons.prems(5) m by auto
  have "dom h' = dom (ht_heap s)" using i(4) q(2) by (auto simp: s1_def)
  with i step show ?case by (intro exI [of _ ps'] exI [of _ h']) (auto simp: s1_def x)
qed

lemma fold_push_facts:
  assumes "bs \<noteq> []"
  shows "length (fold (push_bucket hf kot) xs bs) = length bs"
    "mset (concat (fold (push_bucket hf kot) xs bs)) = mset xs + mset (concat bs)"
    "placed hf kot bs \<Longrightarrow> placed hf kot (fold (push_bucket hf kot) xs bs)"
proof -
  have "length (fold (push_bucket hf kot) xs bs) = length bs
    \<and> mset (concat (fold (push_bucket hf kot) xs bs)) = mset xs + mset (concat bs)
    \<and> (placed hf kot bs \<longrightarrow> placed hf kot (fold (push_bucket hf kot) xs bs))"
    using assms
  proof (induction xs arbitrary: bs)
    case (Cons x xs)
    then have "push_bucket hf kot x bs \<noteq> []" by (simp add: push_bucket_def Let_def)
    with Cons push_bucket_facts [OF Cons.prems, of hf kot x] show ?case by simp
  qed simp
  then show "length (fold (push_bucket hf kot) xs bs) = length bs"
    "mset (concat (fold (push_bucket hf kot) xs bs)) = mset xs + mset (concat bs)"
    "placed hf kot bs \<Longrightarrow> placed hf kot (fold (push_bucket hf kot) xs bs)"
    by blast+
qed

lemma move_all_at:
  assumes "distinct is" "\<forall>i \<in> set is. i < length (stable s) \<and> chain_at (ht_heap s) (stable s ! i) (bs ! i) \<and> length (bs ! i) < n"
    and "buckets_at (ht_heap s) ps nbs" "nbs \<noteq> []" "distinct (map fst (concat (map ((!) bs) is) @ concat nbs))"
    and "placed hf kot nbs"
  shows "\<exists>ps' s' nbs'. move_all hf kot n is ps s = Inr (ps', s') \<and> buckets_at (ht_heap s') ps' nbs' \<and> placed hf kot nbs'
    \<and> length nbs' = length nbs \<and> mset (concat nbs') = mset (concat (map ((!) bs) is)) + mset (concat nbs)
    \<and> ht_size s' = ht_size s \<and> dom (ht_heap s') = dom (ht_heap s)"
  using assms
proof (induction "is" arbitrary: s ps nbs)
  case Nil
  then show ?case by auto
next
  case (Cons i "is")
  have c: "i < length (stable s)" "chain_at (ht_heap s) (stable s ! i) (bs ! i)" "length (bs ! i) < n" using Cons.prems(2) by auto
  have d: "distinct (map fst (bs ! i @ concat nbs))" using Cons.prems(5) by (simp add: Int_Un_distrib)
  obtain ps1 h1 where m: "move_chain hf kot n (stable s ! i) ps s = Inr (ps1, s\<lparr>ht_heap := h1\<rparr>)"
    "buckets_at h1 ps1 (fold (push_bucket hf kot) (bs ! i) nbs)" "\<forall>a. a \<notin> fst ` set (bs ! i) \<longrightarrow> h1 a = ht_heap s a"
    "dom h1 = dom (ht_heap s)"
    using move_chain_at [OF c(2) Cons.prems(3,4) d c(3)] by blast
  define nbs1 where "nbs1 = fold (push_bucket hf kot) (bs ! i) nbs"
  note f = fold_push_facts [OF Cons.prems(4), of hf kot "bs ! i", folded nbs1_def]
  define s1 where "s1 = s\<lparr>ht_heap := h1, stable := (stable s)[i := None]\<rparr>"
  have rest: "j < length (stable s1) \<and> chain_at (ht_heap s1) (stable s1 ! j) (bs ! j) \<and> length (bs ! j) < n" if j: "j \<in> set is" for j
  proof -
    have j': "chain_at (ht_heap s) (stable s ! j) (bs ! j)" "j < length (stable s)" "length (bs ! j) < n" "j \<noteq> i"
      using Cons.prems(1,2) j by auto
    have "set (bs ! j) \<subseteq> set (concat (map ((!) bs) is))" using j by auto
    moreover have "fst ` set (bs ! i) \<inter> fst ` set (concat (map ((!) bs) is)) = {}"
      using Cons.prems(5) by (simp add: Int_Un_distrib)
    ultimately have "a \<in> fst ` set (bs ! j) \<Longrightarrow> h1 a = ht_heap s a" for a using m(3) by blast
    then have "chain_at h1 (stable s ! j) (bs ! j)" by (rule chain_at_cong [OF j'(1)])
    with j' show ?thesis by (simp add: s1_def)
  qed
  have "mset (map fst (concat (map ((!) bs) is) @ concat nbs1)) = mset (map fst (concat (map ((!) bs) (i # is)) @ concat nbs))"
    using f(2) by simp
  then have d1: "distinct (map fst (concat (map ((!) bs) is) @ concat nbs1))" using Cons.prems(5) mset_eq_imp_distinct_iff by blast
  have "nbs1 \<noteq> []" using f(1) Cons.prems(4) by auto
  then obtain ps' s' nbs' where i: "move_all hf kot n is ps1 s1 = Inr (ps', s')" "buckets_at (ht_heap s') ps' nbs'" "placed hf kot nbs'"
    "length nbs' = length nbs1" "mset (concat nbs') = mset (concat (map ((!) bs) is)) + mset (concat nbs1)"
    "ht_size s' = ht_size s1" "dom (ht_heap s') = dom (ht_heap s1)"
    using Cons.IH [of s1 ps1 nbs1] rest d1 f(3) [OF Cons.prems(6)] m(2) Cons.prems(1) by (auto simp: s1_def nbs1_def)
  have "move_all hf kot n (i # is) ps s = Inr (ps', s')" using c(1) m(1) i(1) by (simp add: s1_def)
  with i(2-) f m(4) show ?case by (intro exI [of _ ps'] exI [of _ s'] exI [of _ nbs']) (auto simp: s1_def)
qed

lemma grow_at:
  assumes t: "ht_at hf kot s bs" and n: "length (concat bs) < n"
  obtains s' bs' where "grow hf kot n s = Inr s'" "ht_at hf kot s' bs'" "mset (concat bs') = mset (concat bs)"
    "ht_size s' < length (stable s')" "ht_size s' = ht_size s" "length (stable s) \<le> length (stable s')"
proof (cases "ht_size s = length (stable s)")
  case False
  then show ?thesis using that [of s bs] t ht_atD(9) [OF t] by (simp add: grow_def)
next
  case True
  note D = ht_atD [OF t]
  let ?m = "length (stable s) * 2"
  have ub: "map ((!) bs) [0..<length (stable s)] = bs" using D(3) by (simp add: map_nth)
  have "\<forall>i \<in> set [0..<length (stable s)]. i < length (stable s) \<and> chain_at (ht_heap s) (stable s ! i) (bs ! i) \<and> length (bs ! i) < n"
    using D(3) buckets_at_nth [OF D(1)] le_less_trans [OF length_bucket n] by simp
  moreover have "replicate ?m [] \<noteq> ([] :: (nat \<times> 'a) list list)" using D(2,3) by auto
  moreover have "distinct (map fst (concat (map ((!) bs) [0..<length (stable s)]) @ concat (replicate ?m [])))"
    using D(5) ub by simp
  ultimately obtain ps' s1 nbs' where m: "move_all hf kot n [0..<length (stable s)] (replicate ?m None) s = Inr (ps', s1)"
    "buckets_at (ht_heap s1) ps' nbs'" "placed hf kot nbs'" "length nbs' = ?m" "mset (concat nbs') = mset (concat bs)"
    "ht_size s1 = ht_size s" "dom (ht_heap s1) = dom (ht_heap s)"
    using move_all_at [OF distinct_upt _ buckets_at_replicate [of "ht_heap s" ?m] _ _ placed_replicate [of hf kot ?m], of 0 "length (stable s)" bs n]
    unfolding ub by auto
  have perm: "distinct (map fst (concat nbs'))" "distinct (map (kot \<circ> snd) (concat nbs'))" "set (concat nbs') = set (concat bs)"
    "length (concat nbs') = length (concat bs)"
    using m(5) D(5,6) by (metis mset_eq_imp_distinct_iff mset_map, metis mset_eq_imp_distinct_iff mset_map, metis set_mset_mset, metis size_mset)
  have "ht_at hf kot (s1\<lparr>stable := ps'\<rparr>) nbs'"
    unfolding ht_at_def using m perm D(2,3,7,8) True buckets_at_length [OF m(2)] by auto
  moreover have "grow hf kot n s = Inr (s1\<lparr>stable := ps'\<rparr>)" using True m(1) by (simp add: grow_def)
  ultimately show ?thesis
    using that [of "s1\<lparr>stable := ps'\<rparr>" nbs'] m buckets_at_length [OF m(2)] True D(2,3) by simp
qed

section \<open>Inserting\<close>

lemma push_node_at:
  assumes t: "ht_at hf kot s bs" and "ht_heap s a = None" "kot d \<notin> kot ` snd ` set (concat bs)" "ht_size s < length (stable s)"
  shows "\<exists>s'. push_node hf kot a d s = Inr s' \<and> ht_at hf kot s' (push_bucket hf kot (a, d) bs) \<and> ht_size s' = Suc (ht_size s)"
proof -
  note D = ht_atD [OF t]
  let ?i = "slot hf (kot d) (length (stable s))"
  define s' where "s' = s\<lparr>ht_heap := (ht_heap s)(a \<mapsto> \<lparr>h_data = d, h_next = stable s ! ?i\<rparr>), stable := (stable s)[?i := Some a], ht_size := ht_size s + 1\<rparr>"
  have ne: "bs \<noteq> []" using D(2) by auto
  note f = push_bucket_facts [OF ne, of hf kot "(a, d)"]
  have a: "a \<notin> fst ` set (concat bs)" using assms(2) D(7) by auto
  have p: "push_node hf kot a d s = Inr s'" using D(2,3) by (simp add: push_node_def Let_def s'_def)
  have b: "buckets_at (ht_heap s') (stable s') (push_bucket hf kot (a, d) bs)"
    unfolding s'_def using buckets_at_push [OF D(1) ne refl a, of d hf kot] by simp
  have perm: "mset (map fst (concat (push_bucket hf kot (a, d) bs))) = mset (a # map fst (concat bs))"
    "mset (map (kot \<circ> snd) (concat (push_bucket hf kot (a, d) bs))) = mset (kot d # map (kot \<circ> snd) (concat bs))"
    "set (concat (push_bucket hf kot (a, d) bs)) = insert (a, d) (set (concat bs))"
    "length (concat (push_bucket hf kot (a, d) bs)) = Suc (length (concat bs))"
    using f(2) by (simp, simp, metis list.simps(15) mset.simps(2) set_mset_mset, metis size_add_mset size_mset)
  have "distinct (map fst (concat (push_bucket hf kot (a, d) bs)))"
    using mset_eq_imp_distinct_iff [OF perm(1)] D(5) a by simp
  moreover have "distinct (map (kot \<circ> snd) (concat (push_bucket hf kot (a, d) bs)))"
    using mset_eq_imp_distinct_iff [OF perm(2)] D(6) assms(3) by (auto simp: image_image)
  moreover have "dom (ht_heap s') = fst ` set (concat (push_bucket hf kot (a, d) bs))"
    unfolding perm(3) using D(7) by (simp add: s'_def)
  ultimately have "ht_at hf kot s' (push_bucket hf kot (a, d) bs)"
    unfolding ht_at_def using b f(3) [OF D(4)] f(1) ne perm(4) D(8) assms(4) by (auto simp: s'_def)
  with p show ?thesis by (auto simp: s'_def)
qed

lemma grow_push_at:
  assumes t: "ht_at hf kot s bs" and "ht_heap s a = None" "length (concat bs) < n" "kot d \<notin> kot ` snd ` set (concat bs)"
  obtains s1 s' bs' where "grow hf kot n s = Inr s1" "push_node hf kot a d s1 = Inr s'" "ht_at hf kot s' bs'"
    "mset (concat bs') = add_mset (a, d) (mset (concat bs))"
proof -
  obtain s1 bs1 where g: "grow hf kot n s = Inr s1" "ht_at hf kot s1 bs1" "mset (concat bs1) = mset (concat bs)"
    "ht_size s1 < length (stable s1)" "ht_size s1 = ht_size s" "length (stable s) \<le> length (stable s1)"
    by (rule grow_at [OF t assms(3)])
  have eq: "set (concat bs1) = set (concat bs)" using g(3) by (metis set_mset_mset)
  have "a \<notin> dom (ht_heap s)" using assms(2) by auto
  then have "ht_heap s1 a = None" using ht_atD(7) [OF g(2)] ht_atD(7) [OF t] unfolding eq by auto
  moreover have "kot d \<notin> kot ` snd ` set (concat bs1)" unfolding eq by (rule assms(4))
  ultimately obtain s' where "push_node hf kot a d s1 = Inr s'" "ht_at hf kot s' (push_bucket hf kot (a, d) bs1)"
    using push_node_at [OF g(2) _ _ g(4)] by blast
  moreover have "bs1 \<noteq> []" using ht_atD(2) [OF g(2)] by auto
  ultimately show ?thesis using that g(1,3) push_bucket_facts(2) by metis
qed

lemma zht_insert_at:
  assumes t: "ht_at hf kot s bs" and "ht_heap s a = None" "length (concat bs) < n"
  obtains (old) a' d' where "located kot bs (kot d) = Some (a', d')" "zht_insert hf kot n a d s = Inr (Some a', False, s)"
  | (new) s' bs' where "located kot bs (kot d) = None" "zht_insert hf kot n a d s = Inr (Some a, False, s')" "ht_at hf kot s' bs'"
    "mset (concat bs') = add_mset (a, d) (mset (concat bs))"
proof (cases "located kot bs (kot d)")
  case None
  then have "kot d \<notin> kot ` snd ` set (concat bs)" using located_None by metis
  then obtain s1 s' bs' where "grow hf kot n s = Inr s1" "push_node hf kot a d s1 = Inr s'" "ht_at hf kot s' bs'"
    "mset (concat bs') = add_mset (a, d) (mset (concat bs))"
    by (rule grow_push_at [OF t assms(2,3)])
  then show ?thesis using new [OF None] zht_find_at [OF t assms(3), of "kot d"] None by (simp add: zht_insert_def)
next
  case (Some x)
  then show ?thesis using old [of "fst x" "snd x"] zht_find_at [OF t assms(3), of "kot d"] by (simp add: zht_insert_def)
qed

lemma ht_insert_at:
  assumes t: "ht_at hf fst s bs" and "ht_heap s a = None" "length (concat bs) < n"
  obtains (old) x where "located fst bs (fst kv) = Some x" "ht_insert hf n a kv s = Inr (False, s)"
  | (new) s' bs' where "located fst bs (fst kv) = None" "ht_insert hf n a kv s = Inr (True, s')" "ht_at hf fst s' bs'"
    "mset (concat bs') = add_mset (a, kv) (mset (concat bs))"
proof (cases "located fst bs (fst kv)")
  case None
  then have "fst kv \<notin> fst ` snd ` set (concat bs)" using located_None by metis
  then obtain s1 s' bs' where "grow hf fst n s = Inr s1" "push_node hf fst a kv s1 = Inr s'" "ht_at hf fst s' bs'"
    "mset (concat bs') = add_mset (a, kv) (mset (concat bs))"
    by (rule grow_push_at [OF t assms(2,3)])
  then show ?thesis using new [OF None] ht_find_at [OF t assms(3), of "fst kv"] None by (simp add: ht_insert_def)
next
  case (Some x)
  then show ?thesis using old [of x] ht_find_at [OF t assms(3), of "fst kv"] by (simp add: ht_insert_def)
qed

section \<open>Erasing\<close>

text \<open>A piece of a chain, up to a pointer.\<close>

fun seg_at :: "(nat \<Rightarrow> 'd Hash_data option) \<Rightarrow> ptr \<Rightarrow> (nat \<times> 'd) list \<Rightarrow> ptr \<Rightarrow> bool" where
  "seg_at h p [] r = (p = r)"
| "seg_at h p (x # xs) r = (p = Some (fst x) \<and> (\<exists>q. h (fst x) = Some \<lparr>h_data = snd x, h_next = q\<rparr> \<and> seg_at h q xs r))"

lemma chain_at_append: "chain_at h p (xs @ ys) \<longleftrightarrow> (\<exists>q. seg_at h p xs q \<and> chain_at h q ys)"
  by (induction xs arbitrary: p) (auto simp: chain_at_Cons)

lemma seg_at_append: "seg_at h p (xs @ ys) r \<longleftrightarrow> (\<exists>q. seg_at h p xs q \<and> seg_at h q ys r)"
  by (induction xs arbitrary: p) auto

lemma seg_at_cong: "seg_at h p xs r \<Longrightarrow> (\<And>a. a \<in> fst ` set xs \<Longrightarrow> h' a = h a) \<Longrightarrow> seg_at h' p xs r"
  by (induction xs arbitrary: p) auto

lemma chain_seek_at:
  assumes "seg_at (ht_heap s) p ys (Some a)" "\<forall>y \<in> set ys. fst (snd y) \<noteq> k" "ht_heap s a = Some x" "fst (h_data x) = k" "length ys < n"
  shows "chain_seek n s k prev p = Inr (if ys = [] then prev else Some (fst (last ys)), Some a)"
  using assms
proof (induction ys arbitrary: p prev n)
  case Nil
  then obtain m where "n = Suc m" by (cases n) auto
  with Nil show ?case by simp
next
  case (Cons y ys)
  then obtain m where m: "n = Suc m" "length ys < m" by (cases n) auto
  from Cons.prems(1) obtain q where q: "p = Some (fst y)" "ht_heap s (fst y) = Some \<lparr>h_data = snd y, h_next = q\<rparr>"
    "seg_at (ht_heap s) q ys (Some a)" by auto
  have "chain_seek n s k prev p = chain_seek m s k p q" using m(1) q(1,2) Cons.prems(2) by simp
  also have "\<dots> = Inr (if ys = [] then p else Some (fst (last ys)), Some a)"
    using Cons.IH [OF q(3) _ Cons.prems(3,4) m(2)] Cons.prems(2) by simp
  finally show ?case using q(1) by simp
qed

lemma chain_unlink:
  assumes "chain_at h p (us @ y # x # zs)" "distinct (map fst (us @ y # x # zs))" "h (fst x) = Some \<lparr>h_data = snd x, h_next = q\<rparr>"
  shows "chain_at (h(fst y \<mapsto> \<lparr>h_data = snd y, h_next = q\<rparr>, fst x := None)) p (us @ y # zs)"
proof -
  let ?h = "h(fst y \<mapsto> \<lparr>h_data = snd y, h_next = q\<rparr>, fst x := None)"
  have "seg_at h p us (Some (fst y))" "chain_at h q zs" using assms(1,3) by (auto simp: chain_at_append chain_at_Cons)
  moreover have "a \<notin> fst ` set (us @ zs)" if "a = fst x \<or> a = fst y" for a
    using that assms(2) by (elim disjE) (simp_all add: image_Un)
  moreover from this have "?h a = h a" if "a \<in> fst ` set us \<or> a \<in> fst ` set zs" for a using that by (metis UnCI fun_upd_other image_Un set_append)
  ultimately have "seg_at ?h p us (Some (fst y))" "chain_at ?h q zs"
    using seg_at_cong [of h p us "Some (fst y)" ?h] chain_at_cong [of h q zs ?h] by blast+
  moreover have "fst y \<noteq> fst x" using assms(2) by auto
  ultimately show ?thesis by (auto simp: chain_at_append chain_at_Cons)
qed

text \<open>Replacing the contents of one bucket leaves the others as they are.\<close>

lemma buckets_at_replace:
  assumes t: "ht_at hf kot s bs" and i: "i < length bs" and h: "\<And>a. a \<notin> fst ` set (bs ! i) \<Longrightarrow> h' a = ht_heap s a"
    and p: "chain_at h' p xs"
  shows "buckets_at h' ((stable s)[i := p]) (bs[i := xs])"
  unfolding buckets_at_def list_all2_conv_all_nth
proof (intro conjI allI impI)
  note D = ht_atD [OF t]
  show "length ((stable s)[i := p]) = length (bs[i := xs])" using D(3) by simp
  fix j
  assume j: "j < length ((stable s)[i := p])"
  show "chain_at h' ((stable s)[i := p] ! j) (bs[i := xs] ! j)"
  proof (cases "j = i")
    case False
    have "j < length bs" using j D(3) by simp
    then have "chain_at h' (stable s ! j) (bs ! j)"
      using bucket_disjoint [OF D(5) _ i False] h by (intro chain_at_cong [OF buckets_at_nth [OF D(1)]]) fastforce+
    with False show ?thesis by simp
  qed (use p i j in simp)
qed

lemma ht_at_remove:
  assumes t: "ht_at hf kot s bs" and i: "i < length bs" and split: "bs ! i = ys @ x # zs"
    and b: "buckets_at (ht_heap s') (stable s') (bs[i := ys @ zs])" and d: "dom (ht_heap s') = dom (ht_heap s) - {fst x}"
    and sz: "ht_size s' = ht_size s"
  shows "ht_at hf kot s' (bs[i := ys @ zs])" "mset (concat bs) = add_mset x (mset (concat (bs[i := ys @ zs])))"
proof -
  note D = ht_atD [OF t]
  let ?bs = "bs[i := ys @ zs]"
  show m: "mset (concat bs) = add_mset x (mset (concat ?bs))"
    using mset_concat_update [OF i, of "ys @ zs"] split by simp
  have perm: "mset (map fst (concat bs)) = mset (fst x # map fst (concat ?bs))"
    "mset (map (kot \<circ> snd) (concat bs)) = mset ((kot \<circ> snd) x # map (kot \<circ> snd) (concat ?bs))" using m by simp_all
  have addr: "distinct (fst x # map fst (concat ?bs))" using mset_eq_imp_distinct_iff [OF perm(1)] D(5) by blast
  have keys: "distinct ((kot \<circ> snd) x # map (kot \<circ> snd) (concat ?bs))"
    using mset_eq_imp_distinct_iff [OF perm(2)] D(6) by blast
  have len: "length (concat bs) = Suc (length (concat ?bs))" using m by (metis size_add_mset size_mset)
  have "set (concat bs) = insert x (set (concat ?bs))" using m by (metis set_mset_add_mset_insert set_mset_mset)
  then have "dom (ht_heap s') = fst ` set (concat ?bs)" using D(7) d addr by auto
  moreover have "placed hf kot ?bs"
    by (rule placed_update [OF D(4)]) (use D(4) i split in \<open>auto simp: placed_def\<close>)
  ultimately show "ht_at hf kot s' ?bs"
    unfolding ht_at_def using b addr keys len D(2,3,8,9) sz buckets_at_length [OF b] by auto
qed

lemma find_split: "find P xs = Some x \<Longrightarrow> \<exists>ys zs. xs = ys @ x # zs \<and> (\<forall>y \<in> set ys. \<not> P y) \<and> P x"
proof (induction xs)
  case (Cons z xs)
  show ?case
  proof (cases "P z")
    case True
    with Cons.prems show ?thesis by (intro exI [of _ "[]"] exI [of _ xs]) auto
  next
    case False
    with Cons obtain ys zs where "xs = ys @ x # zs" "\<forall>y \<in> set ys. \<not> P y" "P x" by auto
    with False show ?thesis by (intro exI [of _ "z # ys"] exI [of _ zs]) simp
  qed
qed simp

lemma located_split:
  assumes t: "ht_at hf kot s bs" and "located kot bs k = Some x"
  obtains ys zs where "bs ! slot hf k (length bs) = ys @ x # zs" "\<forall>y \<in> set ys. kot (snd y) \<noteq> k" "kot (snd x) = k"
  using find_split [of "\<lambda>x. kot (snd x) = k"] located_in_bucket [OF t, of k] assms(2) by metis

lemma ht_erase_at:
  assumes t: "ht_at hf fst s bs" and n: "length (concat bs) < n" and x: "located fst bs (fst kv) = Some x"
  obtains s' bs' where "ht_erase hf n kv s = Inr (True, s')" "ht_at hf fst s' bs'" "mset (concat bs) = add_mset x (mset (concat bs'))"
    "ht_size s' = ht_size s" "length (stable s') = length (stable s)"
proof -
  note D = ht_atD [OF t]
  let ?i = "slot hf (fst kv) (length bs)"
  have i: "?i < length bs" using D(2) by simp
  obtain ys zs where sp: "bs ! ?i = ys @ x # zs" "\<forall>y \<in> set ys. fst (snd y) \<noteq> fst kv" "fst (snd x) = fst kv"
    by (rule located_split [OF t x])
  have c: "chain_at (ht_heap s) (stable s ! ?i) (ys @ x # zs)" "distinct (map fst (ys @ x # zs))"
    using buckets_at_nth [OF D(1) i] bucket_distinct [OF i D(5)] sp(1) by simp_all
  obtain q where q: "seg_at (ht_heap s) (stable s ! ?i) ys (Some (fst x))" "ht_heap s (fst x) = Some \<lparr>h_data = snd x, h_next = q\<rparr>"
    "chain_at (ht_heap s) q zs" using c(1) by (auto simp: chain_at_append chain_at_Cons)
  have "length ys < n" using length_bucket [OF i] sp(1) n by simp
  then have seek: "chain_seek n s (fst kv) None (stable s ! ?i) = Inr (if ys = [] then None else Some (fst (last ys)), Some (fst x))"
    using chain_seek_at [OF q(1) sp(2) q(2)] sp(3) by simp
  note E = ht_find_at [OF t n, of "fst kv"] x D(3) i seek q(2)
  note fin = that [of _ "bs[?i := ys @ zs]"] ht_at_remove [OF t i sp(1)]
  show ?thesis
  proof (cases "ys = []")
    case True
    define s' where "s' = s\<lparr>stable := (stable s)[?i := q], ht_heap := (ht_heap s)(fst x := None)\<rparr>"
    have first: "stable s ! ?i = Some (fst x)" using q(1) True by simp
    have "chain_at (ht_heap s') q zs" using chain_at_frame [OF q(3)] c(2) by (simp add: s'_def)
    then have b: "buckets_at (ht_heap s') (stable s') (bs[?i := ys @ zs])"
      unfolding s'_def using buckets_at_replace [OF t i] sp(1) True by simp
    have "ht_erase hf n kv s = Inr (True, s')" using E first True by (simp add: ht_erase_def Let_def s'_def)
    then show ?thesis using fin [of s'] b by (auto simp: s'_def)
  next
    case False
    then obtain us y where y: "ys = us @ [y]" by (cases ys rule: rev_cases) auto
    have yh: "ht_heap s (fst y) = Some \<lparr>h_data = snd y, h_next = Some (fst x)\<rparr>" "stable s ! ?i \<noteq> Some (fst x)"
      using q(1) c(2) y by (auto simp: seg_at_append) (cases us; auto)
    define s' where "s' = s\<lparr>ht_heap := (ht_heap s)(fst y \<mapsto> \<lparr>h_data = snd y, h_next = q\<rparr>, fst x := None)\<rparr>"
    have "chain_at (ht_heap s') (stable s ! ?i) (ys @ zs)"
      using chain_unlink [of "ht_heap s" "stable s ! ?i" us y x zs q] q(2) c y by (simp add: s'_def)
    then have "buckets_at (ht_heap s') ((stable s)[?i := stable s ! ?i]) (bs[?i := ys @ zs])"
      by (rule buckets_at_replace [OF t i, rotated]) (use sp(1) y in \<open>auto simp: s'_def\<close>)
    then have b: "buckets_at (ht_heap s') (stable s') (bs[?i := ys @ zs])" by (simp add: s'_def)
    have ne: "fst y \<noteq> fst x" using c(2) y by auto
    have "ht_erase hf n kv s = Inr (True, s')"
      using E yh y ne by (simp add: ht_erase_def Let_def s'_def)
    moreover have "dom (ht_heap s') = dom (ht_heap s) - {fst x}" using yh(1) ne by (auto simp: s'_def)
    ultimately show ?thesis using fin [of s'] b by (auto simp: s'_def)
  qed
qed

section \<open>Destroying\<close>

lemma free_chain_at:
  "chain_at (ht_heap s) p xs \<Longrightarrow> distinct (map fst xs) \<Longrightarrow> length xs < n \<Longrightarrow>
   free_chain n p s = Inr (s\<lparr>ht_heap := ht_heap s |` (- fst ` set xs)\<rparr>)"
proof (induction xs arbitrary: p s n)
  case Nil
  then obtain m where "n = Suc m" by (cases n) auto
  with Nil show ?case by simp
next
  case (Cons x xs)
  then obtain m where m: "n = Suc m" "length xs < m" by (cases n) auto
  obtain q where q: "p = Some (fst x)" "ht_heap s (fst x) = Some \<lparr>h_data = snd x, h_next = q\<rparr>" "chain_at (ht_heap s) q xs"
    using Cons.prems(1) by (auto simp: chain_at_Cons)
  let ?s = "s\<lparr>ht_heap := (ht_heap s)(fst x := None)\<rparr>"
  have "chain_at (ht_heap ?s) q xs" using chain_at_frame [OF q(3)] Cons.prems(2) by simp
  then have "free_chain m q ?s = Inr (?s\<lparr>ht_heap := ht_heap ?s |` (- fst ` set xs)\<rparr>)"
    by (rule Cons.IH) (use Cons.prems(2) m(2) in simp_all)
  moreover have "((ht_heap s)(fst x := None)) |` (- fst ` set xs) = ht_heap s |` (- fst ` set (x # xs))"
    by (auto simp: fun_eq_iff restrict_map_def)
  ultimately show ?case using m(1) q(1,2) by simp
qed

lemma free_all_at:
  assumes "distinct is" "\<forall>i \<in> set is. i < length (stable s) \<and> chain_at (ht_heap s) (stable s ! i) (bs ! i) \<and> length (bs ! i) < n"
    and "distinct (map fst (concat (map ((!) bs) is)))"
  shows "\<exists>s'. free_all n is s = Inr s' \<and> ht_heap s' = ht_heap s |` (- fst ` set (concat (map ((!) bs) is)))"
  using assms
proof (induction "is" arbitrary: s)
  case Nil
  then show ?case by (simp add: restrict_map_def)
next
  case (Cons i "is")
  define s1 where "s1 = s\<lparr>ht_heap := ht_heap s |` (- fst ` set (bs ! i)), stable := (stable s)[i := None]\<rparr>"
  have c: "i < length (stable s)" "chain_at (ht_heap s) (stable s ! i) (bs ! i)" "length (bs ! i) < n" using Cons.prems(2) by auto
  have disj: "fst ` set (bs ! i) \<inter> fst ` set (concat (map ((!) bs) is)) = {}" using Cons.prems(3) by simp
  have "j < length (stable s1) \<and> chain_at (ht_heap s1) (stable s1 ! j) (bs ! j) \<and> length (bs ! j) < n" if j: "j \<in> set is" for j
  proof -
    have j': "chain_at (ht_heap s) (stable s ! j) (bs ! j)" "j < length (stable s)" "length (bs ! j) < n" "j \<noteq> i"
      using Cons.prems(1,2) j by auto
    have "set (bs ! j) \<subseteq> set (concat (map ((!) bs) is))" using j by auto
    then have "chain_at (ht_heap s1) (stable s ! j) (bs ! j)"
      using disj by (intro chain_at_cong [OF j'(1)]) (simp add: s1_def restrict_map_def, blast)
    with j' show ?thesis by (simp add: s1_def)
  qed
  then obtain s' where s': "free_all n is s1 = Inr s'" "ht_heap s' = ht_heap s1 |` (- fst ` set (concat (map ((!) bs) is)))"
    using Cons.IH [of s1] Cons.prems(1,3) by auto
  have "free_all n (i # is) s = Inr s'" using free_chain_at [OF c(2) _ c(3)] Cons.prems(3) c(1) s'(1) by (simp add: s1_def)
  moreover have "ht_heap s' = ht_heap s |` (- fst ` set (concat (map ((!) bs) (i # is))))"
    unfolding s'(2) s1_def by (auto simp: fun_eq_iff restrict_map_def image_Un)
  ultimately show ?case by blast
qed

section \<open>Iterating\<close>

lemma first_bucket_at:
  "buckets_at h ps bs \<Longrightarrow>
   (first_bucket ps = None \<and> concat bs = []) \<or>
   (\<exists>k < length bs. first_bucket ps = ps ! k \<and> bs ! k \<noteq> [] \<and> concat bs = bs ! k @ concat (drop (Suc k) bs))"
proof (induction ps arbitrary: bs)
  case Nil
  then show ?case by (simp add: buckets_at_def)
next
  case (Cons p ps)
  then obtain b bs' where b: "bs = b # bs'" "chain_at h p b" "buckets_at h ps bs'"
    by (auto simp: buckets_at_def list_all2_Cons1)
  show ?case
  proof (cases p)
    case None
    with b Cons.IH [OF b(3)] show ?thesis by (auto intro: exI [of _ "Suc _"])
  next
    case (Some a)
    with b show ?thesis by (intro disjI2 exI [of _ 0]) auto
  qed
qed

lemma traverse_chain:
  assumes t: "ht_at hf kot s bs"
  shows "i < length bs \<Longrightarrow> chain_at (ht_heap s) p xs \<Longrightarrow> set xs \<subseteq> set (bs ! i) \<Longrightarrow> xs \<noteq> []
    \<Longrightarrow> length xs + length (concat (drop (Suc i) bs)) < n
    \<Longrightarrow> zht_traverse hf kot n s p = Inr (map snd (xs @ concat (drop (Suc i) bs)))"
proof (induction n arbitrary: i p xs)
  case (Suc n)
  note D = ht_atD [OF t]
  obtain x ys where x: "xs = x # ys" using Suc.prems(4) by (cases xs) auto
  obtain q where q: "p = Some (fst x)" "ht_heap s (fst x) = Some \<lparr>h_data = snd x, h_next = q\<rparr>" "chain_at (ht_heap s) q ys"
    using Suc.prems(2) x by (auto simp: chain_at_Cons)
  have slot: "slot hf (kot (snd x)) (length (stable s)) = i"
    using D(3,4) Suc.prems(1,3) x by (auto simp: placed_def)
  show ?case
  proof (cases "ys = []")
    case False
    then have "q \<noteq> None" using q(3) by (cases q) simp_all
    moreover have "zht_traverse hf kot n s q = Inr (map snd (ys @ concat (drop (Suc i) bs)))"
      using Suc.IH [OF Suc.prems(1) q(3) _ False] Suc.prems(3,5) x by simp
    ultimately show ?thesis using q(1,2) x by (simp add: zit_deref_def zit_inc_def zht_end_def)
  next
    case True
    then have qN: "q = None" using q(3) by simp
    let ?rest = "drop (Suc i) bs"
    have b: "buckets_at (ht_heap s) (drop (Suc i) (stable s)) ?rest" using D(1) by (simp add: buckets_at_def list_all2_dropI)
    have n: "length (concat ?rest) < n" using Suc.prems(5) x by simp
    have "zht_traverse hf kot n s (first_bucket (drop (Suc i) (stable s))) = Inr (map snd (concat ?rest))"
      using first_bucket_at [OF b]
    proof (elim disjE conjE exE)
      assume "first_bucket (drop (Suc i) (stable s)) = None" "concat ?rest = []"
      moreover from n obtain m where "n = Suc m" by (cases n) auto
      ultimately show ?thesis by (simp add: zht_end_def)
    next
      fix k
      assume k: "k < length ?rest" "first_bucket (drop (Suc i) (stable s)) = drop (Suc i) (stable s) ! k" "?rest ! k \<noteq> []"
        "concat ?rest = ?rest ! k @ concat (drop (Suc k) ?rest)"
      let ?j = "Suc i + k"
      have j: "?j < length bs" "?rest ! k = bs ! ?j" "drop (Suc k) ?rest = drop (Suc ?j) bs" "drop (Suc i) (stable s) ! k = stable s ! ?j"
        using k(1) D(3) by (auto simp: add.commute)
      have "length (bs ! ?j) + length (concat (drop (Suc ?j) bs)) < n"
        using n k(4) j(2,3) by (metis length_append)
      then have "zht_traverse hf kot n s (stable s ! ?j) = Inr (map snd (bs ! ?j @ concat (drop (Suc ?j) bs)))"
        using Suc.IH [OF j(1) buckets_at_nth [OF D(1) j(1)]] k(3) j(2) by simp
      then show ?thesis using k(2,4) j by simp
    qed
    then show ?thesis using q(1,2) x True qN slot by (simp add: zit_deref_def zit_inc_def zht_end_def)
  qed
qed simp

lemma traverse_table:
  assumes t: "ht_at hf kot s bs" and n: "length (concat bs) < n"
  shows "zht_traverse hf kot n s (zht_begin s) = Inr (map snd (concat bs))"
  using first_bucket_at [OF ht_atD(1) [OF t]]
proof (elim disjE conjE exE)
  assume "first_bucket (stable s) = None" "concat bs = []"
  moreover from n obtain m where "n = Suc m" by (cases n) auto
  ultimately show ?thesis by (simp add: zht_end_def zht_begin_def)
next
  fix k
  assume k: "k < length bs" "first_bucket (stable s) = stable s ! k" "bs ! k \<noteq> []" "concat bs = bs ! k @ concat (drop (Suc k) bs)"
  have "length (bs ! k) + length (concat (drop (Suc k) bs)) < n" using n k(4) by (metis length_append)
  then show ?thesis
    using traverse_chain [OF t k(1) buckets_at_nth [OF ht_atD(1) [OF t] k(1)] subset_refl k(3)] k(2,4) by (simp add: zht_begin_def)
qed

section \<open>Properties\<close>

text \<open>A table holds a set of elements.\<close>

definition ht_holds :: "('k \<Rightarrow> u64) \<Rightarrow> ('d \<Rightarrow> 'k) \<Rightarrow> 'd HashTable \<Rightarrow> 'd set \<Rightarrow> bool" where
  "ht_holds hf kot s D \<longleftrightarrow> (\<exists>bs. ht_at hf kot s bs \<and> snd ` set (concat bs) = D)"

lemma ht_at_card:
  assumes t: "ht_at hf kot s bs"
  shows "card (snd ` set (concat bs)) = length (concat bs)" "distinct (map snd (concat bs))"
proof -
  have "distinct (map kot (map snd (concat bs)))" using ht_atD(6) [OF t] by simp
  then show "distinct (map snd (concat bs))" using distinct_map by blast
  then show "card (snd ` set (concat bs)) = length (concat bs)" using distinct_card [of "map snd (concat bs)"] by simp
qed

lemma ht_holdsE:
  assumes "ht_holds hf kot s D" "card D < n"
  obtains bs where "ht_at hf kot s bs" "snd ` set (concat bs) = D" "length (concat bs) < n"
  using assms ht_at_card(1) [of hf kot s] unfolding ht_holds_def by metis

lemma ht_holds_new: "ht_holds hf kot ht_new {}" "ht_holds hf kot zht_new {}"
proof -
  have "ht_at hf kot ht_new (replicate 10 [])" "ht_at hf kot zht_new (replicate 10 [])"
    using buckets_at_replicate [of Map.empty 10] placed_replicate [of hf kot 10] by (simp_all add: ht_at_def ht_new_def zht_new_def)
  then show "ht_holds hf kot ht_new {}" "ht_holds hf kot zht_new {}" unfolding ht_holds_def by force+
qed

lemma add_mset_set: "mset xs = add_mset x (mset ys) \<Longrightarrow> set xs = insert x (set ys)"
  by (metis set_mset_add_mset_insert set_mset_mset)

lemma ht_find_holds:
  assumes "ht_holds hf fst s D" "card D < n"
  shows "\<exists>p. ht_find hf n s k = Inr p \<and> (case p of None \<Rightarrow> k \<notin> fst ` D | Some b \<Rightarrow> \<exists>x. ht_heap s b = Some x \<and> h_data x \<in> D \<and> fst (h_data x) = k)"
proof -
  obtain bs where t: "ht_at hf fst s bs" "snd ` set (concat bs) = D" "length (concat bs) < n" by (rule ht_holdsE [OF assms])
  note D = ht_atD [OF t(1)]
  show ?thesis
  proof (cases "located fst bs k")
    case None
    then show ?thesis using ht_find_at [OF t(1,3)] located_None [of fst bs k] t(2) by simp
  next
    case (Some y)
    then have y: "y \<in> set (concat bs)" "fst (snd y) = k" using located_SomeD by fast+
    then have "y \<in> set (bs ! slot hf k (length bs))" using placedD [OF D(4)] by blast
    then obtain q where "ht_heap s (fst y) = Some \<lparr>h_data = snd y, h_next = q\<rparr>"
      using chain_at_alloc [OF buckets_at_nth [OF D(1)], of "slot hf k (length bs)" "fst y" "snd y"] D(2) by auto
    moreover have "snd y \<in> D" using y(1) t(2) by blast
    ultimately show ?thesis using ht_find_at [OF t(1,3), of k] Some y(2) by auto
  qed
qed

lemma ht_insert_holds:
  assumes "ht_holds hf fst s D" "card D < n" "ht_heap s a = None"
  shows "\<exists>s'. ht_insert hf n a (k, v) s = Inr (k \<notin> fst ` D, s') \<and> ht_holds hf fst s' (if k \<in> fst ` D then D else insert (k, v) D)"
proof -
  obtain bs where t: "ht_at hf fst s bs" "snd ` set (concat bs) = D" "length (concat bs) < n" by (rule ht_holdsE [OF assms(1,2)])
  from t(1) assms(3) t(3) show ?thesis
  proof (cases rule: ht_insert_at [where kv = "(k, v)"])
    case (old x)
    then have "k \<in> fst ` D" using located_None [of fst bs k] t(2) by auto
    with old(2) assms(1) show ?thesis by simp
  next
    case (new s' bs')
    then have "k \<notin> fst ` D" using located_None [of fst bs k] t(2) by simp
    moreover have "snd ` set (concat bs') = insert (k, v) D" using add_mset_set [OF new(4)] t(2) by simp
    ultimately show ?thesis using new(2,3) unfolding ht_holds_def by auto
  qed
qed

lemma ht_one_holds: "\<exists>s. ht_insert HashFunc_string 5 7 (''ab'', 1 :: int) ht_new = Inr (True, s) \<and> ht_holds HashFunc_string fst s {(''ab'', 1)}"
proof -
  have "ht_heap (ht_new :: (string \<times> int) HashTable) 7 = None" by (simp add: ht_new_def)
  then show ?thesis using ht_insert_holds [OF ht_holds_new(1) [of HashFunc_string fst], of 5 7 "''ab''" 1] by simp
qed

lemma ht_erase_holds:
  assumes "ht_holds hf fst s D" "card D < n"
  shows "\<exists>s'. ht_erase hf n (k, v) s = Inr (k \<in> fst ` D, s') \<and> ht_holds hf fst s' {d \<in> D. fst d \<noteq> k}"
proof -
  obtain bs where t: "ht_at hf fst s bs" "snd ` set (concat bs) = D" "length (concat bs) < n" by (rule ht_holdsE [OF assms])
  show ?thesis
  proof (cases "located fst bs k")
    case None
    then have "k \<notin> fst ` D" using located_None [of fst bs k] t(2) by simp
    moreover from this have "{d \<in> D. fst d \<noteq> k} = D" by auto
    ultimately show ?thesis using ht_find_at [OF t(1,3), of k] None assms(1) by (simp add: ht_erase_def)
  next
    case (Some x)
    then have x: "x \<in> set (concat bs)" "fst (snd x) = k" using located_SomeD by fast+
    obtain s' bs' where e: "ht_erase hf n (k, v) s = Inr (True, s')" "ht_at hf fst s' bs'"
      "mset (concat bs) = add_mset x (mset (concat bs'))" "ht_size s' = ht_size s" "length (stable s') = length (stable s)"
      using Some by (rule ht_erase_at [OF t(1,3), where kv = "(k, v)", unfolded fst_conv])
    have D: "D = insert (snd x) (snd ` set (concat bs'))" using add_mset_set [OF e(3)] t(2) by auto
    have "mset (map (fst \<circ> snd) (concat bs)) = mset (k # map (fst \<circ> snd) (concat bs'))" using e(3) x(2) by simp
    then have "distinct (k # map (fst \<circ> snd) (concat bs'))" using ht_atD(6) [OF t(1)] mset_eq_imp_distinct_iff by blast
    then have "k \<notin> (fst \<circ> snd) ` set (concat bs')" by (metis distinct.simps(2) set_map)
    then have fresh: "k \<notin> fst ` snd ` set (concat bs')" by (metis image_comp)
    have "{d \<in> D. fst d \<noteq> k} = snd ` set (concat bs')"
    proof (intro set_eqI iffI)
      fix d
      assume "d \<in> snd ` set (concat bs')"
      moreover from this have "fst d \<noteq> k" using fresh by blast
      ultimately show "d \<in> {d \<in> D. fst d \<noteq> k}" unfolding D by blast
    qed (use D x(2) in blast)
    moreover have "k \<in> fst ` D" using D x(2) by auto
    ultimately show ?thesis using e(1,2) unfolding ht_holds_def by auto
  qed
qed

lemma zht_iterates:
  assumes "ht_holds hf kot s D" "card D < n"
  shows "\<exists>ds. zht_traverse hf kot n s (zht_begin s) = Inr ds \<and> distinct ds \<and> set ds = D"
proof -
  obtain bs where t: "ht_at hf kot s bs" "snd ` set (concat bs) = D" "length (concat bs) < n" by (rule ht_holdsE [OF assms])
  then show ?thesis using traverse_table [OF t(1,3)] ht_at_card(2) [OF t(1)] by auto
qed

text \<open>
  C30. \<open>Hash::HashTable\<close> is a finite set of pairs with different keys: inserting adds the pair and
  returns true exactly when its key is new, also when the table grows on the way; erasing removes
  the pair with the key and returns whether there was one; searching returns the node of the pair
  with the key, or null. None of them touches memory it should not.
\<close>

theorem ht_implements_map:
  assumes "ht_holds hf fst s D" "card D < n" "ht_heap s a = None"
  shows "(\<exists>s'. ht_insert hf n a (k, v) s = Inr (k \<notin> fst ` D, s') \<and> ht_holds hf fst s' (if k \<in> fst ` D then D else insert (k, v) D))
    \<and> (\<exists>s'. ht_erase hf n (k, v) s = Inr (k \<in> fst ` D, s') \<and> ht_holds hf fst s' {d \<in> D. fst d \<noteq> k})
    \<and> (\<exists>p. ht_find hf n s k = Inr p \<and> (case p of None \<Rightarrow> k \<notin> fst ` D | Some b \<Rightarrow> \<exists>x. ht_heap s b = Some x \<and> h_data x \<in> D \<and> fst (h_data x) = k))"
  using ht_insert_holds [OF assms] ht_erase_holds [OF assms(1,2)] ht_find_holds [OF assms(1,2)] by blast

theorem ht_implements_map_witness:
  "\<exists>s'. ht_insert HashFunc_string 5 7 (''ab'', 1 :: int) ht_new = Inr (True, s') \<and> ht_holds HashFunc_string fst s' {(''ab'', 1)}"
proof -
  have "ht_heap (ht_new :: (string \<times> int) HashTable) 7 = None" by (simp add: ht_new_def)
  then show ?thesis using ht_implements_map [OF ht_holds_new(1) [of HashFunc_string fst], of 5 7 "''ab''" "1 :: int"] by simp
qed

text \<open>
  Iterating over a \<open>zhc_hash::HashTable\<close> from \<open>begin\<close> to \<open>end\<close> visits every element once and
  ends, for every table that insertions can lead to.
\<close>

theorem zht_iterates_once:
  assumes "ht_holds hf kot s D" "card D < n"
  shows "\<exists>ds. zht_traverse hf kot n s (zht_begin s) = Inr ds \<and> distinct ds \<and> set ds = D"
  using zht_iterates [OF assms] .

theorem zht_iterates_once_witness:
  "\<exists>s ds. ht_insert HashFunc_string 5 7 (''ab'', 1 :: int) ht_new = Inr (True, s)
    \<and> zht_traverse HashFunc_string fst 5 s (zht_begin s) = Inr ds \<and> distinct ds \<and> set ds = {(''ab'', 1)}"
proof -
  obtain s where s: "ht_insert HashFunc_string 5 7 (''ab'', 1 :: int) ht_new = Inr (True, s)" "ht_holds HashFunc_string fst s {(''ab'', 1)}"
    using ht_one_holds by blast
  then show ?thesis using zht_iterates_once [OF s(2), of 5] by auto
qed

text \<open>
  The destructor of \<open>Hash::HashTable\<close> deletes every node exactly once: it does not fail, and no
  node is left.
\<close>

theorem ht_destroy_frees_all:
  assumes "ht_holds hf kot s D" "card D < n"
  shows "\<exists>s'. ht_destroy n s = Inr s' \<and> ht_heap s' = Map.empty"
proof -
  obtain bs where t: "ht_at hf kot s bs" "snd ` set (concat bs) = D" "length (concat bs) < n" by (rule ht_holdsE [OF assms])
  note D = ht_atD [OF t(1)]
  have ub: "map ((!) bs) [0..<length (stable s)] = bs" using D(3) by (simp add: map_nth)
  have "\<forall>i \<in> set [0..<length (stable s)]. i < length (stable s) \<and> chain_at (ht_heap s) (stable s ! i) (bs ! i) \<and> length (bs ! i) < n"
    using D(3) buckets_at_nth [OF D(1)] le_less_trans [OF length_bucket t(3)] by simp
  then obtain s' where "free_all n [0..<length (stable s)] s = Inr s'" "ht_heap s' = ht_heap s |` (- fst ` set (concat bs))"
    using free_all_at [OF distinct_upt, of 0 "length (stable s)" s bs n] D(5) unfolding ub by auto
  moreover have "ht_heap s |` (- fst ` set (concat bs)) = Map.empty" unfolding D(7) [symmetric] by (auto simp: restrict_map_def fun_eq_iff dom_def)
  ultimately show ?thesis by (simp add: ht_destroy_def)
qed

theorem ht_destroy_frees_all_witness:
  "\<exists>s s'. ht_insert HashFunc_string 5 7 (''ab'', 1 :: int) ht_new = Inr (True, s) \<and> ht_destroy 5 s = Inr s' \<and> ht_heap s' = Map.empty"
proof -
  obtain s where s: "ht_insert HashFunc_string 5 7 (''ab'', 1 :: int) ht_new = Inr (True, s)" "ht_holds HashFunc_string fst s {(''ab'', 1)}"
    using ht_one_holds by blast
  then show ?thesis using ht_destroy_frees_all [OF s(2), of 5] by auto
qed

end
