(* ===== verification/Hash_Open.thy ===== *)
theory Hash_Open
  imports Hash_Chain
begin

text \<open>
  The open-addressing table \<open>zhc_test1::Hash\<close> of \<open>Algorithm/HashTable.hpp\<close>: slots that are empty,
  used or deleted, probed one after the other from the slot of the hash value. Searching stops only
  at an empty slot, and nothing turns a deleted slot into an empty one except growing; so the table
  behaves like a map as long as an empty slot is left, and a search never ends when none is.
\<close>

section \<open>Slots and probing\<close>

datatype States = EMPTY | EXIST | DELETE

text \<open>The pair of a slot; none stands for the default pair of a slot that was never used.\<close>

record ('k, 'v) probe_data =
  p_kv :: "('k \<times> 'v) option"
  p_states :: States

record ('k, 'v) Hash =
  hs :: "('k, 'v) probe_data list"
  hs_n :: nat

definition no_data :: "('k, 'v) probe_data" where
  "no_data = \<lparr>p_kv = None, p_states = EMPTY\<rparr>"

definition oa_new :: "('k, 'v) Hash" where
  "oa_new = \<lparr>hs = replicate 10 no_data, hs_n = 0\<rparr>"

definition has_key :: "'k \<Rightarrow> ('k, 'v) probe_data \<Rightarrow> bool" where
  "has_key k x = (p_states x = EXIST \<and> map_option fst (p_kv x) = Some k)"

fun probe_find :: "nat \<Rightarrow> ('k, 'v) probe_data list \<Rightarrow> 'k \<Rightarrow> nat \<Rightarrow> nat option res" where
  "probe_find 0 xs k index = Inl Stack_Exhausted"
| "probe_find (Suc n) xs k index =
     bind_res (at_index xs index) (\<lambda>x.
       if p_states x = EMPTY then Inr None
       else if has_key k x then Inr (Some index)
       else probe_find n xs k ((index + 1) mod length xs))"

definition oa_find :: "('k \<Rightarrow> u64) \<Rightarrow> nat \<Rightarrow> ('k, 'v) Hash \<Rightarrow> 'k \<Rightarrow> nat option res" where
  "oa_find hf n s k = probe_find n (hs s) k (slot hf k (length (hs s)))"

fun probe_free :: "nat \<Rightarrow> ('k, 'v) probe_data list \<Rightarrow> nat \<Rightarrow> nat res" where
  "probe_free 0 xs index = Inl Stack_Exhausted"
| "probe_free (Suc n) xs index =
     bind_res (at_index xs index) (\<lambda>x.
       if p_states x = EXIST then probe_free n xs ((index + 1) mod length xs) else Inr index)"

text \<open>The loop that inserts the used slots of the old table into the new one.\<close>

fun reinsert :: "('k \<times> 'v \<Rightarrow> ('k, 'v) Hash \<Rightarrow> (bool \<times> ('k, 'v) Hash) res) \<Rightarrow> ('k, 'v) probe_data list \<Rightarrow> ('k, 'v) Hash \<Rightarrow> ('k, 'v) Hash res" where
  "reinsert ins [] new = Inr new"
| "reinsert ins (e # es) new =
     (case p_kv e of
        Some kv \<Rightarrow> (if p_states e = EXIST then bind_res (ins kv new) (\<lambda>(_, new). reinsert ins es new) else reinsert ins es new)
      | None \<Rightarrow> reinsert ins es new)"

text \<open>\<open>insert\<close> calls itself on the new table when it grows; the first number bounds this recursion.\<close>

fun oa_insert :: "('k \<Rightarrow> u64) \<Rightarrow> nat \<Rightarrow> nat \<Rightarrow> 'k \<times> 'v \<Rightarrow> ('k, 'v) Hash \<Rightarrow> (bool \<times> ('k, 'v) Hash) res" where
  "oa_insert hf 0 n kv s = Inl Stack_Exhausted"
| "oa_insert hf (Suc d) n kv s =
     bind_res (oa_find hf n s (fst kv)) (\<lambda>pos.
     if pos \<noteq> None then Inr (False, s)
     else bind_res
       (if hs_n s * 10 div length (hs s) > 7
        then bind_res (reinsert (oa_insert hf d n) (hs s) \<lparr>hs = replicate (length (hs s) * 2) no_data, hs_n = 0\<rparr>) (\<lambda>new.
          Inr (s\<lparr>hs := hs new\<rparr>))
        else Inr s) (\<lambda>s.
       bind_res (probe_free n (hs s) (slot hf (fst kv) (length (hs s)))) (\<lambda>index.
         Inr (True, s\<lparr>hs := (hs s)[index := \<lparr>p_kv = Some kv, p_states = EXIST\<rparr>], hs_n := hs_n s + 1\<rparr>))))"

declare oa_insert.simps [simp del]

definition oa_erase :: "('k \<Rightarrow> u64) \<Rightarrow> nat \<Rightarrow> 'k \<Rightarrow> ('k, 'v) Hash \<Rightarrow> (bool \<times> ('k, 'v) Hash) res" where
  "oa_erase hf n k s =
     bind_res (oa_find hf n s k) (\<lambda>pos.
       case pos of
         Some i \<Rightarrow> Inr (True, s\<lparr>hs := (hs s)[i := (hs s ! i)\<lparr>p_states := DELETE\<rparr>], hs_n := hs_n s - 1\<rparr>)
       | None \<Rightarrow> Inr (False, s))"

section \<open>The elements of a table\<close>

definition used_at :: "('k, 'v) probe_data list \<Rightarrow> nat \<Rightarrow> 'k \<times> 'v \<Rightarrow> bool" where
  "used_at xs i kv \<longleftrightarrow> i < length xs \<and> xs ! i = \<lparr>p_kv = Some kv, p_states = EXIST\<rparr>"

definition elems :: "('k, 'v) probe_data list \<Rightarrow> ('k \<times> 'v) set" where
  "elems xs = {kv. \<exists>i. used_at xs i kv}"

text \<open>The slots probed for a key before a slot is reached are not empty, and a key is in one slot only.\<close>

definition probes :: "('k \<Rightarrow> u64) \<Rightarrow> ('k, 'v) probe_data list \<Rightarrow> 'k \<Rightarrow> nat \<Rightarrow> nat" where
  "probes hf xs k u = (slot hf k (length xs) + u) mod length xs"

definition oa_inv :: "('k \<Rightarrow> u64) \<Rightarrow> ('k, 'v) probe_data list \<Rightarrow> bool" where
  "oa_inv hf xs \<longleftrightarrow> xs \<noteq> []
     \<and> (\<forall>x \<in> set xs. p_states x = EXIST \<longrightarrow> p_kv x \<noteq> None)
     \<and> (\<forall>i kv. used_at xs i kv \<longrightarrow> (\<exists>t. i = probes hf xs (fst kv) t \<and> (\<forall>u < t. p_states (xs ! probes hf xs (fst kv) u) \<noteq> EMPTY)))
     \<and> (\<forall>i j kv kv'. used_at xs i kv \<longrightarrow> used_at xs j kv' \<longrightarrow> fst kv = fst kv' \<longrightarrow> i = j)"

lemma oa_invD:
  assumes "oa_inv hf xs"
  shows "xs \<noteq> []" "x \<in> set xs \<Longrightarrow> p_states x = EXIST \<Longrightarrow> p_kv x \<noteq> None"
    "used_at xs i kv \<Longrightarrow> \<exists>t. i = probes hf xs (fst kv) t \<and> (\<forall>u < t. p_states (xs ! probes hf xs (fst kv) u) \<noteq> EMPTY)"
    "used_at xs i kv \<Longrightarrow> used_at xs j kv' \<Longrightarrow> fst kv = fst kv' \<Longrightarrow> i = j"
  using assms unfolding oa_inv_def by blast+

lemma used_atI: "i < length xs \<Longrightarrow> p_kv (xs ! i) = Some kv \<Longrightarrow> p_states (xs ! i) = EXIST \<Longrightarrow> used_at xs i kv"
  by (cases "xs ! i") (auto simp: used_at_def)

lemma used_atD: "used_at xs i kv \<Longrightarrow> i < length xs \<and> p_states (xs ! i) = EXIST \<and> p_kv (xs ! i) = Some kv"
  by (auto simp: used_at_def)

lemma has_key_used: "i < length xs \<Longrightarrow> has_key k (xs ! i) \<longleftrightarrow> (\<exists>v. used_at xs i (k, v))"
  by (cases "xs ! i") (auto simp: has_key_def used_at_def)

lemma probes_less: "xs \<noteq> [] \<Longrightarrow> probes hf xs k u < length xs"
  by (simp add: probes_def)

lemma probes_Suc: "(probes hf xs k u + 1) mod length xs = probes hf xs k (Suc u)"
  by (simp add: probes_def mod_Suc_eq)

lemma probes_0: "xs \<noteq> [] \<Longrightarrow> probes hf xs k 0 = slot hf k (length xs)"
  by (simp add: probes_def)

text \<open>Probing reaches every slot within one round.\<close>

lemma probes_surj:
  assumes "i < length xs"
  shows "\<exists>u < length xs. probes hf xs k u = i"
proof -
  let ?m = "length xs" and ?h = "slot hf k (length xs)"
  have h: "?h < ?m" by (rule slot_less) (use assms in linarith)
  show ?thesis
  proof (cases "?h \<le> i")
    case True
    then show ?thesis using assms by (intro exI [of _ "i - ?h"]) (simp add: probes_def)
  next
    case False
    then have "(?h + (i + ?m - ?h)) mod ?m = i" "i + ?m - ?h < ?m" using assms h by auto
    then show ?thesis unfolding probes_def by blast
  qed
qed

section \<open>Searching\<close>

lemma probe_find_stop:
  assumes "xs \<noteq> []" "\<forall>u < t. p_states (xs ! probes hf xs k (v + u)) \<noteq> EMPTY \<and> \<not> has_key k (xs ! probes hf xs k (v + u))" "t < n"
    and "p_states (xs ! probes hf xs k (v + t)) = EMPTY \<or> has_key k (xs ! probes hf xs k (v + t))"
  shows "probe_find n xs k (probes hf xs k v) =
    Inr (if p_states (xs ! probes hf xs k (v + t)) = EMPTY then None else Some (probes hf xs k (v + t)))"
  using assms
proof (induction t arbitrary: v n)
  case 0
  then obtain m where "n = Suc m" by (cases n) auto
  with 0 show ?case by (auto simp: probes_less)
next
  case (Suc t)
  then obtain m where m: "n = Suc m" "t < m" by (cases n) auto
  have z: "p_states (xs ! probes hf xs k v) \<noteq> EMPTY" "\<not> has_key k (xs ! probes hf xs k v)" using Suc.prems(2) by (metis add_0_right zero_less_Suc)+
  have "probe_find n xs k (probes hf xs k v) = probe_find m xs k (probes hf xs k (Suc v))"
    using m(1) z probes_less [OF Suc.prems(1)] by (simp add: probes_Suc [symmetric])
  also have "\<dots> = Inr (if p_states (xs ! probes hf xs k (Suc v + t)) = EMPTY then None else Some (probes hf xs k (Suc v + t)))"
  proof (rule Suc.IH [OF Suc.prems(1) _ m(2)])
    show "\<forall>u < t. p_states (xs ! probes hf xs k (Suc v + u)) \<noteq> EMPTY \<and> \<not> has_key k (xs ! probes hf xs k (Suc v + u))"
      using Suc.prems(2) by (metis Suc_less_eq add_Suc_shift)
  qed (use Suc.prems(4) in simp)
  finally show ?case by simp
qed

definition has_empty :: "('k, 'v) probe_data list \<Rightarrow> bool" where
  "has_empty xs \<longleftrightarrow> (\<exists>x \<in> set xs. p_states x = EMPTY)"

lemma oa_find_correct:
  assumes inv: "oa_inv hf (hs s)" and e: "has_empty (hs s)" and n: "length (hs s) < n"
  shows "(\<exists>i v. oa_find hf n s k = Inr (Some i) \<and> used_at (hs s) i (k, v)) \<or> (oa_find hf n s k = Inr None \<and> k \<notin> fst ` elems (hs s))"
proof -
  let ?xs = "hs s" and ?p = "probes hf (hs s) k"
  let ?stop = "\<lambda>u. p_states (?xs ! ?p u) = EMPTY \<or> has_key k (?xs ! ?p u)"
  have ne: "?xs \<noteq> []" using oa_invD(1) [OF inv] .
  obtain i where "i < length ?xs" "p_states (?xs ! i) = EMPTY" using e by (auto simp: has_empty_def in_set_conv_nth)
  then obtain u where u: "u < length ?xs" "?stop u" using probes_surj [of i ?xs hf k] by auto
  define t where "t = (LEAST u. ?stop u)"
  have t: "?stop t" unfolding t_def using u(2) by (rule LeastI)
  have tu: "t \<le> u" unfolding t_def using u(2) by (rule Least_le)
  have before: "\<not> ?stop w" if "w < t" for w using not_less_Least [of w ?stop] that unfolding t_def by blast
  have "probe_find n ?xs k (?p 0) = Inr (if p_states (?xs ! ?p (0 + t)) = EMPTY then None else Some (?p (0 + t)))"
    by (rule probe_find_stop [OF ne]) (use t tu before u(1) n in auto)
  then have f: "oa_find hf n s k = Inr (if p_states (?xs ! ?p t) = EMPTY then None else Some (?p t))"
    using probes_0 [OF ne, of hf k] by (simp add: oa_find_def)
  show ?thesis
  proof (cases "p_states (?xs ! ?p t) = EMPTY")
    case False
    then have "has_key k (?xs ! ?p t)" using t by blast
    then obtain v where "used_at ?xs (?p t) (k, v)" using has_key_used [OF probes_less [OF ne, of hf k t], of k] by blast
    with f False show ?thesis by auto
  next
    case True
    have "k \<notin> fst ` elems ?xs"
    proof
      assume "k \<in> fst ` elems ?xs"
      then obtain j v where j: "used_at ?xs j (k, v)" by (auto simp: elems_def)
      obtain w where w: "j = ?p w" "\<forall>u < w. p_states (?xs ! ?p u) \<noteq> EMPTY" using oa_invD(3) [OF inv j] by auto
      have "has_key k (?xs ! ?p w)" using has_key_used [of j ?xs k] j used_atD [OF j] unfolding w(1) by blast
      then have "t \<le> w" using before [of w] by (meson not_le)
      moreover have "p_states (?xs ! ?p w) = EXIST" using used_atD [OF j] w(1) by simp
      ultimately show False using True w(2) by (metis States.distinct(1) le_neq_implies_less)
    qed
    with f True show ?thesis by simp
  qed
qed

section \<open>Inserting\<close>

definition used_count :: "('k, 'v) probe_data list \<Rightarrow> nat" where
  "used_count xs = length (filter (\<lambda>x. p_states x = EXIST) xs)"

lemma filter_update:
  assumes "j < length xs" "\<not> P (xs ! j)" "P x"
  shows "length (filter P (xs[j := x])) = Suc (length (filter P xs))"
proof -
  have "{i. i < length (xs[j := x]) \<and> P (xs[j := x] ! i)} = insert j {i. i < length xs \<and> P (xs ! i)}"
    using assms by (auto simp: nth_list_update)
  moreover have "j \<notin> {i. i < length xs \<and> P (xs ! i)}" using assms(2) by simp
  ultimately show ?thesis unfolding length_filter_conv_card by simp
qed

lemma filter_update_out:
  assumes "j < length xs" "P (xs ! j)" "\<not> P x"
  shows "Suc (length (filter P (xs[j := x]))) = length (filter P xs)"
  using filter_update [of j "xs[j := x]" P "xs ! j"] assms by simp

lemma probe_free_stop:
  assumes "xs \<noteq> []" "\<forall>u < t. p_states (xs ! probes hf xs k (v + u)) = EXIST" "t < n" "p_states (xs ! probes hf xs k (v + t)) \<noteq> EXIST"
  shows "probe_free n xs (probes hf xs k v) = Inr (probes hf xs k (v + t))"
  using assms
proof (induction t arbitrary: v n)
  case 0
  then obtain m where "n = Suc m" by (cases n) auto
  with 0 show ?case by (simp add: probes_less)
next
  case (Suc t)
  then obtain m where m: "n = Suc m" "t < m" by (cases n) auto
  have z: "p_states (xs ! probes hf xs k v) = EXIST" using Suc.prems(2) by (metis add_0_right zero_less_Suc)
  have "probe_free n xs (probes hf xs k v) = probe_free m xs (probes hf xs k (Suc v))"
    using m(1) z probes_less [OF Suc.prems(1)] by (simp add: probes_Suc [symmetric])
  also have "\<dots> = Inr (probes hf xs k (Suc v + t))"
    by (rule Suc.IH [OF Suc.prems(1) _ m(2)]) (use Suc.prems(2,4) in \<open>auto simp: add_Suc_shift simp del: add_Suc\<close>)
  finally show ?case by simp
qed

lemma probe_free_correct:
  assumes "xs \<noteq> []" "used_count xs < length xs" "length xs < n"
  obtains t where "probe_free n xs (slot hf k (length xs)) = Inr (probes hf xs k t)"
    "\<forall>u < t. p_states (xs ! probes hf xs k u) = EXIST" "p_states (xs ! probes hf xs k t) \<noteq> EXIST"
proof -
  let ?stop = "\<lambda>u. p_states (xs ! probes hf xs k u) \<noteq> EXIST"
  have "\<exists>x \<in> set xs. p_states x \<noteq> EXIST"
  proof (rule ccontr)
    assume "\<not> ?thesis"
    then have "filter (\<lambda>x. p_states x = EXIST) xs = xs" by (simp add: filter_id_conv)
    then show False using assms(2) by (simp add: used_count_def)
  qed
  then obtain i where "i < length xs" "p_states (xs ! i) \<noteq> EXIST" by (auto simp: in_set_conv_nth)
  then obtain u where u: "u < length xs" "?stop u" using probes_surj [of i xs hf k] by auto
  define t where "t = (LEAST u. ?stop u)"
  have t: "?stop t" unfolding t_def using u(2) by (rule LeastI)
  have tu: "t \<le> u" unfolding t_def using u(2) by (rule Least_le)
  have before: "\<not> ?stop w" if "w < t" for w using not_less_Least [of w ?stop] that unfolding t_def by blast
  have "probe_free n xs (probes hf xs k 0) = Inr (probes hf xs k (0 + t))"
    by (rule probe_free_stop [OF assms(1)]) (use t tu before u(1) assms(3) in auto)
  with t before that show ?thesis using probes_0 [OF assms(1), of hf k] by simp
qed

lemma probes_update [simp]: "probes hf (xs[j := x]) = probes hf xs"
  by (intro ext) (simp add: probes_def)

lemma used_update:
  "j < length xs \<Longrightarrow> p_states (xs ! j) \<noteq> EXIST \<Longrightarrow>
   used_at (xs[j := \<lparr>p_kv = Some kv, p_states = EXIST\<rparr>]) i kv' \<longleftrightarrow> (i = j \<and> kv' = kv) \<or> used_at xs i kv'"
  by (auto simp: used_at_def nth_list_update)

lemma oa_inv_store:
  assumes inv: "oa_inv hf xs" and j: "j = probes hf xs (fst kv) t" and path: "\<forall>u < t. p_states (xs ! probes hf xs (fst kv) u) = EXIST"
    and free: "p_states (xs ! j) \<noteq> EXIST" and new: "fst kv \<notin> fst ` elems xs"
  defines "ys \<equiv> xs[j := \<lparr>p_kv = Some kv, p_states = EXIST\<rparr>]"
  shows "oa_inv hf ys" "elems ys = insert kv (elems xs)" "used_count ys = Suc (used_count xs)"
proof -
  have ne: "xs \<noteq> []" using oa_invD(1) [OF inv] .
  have jl: "j < length xs" unfolding j by (rule probes_less [OF ne])
  note U = used_update [OF jl free, of kv, folded ys_def]
  show "elems ys = insert kv (elems xs)" unfolding elems_def U by auto
  show "used_count ys = Suc (used_count xs)" unfolding used_count_def ys_def by (rule filter_update) (use jl free in auto)
  have st: "p_states (ys ! i) \<noteq> EMPTY" if "p_states (xs ! i) \<noteq> EMPTY" for i
    using that jl unfolding ys_def by (cases "i = j") auto
  have P: "probes hf ys = probes hf xs" unfolding ys_def by simp
  show "oa_inv hf ys"
    unfolding oa_inv_def
  proof (intro conjI allI impI ballI)
    show "ys \<noteq> []" using ne unfolding ys_def by simp
    show "p_kv x \<noteq> None" if "x \<in> set ys" "p_states x = EXIST" for x
    proof -
      have "x = \<lparr>p_kv = Some kv, p_states = EXIST\<rparr> \<or> x \<in> set xs"
        using that(1) set_update_subset_insert [of xs j "\<lparr>p_kv = Some kv, p_states = EXIST\<rparr>"] unfolding ys_def by blast
      then show ?thesis using oa_invD(2) [OF inv, of x] that(2) by fastforce
    qed
    show "\<exists>t. i = probes hf ys (fst kv') t \<and> (\<forall>u < t. p_states (ys ! probes hf ys (fst kv') u) \<noteq> EMPTY)" if "used_at ys i kv'" for i kv'
    proof (cases "i = j \<and> kv' = kv")
      case True
      with j path st show ?thesis unfolding P by (metis States.distinct(1))
    next
      case False
      then have "used_at xs i kv'" using that U by blast
      then show ?thesis using oa_invD(3) [OF inv] st unfolding P by blast
    qed
    show "i = i'" if "used_at ys i kv1" "used_at ys i' kv2" "fst kv1 = fst kv2" for i i' kv1 kv2
    proof -
      have "fst kv1 \<noteq> fst kv" if "used_at xs i kv1" for i kv1
        using new that unfolding elems_def by (metis image_eqI mem_Collect_eq)
      then show ?thesis using that oa_invD(4) [OF inv, of i kv1 i' kv2] unfolding U by metis
    qed
  qed
qed

lemma has_empty_no_delete:
  assumes "\<forall>x \<in> set xs. p_states x \<noteq> DELETE" "used_count xs < length xs"
  shows "has_empty xs"
proof (rule ccontr)
  assume "\<not> has_empty xs"
  then have "\<forall>x \<in> set xs. p_states x = EXIST" using assms(1) by (metis States.exhaust has_empty_def)
  then have "filter (\<lambda>x. p_states x = EXIST) xs = xs" by (simp add: filter_id_conv)
  then show False using assms(2) by (simp add: used_count_def)
qed

text \<open>A table as it should be.\<close>

definition oa_ok :: "('k \<Rightarrow> u64) \<Rightarrow> ('k, 'v) Hash \<Rightarrow> bool" where
  "oa_ok hf s \<longleftrightarrow> oa_inv hf (hs s) \<and> hs_n s = used_count (hs s)"

definition no_delete :: "('k, 'v) Hash \<Rightarrow> bool" where
  "no_delete s \<longleftrightarrow> (\<forall>x \<in> set (hs s). p_states x \<noteq> DELETE)"

lemma load_bound: "\<not> m * 10 div l > 7 \<Longrightarrow> 0 < l \<Longrightarrow> m * 10 < 8 * l" for m l :: nat
  using div_less_iff_less_mult [of l "m * 10" 8] by linarith

lemma oa_inv_nonempty: "oa_ok hf s \<Longrightarrow> 0 < length (hs s)"
  using oa_invD(1) by (auto simp: oa_ok_def)

lemma oa_store:
  assumes ok: "oa_ok hf s" and room: "hs_n s < length (hs s)" and new: "fst kv \<notin> fst ` elems (hs s)" and n: "length (hs s) < n"
  obtains i where "probe_free n (hs s) (slot hf (fst kv) (length (hs s))) = Inr i"
    "oa_ok hf (s\<lparr>hs := (hs s)[i := \<lparr>p_kv = Some kv, p_states = EXIST\<rparr>], hs_n := hs_n s + 1\<rparr>)"
    "elems ((hs s)[i := \<lparr>p_kv = Some kv, p_states = EXIST\<rparr>]) = insert kv (elems (hs s))"
proof -
  have inv: "oa_inv hf (hs s)" "hs_n s = used_count (hs s)" using ok by (simp_all add: oa_ok_def)
  have "used_count (hs s) < length (hs s)" using room inv(2) by simp
  then obtain t where t: "probe_free n (hs s) (slot hf (fst kv) (length (hs s))) = Inr (probes hf (hs s) (fst kv) t)"
    "\<forall>u < t. p_states (hs s ! probes hf (hs s) (fst kv) u) = EXIST" "p_states (hs s ! probes hf (hs s) (fst kv) t) \<noteq> EXIST"
    by (rule probe_free_correct [OF oa_invD(1) [OF inv(1)] _ n])
  note S = oa_inv_store [OF inv(1) refl t(2,3) new]
  show ?thesis by (rule that [OF t(1)]) (use S inv(2) in \<open>simp_all add: oa_ok_def\<close>)
qed

lemma no_delete_store: "no_delete s \<Longrightarrow> no_delete (s\<lparr>hs := (hs s)[i := \<lparr>p_kv = kv, p_states = EXIST\<rparr>], hs_n := m\<rparr>)"
  using set_update_subset_insert [of "hs s" i "\<lparr>p_kv = kv, p_states = EXIST\<rparr>"] by (fastforce simp: no_delete_def)

lemma oa_find_new:
  assumes "oa_ok hf s" "has_empty (hs s)" "length (hs s) < n" "k \<notin> fst ` elems (hs s)"
  shows "oa_find hf n s k = Inr None"
proof -
  have "\<not> used_at (hs s) i (k, v)" for i v using assms(4) by (force simp: elems_def)
  then show ?thesis using oa_find_correct [of hf s n k] assms by (auto simp: oa_ok_def)
qed

lemma oa_insert_simple:
  assumes ok: "oa_ok hf s" and e: "has_empty (hs s)" and load: "\<not> hs_n s * 10 div length (hs s) > 7"
    and new: "fst kv \<notin> fst ` elems (hs s)" and n: "length (hs s) < n"
  obtains s' where "oa_insert hf (Suc d) n kv s = Inr (True, s')" "oa_ok hf s'" "elems (hs s') = insert kv (elems (hs s))"
    "hs_n s' = Suc (hs_n s)" "length (hs s') = length (hs s)" "no_delete s \<longrightarrow> no_delete s'"
proof -
  have l: "0 < length (hs s)" using oa_inv_nonempty [OF ok] .
  have room: "hs_n s < length (hs s)" using load_bound [OF load l] by linarith
  obtain i where i: "probe_free n (hs s) (slot hf (fst kv) (length (hs s))) = Inr i"
    "oa_ok hf (s\<lparr>hs := (hs s)[i := \<lparr>p_kv = Some kv, p_states = EXIST\<rparr>], hs_n := hs_n s + 1\<rparr>)"
    "elems ((hs s)[i := \<lparr>p_kv = Some kv, p_states = EXIST\<rparr>]) = insert kv (elems (hs s))"
    by (rule oa_store [OF ok room new n])
  show ?thesis
    by (rule that [of "s\<lparr>hs := (hs s)[i := \<lparr>p_kv = Some kv, p_states = EXIST\<rparr>], hs_n := hs_n s + 1\<rparr>"])
      (use i oa_find_new [OF ok e n new] load no_delete_store [of s _ i "Some kv"] in \<open>simp_all add: oa_insert.simps\<close>)
qed

section \<open>Growing\<close>

definition live :: "('k, 'v) probe_data list \<Rightarrow> ('k \<times> 'v) list" where
  "live xs = map (the \<circ> p_kv) (filter (\<lambda>x. p_states x = EXIST) xs)"

lemma live_simps [simp]:
  "live [] = []" "live (x # xs) = (if p_states x = EXIST then the (p_kv x) # live xs else live xs)"
  by (simp_all add: live_def)

lemma length_live: "length (live xs) = used_count xs"
  by (simp add: live_def used_count_def)

lemma set_live: "(\<And>x. x \<in> set xs \<Longrightarrow> p_states x = EXIST \<Longrightarrow> p_kv x \<noteq> None) \<Longrightarrow> set (live xs) = elems xs"
proof (intro set_eqI iffI)
  fix kv
  assume some: "\<And>x. x \<in> set xs \<Longrightarrow> p_states x = EXIST \<Longrightarrow> p_kv x \<noteq> None"
  show "kv \<in> elems xs" if kv: "kv \<in> set (live xs)"
  proof -
    obtain x where x: "x \<in> set xs" "p_states x = EXIST" "kv = the (p_kv x)" using kv by (auto simp: live_def)
    then obtain i where "i < length xs" "xs ! i = x" by (auto simp: in_set_conv_nth)
    then have "used_at xs i kv" using some [OF x(1,2)] x by (intro used_atI) auto
    then show ?thesis by (auto simp: elems_def)
  qed
  show "kv \<in> set (live xs)" if kv: "kv \<in> elems xs"
  proof -
    obtain i where "used_at xs i kv" using kv by (auto simp: elems_def)
    then have "xs ! i \<in> set xs" "p_states (xs ! i) = EXIST" "the (p_kv (xs ! i)) = kv" using used_atD by fastforce+
    then show ?thesis unfolding live_def by force
  qed
qed

lemma distinct_map_filterI:
  "(\<And>i j. i < length xs \<Longrightarrow> j < length xs \<Longrightarrow> P (xs ! i) \<Longrightarrow> P (xs ! j) \<Longrightarrow> f (xs ! i) = f (xs ! j) \<Longrightarrow> i = j)
   \<Longrightarrow> distinct (map f (filter P xs))"
proof (induction xs)
  case (Cons x xs)
  have "distinct (map f (filter P xs))" by (rule Cons.IH) (use Cons.prems [of "Suc _" "Suc _"] in auto)
  moreover have "f x \<notin> f ` set (filter P xs)" if "P x"
  proof
    assume "f x \<in> f ` set (filter P xs)"
    then obtain j where "j < length xs" "P (xs ! j)" "f x = f (xs ! j)" by (auto simp: in_set_conv_nth)
    then show False using Cons.prems [of 0 "Suc j"] that by simp
  qed
  ultimately show ?case by simp
qed simp

lemma distinct_live:
  assumes inv: "oa_inv hf xs"
  shows "distinct (map fst (live xs))"
proof -
  have "distinct (map (fst \<circ> (the \<circ> p_kv)) (filter (\<lambda>x. p_states x = EXIST) xs))"
  proof (rule distinct_map_filterI)
    fix i j
    assume a: "i < length xs" "j < length xs" "p_states (xs ! i) = EXIST" "p_states (xs ! j) = EXIST"
      "(fst \<circ> (the \<circ> p_kv)) (xs ! i) = (fst \<circ> (the \<circ> p_kv)) (xs ! j)"
    obtain kv kv' where kv: "p_kv (xs ! i) = Some kv" "p_kv (xs ! j) = Some kv'"
      using oa_invD(2) [OF inv nth_mem [OF a(1)] a(3)] oa_invD(2) [OF inv nth_mem [OF a(2)] a(4)] by blast
    then have "fst kv = fst kv'" using a(5) by simp
    then show "i = j" by (rule oa_invD(4) [OF inv used_atI [OF a(1) kv(1) a(3)] used_atI [OF a(2) kv(2) a(4)]])
  qed
  then show ?thesis by (simp add: live_def comp_assoc)
qed

lemma reinsert_all:
  assumes "oa_ok hf new" "no_delete new" "\<forall>x \<in> set es. p_states x = EXIST \<longrightarrow> p_kv x \<noteq> None" "distinct (map fst (live es))"
    and "fst ` set (live es) \<inter> fst ` elems (hs new) = {}" "(hs_n new + used_count es) * 10 < 8 * length (hs new)" "length (hs new) < n"
  shows "\<exists>new'. reinsert (oa_insert hf (Suc d) n) es new = Inr new' \<and> oa_ok hf new' \<and> no_delete new'
    \<and> elems (hs new') = set (live es) \<union> elems (hs new) \<and> hs_n new' = hs_n new + used_count es \<and> length (hs new') = length (hs new)"
  using assms
proof (induction es arbitrary: new)
  case Nil
  then show ?case by (simp add: used_count_def)
next
  case (Cons x es)
  show ?case
  proof (cases "p_states x = EXIST")
    case False
    then have "reinsert (oa_insert hf (Suc d) n) (x # es) new = reinsert (oa_insert hf (Suc d) n) es new" by (simp split: option.split)
    moreover have "used_count (x # es) = used_count es" using False by (simp add: used_count_def)
    ultimately show ?thesis using Cons.IH [OF Cons.prems(1,2)] Cons.prems(3-7) False by auto
  next
    case True
    then obtain kv where kv: "p_kv x = Some kv" using Cons.prems(3) by auto
    have c: "used_count (x # es) = Suc (used_count es)" using True by (simp add: used_count_def)
    have l: "0 < length (hs new)" using oa_inv_nonempty [OF Cons.prems(1)] .
    have "used_count (hs new) < length (hs new)" using Cons.prems(1,6) c by (simp add: oa_ok_def)
    then have e: "has_empty (hs new)" using has_empty_no_delete Cons.prems(2) unfolding no_delete_def by blast
    have load: "\<not> hs_n new * 10 div length (hs new) > 7"
      using Cons.prems(6) c l div_less_iff_less_mult [of "length (hs new)" "hs_n new * 10" 8] by simp
    have fresh: "fst kv \<notin> fst ` elems (hs new)" using Cons.prems(5) True kv by auto
    obtain new1 where i: "oa_insert hf (Suc d) n kv new = Inr (True, new1)" "oa_ok hf new1" "elems (hs new1) = insert kv (elems (hs new))"
      "hs_n new1 = Suc (hs_n new)" "length (hs new1) = length (hs new)" "no_delete new \<longrightarrow> no_delete new1"
      by (rule oa_insert_simple [OF Cons.prems(1) e load fresh Cons.prems(7), where d = d])
    have "fst ` set (live es) \<inter> fst ` elems (hs new1) = {}" using Cons.prems(4,5) True kv i(3) by auto
    then obtain new' where "reinsert (oa_insert hf (Suc d) n) es new1 = Inr new'" "oa_ok hf new'" "no_delete new'"
      "elems (hs new') = set (live es) \<union> elems (hs new1)" "hs_n new' = hs_n new1 + used_count es" "length (hs new') = length (hs new1)"
      using Cons.IH [OF i(2) i(6) [rule_format, OF Cons.prems(2)]] Cons.prems(3,4,6,7) True c i(4,5) by auto
    then show ?thesis using True kv c i by (intro exI [of _ new']) simp
  qed
qed

lemma oa_ok_empty: "0 < m \<Longrightarrow> oa_ok hf \<lparr>hs = replicate m no_data, hs_n = 0\<rparr>" "elems (replicate m no_data) = {}"
  "no_delete \<lparr>hs = replicate m no_data, hs_n = 0\<rparr>"
  by (auto simp: oa_ok_def oa_inv_def used_at_def elems_def used_count_def no_data_def no_delete_def)

text \<open>The part of \<open>insert\<close> that makes room.\<close>

lemma oa_grow:
  assumes ok: "oa_ok hf s" and n: "2 * length (hs s) < n" and load: "hs_n s * 10 div length (hs s) > 7"
  obtains new where "reinsert (oa_insert hf (Suc d) n) (hs s) \<lparr>hs = replicate (length (hs s) * 2) no_data, hs_n = 0\<rparr> = Inr new"
    "oa_ok hf (s\<lparr>hs := hs new\<rparr>)" "no_delete (s\<lparr>hs := hs new\<rparr>)" "elems (hs new) = elems (hs s)" "length (hs new) = 2 * length (hs s)"
proof -
  let ?new = "\<lparr>hs = replicate (length (hs s) * 2) no_data, hs_n = 0\<rparr> :: ('a, 'b) Hash"
  have inv: "oa_inv hf (hs s)" "hs_n s = used_count (hs s)" and l: "0 < length (hs s)"
    using ok oa_inv_nonempty [OF ok] by (simp_all add: oa_ok_def)
  have "used_count (hs s) \<le> length (hs s)" by (simp add: used_count_def)
  then have c: "5 * used_count (hs s) < 8 * length (hs s)" using l by linarith
  have "\<exists>new'. reinsert (oa_insert hf (Suc d) n) (hs s) ?new = Inr new' \<and> oa_ok hf new' \<and> no_delete new'
    \<and> elems (hs new') = set (live (hs s)) \<union> elems (hs ?new) \<and> hs_n new' = hs_n ?new + used_count (hs s) \<and> length (hs new') = length (hs ?new)"
    by (rule reinsert_all) (use oa_ok_empty [of "length (hs s) * 2"] l n c oa_invD(2) [OF inv(1)] distinct_live [OF inv(1)] in auto)
  then obtain new where new: "reinsert (oa_insert hf (Suc d) n) (hs s) ?new = Inr new" "oa_ok hf new" "no_delete new"
    "elems (hs new) = set (live (hs s))" "hs_n new = used_count (hs s)" "length (hs new) = 2 * length (hs s)"
    by (auto simp: oa_ok_empty(2))
  have "set (live (hs s)) = elems (hs s)" using set_live oa_invD(2) [OF inv(1)] by blast
  then show ?thesis by (intro that [OF new(1)]) (use new inv(2) in \<open>simp_all add: oa_ok_def no_delete_def\<close>)
qed

lemma oa_insert_full:
  assumes ok: "oa_ok hf s" and e: "has_empty (hs s)" and n: "2 * length (hs s) < n" and new: "fst kv \<notin> fst ` elems (hs s)"
  obtains s' where "oa_insert hf (Suc (Suc d)) n kv s = Inr (True, s')" "oa_ok hf s'" "elems (hs s') = insert kv (elems (hs s))"
    "hs_n s' = Suc (hs_n s)" "no_delete s \<longrightarrow> no_delete s'" "hs_n s * 10 < 8 * length (hs s')"
    "length (hs s') = length (hs s) \<or> 8 * length (hs s) \<le> 10 * hs_n s \<and> length (hs s') = 2 * length (hs s)"
proof (cases "hs_n s * 10 div length (hs s) > 7")
  case False
  have n': "length (hs s) < n" using n by simp
  obtain s' where "oa_insert hf (Suc (Suc d)) n kv s = Inr (True, s')" "oa_ok hf s'" "elems (hs s') = insert kv (elems (hs s))"
    "hs_n s' = Suc (hs_n s)" "length (hs s') = length (hs s)" "no_delete s \<longrightarrow> no_delete s'"
    by (rule oa_insert_simple [OF ok e False new n', where d = "Suc d"])
  with that load_bound [OF False oa_inv_nonempty [OF ok]] show ?thesis by simp
next
  case True
  obtain new' where g: "reinsert (oa_insert hf (Suc d) n) (hs s) \<lparr>hs = replicate (length (hs s) * 2) no_data, hs_n = 0\<rparr> = Inr new'"
    "oa_ok hf (s\<lparr>hs := hs new'\<rparr>)" "no_delete (s\<lparr>hs := hs new'\<rparr>)" "elems (hs new') = elems (hs s)" "length (hs new') = 2 * length (hs s)"
    by (rule oa_grow [OF ok n True])
  let ?s = "s\<lparr>hs := hs new'\<rparr>"
  have l: "0 < length (hs s)" using oa_inv_nonempty [OF ok] .
  have c: "hs_n s \<le> length (hs s)" using ok by (simp add: oa_ok_def used_count_def)
  have c': "hs_n s < 2 * length (hs s)" "5 * hs_n s < 8 * length (hs s)" using c l by linarith+
  have "hs_n ?s < length (hs ?s)" "fst kv \<notin> fst ` elems (hs ?s)" "length (hs ?s) < n" using c'(1) g(4,5) new n by simp_all
  then obtain i where i: "probe_free n (hs ?s) (slot hf (fst kv) (length (hs ?s))) = Inr i"
    "oa_ok hf (?s\<lparr>hs := (hs ?s)[i := \<lparr>p_kv = Some kv, p_states = EXIST\<rparr>], hs_n := hs_n ?s + 1\<rparr>)"
    "elems ((hs ?s)[i := \<lparr>p_kv = Some kv, p_states = EXIST\<rparr>]) = insert kv (elems (hs ?s))"
    by (rule oa_store [OF g(2)])
  have "8 * length (hs s) \<le> 10 * hs_n s" using True l less_eq_div_iff_mult_less_eq [of "length (hs s)" 8 "hs_n s * 10"] by simp
  moreover have "oa_find hf n s (fst kv) = Inr None" using oa_find_new [OF ok e _ new] n by simp
  ultimately show ?thesis
    by (intro that [of "?s\<lparr>hs := (hs ?s)[i := \<lparr>p_kv = Some kv, p_states = EXIST\<rparr>], hs_n := hs_n ?s + 1\<rparr>"])
      (use True g i c'(2) l no_delete_store [OF g(3), of _ i "Some kv"] in \<open>simp_all add: oa_insert.simps\<close>)
qed

section \<open>Erasing\<close>

lemma oa_inv_delete:
  assumes inv: "oa_inv hf xs" and i: "used_at xs i kv"
  defines "ys \<equiv> xs[i := (xs ! i)\<lparr>p_states := DELETE\<rparr>]"
  shows "oa_inv hf ys" "elems ys = {kv' \<in> elems xs. fst kv' \<noteq> fst kv}" "Suc (used_count ys) = used_count xs"
proof -
  have il: "i < length xs" "p_states (xs ! i) = EXIST" using used_atD [OF i] by auto
  have U: "used_at ys j kv' \<longleftrightarrow> used_at xs j kv' \<and> j \<noteq> i" for j kv'
    using il by (cases "xs ! j") (auto simp: ys_def used_at_def nth_list_update)
  show "Suc (used_count ys) = used_count xs"
    unfolding used_count_def ys_def by (rule filter_update_out) (use il in auto)
  show "elems ys = {kv' \<in> elems xs. fst kv' \<noteq> fst kv}"
  proof (intro set_eqI iffI)
    fix kv'
    assume "kv' \<in> elems ys"
    then obtain j where j: "used_at xs j kv'" "j \<noteq> i" unfolding elems_def U by blast
    then have "fst kv' \<noteq> fst kv" using oa_invD(4) [OF inv j(1) i] by blast
    with j(1) show "kv' \<in> {kv' \<in> elems xs. fst kv' \<noteq> fst kv}" unfolding elems_def by blast
  next
    fix kv'
    assume "kv' \<in> {kv' \<in> elems xs. fst kv' \<noteq> fst kv}"
    then obtain j where j: "used_at xs j kv'" "fst kv' \<noteq> fst kv" unfolding elems_def by blast
    then have "j \<noteq> i" using i by (auto simp: used_at_def)
    with j(1) show "kv' \<in> elems ys" unfolding elems_def U by blast
  qed
  have st: "p_states (ys ! j) \<noteq> EMPTY" if "p_states (xs ! j) \<noteq> EMPTY" for j
    using that il unfolding ys_def by (cases "j = i") auto
  have P: "probes hf ys = probes hf xs" unfolding ys_def by simp
  show "oa_inv hf ys"
    unfolding oa_inv_def
  proof (intro conjI allI impI ballI)
    show "ys \<noteq> []" using il unfolding ys_def by auto
    show "p_kv x \<noteq> None" if "x \<in> set ys" "p_states x = EXIST" for x
    proof -
      have "x = (xs ! i)\<lparr>p_states := DELETE\<rparr> \<or> x \<in> set xs"
        using that(1) set_update_subset_insert [of xs i "(xs ! i)\<lparr>p_states := DELETE\<rparr>"] unfolding ys_def by blast
      then show ?thesis using oa_invD(2) [OF inv, of x] that(2) by fastforce
    qed
    show "\<exists>t. j = probes hf ys (fst kv') t \<and> (\<forall>u < t. p_states (ys ! probes hf ys (fst kv') u) \<noteq> EMPTY)" if "used_at ys j kv'" for j kv'
      using oa_invD(3) [OF inv, of j kv'] that st unfolding U P by blast
    show "j = j'" if "used_at ys j kv1" "used_at ys j' kv2" "fst kv1 = fst kv2" for j j' kv1 kv2
      using oa_invD(4) [OF inv, of j kv1 j' kv2] that unfolding U by blast
  qed
qed

lemma has_empty_delete:
  assumes "has_empty xs" "p_states (xs ! i) \<noteq> EMPTY"
  shows "has_empty (xs[i := x])"
proof -
  obtain j where j: "j < length xs" "p_states (xs ! j) = EMPTY" using assms(1) by (auto simp: has_empty_def in_set_conv_nth)
  then have "j \<noteq> i" using assms(2) by auto
  then have "xs[i := x] ! j = xs ! j" by simp
  then show ?thesis unfolding has_empty_def using j by (metis length_list_update nth_mem)
qed

lemma oa_erase_correct:
  assumes ok: "oa_ok hf s" and e: "has_empty (hs s)" and n: "length (hs s) < n"
  shows "\<exists>s'. oa_erase hf n k s = Inr (k \<in> fst ` elems (hs s), s') \<and> oa_ok hf s' \<and> has_empty (hs s')
    \<and> elems (hs s') = {kv \<in> elems (hs s). fst kv \<noteq> k}"
proof -
  have inv: "oa_inv hf (hs s)" "hs_n s = used_count (hs s)" using ok by (simp_all add: oa_ok_def)
  from oa_find_correct [OF inv(1) e n, of k] show ?thesis
  proof (elim disjE exE conjE)
    fix i v
    assume i: "oa_find hf n s k = Inr (Some i)" "used_at (hs s) i (k, v)"
    note D = oa_inv_delete [OF inv(1) i(2)]
    have "k \<in> fst ` elems (hs s)" using i(2) by (force simp: elems_def)
    moreover have "has_empty ((hs s)[i := (hs s ! i)\<lparr>p_states := DELETE\<rparr>])"
      by (rule has_empty_delete [OF e]) (use used_atD [OF i(2)] in simp)
    ultimately show ?thesis using i(1) D inv(2) by (simp add: oa_erase_def oa_ok_def)
  next
    assume "oa_find hf n s k = Inr None" "k \<notin> fst ` elems (hs s)"
    moreover from this(2) have "{kv \<in> elems (hs s). fst kv \<noteq> k} = elems (hs s)" by force
    ultimately show ?thesis using ok e by (simp add: oa_erase_def)
  qed
qed

section \<open>Properties\<close>

text \<open>
  C31. While a slot is empty, \<open>zhc_test1::Hash\<close> is a finite set of pairs with different keys: insert
  adds a pair exactly when its key is new and returns whether it did, also when it moves everything
  to a bigger table; erase removes the pair with the key; find returns the slot that holds the key
  or null. All of them end.
\<close>

theorem oa_implements_map:
  assumes "oa_ok hf s" "has_empty (hs s)" "2 * length (hs s) < n"
  defines "D \<equiv> elems (hs s)"
  shows "(\<exists>s'. oa_insert hf (Suc (Suc d)) n (k, v) s = Inr (k \<notin> fst ` D, s') \<and> oa_ok hf s' \<and> elems (hs s') = (if k \<in> fst ` D then D else insert (k, v) D))
    \<and> (\<exists>s'. oa_erase hf n k s = Inr (k \<in> fst ` D, s') \<and> oa_ok hf s' \<and> elems (hs s') = {kv \<in> D. fst kv \<noteq> k})
    \<and> (\<exists>p. oa_find hf n s k = Inr p \<and> (case p of None \<Rightarrow> k \<notin> fst ` D | Some i \<Rightarrow> \<exists>v. used_at (hs s) i (k, v)))"
proof -
  have n: "length (hs s) < n" using assms(3) by simp
  have inv: "oa_inv hf (hs s)" using assms(1) by (simp add: oa_ok_def)
  have find: "(\<exists>i v. oa_find hf n s k = Inr (Some i) \<and> used_at (hs s) i (k, v)) \<or> (oa_find hf n s k = Inr None \<and> k \<notin> fst ` D)"
    unfolding D_def by (rule oa_find_correct [OF inv assms(2) n])
  have "\<exists>s'. oa_insert hf (Suc (Suc d)) n (k, v) s = Inr (k \<notin> fst ` D, s') \<and> oa_ok hf s' \<and> elems (hs s') = (if k \<in> fst ` D then D else insert (k, v) D)"
  proof (cases "k \<in> fst ` D")
    case True
    then obtain i where "oa_find hf n s k = Inr (Some i)" using find by blast
    then show ?thesis using True assms(1) D_def by (simp add: oa_insert.simps)
  next
    case False
    then show ?thesis using oa_insert_full [OF assms(1-3), of "(k, v)" d] D_def by (metis fst_conv)
  qed
  moreover have "\<exists>p. oa_find hf n s k = Inr p \<and> (case p of None \<Rightarrow> k \<notin> fst ` D | Some i \<Rightarrow> \<exists>v. used_at (hs s) i (k, v))"
    using find by auto
  ultimately show ?thesis using oa_erase_correct [OF assms(1,2) n, of k] D_def by blast
qed

lemma oa_new_ok: "oa_ok hf oa_new" "has_empty (hs oa_new)" "length (hs oa_new) = 10" "elems (hs oa_new) = {}"
  using oa_ok_empty [of 10] by (simp_all add: oa_new_def has_empty_def no_data_def)

theorem oa_implements_map_witness:
  "\<exists>s'. oa_insert HashFunc_int 2 21 (5 :: int, True) oa_new = Inr (True, s') \<and> elems (hs s') = {(5, True)}"
  using oa_implements_map [OF oa_new_ok(1,2), of 21 HashFunc_int 0 5 True] by (auto simp: oa_new_ok(3,4) numeral_2_eq_2)

text \<open>Inserting a key and erasing it again, for each key of a list.\<close>

fun churn :: "('k \<Rightarrow> u64) \<Rightarrow> nat \<Rightarrow> 'k list \<Rightarrow> ('k, unit) Hash \<Rightarrow> ('k, unit) Hash res" where
  "churn hf n [] s = Inr s"
| "churn hf n (k # ks) s =
     bind_res (oa_insert hf 2 n (k, ()) s) (\<lambda>(_, s).
     bind_res (oa_erase hf n k s) (\<lambda>(_, s). churn hf n ks s))"

lemma probe_find_endless: "xs \<noteq> [] \<Longrightarrow> \<forall>x \<in> set xs. p_states x = DELETE \<Longrightarrow> i < length xs \<Longrightarrow> probe_find n xs k i = Inl Stack_Exhausted"
proof (induction n arbitrary: i)
  case (Suc n)
  then have "p_states (xs ! i) = DELETE" by simp
  with Suc show ?case by (simp add: has_key_def)
qed simp

lemma churn_one:
  assumes "length (hs s) = 10" "hs_n s = 0" "p_states (hs s ! slot hf k 10) = EMPTY"
  obtains s1 s2 where "oa_insert hf 2 (Suc n) (k, ()) s = Inr (True, s1)" "oa_erase hf (Suc n) k s1 = Inr (True, s2)"
    "length (hs s2) = 10" "hs_n s2 = 0"
    "\<And>i. i < 10 \<Longrightarrow> p_states (hs s2 ! i) = (if i = slot hf k 10 then DELETE else p_states (hs s ! i))"
proof -
  let ?i = "slot hf k 10"
  let ?s1 = "s\<lparr>hs := (hs s)[?i := \<lparr>p_kv = Some (k, ()), p_states = EXIST\<rparr>], hs_n := 1\<rparr>"
  let ?s2 = "?s1\<lparr>hs := (hs ?s1)[?i := (hs ?s1 ! ?i)\<lparr>p_states := DELETE\<rparr>], hs_n := 0\<rparr>"
  have i: "?i < 10" by (rule slot_less) simp
  have "oa_insert hf 2 (Suc n) (k, ()) s = Inr (True, ?s1)"
    using assms i by (simp add: numeral_2_eq_2 oa_insert.simps oa_find_def)
  moreover have "oa_erase hf (Suc n) k ?s1 = Inr (True, ?s2)"
    using assms(1) i by (simp add: oa_erase_def oa_find_def has_key_def)
  ultimately show ?thesis by (rule that) (use assms(1) i in \<open>simp_all add: nth_list_update\<close>)
qed

lemma churn_deletes:
  assumes "length (hs s) = 10" "hs_n s = 0" "distinct (map (\<lambda>k. slot hf k 10) ks)"
    and "\<forall>k \<in> set ks. p_states (hs s ! slot hf k 10) = EMPTY"
  shows "\<exists>s'. churn hf (Suc n) ks s = Inr s' \<and> length (hs s') = 10
    \<and> (\<forall>i < 10. p_states (hs s' ! i) = (if i \<in> (\<lambda>k. slot hf k 10) ` set ks then DELETE else p_states (hs s ! i)))"
  using assms
proof (induction ks arbitrary: s)
  case (Cons k ks)
  obtain s1 s2 where 1: "oa_insert hf 2 (Suc n) (k, ()) s = Inr (True, s1)" "oa_erase hf (Suc n) k s1 = Inr (True, s2)"
    "length (hs s2) = 10" "hs_n s2 = 0"
    "\<And>i. i < 10 \<Longrightarrow> p_states (hs s2 ! i) = (if i = slot hf k 10 then DELETE else p_states (hs s ! i))"
    by (rule churn_one [OF Cons.prems(1,2), of hf k n]) (use Cons.prems(4) in simp_all)
  have "\<forall>k' \<in> set ks. p_states (hs s2 ! slot hf k' 10) = EMPTY"
    using Cons.prems(3,4) 1(5) slot_less [of 10 hf] by (auto simp: image_iff)
  then obtain s' where "churn hf (Suc n) ks s2 = Inr s'" "length (hs s') = 10"
    "\<forall>i < 10. p_states (hs s' ! i) = (if i \<in> (\<lambda>k. slot hf k 10) ` set ks then DELETE else p_states (hs s2 ! i))"
    using Cons.IH [OF 1(3,4)] Cons.prems(3) by auto
  then show ?case using 1 by simp
qed simp

text \<open>
  C32. Deleted slots pile up: let ten keys, of any type and under any hash function, belong to ten
  different slots of a new table. After each was inserted and erased again, one after the other,
  the table is empty but has no empty slot, and searching for any key runs forever.
\<close>

theorem find_never_ends:
  fixes hf :: "'k \<Rightarrow> u64"
  assumes "length ks = 10" "distinct (map (\<lambda>k. slot hf k 10) ks)"
  shows "\<exists>s. churn hf (Suc n) ks oa_new = Inr s \<and> elems (hs s) = {} \<and> (\<forall>m k. oa_find hf m s k = Inl Stack_Exhausted)"
proof -
  let ?new = "oa_new :: ('k, unit) Hash"
  have "\<forall>k \<in> set ks. p_states (hs ?new ! slot hf k 10) = EMPTY" by (simp add: oa_new_def no_data_def slot_less)
  moreover have "length (hs ?new) = 10" "hs_n ?new = 0" by (simp_all add: oa_new_def)
  ultimately obtain s where s: "churn hf (Suc n) ks oa_new = Inr s" "length (hs s) = 10"
    "\<forall>i < 10. p_states (hs s ! i) = (if i \<in> (\<lambda>k. slot hf k 10) ` set ks then DELETE else p_states (hs ?new ! i))"
    using churn_deletes [OF _ _ assms(2), of ?new n] by blast
  have "(\<lambda>k. slot hf k 10) ` set ks = {..<10}"
  proof (rule card_subset_eq)
    show "card ((\<lambda>k. slot hf k 10) ` set ks) = card {..<10 :: nat}"
      using distinct_card [OF assms(2)] assms(1) by simp
  qed (auto simp: slot_less)
  then have d: "\<forall>x \<in> set (hs s). p_states x = DELETE" using s(2,3) by (auto simp: in_set_conv_nth)
  then have "elems (hs s) = {}" by (fastforce simp: elems_def dest: used_atD)
  moreover have "oa_find hf m s k = Inl Stack_Exhausted" for m k
    unfolding oa_find_def by (rule probe_find_endless [OF _ d]) (use s(2) in \<open>auto simp: slot_less\<close>)
  ultimately show ?thesis using s(1) by blast
qed

theorem find_never_ends_witness:
  "\<exists>s. churn HashFunc_int 30 [0, 1, 2, 3, 4, 5, 6, 7, 8, 9] oa_new = Inr s \<and> elems (hs s) = {}
    \<and> (\<forall>m k. oa_find HashFunc_int m s k = Inl Stack_Exhausted)"
proof -
  have "distinct (map (\<lambda>k. slot HashFunc_int k 10) [0, 1, 2, 3, 4, 5, 6, 7, 8, 9])" by code_simp
  from find_never_ends [OF _ this, of 29] show ?thesis by simp
qed

end
