(* ===== verification/Word_Count.thy ===== *)
theory Word_Count
  imports Hash_Open
begin

text \<open>
  The test programs of \<open>Algorithm/HashTable.hpp\<close> and \<open>Algorithm/Unordered_map.hpp\<close>, which count how
  often each word occurs, and \<open>zhc::unordered_map\<close> and \<open>zhc::unordered_set\<close>, which wrap
  \<open>zhc_hash::HashTable\<close>. The locale \<open>counter\<close> states what one round of the counting loop does to the
  map from words to numbers; that the whole loop counts is proved from it once, and the loops over
  the open-addressing table, the chained table and \<open>unordered_map\<close> are instances.
\<close>

section \<open>The interface\<close>

text \<open>\<open>++\<close> on an \<open>int\<close>.\<close>

definition int_inc :: "int \<Rightarrow> int res" where
  "int_inc v = (if v < 2 ^ 31 - 1 then Inr (v + 1) else Inl Overflow)"

definition counted :: "('k \<rightharpoonup> int) \<Rightarrow> 'k \<Rightarrow> int" where
  "counted m k = (case m k of None \<Rightarrow> 1 | Some v \<Rightarrow> v + 1)"

fun count_all :: "(nat \<Rightarrow> 'k \<Rightarrow> 's \<Rightarrow> 's res) \<Rightarrow> (nat \<times> 'k) list \<Rightarrow> 's \<Rightarrow> 's res" where
  "count_all step [] s = Inr s"
| "count_all step ((a, w) # ws) s = bind_res (step a w s) (count_all step ws)"

locale counter =
  fixes holds_map :: "'s \<Rightarrow> ('k \<rightharpoonup> int) \<Rightarrow> bool"
    and used :: "'s \<Rightarrow> nat set"
    and need :: "nat \<Rightarrow> nat"
    and step :: "nat \<Rightarrow> nat \<Rightarrow> 'k \<Rightarrow> 's \<Rightarrow> 's res"
  assumes finite_map: "holds_map s m \<Longrightarrow> finite (dom m)"
    and need_mono: "c \<le> c' \<Longrightarrow> need c \<le> need c'"
    and step_counts: "holds_map s m \<Longrightarrow> a \<notin> used s \<Longrightarrow> need (card (dom m)) \<le> n \<Longrightarrow> counted m k < 2 ^ 31 \<Longrightarrow>
      \<exists>s'. step n a k s = Inr s' \<and> holds_map s' (m(k \<mapsto> counted m k)) \<and> used s' \<subseteq> insert a (used s)"
begin

lemma count_all_from:
  assumes "holds_map s m" "distinct (map fst ws)" "used s \<inter> fst ` set ws = {}" "need (card (dom m) + length ws) \<le> n"
    and "\<And>k. (case m k of None \<Rightarrow> 0 | Some v \<Rightarrow> v) + int (length ws) < 2 ^ 31"
  shows "\<exists>s' m'. count_all (step n) ws s = Inr s' \<and> holds_map s' m'
    \<and> (\<forall>k. m' k = (if k \<in> snd ` set ws then Some ((case m k of None \<Rightarrow> 0 | Some v \<Rightarrow> v) + int (count_list (map snd ws) k)) else m k))"
  using assms
proof (induction ws arbitrary: s m)
  case Nil
  then show ?case by auto
next
  case (Cons aw ws)
  obtain a w where aw: "aw = (a, w)" by fastforce
  let ?m = "m(w \<mapsto> counted m w)"
  have c: "counted m w = (case m w of None \<Rightarrow> 0 | Some v \<Rightarrow> v) + 1" by (simp add: counted_def split: option.split)
  have "counted m w < 2 ^ 31" using Cons.prems(5) [of w] unfolding c by simp
  moreover have "need (card (dom m)) \<le> n" using need_mono [of "card (dom m)" "card (dom m) + length (aw # ws)"] Cons.prems(4) by simp
  ultimately obtain s1 where s1: "step n a w s = Inr s1" "holds_map s1 ?m" "used s1 \<subseteq> insert a (used s)"
    using step_counts [of s m a n w] Cons.prems(1,3) aw by auto
  have "card (dom ?m) + length ws \<le> card (dom m) + length (aw # ws)"
    using card_insert_le_m1 finite_map [OF Cons.prems(1)] by (simp add: card_insert_if)
  then have n: "need (card (dom ?m) + length ws) \<le> n" using need_mono Cons.prems(4) by (meson order_trans)
  have b: "(case ?m k of None \<Rightarrow> 0 | Some v \<Rightarrow> v) + int (length ws) < 2 ^ 31" for k
    using Cons.prems(5) [of k] c by (cases "k = w") auto
  have u: "used s1 \<inter> fst ` set ws = {}" using s1(3) Cons.prems(2,3) aw by auto
  have d: "distinct (map fst ws)" using Cons.prems(2) by simp
  obtain s' m' where s': "count_all (step n) ws s1 = Inr s'" "holds_map s' m'"
    "\<forall>k. m' k = (if k \<in> snd ` set ws then Some ((case ?m k of None \<Rightarrow> 0 | Some v \<Rightarrow> v) + int (count_list (map snd ws) k)) else ?m k)"
    using Cons.IH [OF s1(2) d u n b] by blast
  have "m' k = (if k \<in> snd ` set (aw # ws) then Some ((case m k of None \<Rightarrow> 0 | Some v \<Rightarrow> v) + int (count_list (map snd (aw # ws)) k)) else m k)" for k
    using s'(3) aw c count_notin [of k "map snd ws"] by (auto split: option.split)
  moreover have "count_all (step n) (aw # ws) s = Inr s'" using s'(1) s1(1) aw by simp
  ultimately show ?case using s'(2) by blast
qed

theorem count_all_counts:
  assumes "holds_map s Map.empty" "distinct (map fst ws)" "used s \<inter> fst ` set ws = {}" "need (length ws) \<le> n" "length ws < 2 ^ 31"
  shows "\<exists>s'. count_all (step n) ws s = Inr s'
    \<and> holds_map s' (\<lambda>k. if k \<in> snd ` set ws then Some (int (count_list (map snd ws) k)) else None)"
proof -
  have "int (length ws) < 2 ^ 31" using assms(5) by simp
  then obtain s' m' where "count_all (step n) ws s = Inr s'" "holds_map s' m'"
    "\<forall>k. m' k = (if k \<in> snd ` set ws then Some (0 + int (count_list (map snd ws) k)) else None)"
    using count_all_from [OF assms(1-3), of n] assms(4) by auto
  moreover from this(3) have "m' = (\<lambda>k. if k \<in> snd ` set ws then Some (int (count_list (map snd ws) k)) else None)" by auto
  ultimately show ?thesis by blast
qed

end

section \<open>Counting with the open-addressing table\<close>

definition oa_bump :: "nat \<Rightarrow> ('k, int) Hash \<Rightarrow> ('k, int) Hash res" where
  "oa_bump i s =
     bind_res (at_index (hs s) i) (\<lambda>x.
     case p_kv x of
       None \<Rightarrow> Inl Out_Of_Bounds
     | Some (k, v) \<Rightarrow> bind_res (int_inc v) (\<lambda>v. Inr (s\<lparr>hs := (hs s)[i := x\<lparr>p_kv := Some (k, v)\<rparr>]\<rparr>)))"

definition oa_count :: "('k \<Rightarrow> u64) \<Rightarrow> nat \<Rightarrow> nat \<Rightarrow> 'k \<Rightarrow> ('k, int) Hash \<Rightarrow> ('k, int) Hash res" where
  "oa_count hf n a ch s =
     bind_res (oa_find hf n s ch) (\<lambda>pos.
       case pos of
         Some i \<Rightarrow> oa_bump i s
       | None \<Rightarrow> bind_res (oa_insert hf 2 n (ch, 1) s) (\<lambda>(_, s). Inr s))"

definition test :: "nat \<Rightarrow> string list \<Rightarrow> (string, int) Hash res" where
  "test n ws = count_all (oa_count HashFunc_string n) (enumerate 0 ws) oa_new"

section \<open>Counting with the chained table\<close>

definition ht_bump :: "ptr \<Rightarrow> ('k \<times> int) HashTable \<Rightarrow> ('k \<times> int) HashTable res" where
  "ht_bump p s =
     bind_res (get_hnode s p) (\<lambda>x.
     bind_res (int_inc (snd (h_data x))) (\<lambda>v.
       case p of
         None \<Rightarrow> Inl Null_Deref
       | Some a \<Rightarrow> Inr (s\<lparr>ht_heap := (ht_heap s)(a \<mapsto> x\<lparr>h_data := (fst (h_data x), v)\<rparr>)\<rparr>)))"

definition ht_count :: "('k \<Rightarrow> u64) \<Rightarrow> nat \<Rightarrow> nat \<Rightarrow> 'k \<Rightarrow> ('k \<times> int) HashTable \<Rightarrow> ('k \<times> int) HashTable res" where
  "ht_count hf n a str s =
     bind_res (ht_find hf n s str) (\<lambda>pos.
       if pos = None then bind_res (ht_insert hf n a (str, 1) s) (\<lambda>(_, s). Inr s)
       else ht_bump pos s)"

definition Test :: "nat \<Rightarrow> string list \<Rightarrow> (string \<times> int) HashTable res" where
  "Test n ws = count_all (ht_count HashFunc_string n) (enumerate 0 ws) ht_new"

section \<open>\<open>unordered_map\<close> and \<open>unordered_set\<close>\<close>

definition MapOFT :: "'k \<times> 'v \<Rightarrow> 'k" where
  "MapOFT kv = fst kv"

definition um_begin :: "('k \<times> 'v) HashTable \<Rightarrow> ptr" where
  "um_begin s = zht_begin s"

definition um_end :: ptr where
  "um_end = zht_end"

definition um_insert :: "('k \<Rightarrow> u64) \<Rightarrow> nat \<Rightarrow> nat \<Rightarrow> 'k \<times> 'v \<Rightarrow> ('k \<times> 'v) HashTable \<Rightarrow> (ptr \<times> bool \<times> ('k \<times> 'v) HashTable) res" where
  "um_insert hf n a kv s = zht_insert hf MapOFT n a kv s"

text \<open>\<open>operator[]\<close> returns a reference to the value in the node; \<open>v\<close> is the default value.\<close>

definition um_index :: "('k \<Rightarrow> u64) \<Rightarrow> nat \<Rightarrow> nat \<Rightarrow> 'v \<Rightarrow> 'k \<Rightarrow> ('k \<times> 'v) HashTable \<Rightarrow> (ptr \<times> ('k \<times> 'v) HashTable) res" where
  "um_index hf n a v key s = bind_res (zht_insert hf MapOFT n a (key, v) s) (\<lambda>(it, _, s). Inr (it, s))"

definition um_count :: "('k \<Rightarrow> u64) \<Rightarrow> nat \<Rightarrow> nat \<Rightarrow> 'k \<Rightarrow> ('k \<times> int) HashTable \<Rightarrow> ('k \<times> int) HashTable res" where
  "um_count hf n a str s = bind_res (um_index hf n a 0 str s) (\<lambda>(p, s). ht_bump p s)"

text \<open>The counting loop, and the list the printing loops go through.\<close>

definition Test1 :: "nat \<Rightarrow> string list \<Rightarrow> (string \<times> int) list res" where
  "Test1 n ws =
     bind_res (count_all (um_count HashFunc_string n) (enumerate 0 ws) zht_new) (\<lambda>Mp.
       zht_traverse HashFunc_string MapOFT n Mp (um_begin Mp))"

definition SetOFT :: "'k \<Rightarrow> 'k" where
  "SetOFT k = k"

definition us_begin :: "'k HashTable \<Rightarrow> ptr" where
  "us_begin s = zht_begin s"

definition us_end :: ptr where
  "us_end = zht_end"

definition us_insert :: "('k \<Rightarrow> u64) \<Rightarrow> nat \<Rightarrow> nat \<Rightarrow> 'k \<Rightarrow> 'k HashTable \<Rightarrow> (ptr \<times> bool \<times> 'k HashTable) res" where
  "us_insert hf n a key s = zht_insert hf SetOFT n a key s"

fun us_insert_all :: "('k \<Rightarrow> u64) \<Rightarrow> nat \<Rightarrow> (nat \<times> 'k) list \<Rightarrow> 'k HashTable \<Rightarrow> 'k HashTable res" where
  "us_insert_all hf n [] s = Inr s"
| "us_insert_all hf n ((a, k) # ks) s = bind_res (us_insert hf n a k s) (\<lambda>(_, _, s). us_insert_all hf n ks s)"

definition Test2 :: "nat \<Rightarrow> int list res" where
  "Test2 n =
     bind_res (us_insert_all HashFunc_int n (enumerate 0 [13, 3, 23, 5, 5, 6, 15, 223342, 22]) zht_new) (\<lambda>us.
       zht_traverse HashFunc_int SetOFT n us (us_begin us))"

section \<open>Maps as sets of pairs\<close>

lemma graph_lookup: "(k, v) \<in> Map.graph m \<longleftrightarrow> m k = Some v"
  by (simp add: Map.graph_def)

lemma fst_graph: "fst ` Map.graph m = dom m"
  by (force simp: Map.graph_def)

lemma card_graph: "card (Map.graph m) = card (dom m)"
proof -
  have "inj_on fst (Map.graph m)" by (auto simp: inj_on_def Map.graph_def)
  then show ?thesis using card_image fst_graph by metis
qed

lemma graph_upd: "Map.graph (m(k \<mapsto> v)) = insert (k, v) {kv \<in> Map.graph m. fst kv \<noteq> k}"
  by (auto simp: Map.graph_def split: if_splits)

lemma graph_new: "k \<notin> dom m \<Longrightarrow> Map.graph (m(k \<mapsto> v)) = insert (k, v) (Map.graph m)"
  by (auto simp: Map.graph_def split: if_splits)

lemma finite_graph: "finite (Map.graph m) \<Longrightarrow> finite (dom m)"
  by (metis finite_imageI fst_graph)

lemma int_inc_less: "v + 1 < 2 ^ 31 \<Longrightarrow> int_inc v = Inr (v + 1)"
  by (simp add: int_inc_def)

section \<open>The chained table counts\<close>

lemma ht_at_same_keys:
  assumes t: "ht_at hf kot s bs" and i: "i < length bs" and sp: "bs ! i = ys @ (a, d) # zs" and k: "kot d' = kot d"
    and b: "buckets_at (ht_heap s') (stable s) (bs[i := ys @ (a, d') # zs])"
    and s': "stable s' = stable s" "dom (ht_heap s') = dom (ht_heap s)" "ht_size s' = ht_size s"
  shows "ht_at hf kot s' (bs[i := ys @ (a, d') # zs])"
    "snd ` set (concat (bs[i := ys @ (a, d') # zs])) = insert d' {e \<in> snd ` set (concat bs). kot e \<noteq> kot d}"
proof -
  note D = ht_atD [OF t]
  let ?bs = "bs[i := ys @ (a, d') # zs]"
  define R where "R = mset (concat (bs[i := ys @ zs]))"
  have m: "mset (concat bs) = add_mset (a, d) R" using mset_concat_update [OF i, of "ys @ zs"] sp by (simp add: R_def)
  have m': "mset (concat ?bs) = add_mset (a, d') R"
    using mset_concat_update [OF i, of "ys @ (a, d') # zs"] m sp by simp
  have e: "mset (map fst (concat ?bs)) = mset (map fst (concat bs))"
    "mset (map (kot \<circ> snd) (concat ?bs)) = mset (map (kot \<circ> snd) (concat bs))" using m m' k by simp_all
  have "distinct (map fst (concat ?bs))" "distinct (map (kot \<circ> snd) (concat ?bs))"
    using mset_eq_imp_distinct_iff [OF e(1)] mset_eq_imp_distinct_iff [OF e(2)] D(5,6) by blast+
  moreover have "fst ` set (concat ?bs) = fst ` set (concat bs)" using e(1) by (metis set_map set_mset_mset)
  moreover have "length (concat ?bs) = length (concat bs)" using e(1) by (metis length_map size_mset)
  moreover have "placed hf kot ?bs"
  proof (rule placed_update [OF D(4)])
    fix x
    assume "x \<in> set (ys @ (a, d') # zs)"
    then have "x \<in> set (bs ! i) \<or> x = (a, d')" using sp by auto
    moreover have "slot hf (kot (snd y)) (length bs) = i" if "y \<in> set (bs ! i)" for y using D(4) i that by (simp add: placed_def)
    ultimately show "slot hf (kot (snd x)) (length bs) = i" using sp k by fastforce
  qed
  ultimately show "ht_at hf kot s' ?bs"
    unfolding ht_at_def using b s' D(2,3,7,8,9) by auto
  have "set (concat bs) = insert (a, d) (set_mset R)" "set (concat ?bs) = insert (a, d') (set_mset R)"
    using m m' by (metis set_mset_add_mset_insert set_mset_mset)+
  moreover have "kot (snd x) \<noteq> kot d" if x: "x \<in># R" for x
  proof -
    obtain xs where xs: "R = mset xs" by (metis ex_mset)
    have "mset (map (kot \<circ> snd) (concat bs)) = mset (kot d # map (kot \<circ> snd) xs)" using m xs by simp
    then have "distinct (kot d # map (kot \<circ> snd) xs)" using D(6) mset_eq_imp_distinct_iff by blast
    then show ?thesis using x xs by force
  qed
  ultimately show "snd ` set (concat ?bs) = insert d' {e \<in> snd ` set (concat bs). kot e \<noteq> kot d}" by (simp only:) force
qed

lemma ht_bump_at:
  assumes t: "ht_at hf fst s bs" and x: "located fst bs k = Some (a, (k, v))" and v: "v + 1 < 2 ^ 31"
  obtains s' bs' where "ht_bump (Some a) s = Inr s'" "ht_at hf fst s' bs'"
    "snd ` set (concat bs') = insert (k, v + 1) {e \<in> snd ` set (concat bs). fst e \<noteq> k}" "dom (ht_heap s') = dom (ht_heap s)"
proof -
  note D = ht_atD [OF t]
  let ?i = "slot hf k (length bs)"
  have i: "?i < length bs" using D(2) by simp
  obtain ys zs where sp: "bs ! ?i = ys @ (a, (k, v)) # zs" by (rule located_split [OF t x])
  have c: "chain_at (ht_heap s) (stable s ! ?i) (ys @ (a, (k, v)) # zs)" "distinct (map fst (ys @ (a, (k, v)) # zs))"
    using buckets_at_nth [OF D(1) i] bucket_distinct [OF i D(5)] sp by simp_all
  obtain q where q: "seg_at (ht_heap s) (stable s ! ?i) ys (Some a)" "ht_heap s a = Some \<lparr>h_data = (k, v), h_next = q\<rparr>"
    "chain_at (ht_heap s) q zs" using c(1) by (auto simp: chain_at_append chain_at_Cons)
  define s' where "s' = s\<lparr>ht_heap := (ht_heap s)(a \<mapsto> \<lparr>h_data = (k, v + 1), h_next = q\<rparr>)\<rparr>"
  have bump: "ht_bump (Some a) s = Inr s'" using q(2) int_inc_less [OF v] by (simp add: ht_bump_def s'_def)
  have "seg_at (ht_heap s') (stable s ! ?i) ys (Some a)"
    by (rule seg_at_cong [OF q(1)]) (use c(2) in \<open>auto simp: s'_def\<close>)
  moreover have "chain_at (ht_heap s') q zs" using chain_at_frame [OF q(3)] c(2) by (simp add: s'_def)
  ultimately have "chain_at (ht_heap s') (stable s ! ?i) (ys @ (a, (k, v + 1)) # zs)"
    unfolding chain_at_append chain_at_Cons by (auto simp: s'_def)
  then have "buckets_at (ht_heap s') ((stable s)[?i := stable s ! ?i]) (bs[?i := ys @ (a, (k, v + 1)) # zs])"
    by (rule buckets_at_replace [OF t i, rotated]) (use sp in \<open>auto simp: s'_def\<close>)
  then have b: "buckets_at (ht_heap s') (stable s) (bs[?i := ys @ (a, (k, v + 1)) # zs])" by simp
  have d: "dom (ht_heap s') = dom (ht_heap s)" using q(2) by (auto simp: s'_def)
  note K = ht_at_same_keys [OF t i sp _ b _ d]
  show ?thesis by (rule that [OF bump K(1)]) (use K(2) d in \<open>simp_all add: s'_def\<close>)
qed

definition ht_map :: "('k \<Rightarrow> u64) \<Rightarrow> ('k \<times> int) HashTable \<Rightarrow> ('k \<rightharpoonup> int) \<Rightarrow> bool" where
  "ht_map hf s m \<longleftrightarrow> ht_holds hf fst s (Map.graph m)"

lemma ht_mapE:
  assumes "ht_map hf s m" "Suc (card (dom m)) \<le> n"
  obtains bs where "ht_at hf fst s bs" "snd ` set (concat bs) = Map.graph m" "length (concat bs) < n"
  using assms ht_holdsE [of hf fst s "Map.graph m" n] unfolding ht_map_def card_graph by auto

lemma ht_map_finite: "ht_map hf s m \<Longrightarrow> finite (dom m)"
  unfolding ht_map_def ht_holds_def by (metis finite_graph finite_imageI finite_set)

lemma located_map:
  assumes "ht_at hf fst s bs" "snd ` set (concat bs) = Map.graph m"
  shows "case m k of None \<Rightarrow> located fst bs k = None | Some v \<Rightarrow> \<exists>b. located fst bs k = Some (b, (k, v))"
proof (cases "m k")
  case None
  then have "k \<notin> fst ` Map.graph m" unfolding fst_graph by auto
  with None assms(2) show ?thesis by (simp add: located_None)
next
  case (Some v)
  then have "(k, v) \<in> snd ` set (concat bs)" unfolding assms(2) by (simp add: graph_lookup)
  then obtain b where "(b, (k, v)) \<in> set (concat bs)" by (metis imageE prod.collapse)
  with Some show ?thesis using located_Some [OF ht_atD(6) [OF assms(1)]] by fastforce
qed

lemma ht_bump_counts:
  assumes t: "ht_at hf fst s bs" "snd ` set (concat bs) = Map.graph m" and l: "located fst bs k = Some (b, (k, v))" and v: "v + 1 < 2 ^ 31"
  shows "\<exists>s'. ht_bump (Some b) s = Inr s' \<and> ht_map hf s' (m(k \<mapsto> v + 1)) \<and> dom (ht_heap s') = dom (ht_heap s)"
proof -
  obtain s' bs' where s': "ht_bump (Some b) s = Inr s'" "ht_at hf fst s' bs'"
    "snd ` set (concat bs') = insert (k, v + 1) {e \<in> snd ` set (concat bs). fst e \<noteq> k}" "dom (ht_heap s') = dom (ht_heap s)"
    by (rule ht_bump_at [OF t(1) l v])
  then have "snd ` set (concat bs') = Map.graph (m(k \<mapsto> v + 1))" unfolding graph_upd t(2) by blast
  with s' show ?thesis unfolding ht_map_def ht_holds_def by blast
qed

lemma dom_add: "ht_at hf kot s bs \<Longrightarrow> ht_at hf kot s' bs' \<Longrightarrow> mset (concat bs') = add_mset (a, d) (mset (concat bs)) \<Longrightarrow>
  dom (ht_heap s') = insert a (dom (ht_heap s))"
  using ht_atD(7) [of hf kot s bs] ht_atD(7) [of hf kot s' bs'] add_mset_set [of "concat bs'" "(a, d)" "concat bs"] by simp

lemma ht_count_step:
  assumes m: "ht_map hf s m" and a: "a \<notin> dom (ht_heap s)" and n: "Suc (card (dom m)) \<le> n" and v: "counted m k < 2 ^ 31"
  shows "\<exists>s'. ht_count hf n a k s = Inr s' \<and> ht_map hf s' (m(k \<mapsto> counted m k)) \<and> dom (ht_heap s') \<subseteq> insert a (dom (ht_heap s))"
proof -
  obtain bs where t: "ht_at hf fst s bs" "snd ` set (concat bs) = Map.graph m" "length (concat bs) < n" by (rule ht_mapE [OF m n])
  have a': "ht_heap s a = None" using a by auto
  show ?thesis
  proof (cases "m k")
    case None
    then have l: "located fst bs k = None" using located_map [OF t(1,2), of k] by simp
    from t(1) a' t(3) show ?thesis
    proof (cases rule: ht_insert_at [where kv = "(k, 1)"])
      case (new s' bs')
      have kn: "k \<notin> dom m" using None by auto
      have "snd ` set (concat bs') = Map.graph (m(k \<mapsto> 1))"
        unfolding graph_new [OF kn] add_mset_set [OF new(4)] using t(2) by (simp only: image_insert snd_conv)
      then have "ht_map hf s' (m(k \<mapsto> 1))" using new(3) unfolding ht_map_def ht_holds_def by blast
      with new None l dom_add [OF t(1) new(3,4)] ht_find_at [OF t(1,3), of k] show ?thesis by (simp add: ht_count_def counted_def)
    qed (use l in simp)
  next
    case (Some v')
    then obtain b where l: "located fst bs k = Some (b, (k, v'))" using located_map [OF t(1,2), of k] by auto
    have "v' + 1 < 2 ^ 31" using v Some by (simp add: counted_def)
    from ht_bump_counts [OF t(1,2) l this] obtain s' where "ht_bump (Some b) s = Inr s'" "ht_map hf s' (m(k \<mapsto> v' + 1))" "dom (ht_heap s') = dom (ht_heap s)"
      by blast
    with Some l ht_find_at [OF t(1,3), of k] show ?thesis by (auto simp: ht_count_def counted_def)
  qed
qed

interpretation ht_counter: counter "ht_map hf" "\<lambda>s. dom (ht_heap s)" Suc "ht_count hf" for hf
  by unfold_locales (simp_all add: ht_map_finite ht_count_step)

lemma MapOFT_fst: "MapOFT = fst"
  by (intro ext) (simp add: MapOFT_def)

lemma um_count_step:
  assumes m: "ht_map hf s m" and a: "a \<notin> dom (ht_heap s)" and n: "Suc (card (dom m)) \<le> n" and v: "counted m k < 2 ^ 31"
  shows "\<exists>s'. um_count hf n a k s = Inr s' \<and> ht_map hf s' (m(k \<mapsto> counted m k)) \<and> dom (ht_heap s') \<subseteq> insert a (dom (ht_heap s))"
proof -
  obtain bs where t: "ht_at hf fst s bs" "snd ` set (concat bs) = Map.graph m" "length (concat bs) < n" by (rule ht_mapE [OF m n])
  have a': "ht_heap s a = None" using a by auto
  from t(1) a' t(3) show ?thesis
  proof (cases rule: zht_insert_at [where d = "(k, 0)"])
    case (old b d)
    then have l: "located fst bs k = Some (b, d)" by simp
    then obtain v' where d: "d = (k, v')" using located_SomeD [OF l] by (cases d) auto
    then have "m k = Some v'" using located_map [OF t(1,2), of k] l by (cases "m k") auto
    then have c: "counted m k = v' + 1" by (simp add: counted_def)
    from ht_bump_counts [OF t(1,2) l [unfolded d]] v c obtain s' where "ht_bump (Some b) s = Inr s'" "ht_map hf s' (m(k \<mapsto> v' + 1))"
      "dom (ht_heap s') = dom (ht_heap s)" by auto
    with old c show ?thesis by (auto simp: um_count_def um_index_def MapOFT_fst)
  next
    case (new s1 bs1)
    then have "m k = None" using located_map [OF t(1,2), of k] by (cases "m k") auto
    then have c: "counted m k = 1" and kn: "k \<notin> dom m" by (auto simp: counted_def)
    have s1: "set (concat bs1) = insert (a, k, 0) (set (concat bs))" by (rule add_mset_set [OF new(4)])
    then have g: "snd ` set (concat bs1) = Map.graph (m(k \<mapsto> 0))" unfolding graph_new [OF kn] using t(2) by (simp only: image_insert snd_conv)
    have "(a, k, 0) \<in> set (concat bs1)" using s1 by simp
    then have l: "located fst bs1 k = Some (a, (k, 0))" using located_Some [OF ht_atD(6) [OF new(3)]] by fastforce
    from ht_bump_counts [OF new(3) g l] obtain s' where "ht_bump (Some a) s1 = Inr s'" "ht_map hf s' (m(k \<mapsto> 1))"
      "dom (ht_heap s') = dom (ht_heap s1)" by auto
    with new(2) c dom_add [OF t(1) new(3,4)] show ?thesis by (auto simp: um_count_def um_index_def MapOFT_fst)
  qed
qed

interpretation um_counter: counter "ht_map hf" "\<lambda>s. dom (ht_heap s)" Suc "um_count hf" for hf
  by unfold_locales (simp_all add: ht_map_finite um_count_step)

section \<open>The open-addressing table counts\<close>

definition oa_map :: "('k \<Rightarrow> u64) \<Rightarrow> ('k, int) Hash \<Rightarrow> ('k \<rightharpoonup> int) \<Rightarrow> bool" where
  "oa_map hf s m \<longleftrightarrow> oa_ok hf s \<and> no_delete s \<and> elems (hs s) = Map.graph m
     \<and> 10 \<le> length (hs s) \<and> length (hs s) \<le> 10 + 3 * hs_n s \<and> hs_n s < length (hs s)"

lemma oa_map_card:
  assumes "oa_map hf s m"
  shows "hs_n s = card (dom m)" "finite (dom m)"
proof -
  have inv: "oa_inv hf (hs s)" "hs_n s = used_count (hs s)" "elems (hs s) = Map.graph m" using assms by (simp_all add: oa_map_def oa_ok_def)
  have l: "set (live (hs s)) = Map.graph m" using set_live oa_invD(2) [OF inv(1)] inv(3) by metis
  have "distinct (live (hs s))" using distinct_live [OF inv(1)] distinct_map by blast
  then show "hs_n s = card (dom m)" using inv(2) l card_graph [of m] length_live [of "hs s"] distinct_card by metis
  show "finite (dom m)" using l finite_graph by (metis finite_set)
qed

lemma oa_inv_bump:
  fixes w :: 'v
  assumes inv: "oa_inv hf xs" and i: "used_at xs i (k, v)"
  defines "ys \<equiv> xs[i := \<lparr>p_kv = Some (k, w), p_states = EXIST\<rparr>]"
  shows "oa_inv hf ys" "elems ys = insert (k, w) {kv \<in> elems xs. fst kv \<noteq> k}" "used_count ys = used_count xs"
proof -
  note D = oa_inv_delete [OF inv i]
  let ?zs = "xs[i := (xs ! i)\<lparr>p_states := DELETE\<rparr>]"
  obtain t where t: "i = probes hf xs k t" "\<forall>u < t. p_states (xs ! probes hf xs k u) \<noteq> EMPTY" using oa_invD(3) [OF inv i] by auto
  have il: "i < length xs" "p_states (xs ! i) = EXIST" using used_atD [OF i] by auto
  have U: "used_at ys j kv \<longleftrightarrow> (j = i \<and> kv = (k, w)) \<or> (j \<noteq> i \<and> used_at xs j kv)" for j kv
    using il by (auto simp: ys_def used_at_def nth_list_update)
  have fresh: "fst kv \<noteq> k" if "used_at xs j kv" "j \<noteq> i" for j kv using oa_invD(4) [OF inv that(1) i] that(2) by auto
  have st: "p_states (ys ! j) \<noteq> EMPTY" if "p_states (xs ! j) \<noteq> EMPTY" for j
    using that il unfolding ys_def by (cases "j = i") auto
  have P: "probes hf ys = probes hf xs" unfolding ys_def by simp
  have "ys = ?zs[i := \<lparr>p_kv = Some (k, w), p_states = EXIST\<rparr>]" unfolding ys_def by simp
  then have "used_count ys = Suc (used_count ?zs)"
    unfolding used_count_def using filter_update [of i ?zs "\<lambda>x. p_states x = EXIST" "\<lparr>p_kv = Some (k, w), p_states = EXIST\<rparr>"] il(1) by simp
  then show "used_count ys = used_count xs" using D(3) by simp
  show "elems ys = insert (k, w) {kv \<in> elems xs. fst kv \<noteq> k}"
  proof (intro set_eqI iffI)
    fix kv
    assume "kv \<in> elems ys"
    then obtain j where "used_at ys j kv" unfolding elems_def by blast
    then show "kv \<in> insert (k, w) {kv \<in> elems xs. fst kv \<noteq> k}" unfolding U elems_def using fresh by blast
  next
    fix kv
    assume "kv \<in> insert (k, w) {kv \<in> elems xs. fst kv \<noteq> k}"
    then show "kv \<in> elems ys"
    proof (elim insertE CollectE conjE)
      assume "kv \<in> elems xs" "fst kv \<noteq> k"
      then obtain j where j: "used_at xs j kv" "fst kv \<noteq> k" unfolding elems_def by blast
      then have "j \<noteq> i" using i by (auto simp: used_at_def)
      then show ?thesis using j(1) U unfolding elems_def by blast
    qed (use U in \<open>auto simp: elems_def\<close>)
  qed
  show "oa_inv hf ys"
    unfolding oa_inv_def
  proof (intro conjI allI impI ballI)
    show "ys \<noteq> []" using il unfolding ys_def by auto
    show "p_kv x \<noteq> None" if "x \<in> set ys" "p_states x = EXIST" for x
    proof -
      have "x = \<lparr>p_kv = Some (k, w), p_states = EXIST\<rparr> \<or> x \<in> set xs"
        using that(1) set_update_subset_insert [of xs i "\<lparr>p_kv = Some (k, w), p_states = EXIST\<rparr>"] unfolding ys_def by blast
      then show ?thesis using oa_invD(2) [OF inv, of x] that(2) by fastforce
    qed
    show "\<exists>t. j = probes hf ys (fst kv) t \<and> (\<forall>u < t. p_states (ys ! probes hf ys (fst kv) u) \<noteq> EMPTY)" if "used_at ys j kv" for j kv
    proof (cases "j = i")
      case True
      then have "kv = (k, w)" using that unfolding U by blast
      then show ?thesis unfolding P True using t st by (intro exI [of _ t]) simp
    next
      case False
      then have "used_at xs j kv" using that unfolding U by blast
      then show ?thesis using oa_invD(3) [OF inv, of j kv] st unfolding P by blast
    qed
    show "j = j'" if "used_at ys j kv1" "used_at ys j' kv2" "fst kv1 = fst kv2" for j j' kv1 kv2
    proof (cases "j = i \<or> j' = i")
      case True
      then show ?thesis using that fresh [of j kv1] fresh [of j' kv2] unfolding U by (metis fst_conv)
    next
      case False
      then show ?thesis using that oa_invD(4) [OF inv, of j kv1 j' kv2] unfolding U by blast
    qed
  qed
qed

lemma oa_count_step:
  assumes m: "oa_map hf s m" and n: "21 + 6 * card (dom m) \<le> n" and v: "counted m k < 2 ^ 31"
  shows "\<exists>s'. oa_count hf n a k s = Inr s' \<and> oa_map hf s' (m(k \<mapsto> counted m k))"
proof -
  have ok: "oa_ok hf s" "no_delete s" "elems (hs s) = Map.graph m" "10 \<le> length (hs s)" "length (hs s) \<le> 10 + 3 * hs_n s" "hs_n s < length (hs s)"
    using m by (simp_all add: oa_map_def)
  have inv: "oa_inv hf (hs s)" "hs_n s = used_count (hs s)" using ok(1) by (simp_all add: oa_ok_def)
  have e: "has_empty (hs s)" using has_empty_no_delete ok(2,6) inv(2) unfolding no_delete_def by metis
  have n2: "2 * length (hs s) < n" "length (hs s) < n" using n ok(5) oa_map_card(1) [OF m] by linarith+
  from oa_find_correct [OF inv(1) e n2(2), of k] show ?thesis
  proof (elim disjE exE conjE)
    fix i w
    assume i: "oa_find hf n s k = Inr (Some i)" "used_at (hs s) i (k, w)"
    then have "(k, w) \<in> elems (hs s)" unfolding elems_def by blast
    then have mk: "m k = Some w" unfolding ok(3) by (simp add: graph_lookup)
    then have c: "counted m k = w + 1" by (simp add: counted_def)
    let ?s = "s\<lparr>hs := (hs s)[i := \<lparr>p_kv = Some (k, w + 1), p_states = EXIST\<rparr>]\<rparr>"
    have "oa_bump i s = Inr ?s" using i(2) int_inc_less [of w] v c by (auto simp: oa_bump_def used_at_def)
    moreover note B = oa_inv_bump [OF inv(1) i(2), of "w + 1"]
    have "elems (hs ?s) = Map.graph (m(k \<mapsto> w + 1))" unfolding graph_upd ok(3) [symmetric] using B(2) by simp
    then have "oa_map hf ?s (m(k \<mapsto> w + 1))"
      unfolding oa_map_def using B inv(2) ok no_delete_store [OF ok(2), of "hs_n s" i "Some (k, w + 1)"] by (simp add: oa_ok_def no_delete_def)
    ultimately show ?thesis using i(1) c by (auto simp: oa_count_def)
  next
    assume f: "oa_find hf n s k = Inr None" "k \<notin> fst ` elems (hs s)"
    then have kn: "k \<notin> dom m" unfolding ok(3) fst_graph by blast
    then have c: "counted m k = 1" by (auto simp: counted_def dom_def)
    have f2: "fst (k, 1 :: int) \<notin> fst ` elems (hs s)" using f(2) by simp
    obtain s' where s': "oa_insert hf (Suc (Suc 0)) n (k, 1) s = Inr (True, s')" "oa_ok hf s'" "elems (hs s') = insert (k, 1) (elems (hs s))"
      "hs_n s' = Suc (hs_n s)" "no_delete s \<longrightarrow> no_delete s'" "hs_n s * 10 < 8 * length (hs s')"
      "length (hs s') = length (hs s) \<or> 8 * length (hs s) \<le> 10 * hs_n s \<and> length (hs s') = 2 * length (hs s)"
      by (rule oa_insert_full [OF ok(1) e n2(1) f2])
    have "elems (hs s') = Map.graph (m(k \<mapsto> 1))" unfolding graph_new [OF kn] s'(3) ok(3) by simp
    moreover have "10 \<le> length (hs s')" using s'(7) ok(4) by linarith
    moreover have "length (hs s') \<le> 10 + 3 * hs_n s'" using s'(4,7) ok(5) by linarith
    moreover have "hs_n s' < length (hs s')" using s'(4,6,7) ok(4) by linarith
    ultimately have "oa_map hf s' (m(k \<mapsto> 1))" unfolding oa_map_def using s'(2,5) ok(2) by blast
    with f(1) s'(1) c show ?thesis by (simp add: oa_count_def numeral_2_eq_2)
  qed
qed

interpretation oa_counter: counter "oa_map hf" "\<lambda>s. {}" "\<lambda>c. 21 + 6 * c" "oa_count hf" for hf
  by unfold_locales (auto intro: oa_map_card(2) oa_count_step)

section \<open>\<open>unordered_set\<close>\<close>

lemma us_insert_all_holds:
  assumes "ht_holds hf (\<lambda>k. k) s D" "distinct (map fst ks)" "dom (ht_heap s) \<inter> fst ` set ks = {}" "card D + length ks < n"
  shows "\<exists>s'. us_insert_all hf n ks s = Inr s' \<and> ht_holds hf (\<lambda>k. k) s' (D \<union> snd ` set ks)"
  using assms
proof (induction ks arbitrary: s D)
  case Nil
  then show ?case by simp
next
  case (Cons ak ks)
  obtain a k where ak: "ak = (a, k)" by fastforce
  have S: "SetOFT = (\<lambda>k :: 'a. k)" by (intro ext) (simp add: SetOFT_def)
  have "card D < n" using Cons.prems(4) by simp
  then obtain bs where t: "ht_at hf (\<lambda>k. k) s bs" "snd ` set (concat bs) = D" "length (concat bs) < n" by (rule ht_holdsE [OF Cons.prems(1)])
  have "finite D" using t(2) by auto
  then have card: "card (insert k D) \<le> Suc (card D)" by (simp add: card_insert_if)
  have a: "ht_heap s a = None" using Cons.prems(3) ak by auto
  have "\<exists>p s1. us_insert hf n a k s = Inr (p, False, s1) \<and> ht_holds hf (\<lambda>k. k) s1 (insert k D) \<and> dom (ht_heap s1) \<subseteq> insert a (dom (ht_heap s))"
    using t(1) a t(3)
  proof (cases rule: zht_insert_at [where d = k])
    case (old a' d')
    then have "k \<in> D" using located_SomeD [OF old(1)] t(2) by force
    then show ?thesis using old(2) Cons.prems(1) by (auto simp: us_insert_def S insert_absorb)
  next
    case (new s1 bs1)
    have "snd ` set (concat bs1) = insert k D" unfolding add_mset_set [OF new(4)] using t(2) by (simp only: image_insert snd_conv)
    then show ?thesis using new(2,3) dom_add [OF t(1) new(3,4)] by (auto simp: us_insert_def S ht_holds_def)
  qed
  then obtain p s1 where s1: "us_insert hf n a k s = Inr (p, False, s1)" "ht_holds hf (\<lambda>k. k) s1 (insert k D)"
    "dom (ht_heap s1) \<subseteq> insert a (dom (ht_heap s))" by blast
  have "\<exists>s'. us_insert_all hf n ks s1 = Inr s' \<and> ht_holds hf (\<lambda>k. k) s' (insert k D \<union> snd ` set ks)"
    by (rule Cons.IH [OF s1(2)]) (use Cons.prems(2-4) ak s1(3) card in auto)
  with s1(1) ak show ?case by auto
qed

lemma Test2_prints:
  assumes "10 \<le> n"
  shows "\<exists>ds. Test2 n = Inr ds \<and> distinct ds \<and> set ds = {13, 3, 23, 5, 6, 15, 223342, 22}"
proof -
  let ?ks = "enumerate 0 [13, 3, 23, 5, 5, 6, 15, 223342, 22 :: int]"
  have S: "SetOFT = (\<lambda>k :: int. k)" by (intro ext) (simp add: SetOFT_def)
  have "card ({} :: int set) + length ?ks < n" "dom (ht_heap (zht_new :: int HashTable)) \<inter> fst ` set ?ks = {}" using assms by (simp_all add: zht_new_def)
  then obtain s' where s': "us_insert_all HashFunc_int n ?ks zht_new = Inr s'" "ht_holds HashFunc_int (\<lambda>k. k) s' ({} \<union> snd ` set ?ks)"
    using us_insert_all_holds [OF ht_holds_new(2), of ?ks n HashFunc_int] by auto
  have D: "{} \<union> snd ` set ?ks = {13, 3, 23, 5, 6, 15, 223342, 22}" by (simp add: insert_commute)
  have "card {13, 3, 23, 5, 6, 15, 223342, 22 :: int} < n" using assms by simp
  then show ?thesis using zht_iterates [OF s'(2) [unfolded D], of n] s'(1) by (simp add: Test2_def S us_begin_def)
qed

section \<open>Properties\<close>

definition frequencies :: "'k list \<Rightarrow> ('k \<times> int) set" where
  "frequencies ws = {(w, int (count_list ws w)) | w. w \<in> set ws}"

lemma frequencies_graph:
  "Map.graph (\<lambda>k. if k \<in> snd ` set (enumerate 0 ws) then Some (int (count_list (map snd (enumerate 0 ws)) k)) else None) = frequencies ws"
proof -
  have e: "snd ` set (enumerate 0 ws) = set ws" "map snd (enumerate 0 ws) = ws" by (metis map_snd_enumerate set_map, simp)
  show ?thesis unfolding e by (auto simp: Map.graph_def frequencies_def split: if_splits)
qed

lemma card_frequencies: "card (frequencies ws) \<le> length ws"
proof -
  have "frequencies ws = (\<lambda>w. (w, int (count_list ws w))) ` set ws" by (auto simp: frequencies_def)
  then show ?thesis by (metis card_image_le card_length finite_set le_trans)
qed

text \<open>
  C33. The three counting programs are right for every list of words shorter than \<open>2 ^ 31\<close>: with the
  open-addressing table, with the chained table and with \<open>unordered_map\<close>, each word ends up with the
  number of its occurrences, and what the last program prints lists every word once.
\<close>

theorem programs_count_words:
  assumes "length ws < 2 ^ 31" "21 + 6 * length ws \<le> n"
  shows "(\<exists>s. test n ws = Inr s \<and> elems (hs s) = frequencies ws)
    \<and> (\<exists>s. Test n ws = Inr s \<and> ht_holds HashFunc_string fst s (frequencies ws))
    \<and> (\<exists>ps. Test1 n ws = Inr ps \<and> distinct ps \<and> set ps = frequencies ws)"
proof (intro conjI)
  let ?ws = "enumerate 0 ws"
  have d: "distinct (map fst ?ws)" and l: "length ?ws = length ws" by simp_all
  have n: "Suc (length ?ws) \<le> n" "21 + 6 * length ?ws \<le> n" "length ?ws < 2 ^ 31" using assms by simp_all
  have "oa_map HashFunc_string oa_new Map.empty"
    by (simp add: oa_map_def oa_new_ok) (simp add: oa_new_def no_delete_def no_data_def)
  then show "\<exists>s. test n ws = Inr s \<and> elems (hs s) = frequencies ws"
    using oa_counter.count_all_counts [where hf = HashFunc_string and s = oa_new, OF _ d _ n(2,3)] unfolding test_def oa_map_def frequencies_graph by auto
  have "ht_map HashFunc_string ht_new Map.empty" "dom (ht_heap (ht_new :: (string \<times> int) HashTable)) = {}"
    using ht_holds_new(1) [of HashFunc_string fst] by (simp_all add: ht_map_def ht_new_def)
  then show "\<exists>s. Test n ws = Inr s \<and> ht_holds HashFunc_string fst s (frequencies ws)"
    using ht_counter.count_all_counts [where hf = HashFunc_string and s = ht_new, OF _ d _ n(1,3)] unfolding Test_def ht_map_def frequencies_graph by auto
  have "ht_map HashFunc_string zht_new Map.empty" "dom (ht_heap (zht_new :: (string \<times> int) HashTable)) = {}"
    using ht_holds_new(2) [of HashFunc_string fst] by (simp_all add: ht_map_def zht_new_def)
  then obtain Mp where Mp: "count_all (um_count HashFunc_string n) ?ws zht_new = Inr Mp" "ht_holds HashFunc_string fst Mp (frequencies ws)"
    using um_counter.count_all_counts [where hf = HashFunc_string and s = zht_new, OF _ d _ n(1,3)] unfolding ht_map_def frequencies_graph by auto
  have "card (frequencies ws) < n" using card_frequencies [of ws] n(1) l by linarith
  then show "\<exists>ps. Test1 n ws = Inr ps \<and> distinct ps \<and> set ps = frequencies ws"
    using zht_iterates [OF Mp(2), of n] Mp(1) by (simp add: Test1_def um_begin_def MapOFT_fst)
qed

theorem programs_count_words_witness:
  "\<exists>ps. Test1 33 [''ab'', ''ab''] = Inr ps \<and> distinct ps \<and> set ps = {(''ab'', 2)}"
proof -
  have "frequencies [''ab'', ''ab''] = {(''ab'', 2)}" by (auto simp: frequencies_def)
  then show ?thesis using programs_count_words [of "[''ab'', ''ab'']" 33] by simp
qed

end
