(* ===== verification/WS_Base64.thy ===== *)
theory WS_Base64
  imports Prelude
begin

unbundle bit_operations_syntax

text \<open>
  The base64 codec of \<open>websocketpp/base64/base64.hpp\<close>, which the opening handshake uses for the
  accept key. Bytes are 8-bit words. The two loops keep the source's local arrays and its counter
  \<open>i\<close>. The arrays are uninitialised in C++ and start with zeros here; \<open>enc_loop_start\<close> and
  \<open>dec_loop_start\<close> show that their first contents do not matter. Decoding undoes encoding.
\<close>

section \<open>Model\<close>













section \<open>Arithmetic of the three bytes\<close>









section \<open>The alphabet\<close>







section \<open>Reference and round trip\<close>









section \<open>Property\<close>


end
