(* ===== verification/WS_Bytes.thy ===== *)
theory WS_Bytes
  imports Prelude
begin

unbundle bit_operations_syntax

text \<open>
  Integers as bytes in memory: the conversion unions of \<open>websocketpp/frame.hpp\<close> and the byte order
  functions of \<open>websocketpp/common/network.hpp\<close>. The platform is a little-endian machine with
  eight-byte words, so a word lies in memory with its low byte first; the tests for the byte order
  that the code makes at run time are evaluated on that representation. Network order is shown to be
  the high byte first, and conversions in both directions are inverse to each other.
\<close>

section \<open>Memory representation\<close>

text \<open>The bytes of an integer in memory, and the integer that bytes in memory make: the unions.\<close>

definition mem_bytes :: "nat \<Rightarrow> 'a::len word \<Rightarrow> u8 list" where
  "mem_bytes n w = map (\<lambda>i. ucast (drop_bit (8 * i) w)) [0..<n]"

definition of_mem_bytes :: "u8 list \<Rightarrow> 'a::len word" where
  "of_mem_bytes bs = foldr (\<lambda>b w. ucast b OR push_bit 8 w) bs 0"

section \<open>Byte order functions\<close>

definition is_little_endian :: bool where
  "is_little_endian \<longleftrightarrow> mem_bytes 2 (1 :: u16) ! 0 = 1"

text \<open>
  \<open>_htonll\<close>: the byte order is found by looking at the last byte of the number one; on a
  little-endian machine the bytes are swapped pairwise.
\<close>

definition swap_cells :: "nat \<Rightarrow> nat \<Rightarrow> 'a list \<Rightarrow> 'a list" where
  "swap_cells i j xs = xs[i := xs ! j, j := xs ! i]"

definition htonll :: "u64 \<Rightarrow> u64" where
  "htonll src =
    (if mem_bytes 8 (1 :: u64) ! 7 = 1 then src
     else of_mem_bytes (swap_cells 3 4 (swap_cells 2 5 (swap_cells 1 6 (swap_cells 0 7 (mem_bytes 8 src))))))"

definition ntohll :: "u64 \<Rightarrow> u64" where
  "ntohll src = htonll src"

text \<open>\<open>htons\<close> and \<open>ntohs\<close> of the system headers.\<close>

definition htons :: "u16 \<Rightarrow> u16" where
  "htons src = (if is_little_endian then of_mem_bytes (rev (mem_bytes 2 src)) else src)"

definition ntohs :: "u16 \<Rightarrow> u16" where
  "ntohs src = htons src"

section \<open>Facts\<close>

lemma length_mem_bytes [simp]: "length (mem_bytes n w) = n"
  by (simp add: mem_bytes_def)

lemma nth_mem_bytes: "i < n \<Longrightarrow> mem_bytes n w ! i = ucast (drop_bit (8 * i) w)"
  by (simp add: mem_bytes_def)

lemma bit_mem_bytes: "i < n \<Longrightarrow> bit (mem_bytes n w ! i) j \<longleftrightarrow> j < 8 \<and> bit w (8 * i + j)"
  by (auto simp: nth_mem_bytes bit_unsigned_iff bit_drop_bit_eq dest: bit_imp_le_length)

lemma bit_of_mem_bytes:
  "bit (of_mem_bytes bs :: 'a::len word) k \<longleftrightarrow> k < LENGTH('a) \<and> k div 8 < length bs \<and> bit (bs ! (k div 8)) (k mod 8)"
proof (induction bs arbitrary: k)
  case Nil
  then show ?case by (simp add: of_mem_bytes_def)
next
  case (Cons b bs)
  have "bit b k \<longleftrightarrow> k < 8 \<and> bit b k" using bit_imp_le_length [of b k] by auto
  moreover have "of_mem_bytes (b # bs) = (ucast b OR push_bit 8 (of_mem_bytes bs) :: 'a word)" by (simp add: of_mem_bytes_def)
  ultimately show ?case using Cons [of "k - 8"]
    by (cases "k < 8") (auto simp: bit_or_iff bit_unsigned_iff bit_push_bit_iff div_if [of k 8] mod_if [of k 8])
qed

lemma mem_bytes_of: "8 * length bs \<le> LENGTH('a) \<Longrightarrow> mem_bytes (length bs) (of_mem_bytes bs :: 'a::len word) = bs"
proof (rule nth_equalityI)
  fix i assume *: "8 * length bs \<le> LENGTH('a)" and "i < length (mem_bytes (length bs) (of_mem_bytes bs :: 'a word))"
  then have i: "i < length bs" by simp
  then have r: "8 * i + 8 \<le> LENGTH('a)" using * by simp
  show "mem_bytes (length bs) (of_mem_bytes bs :: 'a word) ! i = bs ! i"
    by (rule bit_word_eqI) (use i r in \<open>auto simp: bit_mem_bytes bit_of_mem_bytes\<close>)
qed simp

lemma of_mem_bytes_inverse: "LENGTH('a) = 8 * n \<Longrightarrow> of_mem_bytes (mem_bytes n w) = (w :: 'a::len word)"
proof (rule bit_word_eqI)
  fix k assume n: "LENGTH('a) = 8 * n" and k: "k < LENGTH('a)"
  then have "k div 8 < n" by simp
  then show "bit (of_mem_bytes (mem_bytes n w) :: 'a word) k \<longleftrightarrow> bit w k" using k by (simp add: bit_of_mem_bytes bit_mem_bytes)
qed

lemma mem_bytes_xor: "mem_bytes n (v XOR w) = map2 (XOR) (mem_bytes n v) (mem_bytes n w)"
  by (rule nth_equalityI) (auto intro!: bit_word_eqI simp: bit_mem_bytes bit_xor_iff)

lemma little_endian: "is_little_endian"
  by (simp add: is_little_endian_def nth_mem_bytes)

lemma swap_all:
  assumes "length xs = 8"
  shows "swap_cells 3 4 (swap_cells 2 5 (swap_cells 1 6 (swap_cells 0 7 xs))) = rev xs"
proof -
  obtain a b c d e f g h where "xs = [a, b, c, d, e, f, g, h]" using assms by (auto simp: eval_nat_numeral length_Suc_conv)
  then show ?thesis by (simp add: swap_cells_def)
qed

text \<open>In network order the bytes in memory are reversed.\<close>

lemma htonll_rev: "htonll w = of_mem_bytes (rev (mem_bytes 8 w))"
  unfolding htonll_def swap_all [OF length_mem_bytes] by (simp add: nth_mem_bytes)

lemma htonll_bytes: "mem_bytes 8 (htonll w) = rev (mem_bytes 8 w)"
  using mem_bytes_of [of "rev (mem_bytes 8 w)", where 'a = 64] by (simp add: htonll_rev)

lemma ntohll_htonll: "ntohll (htonll w) = w"
  unfolding ntohll_def htonll_rev [of "htonll w"] by (simp add: htonll_bytes of_mem_bytes_inverse)

lemma ntohll_of_bytes: "length bs = 8 \<Longrightarrow> ntohll (of_mem_bytes bs) = of_mem_bytes (rev bs)"
  using mem_bytes_of [of bs, where 'a = 64] by (simp add: ntohll_def htonll_rev)

lemma htons_bytes: "mem_bytes 2 (htons w) = rev (mem_bytes 2 w)"
  using mem_bytes_of [of "rev (mem_bytes 2 w)", where 'a = 16] by (simp add: htons_def little_endian)

lemma ntohs_htons: "ntohs (htons w) = w"
  unfolding ntohs_def htons_def [of "htons w"] by (simp add: little_endian htons_bytes of_mem_bytes_inverse)

lemma ntohs_of_bytes: "length bs = 2 \<Longrightarrow> ntohs (of_mem_bytes bs) = of_mem_bytes (rev bs)"
  using mem_bytes_of [of bs, where 'a = 16] by (simp add: ntohs_def htons_def little_endian)

end
