(* ===== verification/WS_Frame.thy ===== *)
theory WS_Frame
  imports WS_Bytes
begin

unbundle bit_operations_syntax

text \<open>
  The framing of \<open>websocketpp/frame.hpp\<close>: opcodes, the basic and the extended header with their
  accessors, and the masking routines. Headers are kept as the bytes the code keeps. The masking
  routines work on one memory of bytes with an input and an output address, so the versions that
  work in place are the same routines with equal addresses. What a header was made of is read back
  from its bytes, masking by words is masking by bytes, and masking twice gives the payload back.
\<close>

section \<open>Opcodes\<close>

text \<open>
  The enumeration \<open>opcode::value\<close> with its sixteen values. A value that needs more than four bits,
  which the code's test for invalid opcodes looks for, is not represented: the code makes opcodes
  from four bits of a header or names them, so that \<open>invalid_op\<close> is never true here.
\<close>

datatype opcode = CONTINUATION | TEXT | BINARY | RSV3 | RSV4 | RSV5 | RSV6 | RSV7
  | CLOSE | PING | PONG | CONTROL_RSVB | CONTROL_RSVC | CONTROL_RSVD | CONTROL_RSVE | CONTROL_RSVF

fun op_value :: "opcode \<Rightarrow> u8" where
  "op_value CONTINUATION = 0x0" | "op_value TEXT = 0x1" | "op_value BINARY = 0x2" | "op_value RSV3 = 0x3"
| "op_value RSV4 = 0x4" | "op_value RSV5 = 0x5" | "op_value RSV6 = 0x6" | "op_value RSV7 = 0x7"
| "op_value CLOSE = 0x8" | "op_value PING = 0x9" | "op_value PONG = 0xA" | "op_value CONTROL_RSVB = 0xB"
| "op_value CONTROL_RSVC = 0xC" | "op_value CONTROL_RSVD = 0xD" | "op_value CONTROL_RSVE = 0xE" | "op_value CONTROL_RSVF = 0xF"

definition op_list :: "opcode list" where
  "op_list = [CONTINUATION, TEXT, BINARY, RSV3, RSV4, RSV5, RSV6, RSV7,
     CLOSE, PING, PONG, CONTROL_RSVB, CONTROL_RSVC, CONTROL_RSVD, CONTROL_RSVE, CONTROL_RSVF]"

definition reserved_op :: "opcode \<Rightarrow> bool" where
  "reserved_op v \<longleftrightarrow> (op_value RSV3 \<le> op_value v \<and> op_value v \<le> op_value RSV7)
     \<or> (op_value CONTROL_RSVB \<le> op_value v \<and> op_value v \<le> op_value CONTROL_RSVF)"

definition invalid_op :: "opcode \<Rightarrow> bool" where
  "invalid_op v \<longleftrightarrow> op_value v > 0xF \<or> op_value v < 0"

definition is_control :: "opcode \<Rightarrow> bool" where
  "is_control v \<longleftrightarrow> op_value v \<ge> 0x8"

section \<open>Limits and masks\<close>

definition payload_size_basic :: u64 where "payload_size_basic = 125"
definition payload_size_extended :: u64 where "payload_size_extended = 0xFFFF"

definition BHB0_OPCODE :: u8 where "BHB0_OPCODE = 0x0F"
definition BHB0_RSV3 :: u8 where "BHB0_RSV3 = 0x10"
definition BHB0_RSV2 :: u8 where "BHB0_RSV2 = 0x20"
definition BHB0_RSV1 :: u8 where "BHB0_RSV1 = 0x40"
definition BHB0_FIN :: u8 where "BHB0_FIN = 0x80"
definition BHB1_PAYLOAD :: u8 where "BHB1_PAYLOAD = 0x7F"
definition BHB1_MASK :: u8 where "BHB1_MASK = 0x80"
definition payload_size_code_16bit :: u8 where "payload_size_code_16bit = 0x7E"
definition payload_size_code_64bit :: u8 where "payload_size_code_64bit = 0x7F"

section \<open>Headers\<close>

record basic_header =
  b0 :: u8
  b1 :: u8

definition basic_header_new :: "opcode \<Rightarrow> u64 \<Rightarrow> bool \<Rightarrow> bool \<Rightarrow> bool \<Rightarrow> bool \<Rightarrow> bool \<Rightarrow> basic_header" where
  "basic_header_new op sz fin masked rsv1 rsv2 rsv3 =
    (let x = 0x00;
         x = (if fin then x OR BHB0_FIN else x);
         x = (if rsv1 then x OR BHB0_RSV1 else x);
         x = (if rsv2 then x OR BHB0_RSV2 else x);
         x = (if rsv3 then x OR BHB0_RSV3 else x);
         x = x OR (op_value op AND BHB0_OPCODE);
         y = 0x00;
         y = (if masked then y OR BHB1_MASK else y);
         basic_value = (if sz \<le> payload_size_basic then ucast sz
                        else if sz \<le> payload_size_extended then payload_size_code_16bit
                        else payload_size_code_64bit)
     in \<lparr>b0 = x, b1 = y OR basic_value\<rparr>)"

text \<open>The extended header is an array of twelve bytes.\<close>

record extended_header =
  ext_bytes :: "u8 list"

definition extended_header_zero :: extended_header where
  "extended_header_zero = \<lparr>ext_bytes = replicate 12 0\<rparr>"

text \<open>Where the payload size starts in its eight bytes; then the size is copied in network order.\<close>

definition payload_offset :: "u64 \<Rightarrow> nat" where
  "payload_offset payload_size =
    (if payload_size \<le> payload_size_basic then 8
     else if payload_size \<le> payload_size_extended then 6 else 0)"

definition copy_payload :: "u64 \<Rightarrow> extended_header \<Rightarrow> nat \<times> extended_header" where
  "copy_payload payload_size e =
    (8 - payload_offset payload_size,
     e\<lparr>ext_bytes := overwrite 0 (drop (payload_offset payload_size) (mem_bytes 8 (htonll payload_size))) (ext_bytes e)\<rparr>)"

definition extended_header_size :: "u64 \<Rightarrow> extended_header" where
  "extended_header_size payload_size = snd (copy_payload payload_size extended_header_zero)"

definition extended_header_key :: "u64 \<Rightarrow> u32 \<Rightarrow> extended_header" where
  "extended_header_key payload_size masking_key =
    (let (offset, e) = copy_payload payload_size extended_header_zero
     in e\<lparr>ext_bytes := overwrite offset (mem_bytes 4 masking_key) (ext_bytes e)\<rparr>)"

section \<open>Accessors\<close>

definition get_fin :: "basic_header \<Rightarrow> bool" where "get_fin h \<longleftrightarrow> b0 h AND BHB0_FIN = BHB0_FIN"
definition get_rsv1 :: "basic_header \<Rightarrow> bool" where "get_rsv1 h \<longleftrightarrow> b0 h AND BHB0_RSV1 = BHB0_RSV1"
definition get_rsv2 :: "basic_header \<Rightarrow> bool" where "get_rsv2 h \<longleftrightarrow> b0 h AND BHB0_RSV2 = BHB0_RSV2"
definition get_rsv3 :: "basic_header \<Rightarrow> bool" where "get_rsv3 h \<longleftrightarrow> b0 h AND BHB0_RSV3 = BHB0_RSV3"
definition get_masked :: "basic_header \<Rightarrow> bool" where "get_masked h \<longleftrightarrow> b1 h AND BHB1_MASK = BHB1_MASK"

definition set_fin :: "bool \<Rightarrow> basic_header \<Rightarrow> basic_header" where
  "set_fin v h = h\<lparr>b0 := if v then b0 h OR BHB0_FIN else b0 h AND NOT BHB0_FIN\<rparr>"

definition set_rsv1 :: "bool \<Rightarrow> basic_header \<Rightarrow> basic_header" where
  "set_rsv1 v h = h\<lparr>b0 := if v then b0 h OR BHB0_RSV1 else b0 h AND NOT BHB0_RSV1\<rparr>"

definition set_rsv2 :: "bool \<Rightarrow> basic_header \<Rightarrow> basic_header" where
  "set_rsv2 v h = h\<lparr>b0 := if v then b0 h OR BHB0_RSV2 else b0 h AND NOT BHB0_RSV2\<rparr>"

definition set_rsv3 :: "bool \<Rightarrow> basic_header \<Rightarrow> basic_header" where
  "set_rsv3 v h = h\<lparr>b0 := if v then b0 h OR BHB0_RSV3 else b0 h AND NOT BHB0_RSV3\<rparr>"

definition set_masked :: "bool \<Rightarrow> basic_header \<Rightarrow> basic_header" where
  "set_masked v h = h\<lparr>b1 := if v then b1 h OR BHB1_MASK else b1 h AND NOT BHB1_MASK\<rparr>"

definition get_opcode :: "basic_header \<Rightarrow> opcode" where
  "get_opcode h = op_list ! unat (b0 h AND BHB0_OPCODE)"

definition get_basic_size :: "basic_header \<Rightarrow> u8" where
  "get_basic_size h = b1 h AND BHB1_PAYLOAD"

definition get_masking_key_offset :: "basic_header \<Rightarrow> nat" where
  "get_masking_key_offset h =
    (if get_basic_size h = payload_size_code_16bit then 2
     else if get_basic_size h = payload_size_code_64bit then 8 else 0)"

definition get_header_len :: "basic_header \<Rightarrow> nat" where
  "get_header_len h = 2 + get_masking_key_offset h + (if get_masked h then 4 else 0)"

definition prepare_header :: "basic_header \<Rightarrow> extended_header \<Rightarrow> u8 list" where
  "prepare_header h e = [b0 h, b1 h] @ take (get_header_len h - 2) (ext_bytes e)"

definition get_masking_key :: "basic_header \<Rightarrow> extended_header \<Rightarrow> u32" where
  "get_masking_key h e =
    (if \<not> get_masked h then 0 else of_mem_bytes (take 4 (drop (get_masking_key_offset h) (ext_bytes e))))"

definition get_extended_size :: "extended_header \<Rightarrow> u16" where
  "get_extended_size e = ntohs (of_mem_bytes (take 2 (ext_bytes e)))"

definition get_jumbo_size :: "extended_header \<Rightarrow> u64" where
  "get_jumbo_size e = ntohll (of_mem_bytes (take 8 (ext_bytes e)))"

definition get_payload_size :: "basic_header \<Rightarrow> extended_header \<Rightarrow> u64" where
  "get_payload_size h e =
    (let val = get_basic_size h in
     if ucast val \<le> payload_size_basic then ucast val
     else if val = payload_size_code_16bit then ucast (get_extended_size e)
     else get_jumbo_size e)"

section \<open>Masking\<close>

definition prepare_masking_key :: "u32 \<Rightarrow> u64" where
  "prepare_masking_key key =
    (let low_bits = ucast key :: u64; high_bits = ucast key :: u64 in push_bit 32 high_bits OR low_bits)"

definition circshift_prepared_key :: "u64 \<Rightarrow> nat \<Rightarrow> u64" where
  "circshift_prepared_key prepared_key offset =
    (if offset = 0 then prepared_key
     else if is_little_endian then drop_bit (offset * 8) prepared_key OR push_bit ((8 - offset) * 8) prepared_key
     else push_bit (offset * 8) prepared_key OR drop_bit ((8 - offset) * 8) prepared_key)"

text \<open>
  The iterator version: the output at each place depends on the input at that place only, so the
  result is the list of bytes written, also when the iterators walk over one string.
\<close>

fun byte_mask_loop :: "u8 list \<Rightarrow> u8 list \<Rightarrow> nat \<Rightarrow> u8 list" where
  "byte_mask_loop key [] key_index = []"
| "byte_mask_loop key (x # xs) key_index = (x XOR key ! key_index) # byte_mask_loop key xs (Suc key_index mod 4)"

definition byte_mask :: "u8 list \<Rightarrow> u32 \<Rightarrow> nat \<Rightarrow> u8 list" where
  "byte_mask xs key key_offset = byte_mask_loop (mem_bytes 4 key) xs (key_offset mod 4)"

text \<open>Loads and stores on a memory of bytes.\<close>

definition load_bytes :: "nat \<Rightarrow> nat \<Rightarrow> u8 list \<Rightarrow> u8 list res" where
  "load_bytes n a m = (if a + n \<le> length m then Inr (take n (drop a m)) else Inl Out_Of_Bounds)"

definition store_bytes :: "nat \<Rightarrow> u8 list \<Rightarrow> u8 list \<Rightarrow> u8 list res" where
  "store_bytes a bs m = (if a + length bs \<le> length m then Inr (overwrite a bs m) else Inl Out_Of_Bounds)"

text \<open>The loops over words and over bytes: \<open>n\<close> more rounds from index \<open>i\<close> on.\<close>

primrec mask_words :: "nat \<Rightarrow> nat \<Rightarrow> u64 \<Rightarrow> nat \<Rightarrow> nat \<Rightarrow> u8 list \<Rightarrow> u8 list res" where
  "mask_words inp outp k 0 i m = Inr m"
| "mask_words inp outp k (Suc n) i m =
    bind_res (load_bytes 8 (inp + 8 * i) m) (\<lambda>bs.
    bind_res (store_bytes (outp + 8 * i) (mem_bytes 8 (of_mem_bytes bs XOR k)) m)
      (mask_words inp outp k n (Suc i)))"

primrec mask_bytes :: "nat \<Rightarrow> nat \<Rightarrow> (nat \<Rightarrow> u8) \<Rightarrow> nat \<Rightarrow> nat \<Rightarrow> u8 list \<Rightarrow> u8 list res" where
  "mask_bytes inp outp key 0 i m = Inr m"
| "mask_bytes inp outp key (Suc n) i m =
    bind_res (load_bytes 1 (inp + i) m) (\<lambda>bs.
    bind_res (store_bytes (outp + i) [hd bs XOR key i] m)
      (mask_bytes inp outp key n (Suc i)))"

definition word_mask_exact :: "nat \<Rightarrow> nat \<Rightarrow> nat \<Rightarrow> u32 \<Rightarrow> u8 list \<Rightarrow> u8 list res" where
  "word_mask_exact inp outp len key m =
    (let prepared_key = prepare_masking_key key; n = len div 8 in
     bind_res (mask_words inp outp prepared_key n 0 m)
       (mask_bytes inp outp (\<lambda>i. mem_bytes 4 key ! (i mod 4)) (len - n * 8) (n * 8)))"

definition word_mask_circ :: "nat \<Rightarrow> nat \<Rightarrow> nat \<Rightarrow> u64 \<Rightarrow> u8 list \<Rightarrow> (u64 \<times> u8 list) res" where
  "word_mask_circ inp outp len prepared_key m =
    (let n = len div 8; l = len - n * 8; start = len - l in
     bind_res (mask_words inp outp prepared_key n 0 m) (\<lambda>m.
     bind_res (mask_bytes (inp + start) (outp + start) (\<lambda>i. mem_bytes 8 prepared_key ! i) l 0 m) (\<lambda>m.
     Inr (circshift_prepared_key prepared_key l, m))))"

definition byte_mask_circ :: "nat \<Rightarrow> nat \<Rightarrow> nat \<Rightarrow> u64 \<Rightarrow> u8 list \<Rightarrow> (u64 \<times> u8 list) res" where
  "byte_mask_circ inp outp len prepared_key m =
    (let key = mem_bytes 4 (ucast prepared_key :: u32) in
     bind_res (mask_bytes inp outp (\<lambda>i. key ! (i mod 4)) len 0 m) (\<lambda>m.
     Inr (circshift_prepared_key prepared_key (len mod 4), m)))"

section \<open>Header round trip\<close>

lemma and_bit_eq: "(w AND 2 ^ n = 2 ^ n) \<longleftrightarrow> bit w n" if "n < LENGTH('a)" for w :: "'a::len word"
proof
  show "bit w n" if "w AND 2 ^ n = 2 ^ n" using that \<open>n < LENGTH('a)\<close> by (metis bit_and_iff bit_exp_iff possible_bit_word)
  show "w AND 2 ^ n = 2 ^ n" if "bit w n" using that by (intro bit_word_eqI) (auto simp: bit_and_iff bit_exp_iff)
qed

lemma flag_bits:
  "get_fin h \<longleftrightarrow> bit (b0 h) 7" "get_rsv1 h \<longleftrightarrow> bit (b0 h) 6" "get_rsv2 h \<longleftrightarrow> bit (b0 h) 5" "get_rsv3 h \<longleftrightarrow> bit (b0 h) 4"
  "get_masked h \<longleftrightarrow> bit (b1 h) 7"
  using and_bit_eq [of 7 "b0 h"] and_bit_eq [of 6 "b0 h"] and_bit_eq [of 5 "b0 h"] and_bit_eq [of 4 "b0 h"] and_bit_eq [of 7 "b1 h"]
  by (simp_all add: get_fin_def get_rsv1_def get_rsv2_def get_rsv3_def get_masked_def BHB0_FIN_def BHB0_RSV1_def BHB0_RSV2_def BHB0_RSV3_def BHB1_MASK_def)

lemma op_list_value: "op_list ! unat (op_value op) = op"
  by (cases op) (simp_all add: op_list_def)

lemma op_value_small: "op_value op AND 0x0F = op_value op"
  by (cases op) simp_all

lemma opcode_ext: "get_opcode h = op_list ! unat (b0 h AND 0x0F)"
  by (simp add: get_opcode_def BHB0_OPCODE_def)

lemma new_b0: "b0 (basic_header_new op sz fin masked r1 r2 r3)
  = (if fin then 0x80 else 0) OR (if r1 then 0x40 else 0) OR (if r2 then 0x20 else 0) OR (if r3 then 0x10 else 0) OR op_value op"
  by (cases fin; cases r1; cases r2; cases r3) (simp_all add: or.assoc [symmetric] basic_header_new_def BHB0_FIN_def BHB0_RSV1_def BHB0_RSV2_def BHB0_RSV3_def BHB0_OPCODE_def op_value_small)

lemma new_flags:
  "get_fin (basic_header_new op sz fin masked r1 r2 r3) = fin"
  "get_rsv1 (basic_header_new op sz fin masked r1 r2 r3) = r1"
  "get_rsv2 (basic_header_new op sz fin masked r1 r2 r3) = r2"
  "get_rsv3 (basic_header_new op sz fin masked r1 r2 r3) = r3"
  unfolding flag_bits new_b0 by (cases op; simp add: bit_or_iff)+

lemma new_opcode: "get_opcode (basic_header_new op sz fin masked r1 r2 r3) = op"
proof -
  have "(a OR w) AND (0x0F :: u8) = w AND 0x0F" if "a AND 0x0F = 0" for a w using that by (simp add: bit.conj_disj_distrib2)
  then have "b0 (basic_header_new op sz fin masked r1 r2 r3) AND 0x0F = op_value op" unfolding new_b0 by (simp add: op_value_small)
  then show ?thesis by (simp add: opcode_ext op_list_value)
qed

text \<open>The size field.\<close>

definition size_code :: "u64 \<Rightarrow> u8" where
  "size_code sz = (if sz \<le> 125 then ucast sz else if sz \<le> 0xFFFF then 126 else 127)"

lemma unat_size_code: "unat (size_code sz) = (if unat sz \<le> 125 then unat sz else if unat sz \<le> 65535 then 126 else 127)"
  by (simp add: size_code_def word_le_nat_alt unsigned_ucast_eq take_bit_nat_eq_self)

lemma size_code_and: "size_code sz AND 0x7F = size_code sz" "\<not> bit (size_code sz) 7"
proof -
  have "unat (size_code sz) < 128" by (simp add: unat_size_code)
  then have "take_bit 7 (size_code sz) = size_code sz" by (simp add: word_unat_eq_iff unsigned_take_bit_eq take_bit_nat_eq_self)
  moreover have "(0x7F :: u8) = mask 7" by (simp add: mask_eq_exp_minus_1)
  ultimately show "size_code sz AND 0x7F = size_code sz" by (simp add: take_bit_eq_mask)
  show "\<not> bit (size_code sz) 7" using \<open>take_bit 7 _ = _\<close> by (metis bit_take_bit_iff less_irrefl)
qed

lemma new_b1: "b1 (basic_header_new op sz fin masked r1 r2 r3) = (if masked then 0x80 else 0) OR size_code sz"
  unfolding basic_header_new_def Let_def basic_header.simps
  by (simp add: BHB1_MASK_def payload_size_basic_def payload_size_extended_def payload_size_code_16bit_def
      payload_size_code_64bit_def size_code_def)

lemma new_masked: "get_masked (basic_header_new op sz fin masked r1 r2 r3) = masked"
  unfolding flag_bits new_b1 by (simp add: bit_or_iff size_code_and)

lemma new_size: "get_basic_size (basic_header_new op sz fin masked r1 r2 r3) = size_code sz"
  unfolding get_basic_size_def new_b1 BHB1_PAYLOAD_def by (simp add: bit.conj_disj_distrib2 size_code_and)

lemma take_mem_bytes: "k \<le> n \<Longrightarrow> take k (mem_bytes n w) = mem_bytes k w"
  by (simp add: mem_bytes_def take_map)

lemma of_take_mem_bytes: "LENGTH('b) = 8 * n \<Longrightarrow> of_mem_bytes (mem_bytes n w) = (ucast (w :: 'a::len word) :: 'b::len word)"
  by (rule bit_word_eqI) (auto simp: bit_of_mem_bytes bit_mem_bytes bit_unsigned_iff dest: bit_imp_le_length)

definition size_bytes :: "u64 \<Rightarrow> u8 list" where
  "size_bytes sz = drop (payload_offset sz) (rev (mem_bytes 8 sz))"

lemma length_size_bytes: "length (size_bytes sz) = 8 - payload_offset sz"
  by (simp add: size_bytes_def)

lemma ext_bytes_new:
  "ext_bytes (extended_header_size sz) = size_bytes sz @ replicate (4 + payload_offset sz) 0"
  "ext_bytes (extended_header_key sz k) = size_bytes sz @ mem_bytes 4 k @ replicate (payload_offset sz) 0"
proof -
  have "payload_offset sz \<le> 8" by (simp add: payload_offset_def)
  then show "ext_bytes (extended_header_size sz) = size_bytes sz @ replicate (4 + payload_offset sz) 0"
    "ext_bytes (extended_header_key sz k) = size_bytes sz @ mem_bytes 4 k @ replicate (payload_offset sz) 0"
    by (simp_all add: extended_header_size_def extended_header_key_def copy_payload_def extended_header_zero_def htonll_bytes
        overwrite_def size_bytes_def)
qed

lemma new_key_offset: "get_masking_key_offset (basic_header_new op sz fin masked r1 r2 r3) = 8 - payload_offset sz"
proof -
  have "size_code sz = 126 \<longleftrightarrow> unat (size_code sz) = 126" "size_code sz = 127 \<longleftrightarrow> unat (size_code sz) = 127"
    by (simp_all add: word_unat_eq_iff)
  then show ?thesis unfolding unat_size_code
    by (auto simp: get_masking_key_offset_def new_size payload_offset_def payload_size_code_16bit_def payload_size_code_64bit_def
        payload_size_basic_def payload_size_extended_def word_le_nat_alt)
qed

lemma new_header_len: "get_header_len (basic_header_new op sz fin masked r1 r2 r3) = 10 - payload_offset sz + (if masked then 4 else 0)"
proof -
  have "payload_offset sz \<le> 8" by (simp add: payload_offset_def)
  then show ?thesis by (simp add: get_header_len_def new_key_offset new_masked)
qed

lemma get_size_of_bytes:
  assumes "ext_bytes e = size_bytes sz @ ys"
  shows "get_payload_size (basic_header_new op sz fin masked r1 r2 r3) e = sz"
proof -
  have c: "size_code sz = 126 \<longleftrightarrow> unat (size_code sz) = 126" "(ucast (size_code sz) :: u64) \<le> 125 \<longleftrightarrow> unat (size_code sz) \<le> 125"
    by (simp_all add: word_unat_eq_iff word_le_nat_alt unsigned_ucast_eq take_bit_nat_eq_self unsigned_less [THEN less_le_trans])
  consider "unat sz \<le> 125" | "125 < unat sz" "unat sz \<le> 65535" | "65535 < unat sz" by linarith
  then show ?thesis
  proof cases
    case 1
    then show ?thesis
      by (simp add: get_payload_size_def new_size payload_size_basic_def c unat_size_code)
         (simp add: word_unat_eq_iff unsigned_ucast_eq unat_size_code take_bit_nat_eq_self)
  next
    case 2
    then have "payload_offset sz = 6" by (simp add: payload_offset_def payload_size_basic_def payload_size_extended_def word_le_nat_alt)
    then have "take 2 (ext_bytes e) = rev (mem_bytes 2 sz)" using assms by (simp add: size_bytes_def drop_rev take_mem_bytes)
    then have "get_extended_size e = ucast sz" by (simp add: get_extended_size_def ntohs_of_bytes of_take_mem_bytes)
    moreover have "(ucast (ucast sz :: u16) :: u64) = sz" using 2 by (simp add: word_unat_eq_iff unsigned_ucast_eq unsigned_take_bit_eq take_bit_nat_eq_self)
    ultimately show ?thesis using 2
      by (simp add: get_payload_size_def new_size payload_size_basic_def c unat_size_code payload_size_code_16bit_def)
  next
    case 3
    then have "payload_offset sz = 0" by (simp add: payload_offset_def payload_size_basic_def payload_size_extended_def word_le_nat_alt)
    then have "take 8 (ext_bytes e) = rev (mem_bytes 8 sz)" using assms by (simp add: size_bytes_def)
    then have "get_jumbo_size e = sz" by (simp add: get_jumbo_size_def ntohll_of_bytes of_mem_bytes_inverse)
    then show ?thesis using 3
      by (simp add: get_payload_size_def new_size payload_size_basic_def c unat_size_code payload_size_code_16bit_def)
  qed
qed

text \<open>Both kinds of extended header, by whether the frame is masked.\<close>

definition extended_for :: "bool \<Rightarrow> u64 \<Rightarrow> u32 \<Rightarrow> extended_header" where
  "extended_for masked sz k = (if masked then extended_header_key sz k else extended_header_size sz)"

lemma ext_for_size: "get_payload_size (basic_header_new op sz fin masked r1 r2 r3) (extended_for masked sz k) = sz"
  by (cases masked) (simp_all add: extended_for_def get_size_of_bytes [OF ext_bytes_new(1)] get_size_of_bytes [OF ext_bytes_new(2)])

lemma ext_for_key: "get_masking_key (basic_header_new op sz fin masked r1 r2 r3) (extended_for masked sz k) = (if masked then k else 0)"
  by (simp add: get_masking_key_def new_masked new_key_offset extended_for_def ext_bytes_new length_size_bytes of_mem_bytes_inverse)

lemma ext_for_reread:
  "overwrite 0 (take (get_header_len (basic_header_new op sz fin masked r1 r2 r3) - 2) (ext_bytes (extended_for masked sz k))) (replicate 12 0)
    = ext_bytes (extended_for masked sz k)"
proof -
  have "payload_offset sz \<le> 8" by (simp add: payload_offset_def)
  then show ?thesis by (auto simp: overwrite_def new_header_len extended_for_def ext_bytes_new length_size_bytes)
qed

section \<open>Masking facts\<close>

lemma length_byte_mask [simp]: "length (byte_mask xs key o') = length xs"
proof -
  have "length (byte_mask_loop k xs i) = length xs" for k i by (induction xs arbitrary: i) simp_all
  then show ?thesis by (simp add: byte_mask_def)
qed

lemma nth_byte_mask_loop: "j < length xs \<Longrightarrow> i < 4 \<Longrightarrow> byte_mask_loop k xs i ! j = xs ! j XOR k ! ((i + j) mod 4)"
proof (induction xs arbitrary: i j)
  case (Cons x xs)
  then show ?case by (cases j) (simp_all add: mod_add_left_eq)
qed simp

lemma nth_byte_mask: "j < length xs \<Longrightarrow> byte_mask xs key p ! j = xs ! j XOR mem_bytes 4 key ! ((p + j) mod 4)"
  by (simp add: byte_mask_def nth_byte_mask_loop mod_add_left_eq)

lemma byte_mask_twice: "byte_mask (byte_mask xs key p) key p = xs"
  by (rule nth_equalityI) (simp_all add: nth_byte_mask xor.assoc)

lemma byte_mask_append: "byte_mask (xs @ ys) key p = byte_mask xs key p @ byte_mask ys key (p + length xs)"
  by (rule nth_equalityI) (auto simp: nth_byte_mask nth_append add.assoc)

lemma byte_mask_0: "byte_mask xs 0 p = xs"
  by (rule nth_equalityI) (simp_all add: nth_byte_mask nth_mem_bytes)

text \<open>The loops write the masked region and nothing else.\<close>

definition apart :: "nat \<Rightarrow> nat \<Rightarrow> nat \<Rightarrow> bool" where
  "apart inp outp n \<longleftrightarrow> inp = outp \<or> inp + n \<le> outp \<or> outp + n \<le> inp"

definition xor_region :: "nat \<Rightarrow> nat \<Rightarrow> nat \<Rightarrow> nat \<Rightarrow> (nat \<Rightarrow> u8) \<Rightarrow> u8 list \<Rightarrow> u8 list" where
  "xor_region inp outp lo hi key m = map (\<lambda>a. if outp + lo \<le> a \<and> a < outp + hi then m ! (inp + (a - outp)) XOR key (a - outp) else m ! a) [0..<length m]"

lemma length_xor_region [simp]: "length (xor_region inp outp lo hi key m) = length m"
  by (simp add: xor_region_def)

lemma nth_xor_region:
  "a < length m \<Longrightarrow> xor_region inp outp lo hi key m ! a = (if outp + lo \<le> a \<and> a < outp + hi then m ! (inp + (a - outp)) XOR key (a - outp) else m ! a)"
  by (simp add: xor_region_def)

lemma xor_region_empty: "xor_region inp outp lo lo key m = m"
  by (rule nth_equalityI) (auto simp: nth_xor_region)

lemma nth_overwrite: "pos + length xs \<le> length ys \<Longrightarrow> a < length ys \<Longrightarrow>
  overwrite pos xs ys ! a = (if pos \<le> a \<and> a < pos + length xs then xs ! (a - pos) else ys ! a)"
  by (auto simp: overwrite_def nth_append min_def)

lemma xor_region_compose:
  assumes "apart inp outp hi" "lo \<le> mid" "mid \<le> hi" "inp + hi \<le> length m" "outp + hi \<le> length m"
  shows "xor_region inp outp mid hi key (xor_region inp outp lo mid key m) = xor_region inp outp lo hi key m"
proof (rule nth_equalityI)
  fix a assume "a < length (xor_region inp outp mid hi key (xor_region inp outp lo mid key m))"
  then have a: "a < length m" by simp
  show "xor_region inp outp mid hi key (xor_region inp outp lo mid key m) ! a = xor_region inp outp lo hi key m ! a"
  proof (cases "outp + mid \<le> a \<and> a < outp + hi")
    case True
    then have "inp + (a - outp) < length m" "\<not> (outp + lo \<le> inp + (a - outp) \<and> inp + (a - outp) < outp + mid)"
      using assms by (auto simp: apart_def)
    then show ?thesis using True a assms(2) by (auto simp: nth_xor_region)
  next
    case False
    then show ?thesis using a assms(3) by (auto simp: nth_xor_region)
  qed
qed simp

lemma mask_bytes_region:
  assumes "apart inp outp (i + n)" "inp + i + n \<le> length m" "outp + i + n \<le> length m"
  shows "mask_bytes inp outp key n i m = Inr (xor_region inp outp i (i + n) key m)"
  using assms
proof (induction n arbitrary: i m)
  case 0
  then show ?case by (simp add: xor_region_empty)
next
  case (Suc n)
  have "take 1 (drop (inp + i) m) = [m ! (inp + i)]" using Suc.prems by (simp add: take_Suc_conv_app_nth Cons_nth_drop_Suc [symmetric])
  moreover have "overwrite (outp + i) [m ! (inp + i) XOR key i] m = xor_region inp outp i (Suc i) key m"
  proof (rule nth_equalityI)
    fix a assume "a < length (overwrite (outp + i) [m ! (inp + i) XOR key i] m)"
    then show "overwrite (outp + i) [m ! (inp + i) XOR key i] m ! a = xor_region inp outp i (Suc i) key m ! a"
      using Suc.prems by (cases "a = outp + i") (auto simp: nth_overwrite nth_xor_region)
  qed (use Suc.prems in simp)
  moreover have "mask_bytes inp outp key n (Suc i) (xor_region inp outp i (Suc i) key m)
      = Inr (xor_region inp outp (Suc i) (Suc i + n) key (xor_region inp outp i (Suc i) key m))"
    by (rule Suc.IH) (use Suc.prems in simp_all)
  moreover have "xor_region inp outp (Suc i) (i + Suc n) key (xor_region inp outp i (Suc i) key m) = xor_region inp outp i (i + Suc n) key m"
    by (rule xor_region_compose) (use Suc.prems in simp_all)
  ultimately show ?case using Suc.prems by (simp add: load_bytes_def store_bytes_def)
qed

lemma mask_words_region:
  assumes "apart inp outp (8 * (i + n))" "inp + 8 * (i + n) \<le> length m" "outp + 8 * (i + n) \<le> length m"
  shows "mask_words inp outp k n i m = Inr (xor_region inp outp (8 * i) (8 * (i + n)) (\<lambda>j. mem_bytes 8 k ! (j mod 8)) m)"
  using assms
proof (induction n arbitrary: i m)
  case 0
  then show ?case by (simp add: xor_region_empty)
next
  case (Suc n)
  let ?key = "\<lambda>j. mem_bytes 8 k ! (j mod 8)" and ?bs = "take 8 (drop (inp + 8 * i) m)"
  have l: "length ?bs = 8" using Suc.prems by simp
  have "mem_bytes 8 (of_mem_bytes ?bs :: u64) = ?bs" using mem_bytes_of [of ?bs, where 'a = 64] l by simp
  then have w: "mem_bytes 8 (of_mem_bytes ?bs XOR k) = map2 (XOR) ?bs (mem_bytes 8 k)" by (simp add: mem_bytes_xor)
  have "overwrite (outp + 8 * i) (map2 (XOR) ?bs (mem_bytes 8 k)) m = xor_region inp outp (8 * i) (8 * Suc i) ?key m" (is "?l = ?r")
  proof (rule nth_equalityI)
    fix a assume "a < length ?l"
    then have a: "a < length m" using Suc.prems l by simp
    show "?l ! a = ?r ! a"
    proof (cases "outp + 8 * i \<le> a \<and> a < outp + 8 * i + 8")
      case True
      define j where "j = a - (outp + 8 * i)"
      then have j: "j < 8" "a = outp + 8 * i + j" using True by auto
      then show ?thesis using True a Suc.prems l by (simp add: nth_overwrite nth_xor_region add.assoc)
    next
      case False
      then show ?thesis using a Suc.prems l by (auto simp: nth_overwrite nth_xor_region)
    qed
  qed (use Suc.prems l in simp)
  moreover have "mask_words inp outp k n (Suc i) (xor_region inp outp (8 * i) (8 * Suc i) ?key m)
      = Inr (xor_region inp outp (8 * Suc i) (8 * (Suc i + n)) ?key (xor_region inp outp (8 * i) (8 * Suc i) ?key m))"
    by (rule Suc.IH) (use Suc.prems in simp_all)
  moreover have "xor_region inp outp (8 * Suc i) (8 * (i + Suc n)) ?key (xor_region inp outp (8 * i) (8 * Suc i) ?key m)
      = xor_region inp outp (8 * i) (8 * (i + Suc n)) ?key m"
    by (rule xor_region_compose) (use Suc.prems in simp_all)
  ultimately show ?case using Suc.prems l w by (simp add: load_bytes_def store_bytes_def)
qed

lemma xor_region_cong:
  "(\<And>j. lo \<le> j \<Longrightarrow> j < hi \<Longrightarrow> key j = key' j) \<Longrightarrow> xor_region inp outp lo hi key m = xor_region inp outp lo hi key' m"
  by (rule nth_equalityI) (auto simp: nth_xor_region)

lemma xor_region_byte_mask:
  assumes "inp + n \<le> length m" "outp + n \<le> length m"
  shows "xor_region inp outp 0 n (\<lambda>j. mem_bytes 4 key ! ((p + j) mod 4)) m = overwrite outp (byte_mask (take n (drop inp m)) key p) m"
  by (rule nth_equalityI) (use assms in \<open>auto simp: nth_xor_region nth_overwrite nth_byte_mask\<close>)

text \<open>A prepared key holds a masking key from phase \<open>p\<close> on.\<close>

definition key_phase :: "u64 \<Rightarrow> u32 \<Rightarrow> nat \<Rightarrow> bool" where
  "key_phase w key p \<longleftrightarrow> (\<forall>i < 8. mem_bytes 8 w ! i = mem_bytes 4 key ! ((p + i) mod 4))"

lemma key_phase_unique:
  assumes "key_phase v key p" "key_phase w key p"
  shows "v = w"
proof -
  have "mem_bytes 8 v = mem_bytes 8 w" by (rule nth_equalityI) (use assms in \<open>simp_all add: key_phase_def\<close>)
  then have "(of_mem_bytes (mem_bytes 8 v) :: u64) = of_mem_bytes (mem_bytes 8 w)" by simp
  then show ?thesis by (simp add: of_mem_bytes_inverse)
qed

lemma key_phase_mod: "key_phase w key p \<Longrightarrow> p mod 4 = q mod 4 \<Longrightarrow> key_phase w key q"
  unfolding key_phase_def by (metis mod_add_left_eq)

lemma prepare_masking_key_phase: "key_phase (prepare_masking_key key) key 0"
  unfolding key_phase_def
proof (intro allI impI)
  fix i :: nat assume i: "i < 8"
  have "i mod 4 = (if i < 4 then i else i - 4)" using i by (simp add: mod_if)
  moreover have "mem_bytes 8 (prepare_masking_key key) ! i = mem_bytes 4 key ! (if i < 4 then i else i - 4)"
  proof (rule bit_word_eqI)
    fix j assume "j < LENGTH(8)"
    then have j: "j < 8" by simp
    have b: "bit (prepare_masking_key key) t \<longleftrightarrow> t < 64 \<and> (32 \<le> t \<and> bit key (t - 32) \<or> bit key t)" for t
      by (auto simp: prepare_masking_key_def bit_or_iff bit_push_bit_iff bit_unsigned_iff)
    show "bit (mem_bytes 8 (prepare_masking_key key) ! i) j = bit (mem_bytes 4 key ! (if i < 4 then i else i - 4)) j"
    proof (cases "i < 4")
      case True
      then show ?thesis using j i by (simp add: bit_mem_bytes b)
    next
      case False
      then have "\<not> bit key (8 * i + j)" using bit_imp_le_length [of key "8 * i + j"] by auto
      moreover have "8 * i + j - 32 = 8 * (i - 4) + j" "8 * i + j < 64" "32 \<le> 8 * i + j" using False j i by simp_all
      ultimately show ?thesis using False j i by (simp add: bit_mem_bytes b)
    qed
  qed
  ultimately show "mem_bytes 8 (prepare_masking_key key) ! i = mem_bytes 4 key ! ((0 + i) mod 4)" by simp
qed

lemma circshift_bytes:
  assumes "o' < 8" "i < 8"
  shows "mem_bytes 8 (circshift_prepared_key w o') ! i = mem_bytes 8 w ! ((o' + i) mod 8)"
proof (rule bit_word_eqI)
  fix j assume j: "j < LENGTH(8)"
  have b: "bit (circshift_prepared_key w o') t \<longleftrightarrow> t < 64 \<and> (bit w (8 * o' + t) \<or> 0 < o' \<and> (8 - o') * 8 \<le> t \<and> bit w (t - (8 - o') * 8))" for t
    by (auto simp: circshift_prepared_key_def little_endian bit_or_iff bit_push_bit_iff bit_drop_bit_eq mult.commute [of 8] dest: bit_imp_le_length)
  have j: "j < 8" using j by simp
  show "bit (mem_bytes 8 (circshift_prepared_key w o') ! i) j = bit (mem_bytes 8 w ! ((o' + i) mod 8)) j"
  proof (cases "o' + i < 8")
    case True
    then have "\<not> (8 - o') * 8 \<le> 8 * i + j" using j by simp
    then show ?thesis using True j assms by (simp add: bit_mem_bytes b add.assoc)
  next
    case False
    then have "\<not> bit w (8 * o' + (8 * i + j))" using bit_imp_le_length [of w "8 * o' + (8 * i + j)"] by auto
    moreover have "(o' + i) mod 8 = o' + i - 8" using False assms by (simp add: mod_if)
    moreover have "8 * i + j - (8 - o') * 8 = 8 * (o' + i - 8) + j" "(8 - o') * 8 \<le> 8 * i + j" "0 < o'" using False assms by simp_all
    ultimately show ?thesis using j assms by (simp add: bit_mem_bytes b)
  qed
qed

lemma circshift_phase:
  assumes "key_phase w key p" "o' < 8"
  shows "key_phase (circshift_prepared_key w o') key (p + o')"
  unfolding key_phase_def
proof (intro allI impI)
  fix i :: nat assume i: "i < 8"
  have "mem_bytes 8 w ! ((o' + i) mod 8) = mem_bytes 4 key ! ((p + (o' + i) mod 8) mod 4)" using assms(1) by (simp add: key_phase_def)
  moreover have "(p + (o' + i) mod 8) mod 4 = (p + o' + i) mod 4"
    using mod_add_right_eq [of p "(o' + i) mod 8" 4] mod_add_right_eq [of p "o' + i" 4] mod_mod_cancel [of 4 8 "o' + i"]
    by (simp add: add.assoc)
  ultimately show "mem_bytes 8 (circshift_prepared_key w o') ! i = mem_bytes 4 key ! ((p + o' + i) mod 4)"
    using circshift_bytes [OF assms(2) i] by simp
qed

lemma mask_bytes_keyed:
  assumes "apart inp outp n" "inp + n \<le> length m" "outp + n \<le> length m" "\<And>j. j < n \<Longrightarrow> kf j = mem_bytes 4 key ! ((p + j) mod 4)"
  shows "mask_bytes inp outp kf n 0 m = Inr (overwrite outp (byte_mask (take n (drop inp m)) key p) m)"
proof -
  have "mask_bytes inp outp kf n 0 m = Inr (xor_region inp outp 0 n kf m)" using mask_bytes_region [of inp outp 0 n m kf] assms by simp
  also have "xor_region inp outp 0 n kf m = xor_region inp outp 0 n (\<lambda>j. mem_bytes 4 key ! ((p + j) mod 4)) m"
    by (rule xor_region_cong) (use assms(4) in simp)
  finally show ?thesis using xor_region_byte_mask [OF assms(2,3)] by simp
qed

lemma byte_mask_circ_masks:
  assumes "apart inp outp n" "inp + n \<le> length m" "outp + n \<le> length m" "key_phase w key p"
  shows "byte_mask_circ inp outp n w m = Inr (circshift_prepared_key w (n mod 4), overwrite outp (byte_mask (take n (drop inp m)) key p) m)
    \<and> key_phase (circshift_prepared_key w (n mod 4)) key (p + n)"
proof -
  have "mem_bytes 4 (ucast w :: u32) ! (j mod 4) = mem_bytes 4 key ! ((p + j) mod 4)" for j
  proof -
    have "mem_bytes 4 (ucast w :: u32) ! (j mod 4) = mem_bytes 8 w ! (j mod 4)"
      by (rule bit_word_eqI) (auto simp: bit_mem_bytes bit_unsigned_iff)
    also have "\<dots> = mem_bytes 4 key ! ((p + j) mod 4)" using assms(4) by (simp add: key_phase_def mod_add_right_eq)
    finally show ?thesis .
  qed
  then have "mask_bytes inp outp (\<lambda>j. mem_bytes 4 (ucast w :: u32) ! (j mod 4)) n 0 m = Inr (overwrite outp (byte_mask (take n (drop inp m)) key p) m)"
    by (intro mask_bytes_keyed [OF assms(1,2,3)]) simp
  moreover have "key_phase (circshift_prepared_key w (n mod 4)) key (p + n)"
    by (rule key_phase_mod [OF circshift_phase [OF assms(4), of "n mod 4"]]) (simp_all add: mod_add_right_eq)
  ultimately show ?thesis by (simp add: byte_mask_circ_def)
qed

lemma xor_region_shift: "xor_region (inp + s) (outp + s) 0 l kf m = xor_region inp outp s (s + l) (\<lambda>j. kf (j - s)) m"
proof (rule nth_equalityI)
  fix a assume "a < length (xor_region (inp + s) (outp + s) 0 l kf m)"
  moreover have "inp + s + (a - (outp + s)) = inp + (a - outp)" "a - (outp + s) = a - outp - s" if "outp + s \<le> a" using that by simp_all
  ultimately show "xor_region (inp + s) (outp + s) 0 l kf m ! a = xor_region inp outp s (s + l) (\<lambda>j. kf (j - s)) m ! a"
    by (cases "outp + s \<le> a") (simp_all add: nth_xor_region add.assoc del: diff_diff_left Nat.add_diff_assoc Nat.diff_diff_right)
qed simp

lemma words_region:
  assumes "apart inp outp n" "inp + n \<le> length m" "outp + n \<le> length m" "key_phase w key p"
  shows "mask_words inp outp w (n div 8) 0 m = Inr (xor_region inp outp 0 (n div 8 * 8) (\<lambda>j. mem_bytes 4 key ! ((p + j) mod 4)) m)"
proof -
  have "apart inp outp (8 * (n div 8))" "inp + 8 * (n div 8) \<le> length m" "outp + 8 * (n div 8) \<le> length m"
    using assms div_times_less_eq_dividend [of n 8] by (auto simp: apart_def mult.commute)
  moreover have "mem_bytes 8 w ! (j mod 8) = mem_bytes 4 key ! ((p + j) mod 4)" for j
    using assms(4) mod_add_right_eq [of p "j mod 8" 4] mod_add_right_eq [of p j 4] mod_mod_cancel [of 4 8 j] by (simp add: key_phase_def)
  ultimately show ?thesis using mask_words_region [of inp outp 0 "n div 8" m w] by (simp add: mult.commute)
qed

lemma word_mask_exact_masks:
  assumes "apart inp outp n" "inp + n \<le> length m" "outp + n \<le> length m"
  shows "word_mask_exact inp outp n key m = Inr (overwrite outp (byte_mask (take n (drop inp m)) key 0) m)"
proof -
  let ?kf = "\<lambda>j. mem_bytes 4 key ! ((0 + j) mod 4)" and ?s = "n div 8 * 8"
  have s: "?s + (n - ?s) = n" by simp
  have "mask_bytes inp outp ?kf (n - ?s) ?s (xor_region inp outp 0 ?s ?kf m)
      = Inr (xor_region inp outp ?s n ?kf (xor_region inp outp 0 ?s ?kf m))"
    using mask_bytes_region [of inp outp ?s "n - ?s" "xor_region inp outp 0 ?s ?kf m" ?kf] assms s by (simp del: add_0)
  moreover have "xor_region inp outp ?s n ?kf (xor_region inp outp 0 ?s ?kf m) = xor_region inp outp 0 n ?kf m"
    by (rule xor_region_compose) (use assms in simp_all)
  ultimately show ?thesis using words_region [OF assms prepare_masking_key_phase] xor_region_byte_mask [OF assms(2,3), of key 0]
    by (simp add: word_mask_exact_def)
qed

lemma word_mask_circ_masks:
  assumes "apart inp outp n" "inp + n \<le> length m" "outp + n \<le> length m" "key_phase w key p"
  shows "word_mask_circ inp outp n w m = Inr (circshift_prepared_key w (n mod 8), overwrite outp (byte_mask (take n (drop inp m)) key p) m)
    \<and> key_phase (circshift_prepared_key w (n mod 8)) key (p + n)"
proof -
  let ?kf = "\<lambda>j. mem_bytes 4 key ! ((p + j) mod 4)" and ?s = "n div 8 * 8"
  let ?m = "xor_region inp outp 0 ?s ?kf m"
  have s: "?s + n mod 8 = n" "n - ?s = n mod 8" "n - n mod 8 = ?s" by (simp_all add: minus_div_mult_eq_mod minus_mod_eq_div_mult)
  have "mask_bytes (inp + ?s) (outp + ?s) (\<lambda>i. mem_bytes 8 w ! i) (n mod 8) 0 ?m
      = Inr (xor_region (inp + ?s) (outp + ?s) 0 (n mod 8) (\<lambda>i. mem_bytes 8 w ! i) ?m)"
    using mask_bytes_region [of "inp + ?s" "outp + ?s" 0 "n mod 8" ?m] assms s by (auto simp: apart_def)
  also have "xor_region (inp + ?s) (outp + ?s) 0 (n mod 8) (\<lambda>i. mem_bytes 8 w ! i) ?m
      = xor_region inp outp ?s n (\<lambda>j. mem_bytes 8 w ! (j - ?s)) ?m"
    using xor_region_shift [of inp ?s outp "n mod 8" _ ?m] s(1) by simp
  also have "\<dots> = xor_region inp outp ?s n ?kf ?m"
  proof (rule xor_region_cong)
    fix j assume j: "?s \<le> j" "j < n"
    then have "j - ?s < 8" using s by linarith
    then have "mem_bytes 8 w ! (j - ?s) = mem_bytes 4 key ! ((p + (j - ?s)) mod 4)" using assms(4) by (simp add: key_phase_def)
    moreover have "p + j = p + (j - ?s) + 4 * (n div 8 * 2)" using j by simp
    ultimately show "mem_bytes 8 w ! (j - ?s) = mem_bytes 4 key ! ((p + j) mod 4)" by (metis mod_mult_self2)
  qed
  also have "\<dots> = xor_region inp outp 0 n ?kf m"
    by (rule xor_region_compose) (use assms in simp_all)
  finally have b: "mask_bytes (inp + ?s) (outp + ?s) (\<lambda>i. mem_bytes 8 w ! i) (n mod 8) 0 ?m = Inr (xor_region inp outp 0 n ?kf m)" .
  have "key_phase (circshift_prepared_key w (n mod 8)) key (p + n)"
    by (rule key_phase_mod [OF circshift_phase [OF assms(4), of "n mod 8"]])
       (use mod_add_right_eq [of p "n mod 8" 4] mod_add_right_eq [of p n 4] mod_mod_cancel [of 4 8 n] in simp_all)
  with b show ?thesis using words_region [OF assms] xor_region_byte_mask [OF assms(2,3), of key p]
    unfolding word_mask_circ_def Let_def s by simp
qed

section \<open>Prepared headers and setters\<close>

lemma prepared_ext:
  "\<lparr>ext_bytes = overwrite 0 (drop 2 (prepare_header (basic_header_new op sz fin masked r1 r2 r3) (extended_for masked sz k))) (replicate 12 0)\<rparr>
    = extended_for masked sz k"
  using ext_for_reread by (simp add: prepare_header_def)

lemma prepared_basic: "\<lparr>b0 = prepare_header h e ! 0, b1 = prepare_header h e ! 1\<rparr> = h"
  by (simp add: prepare_header_def)

lemma length_extended_for: "length (ext_bytes (extended_for masked sz k)) = 12"
  by (auto simp: extended_for_def ext_bytes_new length_size_bytes payload_offset_def)

lemma prepared_length:
  "length (prepare_header (basic_header_new op sz fin masked r1 r2 r3) (extended_for masked sz k)) = get_header_len (basic_header_new op sz fin masked r1 r2 r3)"
proof -
  have "payload_offset sz \<le> 8" by (simp add: payload_offset_def)
  then show ?thesis by (auto simp: prepare_header_def length_extended_for new_header_len)
qed

text \<open>A setter changes its own bit and no other.\<close>

lemma set_bits:
  "bit (b0 (set_fin v h)) n = (if n = 7 then v else bit (b0 h) n)" "b1 (set_fin v h) = b1 h"
  "bit (b0 (set_rsv1 v h)) n = (if n = 6 then v else bit (b0 h) n)" "b1 (set_rsv1 v h) = b1 h"
  "bit (b0 (set_rsv2 v h)) n = (if n = 5 then v else bit (b0 h) n)" "b1 (set_rsv2 v h) = b1 h"
  "bit (b0 (set_rsv3 v h)) n = (if n = 4 then v else bit (b0 h) n)" "b1 (set_rsv3 v h) = b1 h"
  "bit (b1 (set_masked v h)) n = (if n = 7 then v else bit (b1 h) n)" "b0 (set_masked v h) = b0 h"
proof -
  have e: "bit (w OR 2 ^ k) n = (if n = k then True else bit w n)" "bit (w AND NOT (2 ^ k)) n = (if n = k then False else bit w n)"
    if "k < 8" for w :: u8 and k
    using that by (auto simp: bit_or_iff bit_and_iff bit_not_iff bit_exp_iff dest: bit_imp_le_length)
  show "bit (b0 (set_fin v h)) n = (if n = 7 then v else bit (b0 h) n)" "b1 (set_fin v h) = b1 h"
    using e [of 7 "b0 h"] by (auto simp: set_fin_def BHB0_FIN_def)
  show "bit (b0 (set_rsv1 v h)) n = (if n = 6 then v else bit (b0 h) n)" "b1 (set_rsv1 v h) = b1 h"
    using e [of 6 "b0 h"] by (auto simp: set_rsv1_def BHB0_RSV1_def)
  show "bit (b0 (set_rsv2 v h)) n = (if n = 5 then v else bit (b0 h) n)" "b1 (set_rsv2 v h) = b1 h"
    using e [of 5 "b0 h"] by (auto simp: set_rsv2_def BHB0_RSV2_def)
  show "bit (b0 (set_rsv3 v h)) n = (if n = 4 then v else bit (b0 h) n)" "b1 (set_rsv3 v h) = b1 h"
    using e [of 4 "b0 h"] by (auto simp: set_rsv3_def BHB0_RSV3_def)
  show "bit (b1 (set_masked v h)) n = (if n = 7 then v else bit (b1 h) n)" "b0 (set_masked v h) = b0 h"
    using e [of 7 "b1 h"] by (auto simp: set_masked_def BHB1_MASK_def)
qed

section \<open>Properties\<close>

text \<open>
  C34. A frame header says what it was made of: from the bytes of a header that was written out for any
  opcode, payload size, flags and masking key, read into an empty header, the accessors give all of
  them back, and the length computed from the first two bytes is the length of the header.
\<close>

theorem header_roundtrip:
  "let h = basic_header_new op sz fin masked r1 r2 r3;
       bytes = prepare_header h (if masked then extended_header_key sz k else extended_header_size sz);
       e = \<lparr>ext_bytes = overwrite 0 (drop 2 bytes) (replicate 12 0)\<rparr>
   in \<lparr>b0 = bytes ! 0, b1 = bytes ! 1\<rparr> = h \<and> length bytes = get_header_len h
    \<and> get_opcode h = op \<and> get_fin h = fin \<and> get_masked h = masked \<and> get_rsv1 h = r1 \<and> get_rsv2 h = r2 \<and> get_rsv3 h = r3
    \<and> get_payload_size h e = sz \<and> get_masking_key h e = (if masked then k else 0)"
  unfolding Let_def extended_for_def [symmetric] prepared_ext
  using prepared_length prepared_basic by (simp add: new_opcode new_flags new_masked ext_for_size ext_for_key)

text \<open>
  C35. Masking by words is masking by bytes: on a buffer in place, or on regions that do not overlap, the
  two word routines and the circular byte routine write exactly the region, with the bytes the simple
  byte loop gives, and the prepared key they return continues the key where they stopped.
\<close>

theorem masking_routines_agree:
  assumes "apart inp outp n" "inp + n \<le> length m" "outp + n \<le> length m" "key_phase w key p"
  shows "word_mask_exact inp outp n key m = Inr (overwrite outp (byte_mask (take n (drop inp m)) key 0) m)
    \<and> (\<exists>w'. key_phase w' key (p + n)
         \<and> word_mask_circ inp outp n w m = Inr (w', overwrite outp (byte_mask (take n (drop inp m)) key p) m)
         \<and> byte_mask_circ inp outp n w m = Inr (w', overwrite outp (byte_mask (take n (drop inp m)) key p) m))"
  using word_mask_exact_masks [OF assms(1,2,3)] word_mask_circ_masks [OF assms] byte_mask_circ_masks [OF assms] key_phase_unique by metis

theorem masking_routines_agree_witness:
  "word_mask_exact 0 0 9 7 (replicate 9 5) = Inr (overwrite 0 (byte_mask (replicate 9 5) 7 0) (replicate 9 5))"
  using masking_routines_agree [of 0 0 9 "replicate 9 5" "prepare_masking_key 7" 7 0] prepare_masking_key_phase by (simp add: apart_def)

text \<open>
  Masking is its own inverse at every position of the key, and masking a text in two pieces, the
  second from where the first stopped, is masking it at once.
\<close>

theorem masking_involution:
  "byte_mask (byte_mask xs key p) key p = xs \<and> byte_mask (xs @ ys) key p = byte_mask xs key p @ byte_mask ys key (p + length xs)"
  by (simp add: byte_mask_twice byte_mask_append)

end
