(* ===== verification/WS_Utf8.thy ===== *)
theory WS_Utf8
  imports Prelude
begin

text \<open>
  The streaming UTF-8 validator of the WebSocket library (\<open>websocketpp/utf8_validator.hpp\<close>): its table,
  the decoder step and the class \<open>validator\<close>. Bytes are 8-bit words. The table is shown to accept
  exactly the concatenations of UTF-8 encodings of Unicode scalar values, wherever the input is cut.
\<close>

unbundle bit_operations_syntax

section \<open>The decoder\<close>

definition utf8_accept :: nat where "utf8_accept = 0"
definition utf8_reject :: nat where "utf8_reject = 1"

text \<open>
  The table: the classes of the bytes up to \<open>df\<close> (runs of equal entries written with \<open>replicate\<close>), those
  of the bytes from \<open>e0\<close>, and a row of successor states for each of the nine states.
\<close>

definition utf8d_low :: "nat list" where
  "utf8d_low = replicate 128 0 @ replicate 16 1 @ replicate 16 9 @ replicate 32 7 @ replicate 2 8 @ replicate 30 2"

definition utf8d_high :: "nat list" where
  "utf8d_high =
     [10, 3, 3, 3, 3, 3, 3, 3, 3, 3, 3, 3, 3, 4, 3, 3,
      11, 6, 6, 6, 5, 8, 8, 8, 8, 8, 8, 8, 8, 8, 8, 8]"

definition utf8d_rows :: "nat list list" where
  "utf8d_rows =
     [[0, 1, 2, 3, 5, 8, 7, 1, 1, 1, 4, 6, 1, 1, 1, 1],
      [1, 1, 1, 1, 1, 1, 1, 1, 1, 1, 1, 1, 1, 1, 1, 1], [1, 0, 1, 1, 1, 1, 1, 0, 1, 0, 1, 1, 1, 1, 1, 1],
      [1, 2, 1, 1, 1, 1, 1, 2, 1, 2, 1, 1, 1, 1, 1, 1], [1, 1, 1, 1, 1, 1, 1, 2, 1, 1, 1, 1, 1, 1, 1, 1],
      [1, 2, 1, 1, 1, 1, 1, 1, 1, 2, 1, 1, 1, 1, 1, 1], [1, 1, 1, 1, 1, 1, 1, 3, 1, 3, 1, 1, 1, 1, 1, 1],
      [1, 3, 1, 1, 1, 1, 1, 3, 1, 3, 1, 1, 1, 1, 1, 1], [1, 3, 1, 1, 1, 1, 1, 1, 1, 1, 1, 1, 1, 1, 1, 1]]"

definition utf8d :: "nat list" where
  "utf8d = utf8d_low @ utf8d_high @ concat utf8d_rows"

definition table_at :: "nat \<Rightarrow> nat res" where
  "table_at i = (if i < length utf8d then Inr (utf8d ! i) else Inl Out_Of_Bounds)"

definition utf8_decode :: "nat \<Rightarrow> u32 \<Rightarrow> u8 \<Rightarrow> (nat \<times> u32) res" where
  "utf8_decode state codep b =
     bind_res (table_at (unat b)) (\<lambda>type.
     let codep = (if state \<noteq> utf8_accept
                  then (ucast b AND 0x3f) OR push_bit 6 codep
                  else drop_bit type 0xff AND ucast b) in
     bind_res (table_at (256 + state * 16 + type)) (\<lambda>state. Inr (state, codep)))"

record validator =
  m_state :: nat
  m_codepoint :: u32

definition validator_new :: validator where
  "validator_new = \<lparr>m_state = utf8_accept, m_codepoint = 0\<rparr>"

definition validator_consume :: "u8 \<Rightarrow> validator \<Rightarrow> (bool \<times> validator) res" where
  "validator_consume b v =
     bind_res (utf8_decode (m_state v) (m_codepoint v) b) (\<lambda>(st, cp).
       Inr (st \<noteq> utf8_reject, v\<lparr>m_state := st, m_codepoint := cp\<rparr>))"

fun validator_decode :: "u8 list \<Rightarrow> validator \<Rightarrow> (bool \<times> validator) res" where
  "validator_decode [] v = Inr (True, v)"
| "validator_decode (b # bs) v =
     bind_res (utf8_decode (m_state v) (m_codepoint v) b) (\<lambda>(result, cp).
       if result = utf8_reject then Inr (False, v\<lparr>m_state := result, m_codepoint := cp\<rparr>)
       else validator_decode bs (v\<lparr>m_state := result, m_codepoint := cp\<rparr>))"

definition validator_complete :: "validator \<Rightarrow> bool" where
  "validator_complete v = (m_state v = utf8_accept)"

definition validator_reset :: "validator \<Rightarrow> validator" where
  "validator_reset v = v\<lparr>m_state := utf8_accept, m_codepoint := 0\<rparr>"

definition validate :: "u8 list \<Rightarrow> bool res" where
  "validate s =
     bind_res (validator_decode s validator_new) (\<lambda>(ok, v).
       if \<not> ok then Inr False else Inr (validator_complete v))"

section \<open>The automaton\<close>

definition next_state :: "nat \<Rightarrow> nat \<Rightarrow> nat" where
  "next_state q b = utf8d ! (256 + q * 16 + utf8d ! b)"

lemma length_tables: "length utf8d_low = 224" "length utf8d_high = 32" "length (concat utf8d_rows) = 144" "length utf8d = 400"
  by (simp_all add: utf8d_def utf8d_low_def utf8d_high_def utf8d_rows_def)

definition byte_class :: "nat \<Rightarrow> nat" where
  "byte_class b =
     (if b < 0x80 then 0 else if b < 0x90 then 1 else if b < 0xA0 then 9 else if b < 0xC0 then 7 else if b < 0xC2 then 8
      else if b < 0xE0 then 2 else if b = 0xE0 then 10 else if b = 0xED then 4 else if b < 0xF0 then 3 else if b = 0xF0 then 11
      else if b < 0xF4 then 6 else if b = 0xF4 then 5 else 8)"

lemma utf8d_class:
  assumes "b < 256"
  shows "utf8d ! b = byte_class b"
proof (cases "b < 224")
  case True
  then have "utf8d ! b = utf8d_low ! b" by (simp add: utf8d_def nth_append length_tables)
  moreover consider "b < 0x80" | "0x80 \<le> b" "b < 0x90" | "0x90 \<le> b" "b < 0xA0" | "0xA0 \<le> b" "b < 0xC0" | "0xC0 \<le> b" "b < 0xC2" | "0xC2 \<le> b" "b < 0xE0"
    using True by linarith
  then have "utf8d_low ! b = byte_class b" by cases (simp_all add: utf8d_low_def nth_append byte_class_def less_diff_conv2)
  ultimately show ?thesis by simp
next
  case False
  define j where "j = b - 224"
  have j: "b = 224 + j" "j < 32" using False assms by (simp_all add: j_def)
  have "utf8d ! b = utf8d_high ! j" using j by (simp add: utf8d_def nth_append length_tables)
  also have "utf8d_high = map (\<lambda>j. byte_class (224 + j)) [0..<32]" by (simp add: utf8d_high_def byte_class_def upt_rec)
  finally show ?thesis using j by simp
qed

lemma byte_class_range: "byte_class b \<in> {0, 1, 2, 3, 4, 5, 6, 7, 8, 9, 10, 11}"
  by (simp add: byte_class_def)

lemma concat_rows: "\<forall>r \<in> set rs. length r = 16 \<Longrightarrow> q < length rs \<Longrightarrow> c < 16 \<Longrightarrow> concat rs ! (q * 16 + c) = rs ! q ! c"
proof (induction rs arbitrary: q)
  case (Cons r rs)
  then show ?case by (cases q) (simp_all add: nth_append)
qed simp

lemma next_state_row:
  assumes "b < 256" "q < 9"
  shows "next_state q b = utf8d_rows ! q ! byte_class b"
proof -
  have "byte_class b < 16" using byte_class_range [of b] by auto
  moreover have "\<forall>r \<in> set utf8d_rows. length r = 16" "length utf8d_rows = 9" by (simp_all add: utf8d_rows_def)
  ultimately have "concat utf8d_rows ! (q * 16 + byte_class b) = utf8d_rows ! q ! byte_class b" using assms(2) by (intro concat_rows) simp_all
  then show ?thesis using assms(1) unfolding next_state_def utf8d_class [OF assms(1)] by (simp add: utf8d_def nth_append length_tables)
qed

text \<open>What the table says, state by state.\<close>

definition first_byte :: "nat \<Rightarrow> nat" where
  "first_byte b =
     (if b < 0x80 then 0 else if b < 0xC2 then 1 else if b < 0xE0 then 2 else if b = 0xE0 then 4
      else if b = 0xED then 5 else if b < 0xF0 then 3 else if b = 0xF0 then 6 else if b < 0xF4 then 7
      else if b = 0xF4 then 8 else 1)"

definition cont :: "nat \<Rightarrow> nat \<Rightarrow> nat \<Rightarrow> nat \<Rightarrow> nat" where
  "cont lo hi q b = (if lo \<le> b \<and> b < hi then q else 1)"

lemma next_state_table:
  assumes "b < 256"
  shows "next_state 0 b = first_byte b" "next_state 1 b = 1" "next_state 2 b = cont 0x80 0xC0 0 b" "next_state 3 b = cont 0x80 0xC0 2 b"
    "next_state 4 b = cont 0xA0 0xC0 2 b" "next_state 5 b = cont 0x80 0xA0 2 b" "next_state 6 b = cont 0x90 0xC0 3 b"
    "next_state 7 b = cont 0x80 0xC0 3 b" "next_state 8 b = cont 0x80 0x90 3 b"
proof -
  note R = next_state_row utf8d_rows_def assms
  consider "b < 0x80" | "0x80 \<le> b" "b < 0x90" | "0x90 \<le> b" "b < 0xA0" | "0xA0 \<le> b" "b < 0xC0" | "0xC0 \<le> b" "b < 0xC2" | "0xC2 \<le> b" "b < 0xE0"
    | "b = 0xE0" | "0xE1 \<le> b" "b < 0xF0" "b \<noteq> 0xED" | "b = 0xED" | "b = 0xF0" | "0xF1 \<le> b" "b < 0xF4" | "b = 0xF4" | "0xF5 \<le> b" by linarith
  then have "next_state 0 b = first_byte b \<and> next_state 1 b = 1 \<and> next_state 2 b = cont 0x80 0xC0 0 b \<and> next_state 3 b = cont 0x80 0xC0 2 b
    \<and> next_state 4 b = cont 0xA0 0xC0 2 b \<and> next_state 5 b = cont 0x80 0xA0 2 b \<and> next_state 6 b = cont 0x90 0xC0 3 b
    \<and> next_state 7 b = cont 0x80 0xC0 3 b \<and> next_state 8 b = cont 0x80 0x90 3 b"
    by cases (simp_all add: R byte_class_def first_byte_def cont_def)
  then show "next_state 0 b = first_byte b" "next_state 1 b = 1" "next_state 2 b = cont 0x80 0xC0 0 b" "next_state 3 b = cont 0x80 0xC0 2 b"
    "next_state 4 b = cont 0xA0 0xC0 2 b" "next_state 5 b = cont 0x80 0xA0 2 b" "next_state 6 b = cont 0x90 0xC0 3 b"
    "next_state 7 b = cont 0x80 0xC0 3 b" "next_state 8 b = cont 0x80 0x90 3 b" by blast+
qed

lemma next_state_bound:
  assumes "q < 9" "b < 256"
  shows "next_state q b < 9"
proof -
  have "q \<in> {0, 1, 2, 3, 4, 5, 6, 7, 8}" using assms(1) by auto
  then show ?thesis using next_state_table [OF assms(2)] by (auto simp: first_byte_def cont_def)
qed

text \<open>Running the automaton; it stops in the rejecting state.\<close>

fun run :: "nat \<Rightarrow> nat list \<Rightarrow> nat" where
  "run q [] = q"
| "run q (b # bs) = run (next_state q b) bs"

lemma run_append: "run q (xs @ ys) = run (run q xs) ys"
  by (induction xs arbitrary: q) simp_all

lemma run_reject: "\<forall>b \<in> set bs. b < 256 \<Longrightarrow> run 1 bs = 1"
  by (induction bs) (simp_all add: next_state_table(2) [unfolded One_nat_def])

lemma utf8_decode_step:
  "q < 9 \<Longrightarrow> \<exists>cp'. utf8_decode q cp b = Inr (next_state q (unat b), cp') \<and> next_state q (unat b) < 9"
proof -
  assume q: "q < 9"
  have b: "unat b < 256" using unsigned_less [of b] by simp
  have "utf8d ! unat b < 12" using byte_class_range [of "unat b"] utf8d_class [OF b] by auto
  then show ?thesis
    using q b next_state_bound [OF q b] by (simp add: utf8_decode_def table_at_def length_tables next_state_def Let_def)
qed

lemma unat_bytes: "\<forall>b \<in> set (map (unat :: u8 \<Rightarrow> nat) bs). b < 256"
proof -
  have "unat (b :: u8) < 256" for b using unsigned_less [of b] by simp
  then show ?thesis by simp
qed

lemma validator_decode_run:
  "m_state v < 9 \<Longrightarrow> m_state v \<noteq> 1 \<Longrightarrow>
   \<exists>v'. validator_decode bs v = Inr (run (m_state v) (map unat bs) \<noteq> 1, v') \<and> m_state v' = run (m_state v) (map unat bs) \<and> m_state v' < 9"
proof (induction bs arbitrary: v)
  case Nil
  then show ?case by simp
next
  case (Cons b bs)
  obtain cp where d: "utf8_decode (m_state v) (m_codepoint v) b = Inr (next_state (m_state v) (unat b), cp)" "next_state (m_state v) (unat b) < 9"
    using utf8_decode_step [OF Cons.prems(1)] by blast
  let ?v = "v\<lparr>m_state := next_state (m_state v) (unat b), m_codepoint := cp\<rparr>"
  show ?case
  proof (cases "next_state (m_state v) (unat b) = 1")
    case True
    then have "run (m_state v) (map unat (b # bs)) = 1" using run_reject [OF unat_bytes] by simp
    with d(1) True show ?thesis by (simp add: utf8_reject_def)
  next
    case False
    then show ?thesis using Cons.IH [of ?v] d by (simp add: utf8_reject_def)
  qed
qed

section \<open>UTF-8\<close>

text \<open>Unicode scalar values and their encoding.\<close>

definition scalar :: "nat \<Rightarrow> bool" where
  "scalar c \<longleftrightarrow> c < 0x110000 \<and> \<not> (0xD800 \<le> c \<and> c < 0xE000)"

definition utf8_encode :: "nat \<Rightarrow> nat list" where
  "utf8_encode c =
     (if c < 0x80 then [c]
      else if c < 0x800 then [0xC0 + c div 64, 0x80 + c mod 64]
      else if c < 0x10000 then [0xE0 + c div 4096, 0x80 + c div 64 mod 64, 0x80 + c mod 64]
      else [0xF0 + c div 262144, 0x80 + c div 4096 mod 64, 0x80 + c div 64 mod 64, 0x80 + c mod 64])"

definition well_formed :: "nat list \<Rightarrow> bool" where
  "well_formed bs \<longleftrightarrow> (\<exists>cs. (\<forall>c \<in> set cs. scalar c) \<and> bs = concat (map utf8_encode cs))"

lemma run_Cons_table:
  assumes "b < 256"
  shows "run 0 (b # bs) = run (first_byte b) bs" "run 2 (b # bs) = run (cont 0x80 0xC0 0 b) bs" "run 3 (b # bs) = run (cont 0x80 0xC0 2 b) bs"
    "run 4 (b # bs) = run (cont 0xA0 0xC0 2 b) bs" "run 5 (b # bs) = run (cont 0x80 0xA0 2 b) bs" "run 6 (b # bs) = run (cont 0x90 0xC0 3 b) bs"
    "run 7 (b # bs) = run (cont 0x80 0xC0 3 b) bs" "run 8 (b # bs) = run (cont 0x80 0x90 3 b) bs"
  using next_state_table [OF assms] by simp_all

lemma six_bits:
  fixes c :: nat
  obtains x0 x1 x2 x3 where "c mod 64 = x0" "c div 64 mod 64 = x1" "c div 4096 mod 64 = x2" "c div 262144 = x3" "c div 64 = x1 + 64 * x2 + 4096 * x3"
    "c div 4096 = x2 + 64 * x3" "c = x0 + 64 * x1 + 4096 * x2 + 262144 * x3" "x0 < 64" "x1 < 64" "x2 < 64"
proof -
  have d: "c div 4096 = c div 64 div 64" "c div 262144 = c div 4096 div 64" by (simp_all add: div_mult2_eq [symmetric])
  have "c = c mod 64 + 64 * (c div 64)" "c div 64 = c div 64 mod 64 + 64 * (c div 4096)" "c div 4096 = c div 4096 mod 64 + 64 * (c div 262144)"
    unfolding d by simp_all
  then have "c div 64 = c div 64 mod 64 + 64 * (c div 4096 mod 64) + 4096 * (c div 262144)"
    "c = c mod 64 + 64 * (c div 64 mod 64) + 4096 * (c div 4096 mod 64) + 262144 * (c div 262144)"
    "c div 4096 = c div 4096 mod 64 + 64 * (c div 262144)" by linarith+
  then show ?thesis by (intro that [OF refl refl refl refl]) simp_all
qed

lemma run_encode:
  assumes "scalar c"
  shows "run 0 (utf8_encode c) = 0"
proof -
  obtain x0 x1 x2 x3 where x: "c mod 64 = x0" "c div 64 mod 64 = x1" "c div 4096 mod 64 = x2" "c div 262144 = x3" "c div 64 = x1 + 64 * x2 + 4096 * x3"
    "c div 4096 = x2 + 64 * x3" "c = x0 + 64 * x1 + 4096 * x2 + 262144 * x3" "x0 < 64" "x1 < 64" "x2 < 64" by (rule six_bits [of c])
  consider "c < 0x80" | "0x80 \<le> c" "c < 0x800" | "0x800 \<le> c" "c < 0x10000" | "0x10000 \<le> c" by linarith
  then show ?thesis
  proof cases
    case 1
    then have "run 0 [c] = run (first_byte c) []" by (intro run_Cons_table) simp
    with 1 show ?thesis by (simp add: utf8_encode_def first_byte_def del: run.simps(2))
  next
    case 2
    then have z: "x2 = 0" "x3 = 0" using x(7) by simp_all
    then have h: "x2 = 0" "x3 = 0" "2 \<le> x1" "x1 < 32" using x(7,8) 2 by linarith+
    have "run 0 [0xC0 + x1, 0x80 + x0] = 0"
      using h x(8-) run_Cons_table [of "0xC0 + x1"] run_Cons_table [of "0x80 + x0"]
      by (simp add: first_byte_def cont_def del: run.simps(2))
    moreover have "utf8_encode c = [0xC0 + x1, 0x80 + x0]" using 2 x(1,5) h by (simp add: utf8_encode_def)
    ultimately show ?thesis by (simp only:)
  next
    case 3
    then have z: "x3 = 0" using x(7) by simp
    then have h: "x3 = 0" "x2 < 16" "x2 = 0 \<longrightarrow> 32 \<le> x1" using x(7,8,9) 3 by linarith+
    have s: "x2 = 13 \<longrightarrow> x1 < 32" using assms x(7-) h(1) unfolding scalar_def by auto
    have "run 0 [0xE0 + x2, 0x80 + x1, 0x80 + x0] = 0"
      using h s x(8-) run_Cons_table [of "0xE0 + x2"] run_Cons_table [of "0x80 + x1"] run_Cons_table [of "0x80 + x0"]
      by (auto simp add: first_byte_def cont_def simp del: run.simps(2))
    moreover have "utf8_encode c = [0xE0 + x2, 0x80 + x1, 0x80 + x0]" using 3 x(1,2,6) h by (simp add: utf8_encode_def)
    ultimately show ?thesis by (simp only:)
  next
    case 4
    then have h: "x3 < 5" "x3 = 0 \<longrightarrow> 16 \<le> x2" "x3 = 4 \<longrightarrow> x2 < 16" using x(7-) assms unfolding scalar_def by auto
    have "run 0 [0xF0 + x3, 0x80 + x2, 0x80 + x1, 0x80 + x0] = 0"
      using h x(8-) run_Cons_table [of "0xF0 + x3"] run_Cons_table [of "0x80 + x2"] run_Cons_table [of "0x80 + x1"] run_Cons_table [of "0x80 + x0"]
      by (auto simp add: first_byte_def cont_def simp del: run.simps(2))
    moreover have "utf8_encode c = [0xF0 + x3, 0x80 + x2, 0x80 + x1, 0x80 + x0]" using 4 x(1-4) by (simp add: utf8_encode_def)
    ultimately show ?thesis by (simp only:)
  qed
qed

lemma run_well_formed: "(\<forall>c \<in> set cs. scalar c) \<Longrightarrow> run 0 (concat (map utf8_encode cs)) = 0"
  by (induction cs) (simp_all add: run_append run_encode)

text \<open>An accepted text that is not empty begins with the encoding of a scalar value.\<close>

lemma run_stuck: "\<forall>b \<in> set bs. b < 256 \<Longrightarrow> run 1 bs \<noteq> 0"
  using run_reject [of bs] by simp

lemma cont_tail:
  assumes "run q bs = 0" "\<forall>b \<in> set bs. b < 256" "q \<noteq> 0" "\<And>b. b < 256 \<Longrightarrow> next_state q b = cont lo hi q' b"
  obtains b bs' where "bs = b # bs'" "lo \<le> b" "b < hi" "run q' bs' = 0" "\<forall>b \<in> set bs'. b < 256"
proof (cases bs)
  case Nil
  with assms(1,3) show ?thesis by simp
next
  case (Cons b bs')
  then have r: "run (cont lo hi q' b) bs' = 0" using assms(1,2,4) by simp
  then have "lo \<le> b \<and> b < hi" using run_stuck [of bs'] assms(2) Cons by (auto simp: cont_def split: if_splits)
  with r Cons assms(2) show ?thesis by (intro that [of b bs']) (auto simp: cont_def)
qed

lemmas tails =
  cont_tail [where q = 2, OF _ _ _ next_state_table(3)] cont_tail [where q = 3, OF _ _ _ next_state_table(4)]
  cont_tail [where q = 4, OF _ _ _ next_state_table(5)] cont_tail [where q = 5, OF _ _ _ next_state_table(6)]
  cont_tail [where q = 6, OF _ _ _ next_state_table(7)] cont_tail [where q = 7, OF _ _ _ next_state_table(8)]
  cont_tail [where q = 8, OF _ _ _ next_state_table(9)]

lemma tail2:
  assumes "run 2 bs = 0" "\<forall>b \<in> set bs. b < 256"
  obtains x0 bs' where "bs = (0x80 + x0) # bs'" "x0 < 64" "run 0 bs' = 0" "\<forall>b \<in> set bs'. b < 256"
proof -
  obtain b bs' where b: "bs = b # bs'" "0x80 \<le> b" "b < 0xC0" "run 0 bs' = 0" "\<forall>b \<in> set bs'. b < 256"
    by (rule tails(1) [OF assms]) simp
  show ?thesis by (rule that [of "b - 0x80" bs']) (use b in simp_all)
qed

lemma tail3:
  assumes "run q bs = 0" "\<forall>b \<in> set bs. b < 256" "q \<in> {3, 4, 5}"
  obtains x1 x0 bs' where "bs = (0x80 + x1) # (0x80 + x0) # bs'" "x1 < 64" "x0 < 64" "q = 4 \<longrightarrow> 32 \<le> x1" "q = 5 \<longrightarrow> x1 < 32"
    "run 0 bs' = 0" "\<forall>b \<in> set bs'. b < 256"
proof -
  have "\<exists>b bs'. bs = b # bs' \<and> 0x80 \<le> b \<and> b < 0xC0 \<and> (q = 4 \<longrightarrow> 0xA0 \<le> b) \<and> (q = 5 \<longrightarrow> b < 0xA0) \<and> run 2 bs' = 0 \<and> (\<forall>b \<in> set bs'. b < 256)"
    using assms(3)
  proof (elim insertE emptyE)
    assume q: "q = 3"
    show ?thesis by (rule tails(2) [OF assms(1) [unfolded q] assms(2)]) (use q in simp_all)
  next
    assume q: "q = 4"
    show ?thesis by (rule tails(3) [OF assms(1) [unfolded q] assms(2)]) (use q in simp_all)
  next
    assume q: "q = 5"
    show ?thesis by (rule tails(4) [OF assms(1) [unfolded q] assms(2)]) (use q in simp_all)
  qed
  then obtain b bs1 where b: "bs = b # bs1" "0x80 \<le> b" "b < 0xC0" "q = 4 \<longrightarrow> 0xA0 \<le> b" "q = 5 \<longrightarrow> b < 0xA0" "run 2 bs1 = 0" "\<forall>b \<in> set bs1. b < 256"
    by blast
  obtain x0 bs2 where c: "bs1 = (0x80 + x0) # bs2" "x0 < 64" "run 0 bs2 = 0" "\<forall>b \<in> set bs2. b < 256" by (rule tail2 [OF b(6,7)])
  show ?thesis by (rule that [of "b - 0x80" x0 bs2]) (use b c in \<open>simp_all add: less_diff_conv2 le_diff_conv2\<close>)
qed

lemma tail4:
  assumes "run q bs = 0" "\<forall>b \<in> set bs. b < 256" "q \<in> {6, 7, 8}"
  obtains x2 x1 x0 bs' where "bs = (0x80 + x2) # (0x80 + x1) # (0x80 + x0) # bs'" "x2 < 64" "x1 < 64" "x0 < 64"
    "q = 6 \<longrightarrow> 16 \<le> x2" "q = 8 \<longrightarrow> x2 < 16" "run 0 bs' = 0" "\<forall>b \<in> set bs'. b < 256"
proof -
  have "\<exists>b bs'. bs = b # bs' \<and> 0x80 \<le> b \<and> b < 0xC0 \<and> (q = 6 \<longrightarrow> 0x90 \<le> b) \<and> (q = 8 \<longrightarrow> b < 0x90) \<and> run 3 bs' = 0 \<and> (\<forall>b \<in> set bs'. b < 256)"
    using assms(3)
  proof (elim insertE emptyE)
    assume q: "q = 6"
    show ?thesis by (rule tails(5) [OF assms(1) [unfolded q] assms(2)]) (use q in simp_all)
  next
    assume q: "q = 7"
    show ?thesis by (rule tails(6) [OF assms(1) [unfolded q] assms(2)]) (use q in simp_all)
  next
    assume q: "q = 8"
    show ?thesis by (rule tails(7) [OF assms(1) [unfolded q] assms(2)]) (use q in simp_all)
  qed
  then obtain b bs1 where b: "bs = b # bs1" "0x80 \<le> b" "b < 0xC0" "q = 6 \<longrightarrow> 0x90 \<le> b" "q = 8 \<longrightarrow> b < 0x90" "run 3 bs1 = 0" "\<forall>b \<in> set bs1. b < 256"
    by blast
  obtain x1 x0 bs2 where c: "bs1 = (0x80 + x1) # (0x80 + x0) # bs2" "x1 < 64" "x0 < 64" "3 = (4 :: nat) \<longrightarrow> 32 \<le> x1" "3 = (5 :: nat) \<longrightarrow> x1 < 32"
    "run 0 bs2 = 0" "\<forall>b \<in> set bs2. b < 256" by (rule tail3 [OF b(6,7)]) simp
  show ?thesis by (rule that [of "b - 0x80" x1 x0 bs2]) (use b c in \<open>simp_all add: less_diff_conv2 le_diff_conv2\<close>)
qed

lemma utf8_encode_pieces:
  assumes "x0 < 64" "x1 < 64" "x2 < 64"
  shows "2 \<le> x1 \<Longrightarrow> x1 < 32 \<Longrightarrow> scalar (x0 + 64 * x1) \<and> utf8_encode (x0 + 64 * x1) = [0xC0 + x1, 0x80 + x0]"
    "x2 < 16 \<Longrightarrow> x2 = 0 \<longrightarrow> 32 \<le> x1 \<Longrightarrow> x2 = 13 \<longrightarrow> x1 < 32 \<Longrightarrow>
     scalar (x0 + 64 * x1 + 4096 * x2) \<and> utf8_encode (x0 + 64 * x1 + 4096 * x2) = [0xE0 + x2, 0x80 + x1, 0x80 + x0]"
    "x3 < 5 \<Longrightarrow> x3 = 0 \<longrightarrow> 16 \<le> x2 \<Longrightarrow> x3 = 4 \<longrightarrow> x2 < 16 \<Longrightarrow>
     scalar (x0 + 64 * x1 + 4096 * x2 + 262144 * x3)
     \<and> utf8_encode (x0 + 64 * x1 + 4096 * x2 + 262144 * x3) = [0xF0 + x3, 0x80 + x2, 0x80 + x1, 0x80 + x0]"
proof -
  have d: "(x0 + 64 * y) div 64 = y" "(x0 + 64 * y) mod 64 = x0" "(x1 + 64 * y) div 64 = y" "(x1 + 64 * y) mod 64 = x1"
    "(x2 + 64 * y) div 64 = y" "(x2 + 64 * y) mod 64 = x2" for y using assms by simp_all
  have q: "n div 4096 = n div 64 div 64" "n div 262144 = n div 64 div 64 div 64" for n :: nat by (simp_all add: div_mult2_eq [symmetric])
  have e: "x0 + 64 * x1 + 4096 * x2 = x0 + 64 * (x1 + 64 * x2)" "x0 + 64 * x1 + 4096 * x2 + 262144 * x3 = x0 + 64 * (x1 + 64 * (x2 + 64 * x3))" by simp_all
  show "scalar (x0 + 64 * x1) \<and> utf8_encode (x0 + 64 * x1) = [0xC0 + x1, 0x80 + x0]" if "2 \<le> x1" "x1 < 32"
    using that assms unfolding scalar_def utf8_encode_def d by simp
  show "scalar (x0 + 64 * x1 + 4096 * x2) \<and> utf8_encode (x0 + 64 * x1 + 4096 * x2) = [0xE0 + x2, 0x80 + x1, 0x80 + x0]"
    if h: "x2 < 16" "x2 = 0 \<longrightarrow> 32 \<le> x1" "x2 = 13 \<longrightarrow> x1 < 32"
  proof -
    have b: "x0 + 64 * x1 + 4096 * x2 < 0x10000" "\<not> x0 + 64 * x1 + 4096 * x2 < 0x800" using h assms by (linarith, cases "x2 = 0") auto
    have "\<not> (0xD800 \<le> x0 + 64 * x1 + 4096 * x2 \<and> x0 + 64 * x1 + 4096 * x2 < 0xE000)"
    proof
      assume "0xD800 \<le> x0 + 64 * x1 + 4096 * x2 \<and> x0 + 64 * x1 + 4096 * x2 < 0xE000"
      then have "12 < x2" "x2 < 14" "x2 = 13 \<longrightarrow> 32 \<le> x1" using assms by linarith+
      then show False using h(3) by (cases "x2 = 13") auto
    qed
    moreover have "\<not> x0 + 64 * x1 + 4096 * x2 < 0x80" using b(2) by linarith
    ultimately show ?thesis using b unfolding scalar_def utf8_encode_def q e(1) d by (simp only: if_False if_True) simp
  qed
  show "scalar (x0 + 64 * x1 + 4096 * x2 + 262144 * x3)
     \<and> utf8_encode (x0 + 64 * x1 + 4096 * x2 + 262144 * x3) = [0xF0 + x3, 0x80 + x2, 0x80 + x1, 0x80 + x0]"
    if h: "x3 < 5" "x3 = 0 \<longrightarrow> 16 \<le> x2" "x3 = 4 \<longrightarrow> x2 < 16"
  proof -
    let ?c = "x0 + 64 * x1 + 4096 * x2 + 262144 * x3"
    have lo: "0x10000 \<le> ?c" using h(2) by (cases "x3 = 0") auto
    have hi: "?c < 0x110000" using h(1,3) assms by (cases "x3 = 4") auto
    have n: "\<not> ?c < 0x80" "\<not> ?c < 0x800" "\<not> ?c < 0x10000" using lo by linarith+
    show ?thesis using lo hi n unfolding scalar_def utf8_encode_def q e(2) d by (simp only: if_False) simp
  qed
qed

lemma accepted_prefix:
  assumes "run 0 (b # bs) = 0" "\<forall>b \<in> set (b # bs). b < 256"
  obtains c bs' where "scalar c" "b # bs = utf8_encode c @ bs'" "run 0 bs' = 0" "\<forall>b \<in> set bs'. b < 256" "length bs' < length (b # bs)"
proof -
  have b: "b < 256" "\<forall>b \<in> set bs. b < 256" using assms(2) by simp_all
  have r: "run (first_byte b) bs = 0" using run_Cons_table(1) [OF b(1)] assms(1) by simp
  have n: "first_byte b \<noteq> 1" using r run_stuck [OF b(2)] by metis
  consider "b < 0x80" | "0xC2 \<le> b" "b < 0xE0" | "0xE0 \<le> b" "b < 0xF0" | "0xF0 \<le> b" "b < 0xF5"
    using n by (fastforce simp: first_byte_def)
  then show ?thesis
  proof cases
    case 1
    then have "scalar b" "b # bs = utf8_encode b @ bs" "run 0 bs = 0" using r by (simp_all add: scalar_def utf8_encode_def first_byte_def)
    then show ?thesis by (rule that) (use b in simp_all)
  next
    case 2
    then have "run 2 bs = 0" using r by (simp add: first_byte_def)
    then obtain x0 bs' where t: "bs = (0x80 + x0) # bs'" "x0 < 64" "run 0 bs' = 0" "\<forall>b \<in> set bs'. b < 256" by (rule tail2 [OF _ b(2)])
    have x1: "2 \<le> b - 0xC0" "b - 0xC0 < 32" "0xC0 + (b - 0xC0) = b" using 2 by linarith+
    have "scalar (x0 + 64 * (b - 0xC0)) \<and> utf8_encode (x0 + 64 * (b - 0xC0)) = [0xC0 + (b - 0xC0), 0x80 + x0]"
      by (rule utf8_encode_pieces(1) [of x0 "b - 0xC0" 0]) (use t x1 in simp_all)
    with t x1 show ?thesis by (intro that [of "x0 + 64 * (b - 0xC0)" bs']) simp_all
  next
    case 3
    then have q: "first_byte b \<in> {3, 4, 5}" "first_byte b = 4 \<longleftrightarrow> b = 0xE0" "first_byte b = 5 \<longleftrightarrow> b = 0xED" by (simp_all add: first_byte_def)
    obtain x1 x0 bs' where t: "bs = (0x80 + x1) # (0x80 + x0) # bs'" "x1 < 64" "x0 < 64" "first_byte b = 4 \<longrightarrow> 32 \<le> x1" "first_byte b = 5 \<longrightarrow> x1 < 32"
      "run 0 bs' = 0" "\<forall>b \<in> set bs'. b < 256" by (rule tail3 [OF r b(2) q(1)])
    have x2: "b - 0xE0 < 16" "b - 0xE0 < 64" "0xE0 + (b - 0xE0) = b" "b - 0xE0 = 0 \<longrightarrow> 32 \<le> x1" "b - 0xE0 = 13 \<longrightarrow> x1 < 32"
      using 3 q t(4,5) by auto
    have "scalar (x0 + 64 * x1 + 4096 * (b - 0xE0)) \<and> utf8_encode (x0 + 64 * x1 + 4096 * (b - 0xE0)) = [0xE0 + (b - 0xE0), 0x80 + x1, 0x80 + x0]"
      by (rule utf8_encode_pieces(2) [OF t(3,2) x2(2,1,4,5)])
    with t x2 show ?thesis by (intro that [of "x0 + 64 * x1 + 4096 * (b - 0xE0)" bs']) simp_all
  next
    case 4
    then have q: "first_byte b \<in> {6, 7, 8}" "first_byte b = 6 \<longleftrightarrow> b = 0xF0" "first_byte b = 8 \<longleftrightarrow> b = 0xF4" by (auto simp: first_byte_def)
    obtain x2 x1 x0 bs' where t: "bs = (0x80 + x2) # (0x80 + x1) # (0x80 + x0) # bs'" "x2 < 64" "x1 < 64" "x0 < 64"
      "first_byte b = 6 \<longrightarrow> 16 \<le> x2" "first_byte b = 8 \<longrightarrow> x2 < 16" "run 0 bs' = 0" "\<forall>b \<in> set bs'. b < 256" by (rule tail4 [OF r b(2) q(1)])
    have x3: "b - 0xF0 < 5" "0xF0 + (b - 0xF0) = b" "b - 0xF0 = 0 \<longrightarrow> 16 \<le> x2" "b - 0xF0 = 4 \<longrightarrow> x2 < 16" using 4 q t(5,6) by auto
    have "scalar (x0 + 64 * x1 + 4096 * x2 + 262144 * (b - 0xF0))
      \<and> utf8_encode (x0 + 64 * x1 + 4096 * x2 + 262144 * (b - 0xF0)) = [0xF0 + (b - 0xF0), 0x80 + x2, 0x80 + x1, 0x80 + x0]"
      by (rule utf8_encode_pieces(3) [OF t(4,3,2) x3(1,3,4)])
    with t x3 show ?thesis by (intro that [of "x0 + 64 * x1 + 4096 * x2 + 262144 * (b - 0xF0)" bs']) simp_all
  qed
qed

lemma accepted_well_formed: "run 0 bs = 0 \<Longrightarrow> \<forall>b \<in> set bs. b < 256 \<Longrightarrow> well_formed bs"
proof (induction bs rule: length_induct)
  case (1 bs)
  show ?case
  proof (cases bs)
    case Nil
    then show ?thesis by (auto simp: well_formed_def intro: exI [of _ "[]"])
  next
    case (Cons b bs1)
    obtain c bs' where c: "scalar c" "bs = utf8_encode c @ bs'" "run 0 bs' = 0" "\<forall>b \<in> set bs'. b < 256" "length bs' < length bs"
      using accepted_prefix [of b bs1] 1(2,3) unfolding Cons by metis
    then obtain cs where "\<forall>c \<in> set cs. scalar c" "bs' = concat (map utf8_encode cs)" using 1(1) unfolding well_formed_def by blast
    with c show ?thesis unfolding well_formed_def by (intro exI [of _ "c # cs"]) simp
  qed
qed

lemma validate_run: "validate s = Inr (run 0 (map unat s) = 0)"
proof -
  obtain v where v: "validator_decode s validator_new = Inr (run 0 (map unat s) \<noteq> 1, v)" "m_state v = run 0 (map unat s)"
    using validator_decode_run [of validator_new s] by (auto simp: validator_new_def utf8_accept_def)
  then show ?thesis by (auto simp: validate_def validator_complete_def utf8_accept_def)
qed

lemma validate_well_formed: "validate s = Inr (well_formed (map unat s))"
proof -
  have "run 0 (map unat s) = 0 \<longleftrightarrow> well_formed (map unat s)"
    using accepted_well_formed [OF _ unat_bytes] run_well_formed unfolding well_formed_def by metis
  then show ?thesis using validate_run by simp
qed

section \<open>Property\<close>

text \<open>
  C36. The validator accepts exactly UTF-8: \<open>validate\<close> always returns, and it returns true exactly for
  the texts that are a sequence of encodings of Unicode scalar values, so surrogates, overlong forms
  and values beyond \<open>10FFFF\<close> are refused.
\<close>

theorem validate_accepts_utf8: "validate s = Inr (well_formed (map unat s))"
  by (rule validate_well_formed)

end
