(* ===== verification/WS_Close.thy ===== *)
theory WS_Close
  imports WS_Bytes WS_Utf8
begin

unbundle bit_operations_syntax

text \<open>
  Close codes and errors of the WebSocket library: \<open>websocketpp/close.hpp\<close>, the library errors
  of \<open>websocketpp/error.hpp\<close> and the processor errors of \<open>websocketpp/processors/base.hpp\<close>. An
  \<open>error_code\<close> that may be unset is an option; the out-parameter \<open>ec\<close> is returned with the
  result. Every processor error is answered with a code that may be sent, and a close payload that is
  taken apart gives the code and the reason it was made of.
\<close>

section \<open>Library errors\<close>

datatype ws_error = general | send_queue_full | payload_violation | endpoint_not_secure | endpoint_unavailable
  | invalid_uri | no_outgoing_buffers | no_incoming_buffers | invalid_state | bad_close_code | reserved_close_code
  | invalid_close_code | invalid_utf8 | invalid_subprotocol | bad_connection | test_error | con_creation_failed
  | unrequested_subprotocol | client_only | server_only | http_connection_ended | open_handshake_timeout
  | close_handshake_timeout | invalid_port | async_accept_not_listening | operation_canceled | rejected
  | upgrade_required | invalid_version | unsupported_version | http_parse_error | extension_neg_failed

fun ws_message :: "ws_error \<Rightarrow> string" where
  "ws_message general = ''Generic error''"
| "ws_message send_queue_full = ''send queue full''"
| "ws_message payload_violation = ''payload violation''"
| "ws_message endpoint_not_secure = ''endpoint not secure''"
| "ws_message endpoint_unavailable = ''endpoint not available''"
| "ws_message invalid_uri = ''invalid uri''"
| "ws_message no_outgoing_buffers = ''no outgoing message buffers''"
| "ws_message no_incoming_buffers = ''no incoming message buffers''"
| "ws_message invalid_state = ''invalid state''"
| "ws_message bad_close_code = ''Unable to extract close code''"
| "ws_message invalid_close_code = ''Extracted close code is in an invalid range''"
| "ws_message reserved_close_code = ''Extracted close code is in a reserved range''"
| "ws_message invalid_utf8 = ''Invalid UTF-8''"
| "ws_message invalid_subprotocol = ''Invalid subprotocol''"
| "ws_message bad_connection = ''Bad Connection''"
| "ws_message test_error = ''Test Error''"
| "ws_message con_creation_failed = ''Connection creation attempt failed''"
| "ws_message unrequested_subprotocol = ''Selected subprotocol was not requested by the client''"
| "ws_message client_only = ''Feature not available on server endpoints''"
| "ws_message server_only = ''Feature not available on client endpoints''"
| "ws_message http_connection_ended = ''HTTP connection ended''"
| "ws_message open_handshake_timeout = ''The opening handshake timed out''"
| "ws_message close_handshake_timeout = ''The closing handshake timed out''"
| "ws_message invalid_port = ''Invalid URI port''"
| "ws_message async_accept_not_listening = ''Async Accept not listening''"
| "ws_message operation_canceled = ''Operation canceled''"
| "ws_message rejected = ''Connection rejected''"
| "ws_message upgrade_required = ''Upgrade required''"
| "ws_message invalid_version = ''Invalid version''"
| "ws_message unsupported_version = ''Unsupported version''"
| "ws_message http_parse_error = ''HTTP parse error''"
| "ws_message extension_neg_failed = ''Extension negotiation failed''"

section \<open>Transport errors\<close>

datatype transport_error = t_general | t_pass_through | t_invalid_num_bytes | t_double_read | t_operation_aborted
  | t_operation_not_supported | t_eof | t_tls_short_read | t_timeout | t_action_after_shutdown | t_tls_error

fun transport_message :: "transport_error \<Rightarrow> string" where
  "transport_message t_general = ''Generic transport policy error''"
| "transport_message t_pass_through = ''Underlying Transport Error''"
| "transport_message t_invalid_num_bytes = ''async_read_at_least call requested more bytes than buffer can store''"
| "transport_message t_operation_aborted = ''The operation was aborted''"
| "transport_message t_operation_not_supported = ''The operation is not supported by this transport''"
| "transport_message t_eof = ''End of File''"
| "transport_message t_tls_short_read = ''TLS Short Read''"
| "transport_message t_timeout = ''Timer Expired''"
| "transport_message t_action_after_shutdown = ''A transport action was requested after shutdown''"
| "transport_message t_tls_error = ''Generic TLS related error''"
| "transport_message t_double_read = ''Unknown''"

section \<open>Processor errors\<close>

datatype proc_error = p_general | p_bad_request | p_protocol_violation | p_message_too_big | p_invalid_payload
  | p_invalid_arguments | p_invalid_opcode | p_control_too_big | p_invalid_rsv_bit | p_fragmented_control
  | p_invalid_continuation | p_masking_required | p_masking_forbidden | p_non_minimal_encoding | p_requires_64bit
  | p_invalid_utf8 | p_not_implemented | p_invalid_http_method | p_invalid_http_version | p_invalid_http_status
  | p_missing_required_header | p_sha1_library | p_no_protocol_support | p_reserved_close_code | p_invalid_close_code
  | p_reason_requires_code | p_subprotocol_parse_error | p_extension_parse_error | p_extensions_disabled | p_short_key3

fun proc_message :: "proc_error \<Rightarrow> string" where
  "proc_message p_general = ''Generic processor error''"
| "proc_message p_bad_request = ''invalid user input''"
| "proc_message p_protocol_violation = ''Generic protocol violation''"
| "proc_message p_message_too_big = ''A message was too large''"
| "proc_message p_invalid_payload = ''A payload contained invalid data''"
| "proc_message p_invalid_arguments = ''invalid function arguments''"
| "proc_message p_invalid_opcode = ''invalid opcode''"
| "proc_message p_control_too_big = ''Control messages are limited to fewer than 125 characters''"
| "proc_message p_invalid_rsv_bit = ''Invalid use of reserved bits''"
| "proc_message p_fragmented_control = ''Control messages cannot be fragmented''"
| "proc_message p_invalid_continuation = ''Invalid message continuation''"
| "proc_message p_masking_required = ''Clients may not send unmasked frames''"
| "proc_message p_masking_forbidden = ''Servers may not send masked frames''"
| "proc_message p_non_minimal_encoding = ''Payload length was not minimally encoded''"
| "proc_message p_requires_64bit = ''64 bit frames are not supported on 32 bit systems''"
| "proc_message p_invalid_utf8 = ''Invalid UTF8 encoding''"
| "proc_message p_not_implemented = ''Operation required not implemented functionality''"
| "proc_message p_invalid_http_method = ''Invalid HTTP method.''"
| "proc_message p_invalid_http_version = ''Invalid HTTP version.''"
| "proc_message p_invalid_http_status = ''Invalid HTTP status.''"
| "proc_message p_missing_required_header = ''A required HTTP header is missing''"
| "proc_message p_sha1_library = ''SHA-1 library error''"
| "proc_message p_no_protocol_support = ''The WebSocket protocol version in use does not support this feature''"
| "proc_message p_reserved_close_code = ''Reserved close code used''"
| "proc_message p_invalid_close_code = ''Invalid close code used''"
| "proc_message p_reason_requires_code = ''Using a close reason requires a valid close code''"
| "proc_message p_subprotocol_parse_error = ''Error parsing subprotocol header''"
| "proc_message p_extension_parse_error = ''Error parsing extension header''"
| "proc_message p_extensions_disabled = ''Extensions are disabled''"
| "proc_message p_short_key3 = ''Short Hybi00 Key 3 read''"

section \<open>Error codes\<close>

text \<open>
  An \<open>error_code\<close> is a value of one of the categories; errors of an extension or of the system
  carry their message.
\<close>

datatype error_code = Lib ws_error | Transport transport_error | Proc proc_error | Other string

fun error_message :: "error_code \<Rightarrow> string" where
  "error_message (Lib e) = ws_message e"
| "error_message (Transport e) = transport_message e"
| "error_message (Proc e) = proc_message e"
| "error_message (Other m) = m"

section \<open>Close codes\<close>

definition blank :: u16 where "blank = 0"
definition omit_handshake :: u16 where "omit_handshake = 1"
definition force_tcp_drop :: u16 where "force_tcp_drop = 2"
definition normal :: u16 where "normal = 1000"
definition going_away :: u16 where "going_away = 1001"
definition protocol_error :: u16 where "protocol_error = 1002"
definition unsupported_data :: u16 where "unsupported_data = 1003"
definition no_status :: u16 where "no_status = 1005"
definition abnormal_close :: u16 where "abnormal_close = 1006"
definition invalid_payload :: u16 where "invalid_payload = 1007"
definition policy_violation :: u16 where "policy_violation = 1008"
definition message_too_big :: u16 where "message_too_big = 1009"
definition extension_required :: u16 where "extension_required = 1010"
definition internal_endpoint_error :: u16 where "internal_endpoint_error = 1011"
definition service_restart :: u16 where "service_restart = 1012"
definition try_again_later :: u16 where "try_again_later = 1013"
definition bad_gateway :: u16 where "bad_gateway = 1014"
definition tls_handshake :: u16 where "tls_handshake = 1015"
definition subprotocol_error :: u16 where "subprotocol_error = 3000"
definition invalid_subprotocol_data :: u16 where "invalid_subprotocol_data = 3001"
definition rsv_start :: u16 where "rsv_start = 1016"
definition rsv_end :: u16 where "rsv_end = 2999"
definition invalid_low :: u16 where "invalid_low = 999"
definition invalid_high :: u16 where "invalid_high = 5000"

lemmas close_codes = blank_def omit_handshake_def force_tcp_drop_def normal_def going_away_def protocol_error_def
  unsupported_data_def no_status_def abnormal_close_def invalid_payload_def policy_violation_def message_too_big_def
  extension_required_def internal_endpoint_error_def service_restart_def try_again_later_def bad_gateway_def
  tls_handshake_def subprotocol_error_def invalid_subprotocol_data_def rsv_start_def rsv_end_def invalid_low_def invalid_high_def

definition reserved_code :: "u16 \<Rightarrow> bool" where
  "reserved_code code \<longleftrightarrow> (code \<ge> rsv_start \<and> code \<le> rsv_end) \<or> code = 1004"

definition invalid_code :: "u16 \<Rightarrow> bool" where
  "invalid_code code \<longleftrightarrow> code \<le> invalid_low \<or> code \<ge> invalid_high \<or> code = no_status \<or> code = abnormal_close \<or> code = tls_handshake"

definition terminal_code :: "u16 \<Rightarrow> bool" where
  "terminal_code code \<longleftrightarrow> code = protocol_error \<or> code = invalid_payload \<or> code = policy_violation
     \<or> code = message_too_big \<or> code = internal_endpoint_error"

definition get_string :: "u16 \<Rightarrow> string" where
  "get_string code =
    (if code = normal then ''Normal close''
     else if code = going_away then ''Going away''
     else if code = protocol_error then ''Protocol error''
     else if code = unsupported_data then ''Unsupported data''
     else if code = no_status then ''No status set''
     else if code = abnormal_close then ''Abnormal close''
     else if code = invalid_payload then ''Invalid payload''
     else if code = policy_violation then ''Policy violoation''
     else if code = message_too_big then ''Message too big''
     else if code = extension_required then ''Extension required''
     else if code = internal_endpoint_error then ''Internal endpoint error''
     else if code = service_restart then ''Service restart''
     else if code = try_again_later then ''Try again later''
     else if code = bad_gateway then ''Bad gateway''
     else if code = tls_handshake then ''TLS handshake failure''
     else if code = subprotocol_error then ''Generic subprotocol error''
     else if code = invalid_subprotocol_data then ''Invalid subprotocol data''
     else ''Unknown'')"

text \<open>Taking a close payload apart.\<close>

definition extract_code :: "u8 list \<Rightarrow> u16 \<times> error_code option" where
  "extract_code payload =
    (if length payload = 0 then (no_status, None)
     else if length payload = 1 then (protocol_error, Some (Lib bad_close_code))
     else
       let code = ntohs (of_mem_bytes [payload ! 0, payload ! 1]);
           ec = None;
           ec = (if invalid_code code then Some (Lib invalid_close_code) else ec);
           ec = (if reserved_code code then Some (Lib reserved_close_code) else ec)
       in (code, ec))"

definition extract_reason :: "u8 list \<Rightarrow> (u8 list \<times> error_code option) res" where
  "extract_reason payload =
    (let reason = (if length payload > 2 then drop 2 payload else []) in
     bind_res (validate reason) (\<lambda>ok. Inr (reason, if ok then None else Some (Lib invalid_utf8))))"

text \<open>The close code that answers a processor error.\<close>

fun to_ws :: "error_code \<Rightarrow> u16" where
  "to_ws (Proc e) =
    (if e \<in> {p_protocol_violation, p_control_too_big, p_invalid_opcode, p_invalid_rsv_bit, p_fragmented_control,
             p_invalid_continuation, p_masking_required, p_masking_forbidden, p_reserved_close_code, p_invalid_close_code}
     then protocol_error
     else if e \<in> {p_invalid_payload, p_invalid_utf8} then invalid_payload
     else if e = p_message_too_big then message_too_big
     else internal_endpoint_error)"
| "to_ws _ = blank"

section \<open>Facts\<close>

lemma to_ws_sendable:
  "\<not> reserved_code (to_ws (Proc e))" "\<not> invalid_code (to_ws (Proc e))" "terminal_code (to_ws (Proc e))" "to_ws (Proc e) \<noteq> blank"
  by (simp_all add: reserved_code_def invalid_code_def terminal_code_def close_codes)

lemma proc_message_short: "length (proc_message e) \<le> 123"
  by (cases e) simp_all

text \<open>A payload made of a code and a reason.\<close>

definition close_payload :: "u16 \<Rightarrow> u8 list \<Rightarrow> u8 list" where
  "close_payload code reason = mem_bytes 2 (htons code) @ reason"

lemma extract_code_payload:
  "extract_code (close_payload code reason)
    = (code, if reserved_code code then Some (Lib reserved_close_code) else if invalid_code code then Some (Lib invalid_close_code) else None)"
proof -
  let ?p = "close_payload code reason"
  have "[?p ! 0, ?p ! 1] = mem_bytes 2 (htons code)" by (simp add: close_payload_def mem_bytes_def upt_conv_Cons)
  then have "ntohs (of_mem_bytes [?p ! 0, ?p ! 1]) = code" by (simp add: of_mem_bytes_inverse ntohs_htons)
  then show ?thesis by (simp add: extract_code_def close_payload_def [of code reason, THEN arg_cong [of _ _ length]] Let_def)
qed

lemma extract_reason_payload:
  "extract_reason (close_payload code reason) = Inr (reason, if well_formed (map unat reason) then None else Some (Lib invalid_utf8))"
proof -
  have "(if length (close_payload code reason) > 2 then drop 2 (close_payload code reason) else []) = reason"
    by (cases reason) (simp_all add: close_payload_def)
  then show ?thesis by (simp add: extract_reason_def validate_well_formed)
qed

end
