(* ===== verification/WS_Hybi13.thy ===== *)
theory WS_Hybi13
  imports WS_Frame WS_Close
begin

unbundle bit_operations_syntax

text \<open>
  The RFC 6455 processor of \<open>websocketpp/processors/hybi13.hpp\<close> with the message buffers of
  \<open>websocketpp/message_buffer/message.hpp\<close>: reading frames from chunks of bytes, with control frames
  between the fragments of a message, and writing frames. The compression extension is an argument:
  whether it is enabled, and how it compresses and decompresses. The random masking key of a frame is
  an argument as well. A chunk is the list of its unread bytes; the code unmasks the bytes it has read
  in place, and nothing reads them there again. Sizes that come from the network are 64-bit words.
\<close>

section \<open>Messages\<close>

record message =
  m_header :: "u8 list"
  m_extension_data :: "u8 list"
  m_payload :: "u8 list"
  m_opcode :: opcode
  m_prepared :: bool
  m_fin :: bool
  m_terminal :: bool
  m_compressed :: bool

text \<open>The opcode of an empty message is not initialised; preparing a frame in it sets it.\<close>

definition message_empty :: message where
  "message_empty = \<lparr>m_header = [], m_extension_data = [], m_payload = [], m_opcode = CONTINUATION,
     m_prepared = False, m_fin = True, m_terminal = False, m_compressed = False\<rparr>"

definition message_new :: "opcode \<Rightarrow> message" where
  "message_new op = \<lparr>m_header = [], m_extension_data = [], m_payload = [], m_opcode = op,
     m_prepared = False, m_fin = True, m_terminal = False, m_compressed = False\<rparr>"

section \<open>The extension\<close>

record 'z deflate =
  is_enabled :: "'z \<Rightarrow> bool"
  compress :: "u8 list \<Rightarrow> u8 list \<Rightarrow> 'z \<Rightarrow> error_code option \<times> u8 list \<times> 'z"
  decompress :: "u8 list \<Rightarrow> u8 list \<Rightarrow> 'z \<Rightarrow> error_code option \<times> u8 list \<times> 'z"

text \<open>The extension that is compiled in by default does nothing.\<close>

definition disabled :: "unit deflate" where
  "disabled = \<lparr>is_enabled = (\<lambda>_. False), compress = (\<lambda>i out z. (Some (Other ''Use of methods from disabled extension''), out, z)),
     decompress = (\<lambda>i out z. (Some (Other ''Use of methods from disabled extension''), out, z))\<rparr>"

section \<open>Processor state\<close>

datatype hstate = HEADER_BASIC | HEADER_EXTENDED | EXTENSION | APPLICATION | READY | FATAL_ERROR

record msg_metadata =
  msg_ptr :: "message option"
  prepared_key :: u64
  msg_validator :: validator

text \<open>The key of an empty record is not initialised; it is set with the message.\<close>

definition msg_metadata_empty :: msg_metadata where
  "msg_metadata_empty = \<lparr>msg_ptr = None, prepared_key = 0, msg_validator = validator_new\<rparr>"

definition msg_metadata_new :: "message \<Rightarrow> u32 \<Rightarrow> msg_metadata" where
  "msg_metadata_new m p = \<lparr>msg_ptr = Some m, prepared_key = prepare_masking_key p, msg_validator = validator_new\<rparr>"

datatype current = Data_Msg | Control_Msg

record 'z hybi13 =
  m_server :: bool
  m_max_message_size :: u64
  m_basic_header :: basic_header
  m_bytes_needed :: u64
  m_cursor :: nat
  m_data_msg :: msg_metadata
  m_control_msg :: msg_metadata
  m_current_msg :: "current option"
  m_extended_header :: extended_header
  m_hstate :: hstate
  m_permessage_deflate :: 'z

definition reset_headers :: "'z hybi13 \<Rightarrow> 'z hybi13" where
  "reset_headers s = s\<lparr>m_hstate := HEADER_BASIC, m_bytes_needed := 2, m_basic_header := \<lparr>b0 = 0, b1 = 0\<rparr>,
     m_extended_header := extended_header_zero\<rparr>"

definition hybi13_new :: "bool \<Rightarrow> u64 \<Rightarrow> 'z \<Rightarrow> 'z hybi13" where
  "hybi13_new server max_size z = reset_headers \<lparr>m_server = server, m_max_message_size = max_size,
     m_basic_header = \<lparr>b0 = 0, b1 = 0\<rparr>, m_bytes_needed = 0, m_cursor = 0, m_data_msg = msg_metadata_empty,
     m_control_msg = msg_metadata_empty, m_current_msg = None, m_extended_header = extended_header_zero,
     m_hstate = HEADER_BASIC, m_permessage_deflate = z\<rparr>"

text \<open>\<open>m_current_msg\<close> points to one of the two records; it is not set before the first frame.\<close>

definition current_msg :: "'z hybi13 \<Rightarrow> msg_metadata res" where
  "current_msg s = (case m_current_msg s of None \<Rightarrow> Inl Null_Deref | Some Data_Msg \<Rightarrow> Inr (m_data_msg s) | Some Control_Msg \<Rightarrow> Inr (m_control_msg s))"

definition set_current_msg :: "msg_metadata \<Rightarrow> 'z hybi13 \<Rightarrow> 'z hybi13" where
  "set_current_msg md s =
    (case m_current_msg s of None \<Rightarrow> s | Some Data_Msg \<Rightarrow> s\<lparr>m_data_msg := md\<rparr> | Some Control_Msg \<Rightarrow> s\<lparr>m_control_msg := md\<rparr>)"

definition the_msg :: "msg_metadata \<Rightarrow> message res" where
  "the_msg md = (case msg_ptr md of None \<Rightarrow> Inl Null_Deref | Some m \<Rightarrow> Inr m)"

section \<open>Validation of headers\<close>

definition validate_incoming_basic_header :: "'z deflate \<Rightarrow> 'z hybi13 \<Rightarrow> basic_header \<Rightarrow> bool \<Rightarrow> bool \<Rightarrow> error_code option" where
  "validate_incoming_basic_header df s h is_server new_msg =
    (let op = get_opcode h in
     if is_control op \<and> ucast (get_basic_size h) > payload_size_basic then Some (Proc p_control_too_big)
     else if get_rsv1 h \<and> (\<not> is_enabled df (m_permessage_deflate s) \<or> is_control op) then Some (Proc p_invalid_rsv_bit)
     else if get_rsv2 h \<or> get_rsv3 h then Some (Proc p_invalid_rsv_bit)
     else if reserved_op op then Some (Proc p_invalid_opcode)
     else if invalid_op op then Some (Proc p_invalid_opcode)
     else if is_control op \<and> \<not> get_fin h then Some (Proc p_fragmented_control)
     else if new_msg \<and> op = CONTINUATION then Some (Proc p_invalid_continuation)
     else if \<not> new_msg \<and> \<not> is_control op \<and> op \<noteq> CONTINUATION then Some (Proc p_invalid_continuation)
     else if is_server \<and> \<not> get_masked h then Some (Proc p_masking_required)
     else if \<not> is_server \<and> get_masked h then Some (Proc p_masking_forbidden)
     else None)"

text \<open>The test for more than 32 bits is for machines with four-byte sizes.\<close>

definition validate_incoming_extended_header :: "basic_header \<Rightarrow> extended_header \<Rightarrow> error_code option" where
  "validate_incoming_extended_header h e =
    (let basic_size = get_basic_size h; payload_size = get_payload_size h e in
     if basic_size = payload_size_code_16bit \<and> payload_size \<le> payload_size_basic then Some (Proc p_non_minimal_encoding)
     else if basic_size = payload_size_code_64bit \<and> payload_size \<le> payload_size_extended then Some (Proc p_non_minimal_encoding)
     else None)"

section \<open>Reading\<close>

fun copy_basic_header_bytes :: "u8 list \<Rightarrow> 'z hybi13 \<Rightarrow> u8 list \<times> 'z hybi13" where
  "copy_basic_header_bytes [] s = ([], s)"
| "copy_basic_header_bytes [x] s =
    (if m_bytes_needed s = 0 then ([x], s)
     else if m_bytes_needed s = 2 then ([], s\<lparr>m_basic_header := (m_basic_header s)\<lparr>b0 := x\<rparr>, m_bytes_needed := m_bytes_needed s - 1\<rparr>)
     else ([], s\<lparr>m_basic_header := (m_basic_header s)\<lparr>b1 := x\<rparr>, m_bytes_needed := m_bytes_needed s - 1\<rparr>))"
| "copy_basic_header_bytes (x # y # buf) s =
    (if m_bytes_needed s = 0 then (x # y # buf, s)
     else if m_bytes_needed s = 2 then (buf, s\<lparr>m_basic_header := \<lparr>b0 = x, b1 = y\<rparr>, m_bytes_needed := m_bytes_needed s - 2\<rparr>)
     else (y # buf, s\<lparr>m_basic_header := (m_basic_header s)\<lparr>b1 := x\<rparr>, m_bytes_needed := m_bytes_needed s - 1\<rparr>))"

definition copy_extended_header_bytes :: "u8 list \<Rightarrow> 'z hybi13 \<Rightarrow> (u8 list \<times> 'z hybi13) res" where
  "copy_extended_header_bytes buf s =
    (let n = min (unat (m_bytes_needed s)) (length buf) in
     bind_res (store_bytes (m_cursor s) (take n buf) (ext_bytes (m_extended_header s))) (\<lambda>bs.
     Inr (drop n buf, s\<lparr>m_extended_header := \<lparr>ext_bytes = bs\<rparr>, m_cursor := m_cursor s + n,
                        m_bytes_needed := m_bytes_needed s - of_nat n\<rparr>)))"

text \<open>
  The bytes of the payload: they are unmasked in place, decompressed or copied behind the message, and
  checked if the message is a text.
\<close>

definition process_payload_bytes :: "'z deflate \<Rightarrow> u8 list \<Rightarrow> 'z hybi13 \<Rightarrow> (error_code option \<times> 'z hybi13) res" where
  "process_payload_bytes df buf s =
    bind_res (current_msg s) (\<lambda>md.
    bind_res (if get_masked (m_basic_header s) then byte_mask_circ 0 0 (length buf) (prepared_key md) buf else Inr (prepared_key md, buf)) (\<lambda>(key, buf).
    bind_res (the_msg md) (\<lambda>m.
    let offset = length (m_payload m);
        (ec, out, z) = (if is_enabled df (m_permessage_deflate s) \<and> m_compressed m
                        then decompress df buf (m_payload m) (m_permessage_deflate s)
                        else (None, m_payload m @ buf, m_permessage_deflate s));
        md = md\<lparr>msg_ptr := Some (m\<lparr>m_payload := out\<rparr>), prepared_key := key\<rparr>;
        s = (set_current_msg md s)\<lparr>m_permessage_deflate := z\<rparr>
    in case ec of Some e \<Rightarrow> Inr (Some e, s)
       | None \<Rightarrow>
         bind_res (if m_opcode m = TEXT then validator_decode (drop offset out) (msg_validator md) else Inr (True, msg_validator md)) (\<lambda>(ok, v).
         let s = set_current_msg (md\<lparr>msg_validator := v\<rparr>) s in
         if \<not> ok then Inr (Some (Proc p_invalid_utf8), s)
         else Inr (None, s\<lparr>m_bytes_needed := m_bytes_needed s - of_nat (length buf)\<rparr>)))))"

definition finalize_message :: "'z deflate \<Rightarrow> 'z hybi13 \<Rightarrow> (error_code option \<times> 'z hybi13) res" where
  "finalize_message df s =
    bind_res (current_msg s) (\<lambda>md.
    bind_res (the_msg md) (\<lambda>m.
    let (ec, out, z) = (if is_enabled df (m_permessage_deflate s) \<and> m_compressed m
                        then decompress df [0x00, 0x00, 0xff, 0xff] (m_payload m) (m_permessage_deflate s)
                        else (None, m_payload m, m_permessage_deflate s));
        s = (set_current_msg (md\<lparr>msg_ptr := Some (m\<lparr>m_payload := out\<rparr>)\<rparr>) s)\<lparr>m_permessage_deflate := z\<rparr>
    in case ec of Some e \<Rightarrow> Inr (Some e, s)
       | None \<Rightarrow>
         if get_opcode (m_basic_header s) = TEXT \<and> \<not> validator_complete (msg_validator md)
         then Inr (Some (Proc p_invalid_utf8), s)
         else Inr (None, s\<lparr>m_hstate := READY\<rparr>)))"

text \<open>The start of the payload of a frame: the message it goes to.\<close>

definition begin_payload :: "'z deflate \<Rightarrow> 'z hybi13 \<Rightarrow> (error_code option \<times> 'z hybi13) res" where
  "begin_payload df s =
    (let s = s\<lparr>m_hstate := APPLICATION, m_bytes_needed := get_payload_size (m_basic_header s) (m_extended_header s)\<rparr>;
         op = get_opcode (m_basic_header s);
         key = get_masking_key (m_basic_header s) (m_extended_header s)
     in if is_control op then
          Inr (None, s\<lparr>m_control_msg := msg_metadata_new (message_new op) key, m_current_msg := Some Control_Msg\<rparr>)
        else case msg_ptr (m_data_msg s) of
          None \<Rightarrow>
            if m_bytes_needed s > m_max_message_size s then Inr (Some (Proc p_message_too_big), s)
            else
              let m = message_new op;
                  m = (if is_enabled df (m_permessage_deflate s) then m\<lparr>m_compressed := get_rsv1 (m_basic_header s)\<rparr> else m)
              in Inr (None, s\<lparr>m_data_msg := msg_metadata_new m key, m_current_msg := Some Data_Msg\<rparr>)
        | Some m \<Rightarrow>
            if of_nat (length (m_payload m)) + m_bytes_needed s > m_max_message_size s then Inr (Some (Proc p_message_too_big), s)
            else Inr (None, s\<lparr>m_data_msg := (m_data_msg s)\<lparr>prepared_key := prepare_masking_key key\<rparr>, m_current_msg := Some Data_Msg\<rparr>))"

text \<open>
  One round of the loop of \<open>consume\<close>: the error that ends it, the new state and the bytes that are
  still unread.
\<close>

definition consume_round :: "'z deflate \<Rightarrow> 'z hybi13 \<Rightarrow> u8 list \<Rightarrow> (error_code option \<times> 'z hybi13 \<times> u8 list) res" where
  "consume_round df s buf =
    (case m_hstate s of
       HEADER_BASIC \<Rightarrow>
         let (buf, s) = copy_basic_header_bytes buf s in
         if m_bytes_needed s > 0 then Inr (None, s, buf)
         else (case validate_incoming_basic_header df s (m_basic_header s) (m_server s) (msg_ptr (m_data_msg s) = None) of
             Some e \<Rightarrow> Inr (Some e, s, buf)
           | None \<Rightarrow> Inr (None, s\<lparr>m_hstate := HEADER_EXTENDED, m_cursor := 0,
                               m_bytes_needed := of_nat (get_header_len (m_basic_header s) - 2)\<rparr>, buf))
     | HEADER_EXTENDED \<Rightarrow>
         bind_res (copy_extended_header_bytes buf s) (\<lambda>(buf, s).
         if m_bytes_needed s > 0 then Inr (None, s, buf)
         else (case validate_incoming_extended_header (m_basic_header s) (m_extended_header s) of
             Some e \<Rightarrow> Inr (Some e, s, buf)
           | None \<Rightarrow> bind_res (begin_payload df s) (\<lambda>(ec, s). Inr (ec, s, buf))))
     | EXTENSION \<Rightarrow> Inr (None, s\<lparr>m_hstate := APPLICATION\<rparr>, buf)
     | APPLICATION \<Rightarrow>
         let n = min (unat (m_bytes_needed s)) (length buf) in
         bind_res (if n > 0 then process_payload_bytes df (take n buf) s else Inr (None, s)) (\<lambda>(ec, s).
         case ec of Some e \<Rightarrow> Inr (Some e, s, buf)
         | None \<Rightarrow>
           let buf = drop n buf in
           if m_bytes_needed s > 0 then Inr (None, s, buf)
           else if get_fin (m_basic_header s) then bind_res (finalize_message df s) (\<lambda>(ec, s). Inr (ec, s, buf))
           else Inr (None, reset_headers s, buf))
     | _ \<Rightarrow> Inr (Some (Proc p_general), s, buf))"

definition consuming :: "'z hybi13 \<Rightarrow> u8 list \<Rightarrow> bool" where
  "consuming s buf \<longleftrightarrow> m_hstate s \<noteq> READY \<and> m_hstate s \<noteq> FATAL_ERROR \<and> (buf \<noteq> [] \<or> m_bytes_needed s = 0)"

text \<open>
  The loop ends because every round reads a byte or comes closer to a state that has to: the rank of a
  state is the number of rounds that may pass without reading.
\<close>

definition state_rank :: "'z hybi13 \<Rightarrow> nat" where
  "state_rank s = (case m_hstate s of HEADER_BASIC \<Rightarrow> if m_bytes_needed s = 0 then 4 else 0 | HEADER_EXTENDED \<Rightarrow> 3 | EXTENSION \<Rightarrow> 2 | APPLICATION \<Rightarrow> 1 | _ \<Rightarrow> 0)"

lemma state_rank_le: "state_rank s \<le> 4"
  by (simp add: state_rank_def split: hstate.split)

lemma copy_basic_progress:
  assumes "copy_basic_header_bytes buf s = (buf', s')"
  shows "length buf' \<le> length buf" "m_bytes_needed s \<noteq> 0 \<Longrightarrow> buf \<noteq> [] \<Longrightarrow> length buf' < length buf"
    "m_bytes_needed s = 0 \<Longrightarrow> buf' = buf \<and> s' = s"
  using assms by (cases "(buf, s)" rule: copy_basic_header_bytes.cases; auto split: if_splits)+

lemma begin_payload_state: "begin_payload df s = Inr (ec, s') \<Longrightarrow> m_hstate s' = APPLICATION"
  by (auto simp: begin_payload_def Let_def split: if_splits option.splits)

lemma finalize_state: "finalize_message df s = Inr (None, s') \<Longrightarrow> m_hstate s' = READY"
  by (auto simp: finalize_message_def bind_res_eq_Inr_iff Let_def split: if_splits option.splits prod.splits)

lemma consume_round_progress:
  assumes "consuming s buf" "consume_round df s buf = Inr (None, s', buf')"
  shows "5 * length buf' + state_rank s' < 5 * length buf + state_rank s"
proof (cases "m_hstate s")
  case HEADER_BASIC
  obtain buf1 s1 where c: "copy_basic_header_bytes buf s = (buf1, s1)" by fastforce
  have b: "buf' = buf1" "m_bytes_needed s = 0 \<longrightarrow> m_hstate s' = HEADER_EXTENDED"
    using assms(2) HEADER_BASIC c copy_basic_progress(3) [OF c] by (auto simp: consume_round_def split: if_splits option.splits)
  show ?thesis
  proof (cases "m_bytes_needed s = 0")
    case True
    then show ?thesis using b copy_basic_progress(3) [OF c] HEADER_BASIC by (simp add: state_rank_def)
  next
    case False
    then show ?thesis using b copy_basic_progress(2) [OF c] assms(1) state_rank_le [of s'] by (simp add: consuming_def)
  qed
next
  case HEADER_EXTENDED
  let ?n = "min (unat (m_bytes_needed s)) (length buf)"
  obtain buf1 s1 where c: "copy_extended_header_bytes buf s = Inr (buf1, s1)"
    using assms(2) HEADER_EXTENDED by (auto simp: consume_round_def bind_res_eq_Inr_iff)
  then have b1: "buf1 = drop ?n buf" "m_bytes_needed s1 = m_bytes_needed s - of_nat ?n"
    by (auto simp: copy_extended_header_bytes_def bind_res_eq_Inr_iff Let_def)
  have b: "buf' = buf1" "m_bytes_needed s1 = 0 \<longrightarrow> m_hstate s' = APPLICATION"
    using assms(2) HEADER_EXTENDED c by (auto simp: consume_round_def bind_res_eq_Inr_iff split: if_splits option.splits dest: begin_payload_state)
  show ?thesis
  proof (cases "m_bytes_needed s = 0")
    case True
    then show ?thesis using b b1 HEADER_EXTENDED by (simp add: state_rank_def)
  next
    case False
    then have "0 < ?n" using assms(1) by (simp add: consuming_def unat_gt_0)
    then have "length buf' < length buf" using b(1) b1(1) by simp
    then show ?thesis using state_rank_le [of s'] by simp
  qed
next
  case EXTENSION
  then show ?thesis using assms(2) by (auto simp: consume_round_def state_rank_def)
next
  case APPLICATION
  let ?n = "min (unat (m_bytes_needed s)) (length buf)"
  have b: "buf' = drop ?n buf" using assms(2) APPLICATION
    by (auto simp: consume_round_def Let_def bind_res_eq_Inr_iff split: if_splits option.splits prod.splits)
  show ?thesis
  proof (cases "m_bytes_needed s = 0")
    case True
    then have "m_hstate s' = READY \<or> m_hstate s' = HEADER_BASIC \<and> m_bytes_needed s' = 2"
      using assms(2) APPLICATION by (auto simp: consume_round_def Let_def bind_res_eq_Inr_iff reset_headers_def split: if_splits dest: finalize_state)
    then show ?thesis using b True APPLICATION by (auto simp: state_rank_def)
  next
    case False
    then have "0 < ?n" using assms(1) by (simp add: consuming_def unat_gt_0)
    then have "length buf' < length buf" using b by simp
    then show ?thesis using state_rank_le [of s'] by simp
  qed
qed (use assms in \<open>simp_all add: consuming_def\<close>)

function consume_loop :: "'z deflate \<Rightarrow> 'z hybi13 \<Rightarrow> u8 list \<Rightarrow> (error_code option \<times> 'z hybi13 \<times> u8 list) res" where
  "consume_loop df s buf =
    (if consuming s buf then
       bind_res (consume_round df s buf) (\<lambda>(ec, s', buf').
       case ec of Some e \<Rightarrow> Inr (Some e, s', buf') | None \<Rightarrow> consume_loop df s' buf')
     else Inr (None, s, buf))"
  by pat_completeness auto
termination
  by (relation "measure (\<lambda>(df, s, buf). 5 * length buf + state_rank s)") (auto dest: consume_round_progress)

declare consume_loop.simps [simp del]

definition consume :: "'z deflate \<Rightarrow> u8 list \<Rightarrow> 'z hybi13 \<Rightarrow> (nat \<times> error_code option \<times> 'z hybi13) res" where
  "consume df buf s = bind_res (consume_loop df s buf) (\<lambda>(ec, s', buf'). Inr (length buf - length buf', ec, s'))"

definition ready :: "'z hybi13 \<Rightarrow> bool" where
  "ready s \<longleftrightarrow> m_hstate s = READY"

definition get_message :: "'z hybi13 \<Rightarrow> (message option \<times> 'z hybi13) res" where
  "get_message s =
    (if \<not> ready s then Inr (None, s)
     else bind_res (current_msg s) (\<lambda>md.
       bind_res (the_msg md) (\<lambda>ret.
       let s = set_current_msg (md\<lparr>msg_ptr := None\<rparr>) s;
           s = (if is_control (m_opcode ret) then s\<lparr>m_control_msg := (m_control_msg s)\<lparr>msg_ptr := None\<rparr>\<rparr>
                else s\<lparr>m_data_msg := (m_data_msg s)\<lparr>msg_ptr := None\<rparr>\<rparr>)
       in Inr (Some ret, reset_headers s))))"

definition get_error :: "'z hybi13 \<Rightarrow> bool" where
  "get_error s \<longleftrightarrow> m_hstate s = FATAL_ERROR"

definition get_bytes_needed :: "'z hybi13 \<Rightarrow> u64" where
  "get_bytes_needed s = m_bytes_needed s"

section \<open>Writing\<close>

definition masked_copy :: "u8 list \<Rightarrow> u32 \<Rightarrow> u8 list" where
  "masked_copy i key = byte_mask i key 0"

text \<open>The result of preparing a frame: an error, or the message that is ready to be written.\<close>

definition prepare_data_frame :: "'z deflate \<Rightarrow> u32 \<Rightarrow> message option \<Rightarrow> message option \<Rightarrow> 'z hybi13
    \<Rightarrow> (error_code option \<times> message option \<times> 'z hybi13) res" where
  "prepare_data_frame df rng inp outp s =
    (case (inp, outp) of
       (Some i, Some out) \<Rightarrow>
         let op = m_opcode i in
         if is_control op then Inr (Some (Proc p_invalid_opcode), outp, s)
         else bind_res (if op = TEXT then validate (m_payload i) else Inr True) (\<lambda>valid.
         if \<not> valid then Inr (Some (Proc p_invalid_payload), outp, s)
         else
           let masked = \<not> m_server s;
               compressed = is_enabled df (m_permessage_deflate s) \<and> m_compressed i;
               fin = m_fin i;
               key = (if masked then rng else 0)
           in if compressed then
                let (_, c, z) = compress df (m_payload i) (m_payload out) (m_permessage_deflate s);
                    s = s\<lparr>m_permessage_deflate := z\<rparr>
                in if length c < 4 then Inr (Some (Proc p_general), Some (out\<lparr>m_payload := c\<rparr>), s)
                   else
                     let c = take (length c - 4) c;
                         c = (if masked then masked_copy c key else c);
                         h = basic_header_new op (of_nat (length c)) fin masked compressed False False;
                         e = (if masked then extended_header_key (of_nat (length c)) key else extended_header_size (of_nat (length c)))
                     in Inr (None, Some (out\<lparr>m_payload := c, m_header := prepare_header h e, m_prepared := True, m_opcode := op\<rparr>), s)
              else
                let c = (if masked then masked_copy (m_payload i) key else m_payload i);
                    h = basic_header_new op (of_nat (length c)) fin masked compressed False False;
                    e = (if masked then extended_header_key (of_nat (length c)) key else extended_header_size (of_nat (length c)))
                in Inr (None, Some (out\<lparr>m_payload := c, m_header := prepare_header h e, m_prepared := True, m_opcode := op\<rparr>), s))
     | _ \<Rightarrow> Inr (Some (Proc p_invalid_arguments), outp, s))"

definition prepare_control :: "u32 \<Rightarrow> opcode \<Rightarrow> u8 list \<Rightarrow> message option \<Rightarrow> 'z hybi13 \<Rightarrow> error_code option \<times> message option" where
  "prepare_control rng op payload outp s =
    (case outp of None \<Rightarrow> (Some (Proc p_invalid_arguments), outp)
     | Some out \<Rightarrow>
       if \<not> is_control op then (Some (Proc p_invalid_opcode), outp)
       else if length payload > 125 then (Some (Proc p_control_too_big), outp)
       else
         let masked = \<not> m_server s;
             h = basic_header_new op (of_nat (length payload)) True masked False False False
         in if masked then
              let e = extended_header_key (of_nat (length payload)) rng
              in (None, Some (out\<lparr>m_header := prepare_header h e, m_payload := masked_copy payload rng, m_opcode := op, m_prepared := True\<rparr>))
            else
              let e = extended_header_size (of_nat (length payload))
              in (None, Some (out\<lparr>m_header := prepare_header h e, m_payload := payload, m_opcode := op, m_prepared := True\<rparr>)))"

definition prepare_ping :: "u32 \<Rightarrow> u8 list \<Rightarrow> message option \<Rightarrow> 'z hybi13 \<Rightarrow> error_code option \<times> message option" where
  "prepare_ping rng payload out s = prepare_control rng PING payload out s"

definition prepare_pong :: "u32 \<Rightarrow> u8 list \<Rightarrow> message option \<Rightarrow> 'z hybi13 \<Rightarrow> error_code option \<times> message option" where
  "prepare_pong rng payload out s = prepare_control rng PONG payload out s"

definition prepare_close :: "u32 \<Rightarrow> u16 \<Rightarrow> u8 list \<Rightarrow> message option \<Rightarrow> 'z hybi13 \<Rightarrow> error_code option \<times> message option" where
  "prepare_close rng code reason out s =
    (if reserved_code code then (Some (Proc p_reserved_close_code), out)
     else if invalid_code code \<and> code \<noteq> no_status then (Some (Proc p_invalid_close_code), out)
     else if code = no_status \<and> length reason > 0 then (Some (Proc p_reason_requires_code), out)
     else if length reason > 125 - 2 then (Some (Proc p_control_too_big), out)
     else
       let payload = (if code \<noteq> no_status then mem_bytes 2 (htons code) @ reason else [])
       in prepare_control rng CLOSE payload out s)"

end
