(* ===== verification/WS_Stream.thy ===== *)
theory WS_Stream
  imports WS_Hybi13
begin

unbundle bit_operations_syntax

text \<open>
  Reading is independent of how the bytes arrive: the processor gives the same messages and the same
  error for one chunk as for its pieces. The proof follows the loop: a round on a longer chunk is the
  round on the shorter one, or that round and the next one together. The loop itself always ends.
\<close>

section \<open>Outcomes\<close>

text \<open>Two runs have the same outcome when both fail with the same error or both give the same result.\<close>

definition same_outcome :: "('e option \<times> 'a) res \<Rightarrow> ('e option \<times> 'a) res \<Rightarrow> bool" where
  "same_outcome r r' \<longleftrightarrow> (case r of Inl f \<Rightarrow> r' = Inl f | Inr (Some e, _) \<Rightarrow> (\<exists>x. r' = Inr (Some e, x)) | Inr (None, x) \<Rightarrow> r' = r)"

lemma same_outcome_refl [simp]: "same_outcome r r"
  by (auto simp: same_outcome_def split: sum.split option.split)

lemma same_outcome_trans: "same_outcome a b \<Longrightarrow> same_outcome b c \<Longrightarrow> same_outcome a c"
  by (auto simp: same_outcome_def split: sum.splits option.splits prod.splits)

lemma same_outcome_sym: "same_outcome a b \<Longrightarrow> same_outcome b a"
  by (auto simp: same_outcome_def split: sum.splits option.splits prod.splits)

lemma same_outcome_simps [simp]:
  "same_outcome (Inl f) r \<longleftrightarrow> r = Inl f"
  "same_outcome (Inr (Some e, x)) r \<longleftrightarrow> (\<exists>y. r = Inr (Some e, y))"
  "same_outcome (Inr (None, x)) r \<longleftrightarrow> r = Inr (None, x)"
  by (simp_all add: same_outcome_def)

text \<open>Going on after a step that may have failed.\<close>

definition and_then :: "('e option \<times> 'a) res \<Rightarrow> ('a \<Rightarrow> ('e option \<times> 'a) res) \<Rightarrow> ('e option \<times> 'a) res" where
  "and_then r f = bind_res r (\<lambda>(ec, x). case ec of Some e \<Rightarrow> Inr (Some e, x) | None \<Rightarrow> f x)"

lemma and_then_simps [simp]:
  "and_then (Inl e) f = Inl e" "and_then (Inr (Some e', x)) f = Inr (Some e', x)" "and_then (Inr (None, x)) f = f x"
  by (simp_all add: and_then_def)

lemma same_outcome_and_then:
  assumes "same_outcome r r'" "\<And>x. r = Inr (None, x) \<Longrightarrow> same_outcome (f x) (g x)"
  shows "same_outcome (and_then r f) (and_then r' g)"
proof (cases r)
  case (Inl a)
  then show ?thesis using assms(1) by simp
next
  case (Inr b)
  then obtain ec x where r: "r = Inr (ec, x)" by (cases b) simp
  then show ?thesis using assms by (cases ec) auto
qed

lemma outcome_cases:
  obtains (Fault) f where "r = Inl f" | (Error) e x where "r = Inr (Some e, x)" | (Fine) x where "r = Inr (None, x)"
proof (cases r)
  case (Inr b)
  then show ?thesis using that by (cases b; cases "fst b") auto
qed (use that in blast)

lemma consume_loop_unfold: "consuming s buf \<Longrightarrow> consume_loop df s buf = and_then (consume_round df s buf) (\<lambda>(s', buf'). consume_loop df s' buf')"
  by (subst consume_loop.simps) (auto simp: and_then_def intro!: arg_cong [of _ _ "bind_res _"] split: option.split)

lemma consume_loop_stop: "\<not> consuming s buf \<Longrightarrow> consume_loop df s buf = Inr (None, s, buf)"
  by (subst consume_loop.simps) simp

section \<open>Masking keys\<close>

definition key_ok :: "u64 \<Rightarrow> bool" where
  "key_ok w \<longleftrightarrow> (\<exists>k p. key_phase w k p)"

definition keys_ok :: "'z hybi13 \<Rightarrow> bool" where
  "keys_ok s \<longleftrightarrow> key_ok (prepared_key (m_data_msg s)) \<and> key_ok (prepared_key (m_control_msg s))"

lemma key_ok_intros: "key_ok 0" "key_ok (prepare_masking_key k)"
proof -
  have "key_phase 0 0 0" by (simp add: key_phase_def nth_mem_bytes)
  then show "key_ok 0" unfolding key_ok_def by blast
  show "key_ok (prepare_masking_key k)" unfolding key_ok_def using prepare_masking_key_phase by blast
qed

lemma current_msg_key: "current_msg s = Inr md \<Longrightarrow> keys_ok s \<Longrightarrow> key_ok (prepared_key md)"
  by (auto simp: current_msg_def keys_ok_def split: option.splits current.splits)

lemma set_current_simps [simp]:
  "m_hstate (set_current_msg md s) = m_hstate s" "m_basic_header (set_current_msg md s) = m_basic_header s"
  "m_bytes_needed (set_current_msg md s) = m_bytes_needed s" "m_current_msg (set_current_msg md s) = m_current_msg s"
  "m_extended_header (set_current_msg md s) = m_extended_header s" "m_server (set_current_msg md s) = m_server s"
  "m_max_message_size (set_current_msg md s) = m_max_message_size s" "m_permessage_deflate (set_current_msg md s) = m_permessage_deflate s"
  "m_cursor (set_current_msg md s) = m_cursor s"
  by (simp_all add: set_current_msg_def split: option.split current.split)

lemma set_current_keys: "keys_ok s \<Longrightarrow> key_ok (prepared_key md) \<Longrightarrow> keys_ok (set_current_msg md s)"
  by (auto simp: keys_ok_def set_current_msg_def split: option.split current.split)

lemma current_of_set: "current_msg s = Inr md \<Longrightarrow> current_msg (set_current_msg md' s) = Inr md'"
  by (auto simp: current_msg_def set_current_msg_def split: option.splits current.splits)

lemma set_current_twice: "set_current_msg md (set_current_msg md' s) = set_current_msg md s"
  by (simp add: set_current_msg_def split: option.split current.split)

lemma current_msg_upd [simp]: "current_msg (s\<lparr>m_bytes_needed := n\<rparr>) = current_msg s"
  by (simp add: current_msg_def split: option.split current.split)

lemma set_current_upd [simp]: "set_current_msg md (s\<lparr>m_bytes_needed := n\<rparr>) = (set_current_msg md s)\<lparr>m_bytes_needed := n\<rparr>"
  by (simp add: set_current_msg_def split: option.split current.split)

section \<open>Payload bytes without compression\<close>

lemma validator_decode_append:
  "validator_decode (xs @ ys) v = bind_res (validator_decode xs v) (\<lambda>(ok, v). if ok then validator_decode ys v else Inr (False, v))"
proof (induction xs arbitrary: v)
  case (Cons x xs)
  show ?case by (cases "utf8_decode (m_state v) (m_codepoint v) x") (auto simp: Cons.IH)
qed simp

lemma mask_whole: "key_phase w k p \<Longrightarrow> byte_mask_circ 0 0 (length buf) w buf = Inr (circshift_prepared_key w (length buf mod 4), byte_mask buf k p)"
  using byte_mask_circ_masks [of 0 0 "length buf" buf w k p] by (simp add: apart_def overwrite_def)

definition unmasked :: "bool \<Rightarrow> u32 \<Rightarrow> nat \<Rightarrow> u8 list \<Rightarrow> u8 list" where
  "unmasked masked k p buf = (if masked then byte_mask buf k p else buf)"

definition check_text :: "message \<Rightarrow> u8 list \<Rightarrow> validator \<Rightarrow> (bool \<times> validator) res" where
  "check_text m xs v = (if m_opcode m = TEXT then validator_decode xs v else Inr (True, v))"

lemma process_plain:
  assumes "\<And>z. \<not> is_enabled df z" "current_msg s = Inr md" "msg_ptr md = Some m" "key_phase (prepared_key md) k p"
    and "masked = get_masked (m_basic_header s)" "xs = unmasked masked k p buf"
    and "w = (if masked then circshift_prepared_key (prepared_key md) (length buf mod 4) else prepared_key md)"
  shows "process_payload_bytes df buf s =
    bind_res (check_text m xs (msg_validator md)) (\<lambda>(ok, v).
    let s' = set_current_msg (md\<lparr>msg_ptr := Some (m\<lparr>m_payload := m_payload m @ xs\<rparr>), prepared_key := w, msg_validator := v\<rparr>) s in
    Inr (if ok then (None, s'\<lparr>m_bytes_needed := m_bytes_needed s - of_nat (length buf)\<rparr>) else (Some (Proc p_invalid_utf8), s')))"
proof -
  have z: "(set_current_msg a s)\<lparr>m_permessage_deflate := m_permessage_deflate s\<rparr> = set_current_msg a s" for a
    by (simp add: set_current_msg_def split: option.split current.split)
  have m: "(if get_masked (m_basic_header s) then byte_mask_circ 0 0 (length buf) (prepared_key md) buf else Inr (prepared_key md, buf)) = Inr (w, xs)"
    using assms(5-7) by (simp add: mask_whole [OF assms(4)] unmasked_def)
  have l: "length xs = length buf" using assms(6) by (simp add: unmasked_def)
  have p: "process_payload_bytes df buf s =
    bind_res (check_text m xs (msg_validator md)) (\<lambda>(ok, v).
    let s' = set_current_msg (md\<lparr>msg_ptr := Some (m\<lparr>m_payload := m_payload m @ xs\<rparr>), prepared_key := w\<rparr>\<lparr>msg_validator := v\<rparr>) s in
    if \<not> ok then Inr (Some (Proc p_invalid_utf8), s') else Inr (None, s'\<lparr>m_bytes_needed := m_bytes_needed s' - of_nat (length xs)\<rparr>))"
    unfolding process_payload_bytes_def assms(2) bind_res_Inr m prod.case
    by (simp add: the_msg_def assms(1,3) z set_current_twice check_text_def)
  show ?thesis unfolding p by (cases "check_text m xs (msg_validator md)") (auto simp: l Let_def)
qed

text \<open>Two pieces one after the other are the two together.\<close>

lemma check_text_append:
  "check_text m (xs @ ys) v = bind_res (check_text m xs v) (\<lambda>(ok, v). if ok then check_text m ys v else Inr (False, v))"
  by (cases "m_opcode m = TEXT"; cases "validator_decode xs v") (auto simp: check_text_def validator_decode_append)

lemma process_append:
  assumes off: "\<And>z. \<not> is_enabled df z" and ok: "keys_ok s" "current_msg s = Inr md" "msg_ptr md = Some m"
  shows "same_outcome (and_then (process_payload_bytes df xs s) (process_payload_bytes df ys)) (process_payload_bytes df (xs @ ys) s)"
proof -
  obtain k p where kp: "key_phase (prepared_key md) k p" using current_msg_key [OF ok(2,1)] by (auto simp: key_ok_def)
  define masked where "masked = get_masked (m_basic_header s)"
  define us where "us = unmasked masked k p xs"
  define vs where "vs = unmasked masked k (p + length xs) ys"
  define w where "w = (if masked then circshift_prepared_key (prepared_key md) (length xs mod 4) else prepared_key md)"
  define w' where "w' = (if masked then circshift_prepared_key w (length ys mod 4) else w)"
  note p1 = process_plain [OF off ok(2,3) kp masked_def us_def w_def]
  have u: "unmasked masked k p (xs @ ys) = us @ vs" by (simp add: us_def vs_def unmasked_def byte_mask_append)
  have wp: "masked \<Longrightarrow> key_phase w k (p + length xs)" "\<not> masked \<Longrightarrow> w = prepared_key md"
    using byte_mask_circ_masks [of 0 0 "length xs" xs "prepared_key md" k p] kp by (simp_all add: w_def apart_def)
  have "(if masked then circshift_prepared_key (prepared_key md) (length (xs @ ys) mod 4) else prepared_key md) = w'"
  proof (cases masked)
    case True
    have "key_phase w' k (p + length xs + length ys)"
      using True byte_mask_circ_masks [of 0 0 "length ys" ys w k "p + length xs"] wp(1) by (simp add: w'_def apart_def)
    moreover have "key_phase (circshift_prepared_key (prepared_key md) (length (xs @ ys) mod 4)) k (p + length (xs @ ys))"
      using byte_mask_circ_masks [of 0 0 "length (xs @ ys)" "xs @ ys" "prepared_key md" k p] kp by (simp add: apart_def)
    ultimately show ?thesis using True key_phase_unique by (simp add: add.assoc)
  qed (simp add: w'_def w_def)
  then have p2: "process_payload_bytes df (xs @ ys) s =
    bind_res (check_text m (us @ vs) (msg_validator md)) (\<lambda>(ok, v).
    let s' = set_current_msg (md\<lparr>msg_ptr := Some (m\<lparr>m_payload := m_payload m @ us @ vs\<rparr>), prepared_key := w', msg_validator := v\<rparr>) s in
    Inr (if ok then (None, s'\<lparr>m_bytes_needed := m_bytes_needed s - of_nat (length (xs @ ys))\<rparr>) else (Some (Proc p_invalid_utf8), s')))"
    using process_plain [OF off ok(2,3) kp masked_def u [symmetric] refl] by simp
  show ?thesis
  proof (cases "check_text m us (msg_validator md)")
    case (Inl f)
    then show ?thesis using p1 p2 by (simp add: check_text_append)
  next
    case (Inr okv)
    obtain good v where c: "check_text m us (msg_validator md) = Inr (good, v)" using Inr by (cases okv) simp
    show ?thesis
    proof (cases good)
      case False
      then show ?thesis using p1 p2 c by (simp add: check_text_append)
    next
      case True
      define md1 where "md1 = md\<lparr>msg_ptr := Some (m\<lparr>m_payload := m_payload m @ us\<rparr>), prepared_key := w, msg_validator := v\<rparr>"
      define s1 where "s1 = (set_current_msg md1 s)\<lparr>m_bytes_needed := m_bytes_needed s - of_nat (length xs)\<rparr>"
      have 1: "process_payload_bytes df xs s = Inr (None, s1)" using p1 c True by (simp add: s1_def md1_def)
      have cur: "current_msg s1 = Inr md1" using current_of_set [OF ok(2)] by (simp add: s1_def)
      have ph: "\<exists>k' p'. key_phase w k' p' \<and> (masked \<longrightarrow> k' = k \<and> p' = p + length xs)"
        using wp kp by (cases masked) auto
      then obtain k' p' where kp': "key_phase (prepared_key md1) k' p'" "masked \<longrightarrow> k' = k \<and> p' = p + length xs" by (auto simp: md1_def)
      have vs: "vs = unmasked masked k' p' ys" using kp'(2) by (simp add: vs_def unmasked_def)
      have m1: "masked = get_masked (m_basic_header s1)" by (simp add: s1_def masked_def)
      have w1: "w' = (if masked then circshift_prepared_key (prepared_key md1) (length ys mod 4) else prepared_key md1)" by (simp add: w'_def md1_def)
      have mp: "msg_ptr md1 = Some (m\<lparr>m_payload := m_payload m @ us\<rparr>)" by (simp add: md1_def)
      note p3 = process_plain [OF off cur mp kp'(1) m1 vs w1]
      have ct: "check_text (m\<lparr>m_payload := a\<rparr>) ys' v' = check_text m ys' v'" for a ys' v' by (simp add: check_text_def)
      show ?thesis unfolding 1 and_then_simps p3 p2
        by (cases "check_text m vs v") (auto simp: c True check_text_append ct md1_def s1_def set_current_twice Let_def algebra_simps)
    qed
  qed
qed

lemma process_keeps:
  assumes off: "\<And>z. \<not> is_enabled df z" and ok: "keys_ok s" and r: "process_payload_bytes df xs s = Inr (ec, s')"
  shows "keys_ok s'" "m_hstate s' = m_hstate s" "m_basic_header s' = m_basic_header s"
    "ec = None \<Longrightarrow> m_bytes_needed s' = m_bytes_needed s - of_nat (length xs)"
proof -
  obtain md where md: "current_msg s = Inr md" using r by (cases "current_msg s") (simp_all add: process_payload_bytes_def)
  obtain k p where kp: "key_phase (prepared_key md) k p" using current_msg_key [OF md ok] by (auto simp: key_ok_def)
  obtain m where m: "msg_ptr md = Some m"
    using r md mask_whole [OF kp, of xs] by (cases "msg_ptr md") (auto simp: process_payload_bytes_def the_msg_def split: if_splits)
  define w where "w = (if get_masked (m_basic_header s) then circshift_prepared_key (prepared_key md) (length xs mod 4) else prepared_key md)"
  have w: "key_ok w"
  proof (cases "get_masked (m_basic_header s)")
    case True
    then show ?thesis using byte_mask_circ_masks [of 0 0 "length xs" xs "prepared_key md" k p] kp by (auto simp: w_def key_ok_def apart_def)
  next
    case False
    then show ?thesis using current_msg_key [OF md ok] by (simp add: w_def)
  qed
  have kk: "keys_ok (set_current_msg (md\<lparr>msg_ptr := a, prepared_key := w, msg_validator := v\<rparr>) s)" for a v
    by (rule set_current_keys [OF ok]) (simp add: w)
  have nk: "keys_ok (t\<lparr>m_bytes_needed := n\<rparr>) = keys_ok t" for t :: "'a hybi13" and n by (simp add: keys_ok_def)
  show "keys_ok s'" "m_hstate s' = m_hstate s" "m_basic_header s' = m_basic_header s"
    "ec = None \<Longrightarrow> m_bytes_needed s' = m_bytes_needed s - of_nat (length xs)"
    using r unfolding process_plain [OF off md m kp refl refl w_def]
    by (auto simp: bind_res_eq_Inr_iff Let_def kk nk split: if_splits)
qed

section \<open>One round\<close>

lemma unat_minus_len:
  assumes "n \<le> unat (w :: u64)"
  shows "unat (w - of_nat n) = unat w - n"
proof -
  have "unat w < 2 ^ LENGTH(64)" by (rule unsigned_less)
  then have "n < 2 ^ 64" using assms by simp
  then show ?thesis using assms unat_sub_no_wrap [of "of_nat n" w] by (simp add: unat_of_nat_le)
qed

lemma copy_extended_append:
  assumes "length xs < unat (m_bytes_needed s)"
  shows "copy_extended_header_bytes (xs @ ys) s = bind_res (copy_extended_header_bytes xs s) (\<lambda>(_, s). copy_extended_header_bytes ys s)"
proof (cases "m_cursor s + length xs \<le> length (ext_bytes (m_extended_header s))")
  case True
  let ?k = "min (unat (m_bytes_needed s) - length xs) (length ys)" and ?bs = "ext_bytes (m_extended_header s)"
  have n: "min (unat (m_bytes_needed s)) (length xs) = length xs" "min (unat (m_bytes_needed s)) (length (xs @ ys)) = length xs + ?k"
    using assms by auto
  have u: "unat (m_bytes_needed s - of_nat (length xs)) = unat (m_bytes_needed s) - length xs" using assms by (simp add: unat_minus_len)
  have t: "take (length xs + ?k) (xs @ ys) = xs @ take ?k ys" "drop (length xs + ?k) (xs @ ys) = drop ?k ys" by simp_all
  have o: "overwrite (m_cursor s + length xs) zs (overwrite (m_cursor s) xs ?bs) = overwrite (m_cursor s) (xs @ zs) ?bs" for zs
    using True by (cases xs) (auto simp: overwrite_def min_def ac_simps)
  show ?thesis
    unfolding copy_extended_header_bytes_def Let_def n t using True
    by (simp add: store_bytes_def u o add.assoc diff_diff_eq of_nat_add)
next
  case False
  then show ?thesis using assms by (simp add: copy_extended_header_bytes_def store_bytes_def Let_def min_def)
qed

lemma copy_extended_enough:
  assumes "unat (m_bytes_needed s) \<le> length xs"
  shows "copy_extended_header_bytes (xs @ ys) s = bind_res (copy_extended_header_bytes xs s) (\<lambda>(buf, s). Inr (buf @ ys, s))"
proof -
  have n: "min (unat (m_bytes_needed s)) (length (xs @ ys)) = unat (m_bytes_needed s)" "min (unat (m_bytes_needed s)) (length xs) = unat (m_bytes_needed s)"
    using assms by auto
  show ?thesis unfolding copy_extended_header_bytes_def Let_def n using assms by (simp add: store_bytes_def)
qed

text \<open>
  What a round on a chunk says about the round on a longer one: it is the same round, or the chunk was
  too short and the next round goes on with the rest.
\<close>

definition round_on :: "'z deflate \<Rightarrow> 'z hybi13 \<Rightarrow> u8 list \<Rightarrow> u8 list \<Rightarrow> bool" where
  "round_on df s xs ys \<longleftrightarrow>
    same_outcome (and_then (consume_round df s xs) (\<lambda>(s1, xs1). Inr (None, s1, xs1 @ ys))) (consume_round df s (xs @ ys))
    \<or> (\<exists>s1. consume_round df s xs = Inr (None, s1, []) \<and> ys \<noteq> [] \<and> consuming s1 ys \<and> same_outcome (consume_round df s1 ys) (consume_round df s (xs @ ys)))"

lemma round_basic:
  assumes "consuming s xs" "m_hstate s = HEADER_BASIC" "ys \<noteq> []"
  shows "round_on df s xs ys"
proof (cases "m_bytes_needed s = 2 \<and> (\<exists>x. xs = [x])")
  case True
  then obtain x y zs where x: "xs = [x]" "ys = y # zs" and n: "m_bytes_needed s = 2" using assms(3) by (cases ys) auto
  let ?s1 = "s\<lparr>m_basic_header := (m_basic_header s)\<lparr>b0 := x\<rparr>, m_bytes_needed := 1\<rparr>"
  have h: "(m_basic_header s)\<lparr>b0 := x, b1 := y\<rparr> = \<lparr>b0 = x, b1 = y\<rparr>" by simp
  have 1: "consume_round df s xs = Inr (None, ?s1, [])" using n assms(2) x by (simp add: consume_round_def)
  have "copy_basic_header_bytes (y # zs) ?s1 = (zs, s\<lparr>m_basic_header := \<lparr>b0 = x, b1 = y\<rparr>, m_bytes_needed := 0\<rparr>)"
    by (cases zs) (simp_all add: h)
  then have "consume_round df ?s1 ys = consume_round df s (xs @ ys)" using n assms(2) x by (simp add: consume_round_def)
  moreover have "consuming ?s1 ys" using assms x by (simp add: consuming_def)
  ultimately show ?thesis unfolding round_on_def using 1 assms(3) by auto
next
  case False
  obtain xs1 s1 where c: "copy_basic_header_bytes xs s = (xs1, s1)" by fastforce
  have "copy_basic_header_bytes (xs @ ys) s = (xs1 @ ys, s1)"
  proof (cases xs)
    case Nil
    then have "m_bytes_needed s = 0" using assms(1) by (simp add: consuming_def)
    then show ?thesis using Nil c copy_basic_progress(3) [of ys s] by (cases "copy_basic_header_bytes ys s") auto
  next
    case (Cons x xs')
    then show ?thesis using False c assms(3) by (cases xs'; cases ys) (auto split: if_splits)
  qed
  then show ?thesis unfolding round_on_def using c assms(2) by (auto simp: consume_round_def split: option.split)
qed

lemma round_extended:
  assumes "consuming s xs" "m_hstate s = HEADER_EXTENDED" "ys \<noteq> []"
  shows "round_on df s xs ys"
proof (cases "unat (m_bytes_needed s) \<le> length xs")
  case True
  show ?thesis unfolding round_on_def consume_round_def assms(2) hstate.case copy_extended_enough [OF True]
    by (cases "copy_extended_header_bytes xs s")
       (auto split: option.split prod.split sum.split simp: bind_res_def and_then_def same_outcome_def)
next
  case False
  then have l: "length xs < unat (m_bytes_needed s)" by simp
  note a = copy_extended_append [OF l, of ys]
  show ?thesis
  proof (cases "copy_extended_header_bytes xs s")
    case (Inl f)
    then show ?thesis unfolding round_on_def consume_round_def assms(2) hstate.case a by simp
  next
    case (Inr r)
    have n: "min (unat (m_bytes_needed s)) (length xs) = length xs" using l by simp
    obtain s1 where c: "copy_extended_header_bytes xs s = Inr ([], s1)" and m: "m_bytes_needed s1 = m_bytes_needed s - of_nat (length xs)"
        "m_hstate s1 = HEADER_EXTENDED"
      using Inr assms(2) unfolding copy_extended_header_bytes_def Let_def n by (auto simp: store_bytes_def split: if_splits)
    have p: "m_bytes_needed s1 \<noteq> 0" using m(1) unat_minus_len [of "length xs" "m_bytes_needed s"] l by (auto simp: unat_eq_zero [symmetric])
    then have 1: "consume_round df s xs = Inr (None, s1, [])" using assms(2) c by (simp add: consume_round_def word_neq_0_conv)
    have "consume_round df s1 ys = consume_round df s (xs @ ys)" unfolding consume_round_def assms(2) m(2) hstate.case a c by simp
    then show ?thesis unfolding round_on_def using 1 assms(3) m(2) by (auto simp: consuming_def)
  qed
qed

lemma process_faults:
  assumes "current_msg s = Inl f \<or> current_msg s = Inr md \<and> msg_ptr md = None" "keys_ok s"
  obtains e where "\<And>buf. process_payload_bytes df buf s = Inl e"
proof (cases "current_msg s")
  case (Inl e)
  then show ?thesis using that by (simp add: process_payload_bytes_def)
next
  case (Inr md')
  then have m: "current_msg s = Inr md" "msg_ptr md = None" using assms(1) by auto
  obtain k p where kp: "key_phase (prepared_key md) k p" using current_msg_key [OF m(1) assms(2)] by (auto simp: key_ok_def)
  have "process_payload_bytes df buf s = Inl Null_Deref" for buf
    by (simp add: process_payload_bytes_def m the_msg_def mask_whole [OF kp])
  then show ?thesis by (rule that)
qed

text \<open>The end of the round in the payload, when \<open>n\<close> bytes were taken.\<close>

definition payload_end :: "'z deflate \<Rightarrow> u8 list \<Rightarrow> 'z hybi13 \<Rightarrow> (error_code option \<times> 'z hybi13 \<times> u8 list) res" where
  "payload_end df buf s =
    (if m_bytes_needed s > 0 then Inr (None, s, buf)
     else if get_fin (m_basic_header s) then bind_res (finalize_message df s) (\<lambda>(ec, s). Inr (ec, s, buf))
     else Inr (None, reset_headers s, buf))"

lemma round_application:
  assumes "m_hstate s = APPLICATION" "n = min (unat (m_bytes_needed s)) (length buf)"
  shows "consume_round df s buf =
    (if n > 0 then bind_res (process_payload_bytes df (take n buf) s) (\<lambda>(ec, s'). case ec of Some e \<Rightarrow> Inr (Some e, s', buf) | None \<Rightarrow> payload_end df (drop n buf) s')
     else payload_end df buf s)"
proof (cases "n > 0")
  case True
  then show ?thesis unfolding consume_round_def assms(1) hstate.case Let_def assms(2) [symmetric]
    by (cases "process_payload_bytes df (take n buf) s" rule: outcome_cases) (simp_all add: payload_end_def)
next
  case False
  then show ?thesis unfolding consume_round_def assms(1) hstate.case Let_def assms(2) [symmetric] by (simp add: payload_end_def)
qed

lemma payload_end_append:
  "same_outcome (and_then (payload_end df buf s) (\<lambda>(s1, xs1). Inr (None, s1, xs1 @ ys))) (payload_end df (buf @ ys) s)"
proof (cases "finalize_message df s" rule: outcome_cases)
  case (Fine x)
  then show ?thesis by (cases x) (simp add: payload_end_def)
qed (simp_all add: payload_end_def)

lemma round_payload:
  assumes off: "\<And>z. \<not> is_enabled df z" and "consuming s xs" "m_hstate s = APPLICATION" "ys \<noteq> []" "keys_ok s"
  shows "round_on df s xs ys"
proof (cases "unat (m_bytes_needed s) \<le> length xs")
  case True
  let ?n = "unat (m_bytes_needed s)"
  have n: "?n = min ?n (length xs)" "?n = min ?n (length (xs @ ys))" using True by auto
  have t: "take ?n (xs @ ys) = take ?n xs" "drop ?n (xs @ ys) = drop ?n xs @ ys" using True by simp_all
  have "same_outcome (and_then (consume_round df s xs) (\<lambda>(s1, xs1). Inr (None, s1, xs1 @ ys))) (consume_round df s (xs @ ys))"
  proof (cases "?n > 0")
    case True
    then show ?thesis unfolding round_application [OF assms(3) n(1)] round_application [OF assms(3) n(2)] t
      by (cases "process_payload_bytes df (take ?n xs) s" rule: outcome_cases) (simp_all add: payload_end_append)
  next
    case False
    then show ?thesis unfolding round_application [OF assms(3) n(1)] round_application [OF assms(3) n(2)]
      by (simp only: if_False payload_end_append)
  qed
  then show ?thesis by (simp add: round_on_def)
next
  case False
  then have l: "length xs < unat (m_bytes_needed s)" by simp
  then have "xs \<noteq> []" using assms(2) by (auto simp: consuming_def unat_eq_zero)
  then have ln: "length xs = min (unat (m_bytes_needed s)) (length xs)" "0 < length xs" using l by auto
  let ?k = "min (unat (m_bytes_needed s) - length xs) (length ys)"
  have n: "length xs + ?k = min (unat (m_bytes_needed s)) (length (xs @ ys))" using l by auto
  have k: "0 < ?k" using l assms(4) by simp
  have t: "take (length xs + ?k) (xs @ ys) = xs @ take ?k ys" "drop (length xs + ?k) (xs @ ys) = drop ?k ys" by simp_all
  have r1: "consume_round df s xs = bind_res (process_payload_bytes df xs s) (\<lambda>(ec, s'). case ec of Some e \<Rightarrow> Inr (Some e, s', xs) | None \<Rightarrow> payload_end df [] s')"
    using round_application [OF assms(3) ln(1), of df] ln(2) by (simp cong: option.case_cong)
  have r2: "consume_round df s (xs @ ys) = bind_res (process_payload_bytes df (xs @ take ?k ys) s)
      (\<lambda>(ec, s'). case ec of Some e \<Rightarrow> Inr (Some e, s', xs @ ys) | None \<Rightarrow> payload_end df (drop ?k ys) s')"
    using round_application [OF assms(3) n, of df] ln(2) unfolding t by simp
  consider md m where "current_msg s = Inr md" "msg_ptr md = Some m" | f md where "current_msg s = Inl f \<or> current_msg s = Inr md \<and> msg_ptr md = None"
    by (cases "current_msg s"; metis not_Some_eq)
  then show ?thesis
  proof cases
    case 1
    note pa = process_append [OF off assms(5) 1, of xs "take ?k ys"]
    show ?thesis
    proof (cases "process_payload_bytes df xs s" rule: outcome_cases)
      case (Fine s1)
      note keep = process_keeps [OF off assms(5) Fine]
      have nd: "unat (m_bytes_needed s1) = unat (m_bytes_needed s) - length xs" using keep(4) unat_minus_len [of "length xs" "m_bytes_needed s"] l by simp
      then have pos: "m_bytes_needed s1 \<noteq> 0" using l by (auto simp: unat_eq_zero [symmetric])
      have 1: "consume_round df s xs = Inr (None, s1, [])" unfolding r1 Fine using pos by (simp add: payload_end_def word_neq_0_conv)
      have k1: "?k = min (unat (m_bytes_needed s1)) (length ys)" using nd by simp
      have "consume_round df s1 ys = bind_res (process_payload_bytes df (take ?k ys) s1)
          (\<lambda>(ec, s'). case ec of Some e \<Rightarrow> Inr (Some e, s', ys) | None \<Rightarrow> payload_end df (drop ?k ys) s')"
        using round_application [OF _ k1, of df] keep(2) assms(3) k by simp
      then have "same_outcome (consume_round df s1 ys) (consume_round df s (xs @ ys))"
        unfolding r2 using pa unfolding Fine by (cases "process_payload_bytes df (take ?k ys) s1" rule: outcome_cases) auto
      moreover have "consuming s1 ys" using keep(2) assms(3,4) by (simp add: consuming_def)
      ultimately show ?thesis unfolding round_on_def using 1 assms(4) by blast
    qed (use pa in \<open>auto simp: round_on_def r1 r2\<close>)
  next
    case 2
    then obtain e where "\<And>buf. process_payload_bytes df buf s = Inl e" using process_faults [OF _ assms(5)] by metis
    then show ?thesis by (simp add: round_on_def r1 r2)
  qed
qed

lemma round_any:
  assumes "\<And>z. \<not> is_enabled df z" "consuming s xs" "ys \<noteq> []" "keys_ok s"
  shows "round_on df s xs ys"
proof (cases "m_hstate s")
  case EXTENSION
  then show ?thesis by (simp add: round_on_def consume_round_def)
next
  case HEADER_BASIC
  then show ?thesis using assms round_basic by blast
next
  case HEADER_EXTENDED
  then show ?thesis using assms round_extended by blast
next
  case APPLICATION
  then show ?thesis using assms round_payload by blast
qed (use assms(2) in \<open>simp_all add: consuming_def\<close>)

section \<open>The loop\<close>

lemma keys_ok_simps [simp]:
  "keys_ok (s\<lparr>m_hstate := a\<rparr>) = keys_ok s" "keys_ok (s\<lparr>m_cursor := b\<rparr>) = keys_ok s" "keys_ok (s\<lparr>m_bytes_needed := c\<rparr>) = keys_ok s"
  "keys_ok (s\<lparr>m_basic_header := d\<rparr>) = keys_ok s" "keys_ok (s\<lparr>m_extended_header := e\<rparr>) = keys_ok s" "keys_ok (s\<lparr>m_permessage_deflate := f\<rparr>) = keys_ok s"
  "keys_ok (s\<lparr>m_current_msg := g\<rparr>) = keys_ok s"
  by (simp_all add: keys_ok_def)

lemma reset_headers_keys [simp]: "keys_ok (reset_headers s) = keys_ok s"
  by (simp add: reset_headers_def)

lemma copy_basic_keys: "copy_basic_header_bytes buf s = (buf', s') \<Longrightarrow> keys_ok s' = keys_ok s"
  by (cases "(buf, s)" rule: copy_basic_header_bytes.cases) (auto split: if_splits)

lemma copy_extended_keys: "copy_extended_header_bytes buf s = Inr (buf', s') \<Longrightarrow> keys_ok s' = keys_ok s"
  by (auto simp: copy_extended_header_bytes_def Let_def bind_res_eq_Inr_iff)

lemma begin_payload_keys: "begin_payload df s = Inr (ec, s') \<Longrightarrow> keys_ok s \<Longrightarrow> keys_ok s'"
  by (auto simp: begin_payload_def Let_def keys_ok_def msg_metadata_new_def key_ok_intros split: if_splits option.splits)

lemma finalize_keys:
  assumes "finalize_message df s = Inr (ec, s')" "keys_ok s"
  shows "keys_ok s'"
proof -
  obtain md where md: "current_msg s = Inr md" using assms(1) by (cases "current_msg s") (simp_all add: finalize_message_def)
  have k: "keys_ok (set_current_msg (md\<lparr>msg_ptr := a\<rparr>) s)" for a
    by (rule set_current_keys [OF assms(2)]) (use current_msg_key [OF md assms(2)] in simp)
  show ?thesis using assms(1) by (auto simp: finalize_message_def md Let_def bind_res_eq_Inr_iff k split: if_splits option.splits prod.splits)
qed

lemma consume_round_keys:
  assumes off: "\<And>z. \<not> is_enabled df z" and "consume_round df s buf = Inr (ec, s', buf')" "keys_ok s"
  shows "keys_ok s'"
proof (cases "m_hstate s")
  case HEADER_BASIC
  then show ?thesis using assms(2,3) copy_basic_keys [of buf s] by (auto simp: consume_round_def split: prod.splits if_splits option.splits)
next
  case HEADER_EXTENDED
  then show ?thesis using assms(2,3) copy_extended_keys [of buf s] begin_payload_keys
    by (auto simp: consume_round_def bind_res_eq_Inr_iff split: prod.splits if_splits option.splits)
next
  case APPLICATION
  have e: "keys_ok t'" if "payload_end df b t = Inr (ec', t', b')" "keys_ok t" for b t ec' t' b'
    using that finalize_keys by (auto simp: payload_end_def bind_res_eq_Inr_iff split: if_splits)
  show ?thesis using assms(2,3) e process_keeps(1) [OF off assms(3)] unfolding round_application [OF APPLICATION refl]
    by (auto simp: bind_res_eq_Inr_iff split: if_splits option.splits)
qed (use assms(2,3) in \<open>auto simp: consume_round_def\<close>)

lemma consume_loop_done: "consume_loop df s xs = Inr (None, s', rest) \<Longrightarrow> \<not> consuming s' rest"
proof (induction df s xs rule: consume_loop.induct)
  case (1 df s buf)
  show ?case
  proof (cases "consuming s buf")
    case False
    then show ?thesis using "1.prems" by (simp add: consume_loop_stop)
  next
    case True
    show ?thesis
    proof (cases "consume_round df s buf" rule: outcome_cases)
      case (Fine x)
      obtain s1 xs1 where x: "x = (s1, xs1)" by fastforce
      show ?thesis using "1.IH" [OF True Fine [unfolded x] refl refl refl] "1.prems" unfolding consume_loop_unfold [OF True] Fine x by simp
    qed (use True "1.prems" in \<open>simp_all add: consume_loop_unfold\<close>)
  qed
qed

lemma consume_loop_append:
  assumes off: "\<And>z. \<not> is_enabled df z" and "keys_ok s"
  shows "same_outcome (and_then (consume_loop df s xs) (\<lambda>(s', rest). consume_loop df s' (rest @ ys))) (consume_loop df s (xs @ ys))"
proof (cases "ys = []")
  case True
  have "same_outcome (and_then r (\<lambda>(s', rest). consume_loop df s' rest)) r"
    if "\<And>s' rest. r = Inr (None, s', rest) \<Longrightarrow> \<not> consuming s' rest" for r
    using that by (cases r rule: outcome_cases) (auto simp: consume_loop_stop)
  from this [OF consume_loop_done] show ?thesis using True by simp
next
  case False
  show ?thesis using assms
  proof (induction df s xs rule: consume_loop.induct)
    case (1 df s xs)
    show ?case
    proof (cases "consuming s xs")
      case False
      then show ?thesis by (simp add: consume_loop_stop)
    next
      case True
      have True': "consuming s (xs @ ys)" using True by (auto simp: consuming_def)
      note L = consume_loop_unfold [OF True, of df] and L' = consume_loop_unfold [OF True', of df]
      have IH: "same_outcome (and_then (consume_loop df s1 xs1) (\<lambda>(s', rest). consume_loop df s' (rest @ ys))) (consume_loop df s1 (xs1 @ ys))"
        if "consume_round df s xs = Inr (None, s1, xs1)" for s1 xs1
        using "1.IH" [OF True that refl refl] "1.prems" consume_round_keys [OF "1.prems"(1) that] by simp
      from round_any [OF "1.prems"(1) True \<open>ys \<noteq> []\<close> "1.prems"(2)] show ?thesis unfolding round_on_def
      proof (elim disjE exE conjE)
        assume r: "same_outcome (and_then (consume_round df s xs) (\<lambda>(s1, xs1). Inr (None, s1, xs1 @ ys))) (consume_round df s (xs @ ys))"
        show ?thesis
        proof (cases "consume_round df s xs" rule: outcome_cases)
          case (Fine x)
          obtain s1 xs1 where x: "x = (s1, xs1)" by fastforce
          show ?thesis using r IH [of s1 xs1] unfolding L L' Fine x by simp
        qed (use r in \<open>auto simp: L L'\<close>)
      next
        fix s1 assume r: "consume_round df s xs = Inr (None, s1, [])" and c: "consuming s1 ys"
          and o: "same_outcome (consume_round df s1 ys) (consume_round df s (xs @ ys))"
        have "same_outcome (consume_loop df s1 ys) (consume_loop df s (xs @ ys))"
          unfolding L' consume_loop_unfold [OF c] by (rule same_outcome_and_then [OF o]) simp
        then show ?thesis using IH [OF r] same_outcome_trans unfolding L r by fastforce
      qed
    qed
  qed
qed

section \<open>Reading a chunk to its end\<close>

lemma consume_loop_measure:
  "consume_loop df s buf = Inr (None, s', rest) \<Longrightarrow>
    5 * length rest + state_rank s' \<le> 5 * length buf + state_rank s
    \<and> (consuming s buf \<longrightarrow> 5 * length rest + state_rank s' < 5 * length buf + state_rank s)"
proof (induction df s buf rule: consume_loop.induct)
  case (1 df s buf)
  show ?case
  proof (cases "consuming s buf")
    case False
    then show ?thesis using "1.prems" by (simp add: consume_loop_stop)
  next
    case True
    show ?thesis
    proof (cases "consume_round df s buf" rule: outcome_cases)
      case (Fine x)
      obtain s1 xs1 where x: "x = (s1, xs1)" by fastforce
      have "5 * length rest + state_rank s' \<le> 5 * length xs1 + state_rank s1"
        using "1.IH" [OF True Fine [unfolded x] refl refl refl] "1.prems" unfolding consume_loop_unfold [OF True] Fine x by simp
      then show ?thesis using consume_round_progress [OF True Fine [unfolded x]] by simp
    qed (use True "1.prems" in \<open>simp_all add: consume_loop_unfold\<close>)
  qed
qed

lemma get_message_rank: "get_message s = Inr (m, s') \<Longrightarrow> ready s \<Longrightarrow> state_rank s' = 0"
  by (auto simp: get_message_def bind_res_eq_Inr_iff reset_headers_def state_rank_def Let_def)

text \<open>
  The reading part of \<open>handle_read_frame\<close>: as long as bytes are left, consume them and take the
  message out when one is ready. The result is the error, the state and the messages.
\<close>

function read_all :: "'z deflate \<Rightarrow> 'z hybi13 \<Rightarrow> u8 list \<Rightarrow> (error_code option \<times> 'z hybi13 \<times> message list) res" where
  "read_all df s buf =
    (if buf \<noteq> [] \<and> consuming s buf then
       bind_res (consume_loop df s buf) (\<lambda>(ec, s', rest).
       case ec of Some e \<Rightarrow> Inr (Some e, s', [])
       | None \<Rightarrow>
         if ready s' then
           bind_res (get_message s') (\<lambda>(m, s'').
           bind_res (read_all df s'' rest) (\<lambda>(ec, s3, ms). Inr (ec, s3, case m of None \<Rightarrow> ms | Some m \<Rightarrow> m # ms)))
         else read_all df s' rest)
     else Inr (None, s, []))"
  by pat_completeness auto
termination
proof (relation "measure (\<lambda>(df, s, buf). 5 * length buf + state_rank s)", goal_cases)
  case (2 df s buf r ec y s' rest m z s'')
  then show ?case using consume_loop_measure [of df s buf s' rest] get_message_rank [of s' _ s''] by auto
next
  case (3 df s buf r ec y s' rest)
  then show ?case using consume_loop_measure [of df s buf s' rest] by auto
qed simp

declare read_all.simps [simp del]

lemma read_all_stop: "buf = [] \<or> \<not> consuming s buf \<Longrightarrow> read_all df s buf = Inr (None, s, [])"
  by (subst read_all.simps) auto

definition same_reading :: "('e option \<times> 's \<times> 'm) res \<Rightarrow> ('e option \<times> 's \<times> 'm) res \<Rightarrow> bool" where
  "same_reading r r' \<longleftrightarrow> (case (r, r') of (Inl f, Inl f') \<Rightarrow> f = f'
     | (Inr (ec, s, ms), Inr (ec', s', ms')) \<Rightarrow> ec = ec' \<and> ms = ms' \<and> (ec = None \<longrightarrow> s = s') | _ \<Rightarrow> False)"

lemma same_reading_refl [simp]: "same_reading r r"
  by (auto simp: same_reading_def split: sum.split)

lemma same_reading_trans: "same_reading a b \<Longrightarrow> same_reading b c \<Longrightarrow> same_reading a c"
  by (auto simp: same_reading_def split: sum.splits)

lemma same_reading_sym: "same_reading a b \<Longrightarrow> same_reading b a"
  by (auto simp: same_reading_def split: sum.splits)

definition read_more :: "('z hybi13 \<Rightarrow> (error_code option \<times> 'z hybi13 \<times> message list) res) \<Rightarrow> (error_code option \<times> 'z hybi13 \<times> message list) res
    \<Rightarrow> (error_code option \<times> 'z hybi13 \<times> message list) res" where
  "read_more f r = bind_res r (\<lambda>(ec, s, ms). case ec of Some e \<Rightarrow> Inr (Some e, s, ms)
     | None \<Rightarrow> bind_res (f s) (\<lambda>(ec', s', ms'). Inr (ec', s', ms @ ms')))"

lemma read_more_simps [simp]:
  "read_more f (Inl e) = Inl e" "read_more f (Inr (Some e', s, ms)) = Inr (Some e', s, ms)"
  "read_more f (Inr (None, s, [])) = f s"
  by (cases "f s"; auto simp: read_more_def)+

text \<open>Sending the messages of a reading on behind a first one.\<close>

definition add_message :: "message option \<Rightarrow> (error_code option \<times> 'z hybi13 \<times> message list) res \<Rightarrow> (error_code option \<times> 'z hybi13 \<times> message list) res" where
  "add_message m r = bind_res r (\<lambda>(ec, s, ms). Inr (ec, s, case m of None \<Rightarrow> ms | Some m \<Rightarrow> m # ms))"

lemma read_all_unfold:
  assumes "buf \<noteq> []" "consuming s buf" "consume_loop df s buf = Inr (None, s', rest)"
  shows "read_all df s buf = (if ready s' then bind_res (get_message s') (\<lambda>(m, s''). add_message m (read_all df s'' rest)) else read_all df s' rest)"
  by (subst read_all.simps) (use assms in \<open>simp add: add_message_def\<close>)

lemma read_all_fails:
  assumes "buf \<noteq> []" "consuming s buf"
  shows "consume_loop df s buf = Inl f \<Longrightarrow> read_all df s buf = Inl f"
    "consume_loop df s buf = Inr (Some e, s', rest) \<Longrightarrow> read_all df s buf = Inr (Some e, s', [])"
  by (subst read_all.simps, use assms in simp)+

lemma add_message_more: "add_message m (read_more f r) = read_more f (add_message m r)"
proof (cases r)
  case (Inr b)
  obtain ec s ms where b: "b = (ec, s, ms)" by (cases b) auto
  show ?thesis unfolding Inr b by (cases ec; cases "f s"; cases m) (auto simp: add_message_def read_more_def)
qed (simp add: add_message_def)

lemma add_message_same: "same_reading r r' \<Longrightarrow> same_reading (add_message m r) (add_message m r')"
  by (cases r; cases r') (auto simp: same_reading_def add_message_def)

lemma consume_round_not_fatal:
  assumes off: "\<And>z. \<not> is_enabled df z" and "consume_round df s buf = Inr (None, s', buf')" "keys_ok s" "m_hstate s \<noteq> FATAL_ERROR"
  shows "m_hstate s' \<noteq> FATAL_ERROR"
proof (cases "m_hstate s")
  case HEADER_BASIC
  have "m_hstate t = m_hstate s" if "copy_basic_header_bytes buf s = (b, t)" for b t
    using that by (cases "(buf, s)" rule: copy_basic_header_bytes.cases) (auto split: if_splits)
  then show ?thesis using HEADER_BASIC assms(2) by (auto simp: consume_round_def split: prod.splits if_splits option.splits)
next
  case HEADER_EXTENDED
  have "m_hstate t = m_hstate s" if "copy_extended_header_bytes buf s = Inr (b, t)" for b t
    using that by (auto simp: copy_extended_header_bytes_def Let_def bind_res_eq_Inr_iff)
  then show ?thesis using HEADER_EXTENDED assms(2)
    by (auto simp: consume_round_def bind_res_eq_Inr_iff split: prod.splits if_splits option.splits dest: begin_payload_state)
next
  case APPLICATION
  have e: "m_hstate t' \<noteq> FATAL_ERROR" if "payload_end df b t = Inr (None, t', b')" "m_hstate t = APPLICATION" for b t t' b'
    using that by (auto simp: payload_end_def bind_res_eq_Inr_iff reset_headers_def split: if_splits dest: finalize_state)
  show ?thesis using APPLICATION assms(2,3) e process_keeps(2) [OF off assms(3)] unfolding round_application [OF APPLICATION refl]
    by (auto simp: bind_res_eq_Inr_iff split: if_splits option.splits)
qed (use assms in \<open>auto simp: consume_round_def\<close>)

lemma consume_loop_keeps:
  assumes "\<And>z. \<not> is_enabled df z" "consume_loop df s buf = Inr (None, s', rest)" "keys_ok s" "m_hstate s \<noteq> FATAL_ERROR"
  shows "keys_ok s' \<and> m_hstate s' \<noteq> FATAL_ERROR"
  using assms
proof (induction df s buf rule: consume_loop.induct)
  case (1 df s buf)
  show ?case
  proof (cases "consuming s buf")
    case False
    then show ?thesis using "1.prems" by (simp add: consume_loop_stop)
  next
    case True
    show ?thesis
    proof (cases "consume_round df s buf" rule: outcome_cases)
      case (Fine x)
      obtain s1 xs1 where x: "x = (s1, xs1)" by fastforce
      note F = Fine [unfolded x]
      have "consume_loop df s1 xs1 = Inr (None, s', rest)" using "1.prems"(2) unfolding consume_loop_unfold [OF True] F by simp
      then show ?thesis using "1.IH" [OF True F refl refl refl "1.prems"(1)] consume_round_keys [OF "1.prems"(1) F "1.prems"(3)]
          consume_round_not_fatal [OF "1.prems"(1) F "1.prems"(3,4)] by simp
    qed (use True "1.prems" in \<open>simp_all add: consume_loop_unfold\<close>)
  qed
qed

lemma get_message_keeps:
  assumes "get_message s = Inr (m, s')" "keys_ok s" "ready s"
  shows "keys_ok s'" "m_hstate s' = HEADER_BASIC"
proof -
  obtain md where md: "current_msg s = Inr md" using assms(1,3) by (cases "current_msg s") (simp_all add: get_message_def)
  have k: "keys_ok (set_current_msg (md\<lparr>msg_ptr := None\<rparr>) s)"
    by (rule set_current_keys [OF assms(2)]) (use current_msg_key [OF md assms(2)] in simp)
  then show "keys_ok s'" "m_hstate s' = HEADER_BASIC" using assms(1,3)
    by (auto simp: get_message_def md bind_res_eq_Inr_iff Let_def keys_ok_def reset_headers_def)
qed

lemma read_all_same:
  assumes "xs \<noteq> []" "ys \<noteq> []" "consuming s xs" "consuming t ys" "same_outcome (consume_loop df s xs) (consume_loop df t ys)"
  shows "same_reading (read_all df s xs) (read_all df t ys)"
proof (cases "consume_loop df s xs" rule: outcome_cases)
  case (Fault f)
  then show ?thesis using assms read_all_fails(1) [OF assms(1,3) Fault] read_all_fails(1) [OF assms(2,4)] by simp
next
  case (Error e x)
  then obtain y where "consume_loop df t ys = Inr (Some e, y)" using assms(5) by auto
  then show ?thesis using Error read_all_fails(2) [OF assms(1,3), of df e "fst x" "snd x"] read_all_fails(2) [OF assms(2,4), of df e "fst y" "snd y"]
    by (simp add: same_reading_def)
next
  case (Fine x)
  obtain s' rest where x: "x = (s', rest)" by fastforce
  have "consume_loop df t ys = Inr (None, s', rest)" using assms(5) unfolding Fine x by simp
  then show ?thesis using read_all_unfold [OF assms(1,3) Fine [unfolded x]] read_all_unfold [OF assms(2,4)] by simp
qed

lemma read_all_append:
  assumes off: "\<And>z. \<not> is_enabled df z" and "keys_ok s" "m_hstate s \<noteq> FATAL_ERROR"
  shows "same_reading (read_more (\<lambda>s. read_all df s ys) (read_all df s xs)) (read_all df s (xs @ ys))"
  using assms
proof (induction df s xs rule: read_all.induct)
  case (1 df s xs)
  note off = "1.prems"(1)
  show ?case
  proof (cases "xs \<noteq> [] \<and> consuming s xs")
    case False
    then show ?thesis by (auto simp: read_all_stop consuming_def)
  next
    case True
    then have T: "xs \<noteq> []" "consuming s xs" and T': "xs @ ys \<noteq> []" "consuming s (xs @ ys)" by (auto simp: consuming_def)
    note A = consume_loop_append [OF off "1.prems"(2), of xs ys]
    show ?thesis
    proof (cases "consume_loop df s xs" rule: outcome_cases)
      case (Fault f)
      then show ?thesis using A read_all_fails(1) [OF T Fault] read_all_fails(1) [OF T'] by simp
    next
      case (Error e x)
      then obtain y where "consume_loop df s (xs @ ys) = Inr (Some e, y)" using A by auto
      then show ?thesis using Error read_all_fails(2) [OF T, of df e "fst x" "snd x"] read_all_fails(2) [OF T', of df e "fst y" "snd y"]
        by (simp add: same_reading_def)
    next
      case (Fine x)
      obtain s' rest where x: "x = (s', rest)" by fastforce
      note F = Fine [unfolded x]
      have keep: "keys_ok s'" "m_hstate s' \<noteq> FATAL_ERROR" using consume_loop_keeps [OF off F "1.prems"(2,3)] by simp_all
      have A': "same_outcome (consume_loop df s' (rest @ ys)) (consume_loop df s (xs @ ys))" using A unfolding F by simp
      note U = read_all_unfold [OF T F]
      show ?thesis
      proof (cases "ready s'")
        case True
        then have "\<not> consuming s' (rest @ ys)" by (simp add: consuming_def ready_def)
        then have F': "consume_loop df s (xs @ ys) = Inr (None, s', rest @ ys)" using A' by (simp add: consume_loop_stop)
        note U' = read_all_unfold [OF T' F']
        show ?thesis
        proof (cases "get_message s'")
          case (Inr ms)
          obtain m s'' where g: "get_message s' = Inr (m, s'')" using Inr by (cases ms) simp
          have "same_reading (read_more (\<lambda>s. read_all df s ys) (read_all df s'' rest)) (read_all df s'' (rest @ ys))"
            using "1.IH"(1) [OF conjI [OF T] F refl refl refl True g refl off] get_message_keeps [OF g keep(1) True] by simp
          then show ?thesis using U U' True g by (simp add: add_message_more [symmetric] add_message_same)
        qed (use U U' True in simp)
      next
        case False
        then have r: "rest = []" using consume_loop_done [OF F] keep(2) by (auto simp: consuming_def ready_def)
        then have R: "read_all df s xs = Inr (None, s', [])" using U False by (simp add: read_all_stop)
        show ?thesis
        proof (cases "ys = []")
          case False
          then have c: "consuming s' ys" using keep(2) \<open>\<not> ready s'\<close> by (simp add: consuming_def ready_def)
          show ?thesis unfolding R read_more_simps by (rule read_all_same [OF False T'(1) c T'(2)]) (use A' r in simp)
        qed (use R in \<open>simp add: read_all_stop\<close>)
      qed
    qed
  qed
qed

text \<open>Reading chunk after chunk.\<close>

fun read_chunks :: "'z deflate \<Rightarrow> 'z hybi13 \<Rightarrow> u8 list list \<Rightarrow> (error_code option \<times> 'z hybi13 \<times> message list) res" where
  "read_chunks df s [] = Inr (None, s, [])"
| "read_chunks df s (c # cs) = read_more (\<lambda>s. read_chunks df s cs) (read_all df s c)"

lemma read_all_keeps:
  assumes "\<And>z. \<not> is_enabled df z" "read_all df s buf = Inr (None, s', ms)" "keys_ok s" "m_hstate s \<noteq> FATAL_ERROR"
  shows "keys_ok s' \<and> m_hstate s' \<noteq> FATAL_ERROR"
  using assms
proof (induction df s buf arbitrary: ms rule: read_all.induct)
  case (1 df s xs)
  show ?case
  proof (cases "xs \<noteq> [] \<and> consuming s xs")
    case False
    then have "s' = s" using "1.prems"(2) by (auto simp: read_all_stop)
    then show ?thesis using "1.prems" by simp
  next
    case True
    then have T: "xs \<noteq> []" "consuming s xs" by auto
    show ?thesis
    proof (cases "consume_loop df s xs" rule: outcome_cases)
      case (Fine x)
      obtain s1 rest where x: "x = (s1, rest)" by fastforce
      note F = Fine [unfolded x] and off = "1.prems"(1)
      have keep: "keys_ok s1" "m_hstate s1 \<noteq> FATAL_ERROR" using consume_loop_keeps [OF off F "1.prems"(3,4)] by simp_all
      note U = read_all_unfold [OF T F]
      show ?thesis
      proof (cases "ready s1")
        case True
        then obtain m s2 where g: "get_message s1 = Inr (m, s2)" using U "1.prems"(2) by (cases "get_message s1") auto
        then obtain ms' where "read_all df s2 rest = Inr (None, s', ms')" using U True "1.prems"(2)
          by (cases "read_all df s2 rest") (auto simp: add_message_def)
        then show ?thesis using "1.IH"(1) [OF conjI [OF T] F refl refl refl True g refl off] get_message_keeps [OF g keep(1) True] by simp
      next
        case False
        then have "read_all df s1 rest = Inr (None, s', ms)" using U "1.prems"(2) by simp
        then show ?thesis using "1.IH"(2) [OF conjI [OF T] F refl refl refl False off] keep by simp
      qed
    qed (use "1.prems"(2) read_all_fails [OF T] in auto)
  qed
qed

lemma read_chunks_concat:
  assumes off: "\<And>z. \<not> is_enabled df z" and "keys_ok s" "m_hstate s \<noteq> FATAL_ERROR"
  shows "same_reading (read_chunks df s cs) (read_all df s (concat cs))"
  using assms(2,3)
proof (induction cs arbitrary: s)
  case Nil
  then show ?case by (simp add: read_all_stop)
next
  case (Cons c cs)
  have "same_reading (read_more (\<lambda>s. read_chunks df s cs) (read_all df s c)) (read_more (\<lambda>s. read_all df s (concat cs)) (read_all df s c))"
  proof (cases "read_all df s c" rule: outcome_cases)
    case (Fine x)
    obtain s1 ms where x: "x = (s1, ms)" by fastforce
    have "same_reading (read_chunks df s1 cs) (read_all df s1 (concat cs))"
      using Cons.IH read_all_keeps [OF off Fine [unfolded x] Cons.prems] by simp
    then show ?thesis unfolding Fine x
      by (cases "read_chunks df s1 cs"; cases "read_all df s1 (concat cs)") (auto simp: read_more_def same_reading_def)
  next
    case (Error e x)
    then show ?thesis by (cases x) simp
  qed simp
  then show ?case using read_all_append [OF off Cons.prems, of "concat cs" c] same_reading_trans by fastforce
qed

section \<open>Property\<close>

lemma new_keys: "keys_ok (hybi13_new server max_size z)" "m_hstate (hybi13_new server max_size z) = HEADER_BASIC"
  by (simp_all add: hybi13_new_def reset_headers_def keys_ok_def msg_metadata_empty_def key_ok_intros)

text \<open>
  C9. Where the network cuts the stream does not matter: a processor that reads the bytes in any chunks
  delivers the same messages in the same order as one that reads them at once, stops with the same
  error if there is one, and is in the same state if there is none.
\<close>

theorem chunks_do_not_matter:
  "same_reading (read_chunks disabled (hybi13_new server max_size ()) cs) (read_all disabled (hybi13_new server max_size ()) (concat cs))"
  by (rule read_chunks_concat) (simp_all add: disabled_def new_keys)

end
