(* ===== verification/WS_Transfer.thy ===== *)
theory WS_Transfer
  imports WS_Stream
begin

unbundle bit_operations_syntax

text \<open>
  Frames that one side writes are read back by the other. A receiver is specified on whole frames: what
  it accepts, and which messages it delivers, with control frames between the fragments of a message.
  The processor implements that receiver, and what the writing operations produce are frames it accepts.
\<close>

section \<open>Whole frames\<close>

text \<open>
  A frame on the wire, and what reading it means: a message whose fragments have not all arrived is its
  opcode, its payload so far and the state of the UTF-8 automaton.
\<close>

record frame =
  f_op :: opcode
  f_fin :: bool
  f_payload :: "u8 list"

type_synonym partial = "(opcode \<times> u8 list \<times> nat) option"

definition wire :: "bool \<Rightarrow> frame \<Rightarrow> u32 \<Rightarrow> u8 list" where
  "wire masked f k =
    (let sz = of_nat (length (f_payload f)) in
     prepare_header (basic_header_new (f_op f) sz (f_fin f) masked False False False) (extended_for masked sz k)
     @ unmasked masked k 0 (f_payload f))"

text \<open>The message that a data frame continues or starts.\<close>

definition frame_base :: "partial \<Rightarrow> frame \<Rightarrow> opcode \<times> u8 list \<times> nat" where
  "frame_base a f = (case a of None \<Rightarrow> (f_op f, [], 0) | Some b \<Rightarrow> b)"

definition frame_next :: "partial \<Rightarrow> frame \<Rightarrow> opcode \<times> u8 list \<times> nat" where
  "frame_next a f = (let (op, acc, q) = frame_base a f
     in (op, acc @ f_payload f, if op = TEXT then run q (map unat (f_payload f)) else q))"

text \<open>The frames a receiver accepts, and what it makes of them.\<close>

definition legal :: "nat \<Rightarrow> partial \<Rightarrow> frame \<Rightarrow> bool" where
  "legal max_size a f \<longleftrightarrow>
    (if f_op f \<in> {CLOSE, PING, PONG} then f_fin f \<and> length (f_payload f) \<le> 125
     else (let (op, acc, q) = frame_next a f in
       (a = None \<longrightarrow> f_op f \<in> {TEXT, BINARY}) \<and> (a \<noteq> None \<longrightarrow> f_op f = CONTINUATION)
       \<and> length acc \<le> max_size \<and> q \<noteq> 1 \<and> (f_fin f \<and> f_op f = TEXT \<longrightarrow> q = 0)))"

definition receive :: "partial \<Rightarrow> frame \<Rightarrow> (opcode \<times> u8 list) list \<times> partial" where
  "receive a f =
    (if f_op f \<in> {CLOSE, PING, PONG} then ([(f_op f, f_payload f)], a)
     else (let (op, acc, q) = frame_next a f in if f_fin f then ([(op, acc)], None) else ([], Some (op, acc, q))))"

text \<open>A processor that waits for a frame, with the message it has received in part.\<close>

definition waiting :: "'z hybi13 \<Rightarrow> partial \<Rightarrow> bool" where
  "waiting s a \<longleftrightarrow> m_hstate s = HEADER_BASIC \<and> m_bytes_needed s = 2 \<and> m_extended_header s = extended_header_zero \<and> keys_ok s
    \<and> (case a of None \<Rightarrow> msg_ptr (m_data_msg s) = None
       | Some (op, acc, q) \<Rightarrow> (\<exists>m. msg_ptr (m_data_msg s) = Some m \<and> m_opcode m = op \<and> m_payload m = acc) \<and> \<not> is_control op
          \<and> m_state (msg_validator (m_data_msg s)) = q \<and> q < 9 \<and> q \<noteq> 1)"

lemma get_basic_small: "is_control op \<Longrightarrow> n \<le> 125 \<Longrightarrow> (ucast (size_code (of_nat n)) :: u64) \<le> payload_size_basic"
  by (simp add: payload_size_basic_def word_le_nat_alt unsigned_ucast_eq take_bit_nat_eq_self unat_size_code unat_of_nat_le)

lemma legal_header:
  assumes "legal max_size a f" "waiting s a" "\<And>z. \<not> is_enabled df z" "masked = m_server s"
  shows "validate_incoming_basic_header df s (basic_header_new (f_op f) (of_nat (length (f_payload f))) (f_fin f) masked False False False)
    (m_server s) (msg_ptr (m_data_msg s) = None) = None"
proof -
  have n: "msg_ptr (m_data_msg s) = None \<longleftrightarrow> a = None" using assms(2) by (auto simp: waiting_def split: option.splits)
  have c: "is_control op \<longleftrightarrow> op \<in> {CLOSE, PING, PONG, CONTROL_RSVB, CONTROL_RSVC, CONTROL_RSVD, CONTROL_RSVE, CONTROL_RSVF}" for op
    by (cases op) (simp_all add: is_control_def word_le_nat_alt)
  have r: "reserved_op op \<longleftrightarrow> op \<notin> {CONTINUATION, TEXT, BINARY, CLOSE, PING, PONG}" for op
    by (cases op) (simp_all add: reserved_op_def word_le_nat_alt)
  have i: "\<not> invalid_op op" for op by (cases op) (simp_all add: invalid_op_def)
  have small: "\<not> (ucast (size_code (of_nat (length (f_payload f)))) :: u64) > payload_size_basic" if "f_op f \<in> {CLOSE, PING, PONG}"
    using get_basic_small [of "f_op f" "length (f_payload f)"] assms(1) that c by (auto simp: legal_def not_less)
  show ?thesis
  proof (cases "f_op f \<in> {CLOSE, PING, PONG}")
    case True
    then show ?thesis using assms(1,3,4) small by (auto simp: validate_incoming_basic_header_def new_opcode new_flags new_masked new_size c r i legal_def)
  next
    case False
    then have "f_op f \<in> {CONTINUATION, TEXT, BINARY}" "f_op f = CONTINUATION \<longleftrightarrow> a \<noteq> None"
      using assms(1) by (auto simp: legal_def Let_def split: prod.splits)
    then show ?thesis using assms(3,4) n by (auto simp: validate_incoming_basic_header_def new_opcode new_flags new_masked new_size c r i)
  qed
qed

section \<open>Reading a frame\<close>

lemma ext_minimal:
  "validate_incoming_extended_header (basic_header_new op sz fin masked r1 r2 r3) (extended_for masked sz k) = None"
proof -
  have "size_code sz = 126 \<longleftrightarrow> unat (size_code sz) = 126" "size_code sz = 127 \<longleftrightarrow> unat (size_code sz) = 127"
    by (simp_all add: word_unat_eq_iff)
  then show ?thesis unfolding unat_size_code
    by (auto simp: validate_incoming_extended_header_def ext_for_size new_size payload_size_code_16bit_def payload_size_code_64bit_def
        payload_size_basic_def payload_size_extended_def word_le_nat_alt)
qed

lemma header_len_bounds: "2 \<le> get_header_len h" "get_header_len h \<le> 14"
  by (auto simp: get_header_len_def get_masking_key_offset_def)

text \<open>The state in which the payload of a frame begins.\<close>

definition at_payload :: "basic_header \<Rightarrow> extended_header \<Rightarrow> 'z hybi13 \<Rightarrow> 'z hybi13" where
  "at_payload h e s = s\<lparr>m_basic_header := h, m_hstate := HEADER_EXTENDED, m_cursor := get_header_len h - 2, m_extended_header := e, m_bytes_needed := 0\<rparr>"

lemma header_rounds_gen:
  fixes s :: "'z hybi13"
  assumes st: "m_hstate s = HEADER_BASIC" "m_bytes_needed s = 2" "m_extended_header s = extended_header_zero"
    and h: "h = basic_header_new op sz fin masked False False False" and e: "e = extended_for masked sz k"
    and v: "validate_incoming_basic_header df s h (m_server s) (msg_ptr (m_data_msg s) = None) = None"
  shows "consume_loop df s (prepare_header h e @ body) =
    and_then (bind_res (begin_payload df (at_payload h e s)) (\<lambda>(ec, s'). Inr (ec, s', body))) (\<lambda>(s', buf). consume_loop df s' buf)"
proof -
  let ?l = "get_header_len h - 2"
  let ?s1 = "s\<lparr>m_basic_header := h, m_hstate := HEADER_EXTENDED, m_cursor := 0, m_bytes_needed := of_nat ?l\<rparr>"
  have w: "prepare_header h e @ body = b0 h # b1 h # take ?l (ext_bytes e) @ body" by (simp add: prepare_header_def)
  have v': "validate_incoming_basic_header df s' h (m_server s) (msg_ptr (m_data_msg s) = None) = None" if "m_permessage_deflate s' = m_permessage_deflate s" for s' :: "'z hybi13"
  proof -
    have "validate_incoming_basic_header df s' h x y = validate_incoming_basic_header df s h x y" for x y
      by (simp only: validate_incoming_basic_header_def that)
    then show ?thesis using v by simp
  qed
  have hh: "\<lparr>b0 = b0 h, b1 = b1 h\<rparr> = h" by simp
  have r1: "consume_round df s (prepare_header h e @ body) = Inr (None, ?s1, take ?l (ext_bytes e) @ body)"
    unfolding w consume_round_def st(1) by (simp add: st v' hh)
  have c1: "consuming s (prepare_header h e @ body)" unfolding w by (simp add: consuming_def st)
  have l: "length (take ?l (ext_bytes e)) = ?l" using header_len_bounds [of h] by (simp add: e length_extended_for)
  have u: "unat (of_nat ?l :: u64) = ?l" using header_len_bounds [of h] by (intro unat_of_nat_le) simp
  have n: "min (unat (m_bytes_needed ?s1)) (length (take ?l (ext_bytes e) @ body)) = ?l" using l u by simp
  have "copy_extended_header_bytes (take ?l (ext_bytes e) @ body) ?s1 = Inr (body, at_payload h e s)"
  proof -
    have "overwrite 0 (take ?l (ext_bytes e)) (ext_bytes extended_header_zero) = ext_bytes e"
      using ext_for_reread unfolding e h extended_header_zero_def by simp
    moreover have "length (ext_bytes extended_header_zero) = 12" by (simp add: extended_header_zero_def)
    ultimately show ?thesis
      unfolding copy_extended_header_bytes_def n Let_def using l header_len_bounds [of h] st(3)
      by (simp add: store_bytes_def at_payload_def)
  qed
  moreover have "validate_incoming_extended_header h e = None" unfolding h e by (rule ext_minimal)
  ultimately have r2: "consume_round df ?s1 (take ?l (ext_bytes e) @ body) = bind_res (begin_payload df (at_payload h e s)) (\<lambda>(ec, s'). Inr (ec, s', body))"
    by (simp add: consume_round_def at_payload_def)
  have c2: "consuming ?s1 (take ?l (ext_bytes e) @ body)"
  proof (cases "?l = 0")
    case False
    then have "take ?l (ext_bytes e) \<noteq> []" using l by auto
    then show ?thesis by (simp add: consuming_def)
  qed (simp add: consuming_def)
  show ?thesis unfolding consume_loop_unfold [OF c1] r1 and_then_simps prod.case unfolding consume_loop_unfold [OF c2] r2 ..
qed

lemma header_rounds:
  assumes "legal max_size a f" "waiting s a" "\<And>z. \<not> is_enabled df z" "masked = m_server s"
    and h: "h = basic_header_new (f_op f) (of_nat (length (f_payload f))) (f_fin f) masked False False False"
    and e: "e = extended_for masked (of_nat (length (f_payload f))) k"
  shows "consume_loop df s (wire masked f k @ rest) =
    and_then (bind_res (begin_payload df (at_payload h e s)) (\<lambda>(ec, s'). Inr (ec, s', unmasked masked k 0 (f_payload f) @ rest)))
      (\<lambda>(s', buf). consume_loop df s' buf)"
proof -
  have "wire masked f k @ rest = prepare_header h e @ unmasked masked k 0 (f_payload f) @ rest" by (simp add: wire_def h e Let_def)
  then show ?thesis using header_rounds_gen [OF _ _ _ h e, of s df] legal_header [OF assms(1-4)] assms(2) unfolding h by (simp add: waiting_def)
qed

lemma unmasked_twice: "unmasked masked k p (unmasked masked k p xs) = xs"
  by (simp add: unmasked_def byte_mask_twice)

lemma length_unmasked [simp]: "length (unmasked masked k p xs) = length xs"
  by (simp add: unmasked_def)

text \<open>The payload of a frame goes behind the message it belongs to.\<close>

lemma payload_round:
  assumes off: "\<And>z. \<not> is_enabled df z" and "m_hstate s = APPLICATION" "m_bytes_needed s = of_nat (length pl)" "length pl < 2 ^ 64"
    and md: "current_msg s = Inr md" "msg_ptr md = Some m" "key_ok (prepared_key md)" "masked \<Longrightarrow> key_phase (prepared_key md) k 0"
    and "masked = get_masked (m_basic_header s)" "check_text m pl (msg_validator md) = Inr (True, v)"
  obtains w where "key_ok w"
    "consume_round df s (unmasked masked k 0 pl @ rest)
      = payload_end df rest ((set_current_msg (md\<lparr>msg_ptr := Some (m\<lparr>m_payload := m_payload m @ pl\<rparr>), prepared_key := w, msg_validator := v\<rparr>) s)\<lparr>m_bytes_needed := 0\<rparr>)"
proof (cases "pl = []")
  case True
  have "v = msg_validator md" using assms(10) True by (auto simp: check_text_def split: if_splits)
  moreover have "set_current_msg md s = s" using md(1) by (auto simp: current_msg_def set_current_msg_def split: option.splits current.splits)
  moreover have "consume_round df s (unmasked masked k 0 pl @ rest) = payload_end df rest s"
    using True assms(3) round_application [OF assms(2) refl, of df "[] @ rest"] by (simp add: unmasked_def byte_mask_def)
  moreover have "md\<lparr>msg_ptr := Some m\<rparr> = md" using md(2) by (cases md) simp
  moreover have "s\<lparr>m_bytes_needed := 0\<rparr> = s" using assms(3) True by (cases s) simp
  ultimately show ?thesis using that [of "prepared_key md"] md(3) True by simp
next
  case False
  obtain k' p' where kp: "key_phase (prepared_key md) k' p'" "masked \<longrightarrow> k' = k \<and> p' = 0" using md(3,4) by (cases masked) (auto simp: key_ok_def)
  let ?buf = "unmasked masked k 0 pl"
  let ?w = "if masked then circshift_prepared_key (prepared_key md) (length ?buf mod 4) else prepared_key md"
  have x: "pl = unmasked masked k' p' ?buf" using kp(2) unmasked_twice [of masked k 0 pl] by (auto simp: unmasked_def)
  have w: "key_ok ?w"
    using byte_mask_circ_masks [of 0 0 "length ?buf" ?buf "prepared_key md" k' p'] kp(1) md(3) by (auto simp: key_ok_def apart_def)
  have u: "unat (m_bytes_needed s) = length pl" using assms(3,4) by (simp add: unat_of_nat_le)
  then have n: "length pl = min (unat (m_bytes_needed s)) (length (?buf @ rest))" by simp
  have t: "take (length pl) (?buf @ rest) = ?buf" "drop (length pl) (?buf @ rest) = rest" by simp_all
  have "process_payload_bytes df ?buf s = Inr (None, (set_current_msg (md\<lparr>msg_ptr := Some (m\<lparr>m_payload := m_payload m @ pl\<rparr>), prepared_key := ?w, msg_validator := v\<rparr>) s)\<lparr>m_bytes_needed := 0\<rparr>)"
    unfolding process_plain [OF off md(1,2) kp(1) assms(9) x refl] using assms(3,10) by (simp add: Let_def)
  then have "consume_round df s (?buf @ rest)
      = payload_end df rest ((set_current_msg (md\<lparr>msg_ptr := Some (m\<lparr>m_payload := m_payload m @ pl\<rparr>), prepared_key := ?w, msg_validator := v\<rparr>) s)\<lparr>m_bytes_needed := 0\<rparr>)"
    unfolding round_application [OF assms(2) n] t using False by simp
  with w show ?thesis by (rule that)
qed

lemma is_control_iff: "is_control op \<longleftrightarrow> op \<in> {CLOSE, PING, PONG, CONTROL_RSVB, CONTROL_RSVC, CONTROL_RSVD, CONTROL_RSVE, CONTROL_RSVF}"
  by (cases op) (simp_all add: is_control_def word_le_nat_alt)

lemma check_text_ok:
  assumes "m_state v < 9" "m_state v \<noteq> 1" "q = (if m_opcode m = TEXT then run (m_state v) (map unat pl) else m_state v)" "q \<noteq> 1"
  obtains v' where "check_text m pl v = Inr (True, v')" "m_state v' = q" "q < 9"
proof (cases "m_opcode m = TEXT")
  case True
  then show ?thesis using validator_decode_run [OF assms(1,2), of pl] assms(3,4) that by (auto simp: check_text_def)
next
  case False
  then show ?thesis using that [of v] assms by (simp add: check_text_def)
qed

lemma finalize_plain:
  assumes "\<And>z. \<not> is_enabled df z" "current_msg s = Inr md" "msg_ptr md = Some m"
    "get_opcode (m_basic_header s) = TEXT \<longrightarrow> m_state (msg_validator md) = 0"
  shows "finalize_message df s = Inr (None, s\<lparr>m_hstate := READY\<rparr>)"
proof -
  have 1: "md\<lparr>msg_ptr := Some m\<rparr> = md" using assms(3) by (cases md) simp
  have 2: "set_current_msg md s = s" using assms(2) by (auto simp: current_msg_def set_current_msg_def split: option.splits current.splits)
  have 3: "s\<lparr>m_permessage_deflate := m_permessage_deflate s\<rparr> = s" by simp
  show ?thesis unfolding finalize_message_def assms(2) bind_res_Inr the_msg_def assms(3) option.case Let_def
    using assms(1,4) by (simp add: 1 2 3 validator_complete_def utf8_accept_def del: hybi13.update_convs)
qed

lemma current_msg_hstate [simp]: "current_msg (s\<lparr>m_hstate := x\<rparr>) = current_msg s"
  by (simp add: current_msg_def split: option.split current.split)

lemma set_current_hstate [simp]: "set_current_msg md (s\<lparr>m_hstate := x\<rparr>) = (set_current_msg md s)\<lparr>m_hstate := x\<rparr>"
  by (simp add: set_current_msg_def split: option.split current.split)

text \<open>A finished frame: the message is taken out, and the processor waits for the next frame.\<close>

lemma control_frame_read:
  assumes "legal max_size a f" "waiting s a" "\<And>z. \<not> is_enabled df z" "masked = m_server s" "f_op f \<in> {CLOSE, PING, PONG}"
  obtains m s1 s2 where "consume_loop df s (wire masked f k @ rest) = Inr (None, s1, rest)" "ready s1" "get_message s1 = Inr (Some m, s2)"
    "m_opcode m = f_op f" "m_payload m = f_payload f" "waiting s2 a" "m_server s2 = m_server s" "m_max_message_size s2 = m_max_message_size s"
proof -
  define h where "h = basic_header_new (f_op f) (of_nat (length (f_payload f))) (f_fin f) masked False False False"
  define e where "e = extended_for masked (of_nat (length (f_payload f))) k"
  have op: "get_opcode h = f_op f" "get_fin h = f_fin f" "get_masked h = masked" by (simp_all add: h_def new_opcode new_flags new_masked)
  have sz: "get_payload_size h e = of_nat (length (f_payload f))" "get_masking_key h e = (if masked then k else 0)"
    by (simp_all add: h_def e_def ext_for_size ext_for_key)
  have leg: "f_fin f" "length (f_payload f) \<le> 125" using assms(1,5) by (auto simp: legal_def)
  define md where "md = msg_metadata_new (message_new (f_op f)) (if masked then k else 0)"
  define s0 where "s0 = (at_payload h e s)\<lparr>m_hstate := APPLICATION, m_bytes_needed := of_nat (length (f_payload f)), m_control_msg := md, m_current_msg := Some Control_Msg\<rparr>"
  have b: "begin_payload df (at_payload h e s) = Inr (None, s0)"
    using assms(5) by (auto simp: begin_payload_def Let_def at_payload_def op sz is_control_iff s0_def md_def)
  have cur: "current_msg s0 = Inr md" by (simp add: s0_def current_msg_def)
  have st: "m_hstate s0 = APPLICATION" "m_bytes_needed s0 = of_nat (length (f_payload f))" "masked = get_masked (m_basic_header s0)"
    using op by (simp_all add: s0_def at_payload_def)
  have mp: "msg_ptr md = Some (message_new (f_op f))" "key_ok (prepared_key md)" "masked \<Longrightarrow> key_phase (prepared_key md) k 0"
    using prepare_masking_key_phase by (simp_all add: md_def msg_metadata_new_def key_ok_intros)
  have "m_opcode (message_new (f_op f)) \<noteq> TEXT" using assms(5) by (auto simp: message_new_def)
  then have ct: "check_text (message_new (f_op f)) (f_payload f) (msg_validator md) = Inr (True, msg_validator md)" by (simp add: check_text_def)
  obtain w where w: "key_ok w" "consume_round df s0 (unmasked masked k 0 (f_payload f) @ rest)
      = payload_end df rest ((set_current_msg (md\<lparr>msg_ptr := Some ((message_new (f_op f))\<lparr>m_payload := m_payload (message_new (f_op f)) @ f_payload f\<rparr>),
          prepared_key := w, msg_validator := msg_validator md\<rparr>) s0)\<lparr>m_bytes_needed := 0\<rparr>)"
    by (rule payload_round [OF assms(3) st(1,2) _ cur mp st(3) ct]) (use leg in simp_all)
  define m where "m = (message_new (f_op f))\<lparr>m_payload := f_payload f\<rparr>"
  define md' where "md' = md\<lparr>msg_ptr := Some m, prepared_key := w\<rparr>"
  define t where "t = s0\<lparr>m_control_msg := md', m_bytes_needed := 0\<rparr>"
  have w2: "consume_round df s0 (unmasked masked k 0 (f_payload f) @ rest) = payload_end df rest t"
    using w(2) by (simp add: t_def md'_def m_def set_current_msg_def s0_def message_new_def)
  have fin: "finalize_message df t = Inr (None, t\<lparr>m_hstate := READY\<rparr>)"
    by (rule finalize_plain [OF assms(3), of t md' m]) (use assms(5) op in \<open>auto simp: t_def s0_def current_msg_def md'_def at_payload_def\<close>)
  have r: "consume_round df s0 (unmasked masked k 0 (f_payload f) @ rest) = Inr (None, t\<lparr>m_hstate := READY\<rparr>, rest)"
    unfolding w2 payload_end_def using fin leg(1) op(2) by (simp add: t_def s0_def at_payload_def)
  have con: "consuming s0 (unmasked masked k 0 (f_payload f) @ rest)"
    by (cases "f_payload f") (simp_all add: consuming_def st unmasked_def byte_mask_def)
  let ?s1 = "t\<lparr>m_hstate := READY\<rparr>"
  let ?s2 = "reset_headers (?s1\<lparr>m_control_msg := md'\<lparr>msg_ptr := None\<rparr>\<rparr>)"
  have "consume_loop df s (wire masked f k @ rest) = Inr (None, ?s1, rest)"
    unfolding header_rounds [OF assms(1-4) h_def e_def] b using consume_loop_unfold [OF con, of df]
    by (simp add: r consume_loop_stop consuming_def)
  moreover have "ready ?s1" by (simp add: ready_def)
  moreover have "get_message ?s1 = Inr (Some m, ?s2)"
    using assms(5) by (auto simp: get_message_def ready_def current_msg_def the_msg_def set_current_msg_def t_def s0_def md'_def m_def message_new_def is_control_iff)
  moreover have "waiting ?s2 a" using assms(2) w(1)
    by (auto simp: waiting_def reset_headers_def t_def s0_def at_payload_def keys_ok_def md'_def split: option.splits)
  ultimately show ?thesis using that [of ?s1 m ?s2] by (simp add: m_def message_new_def reset_headers_def t_def s0_def at_payload_def)
qed

lemma legal_data:
  assumes "legal max_size a f" "f_op f \<notin> {CLOSE, PING, PONG}" "frame_next a f = (op, acc, q)"
  shows "length acc \<le> max_size" "q \<noteq> 1" "f_fin f \<Longrightarrow> f_op f = TEXT \<Longrightarrow> q = 0" "f_op f \<in> {CONTINUATION, TEXT, BINARY}"
    "a = None \<Longrightarrow> f_op f \<in> {TEXT, BINARY}"
  using assms by (auto simp: legal_def split: if_splits)

text \<open>The record a data frame is written to: a new one, or the one of the message it continues.\<close>

lemma begin_data:
  assumes "legal (unat (m_max_message_size s)) a f" "waiting s a" "\<And>z. \<not> is_enabled df z" "f_op f \<notin> {CLOSE, PING, PONG}"
    "frame_base a f = (op, acc, q)" "get_opcode h = f_op f" "get_payload_size h e = of_nat (length (f_payload f))"
  obtains md m where "begin_payload df (at_payload h e s) = Inr (None, (at_payload h e s)\<lparr>m_hstate := APPLICATION,
      m_bytes_needed := of_nat (length (f_payload f)), m_data_msg := md, m_current_msg := Some Data_Msg\<rparr>)"
    "msg_ptr md = Some m" "m_opcode m = op" "m_payload m = acc" "m_state (msg_validator md) = q" "q < 9" "q \<noteq> 1"
    "prepared_key md = prepare_masking_key (get_masking_key h e)" "\<not> is_control op"
proof -
  obtain op' acc' q' where fn: "frame_next a f = (op', acc', q')" by (cases "frame_next a f") auto
  have nc: "\<not> is_control (f_op f)" using legal_data(4) [OF assms(1,4) fn] by (auto simp: is_control_iff)
  have len: "length acc + length (f_payload f) \<le> unat (m_max_message_size s)"
    using legal_data(1) [OF assms(1,4) fn] fn assms(5) by (auto simp: frame_next_def)
  moreover have "unat (m_max_message_size s) < 2 ^ LENGTH(64)" by (rule unsigned_less)
  ultimately have big: "length acc + length (f_payload f) < 2 ^ 64" by simp
  have sum: "\<not> of_nat (length acc) + of_nat (length (f_payload f)) > m_max_message_size s"
    using len big unat_add_no_wrap [of "of_nat (length acc)" "of_nat (length (f_payload f))"] by (simp add: not_less word_le_nat_alt unat_of_nat_le)
  show ?thesis
  proof (cases a)
    case None
    then have "msg_ptr (m_data_msg s) = None" "op = f_op f" "acc = []" "q = 0" using assms(2,5) by (auto simp: waiting_def frame_base_def)
    then show ?thesis using that [of "msg_metadata_new (message_new (f_op f)) (get_masking_key h e)" "message_new (f_op f)"] sum assms(3,6,7) nc
      by (simp add: begin_payload_def Let_def at_payload_def msg_metadata_new_def message_new_def validator_new_def utf8_accept_def)
  next
    case (Some b)
    then have b: "b = (op, acc, q)" using assms(5) by (simp add: frame_base_def)
    then obtain m where m: "msg_ptr (m_data_msg s) = Some m" "m_opcode m = op" "m_payload m = acc" "\<not> is_control op"
        "m_state (msg_validator (m_data_msg s)) = q" "q < 9" "q \<noteq> 1"
      using assms(2) Some by (auto simp: waiting_def)
    then show ?thesis using that [of "(m_data_msg s)\<lparr>prepared_key := prepare_masking_key (get_masking_key h e)\<rparr>" m] sum assms(6,7) nc
      by (simp add: begin_payload_def Let_def at_payload_def)
  qed
qed

lemma data_payload_read:
  assumes "legal (unat (m_max_message_size s)) a f" "waiting s a" and off: "\<And>z. \<not> is_enabled df z" and "masked = m_server s"
    "f_op f \<notin> {CLOSE, PING, PONG}" "frame_next a f = (op, acc, q)"
  obtains t md m where "consume_loop df s (wire masked f k @ rest) = and_then (payload_end df rest t) (\<lambda>(s', buf). consume_loop df s' buf)"
    "m_data_msg t = md" "m_current_msg t = Some Data_Msg" "msg_ptr md = Some m" "m_opcode m = op" "m_payload m = acc" "m_state (msg_validator md) = q"
    "q < 9" "\<not> is_control op" "keys_ok t" "m_bytes_needed t = 0" "get_opcode (m_basic_header t) = f_op f" "get_fin (m_basic_header t) = f_fin f"
    "m_server t = m_server s" "m_max_message_size t = m_max_message_size s" "m_hstate t = APPLICATION"
proof -
  define h where "h = basic_header_new (f_op f) (of_nat (length (f_payload f))) (f_fin f) masked False False False"
  define e where "e = extended_for masked (of_nat (length (f_payload f))) k"
  have op: "get_opcode h = f_op f" "get_fin h = f_fin f" "get_masked h = masked" by (simp_all add: h_def new_opcode new_flags new_masked)
  have sz: "get_payload_size h e = of_nat (length (f_payload f))" "get_masking_key h e = (if masked then k else 0)"
    by (simp_all add: h_def e_def ext_for_size ext_for_key)
  obtain op0 acc0 q0 where fb: "frame_base a f = (op0, acc0, q0)" by (cases "frame_base a f") auto
  then have nx: "op = op0" "acc = acc0 @ f_payload f" "q = (if op0 = TEXT then run q0 (map unat (f_payload f)) else q0)"
    using assms(6) by (auto simp: frame_next_def)
  obtain md0 m0 where b: "begin_payload df (at_payload h e s) = Inr (None, (at_payload h e s)\<lparr>m_hstate := APPLICATION,
      m_bytes_needed := of_nat (length (f_payload f)), m_data_msg := md0, m_current_msg := Some Data_Msg\<rparr>)"
    and m0: "msg_ptr md0 = Some m0" "m_opcode m0 = op0" "m_payload m0 = acc0" "m_state (msg_validator md0) = q0" "q0 < 9" "q0 \<noteq> 1"
      "prepared_key md0 = prepare_masking_key (get_masking_key h e)" "\<not> is_control op0"
    by (rule begin_data [OF assms(1,2) off assms(5) fb op(1) sz(1)])
  define s0 where "s0 = (at_payload h e s)\<lparr>m_hstate := APPLICATION, m_bytes_needed := of_nat (length (f_payload f)), m_data_msg := md0, m_current_msg := Some Data_Msg\<rparr>"
  note leg = legal_data [OF assms(1,5,6)]
  obtain v where v: "check_text m0 (f_payload f) (msg_validator md0) = Inr (True, v)" "m_state v = q" "q < 9"
    by (rule check_text_ok [of "msg_validator md0" q m0 "f_payload f"]) (use m0 nx leg(2) in simp_all)
  have cur: "current_msg s0 = Inr md0" by (simp add: s0_def current_msg_def)
  have st: "m_hstate s0 = APPLICATION" "m_bytes_needed s0 = of_nat (length (f_payload f))" "masked = get_masked (m_basic_header s0)"
    using op by (simp_all add: s0_def at_payload_def)
  have kk: "key_ok (prepared_key md0)" "masked \<Longrightarrow> key_phase (prepared_key md0) k 0"
    using m0(7) sz(2) prepare_masking_key_phase by (simp_all add: key_ok_intros)
  have "unat (m_max_message_size s) < 2 ^ LENGTH(64)" by (rule unsigned_less)
  then have len: "length (f_payload f) < 2 ^ 64" using leg(1) nx(2) by simp
  obtain w where w: "key_ok w" "consume_round df s0 (unmasked masked k 0 (f_payload f) @ rest)
      = payload_end df rest ((set_current_msg (md0\<lparr>msg_ptr := Some (m0\<lparr>m_payload := m_payload m0 @ f_payload f\<rparr>), prepared_key := w, msg_validator := v\<rparr>) s0)\<lparr>m_bytes_needed := 0\<rparr>)"
    by (rule payload_round [OF off st(1,2) len cur m0(1) kk st(3) v(1)])
  define m where "m = m0\<lparr>m_payload := acc\<rparr>"
  define md where "md = md0\<lparr>msg_ptr := Some m, prepared_key := w, msg_validator := v\<rparr>"
  define t where "t = s0\<lparr>m_data_msg := md, m_bytes_needed := 0\<rparr>"
  have r: "consume_round df s0 (unmasked masked k 0 (f_payload f) @ rest) = payload_end df rest t"
    using w(2) m0(3) nx(2) by (simp add: t_def md_def m_def set_current_msg_def s0_def)
  have con: "consuming s0 (unmasked masked k 0 (f_payload f) @ rest)"
    by (cases "f_payload f") (simp_all add: consuming_def st unmasked_def byte_mask_def)
  have "consume_loop df s (wire masked f k @ rest) = and_then (payload_end df rest t) (\<lambda>(s', buf). consume_loop df s' buf)"
    unfolding header_rounds [OF assms(1,2) off assms(4) h_def e_def] b [folded s0_def] using consume_loop_unfold [OF con, of df] by (simp add: r)
  moreover have "keys_ok t" using assms(2) w(1) by (simp add: t_def s0_def at_payload_def keys_ok_def md_def waiting_def)
  ultimately show ?thesis using that [of t md m] v(2,3) m0(2,8) nx(1) op
    by (simp add: t_def md_def m_def s0_def at_payload_def)
qed

text \<open>Reading one frame with the loop of the connection.\<close>

lemma read_frame:
  fixes s :: "'z hybi13"
  assumes "legal (unat (m_max_message_size s)) a f" "waiting s a" and off: "\<And>z. \<not> is_enabled df z" and "masked = m_server s"
    "receive a f = (out, a')"
  obtains s2 ms where "read_all df s (wire masked f k @ rest) = foldr (\<lambda>m. add_message (Some m)) ms (read_all df s2 rest)"
    "map (\<lambda>m. (m_opcode m, m_payload m)) ms = out" "waiting s2 a'" "m_server s2 = m_server s" "m_max_message_size s2 = m_max_message_size s"
proof -
  have ne: "wire masked f k @ rest \<noteq> []" "consuming s (wire masked f k @ rest)"
    using assms(2) by (auto simp: wire_def prepare_header_def Let_def consuming_def waiting_def)
  show ?thesis
  proof (cases "f_op f \<in> {CLOSE, PING, PONG}")
    case True
    obtain m s1 s2 where c: "consume_loop df s (wire masked f k @ rest) = Inr (None, s1, rest)" "ready s1" "get_message s1 = Inr (Some m, s2)"
      "m_opcode m = f_op f" "m_payload m = f_payload f" "waiting s2 a" "m_server s2 = m_server s" "m_max_message_size s2 = m_max_message_size s"
      by (rule control_frame_read [OF assms(1-4) True])
    have "read_all df s (wire masked f k @ rest) = foldr (\<lambda>m. add_message (Some m)) [m] (read_all df s2 rest)"
      using read_all_unfold [OF ne c(1)] c(2,3) by simp
    then show ?thesis using that [of "[m]" s2] c assms(5) True by (auto simp: receive_def)
  next
    case False
    obtain op acc q where fn: "frame_next a f = (op, acc, q)" by (cases "frame_next a f") auto
    obtain t md m where t: "consume_loop df s (wire masked f k @ rest) = and_then (payload_end df rest t) (\<lambda>(s', buf). consume_loop df s' buf)"
      "m_data_msg t = md" "m_current_msg t = Some Data_Msg" "msg_ptr md = Some m" "m_opcode m = op" "m_payload m = acc" "m_state (msg_validator md) = q"
      "q < 9" "\<not> is_control op" "keys_ok t" "m_bytes_needed t = 0" "get_opcode (m_basic_header t) = f_op f" "get_fin (m_basic_header t) = f_fin f"
      "m_server t = m_server s" "m_max_message_size t = m_max_message_size s" "m_hstate t = APPLICATION"
      by (rule data_payload_read [OF assms(1,2) off assms(4) False fn])
    note leg = legal_data [OF assms(1) False fn]
    have cur: "current_msg t = Inr md" using t(2,3) by (simp add: current_msg_def)
    show ?thesis
    proof (cases "f_fin f")
      case True
      have "finalize_message df t = Inr (None, t\<lparr>m_hstate := READY\<rparr>)"
        by (rule finalize_plain [OF off cur t(4)]) (use leg(3) True t(7,12) in simp)
      then have "consume_loop df s (wire masked f k @ rest) = Inr (None, t\<lparr>m_hstate := READY\<rparr>, rest)"
        using t(1,11,13) True by (simp add: payload_end_def consume_loop_stop consuming_def)
      note U = read_all_unfold [OF ne this]
      let ?s2 = "reset_headers (t\<lparr>m_hstate := READY, m_data_msg := md\<lparr>msg_ptr := None\<rparr>\<rparr>)"
      have g: "get_message (t\<lparr>m_hstate := READY\<rparr>) = Inr (Some m, ?s2)"
        using cur t(2,3,4,5,9) by (simp add: get_message_def ready_def the_msg_def set_current_msg_def)
      have "waiting ?s2 None" using t(2,10) by (simp add: waiting_def reset_headers_def keys_ok_def)
      moreover have "read_all df s (wire masked f k @ rest) = foldr (\<lambda>m. add_message (Some m)) [m] (read_all df ?s2 rest)"
        using U g by (simp add: ready_def)
      ultimately show ?thesis using that [of "[m]" ?s2] t(5,6,14,15) assms(5) False True fn by (auto simp: receive_def reset_headers_def)
    next
      case nf: False
      then have l: "consume_loop df s (wire masked f k @ rest) = consume_loop df (reset_headers t) rest"
        using t(1,11,13) by (simp add: payload_end_def)
      let ?s2 = "reset_headers t"
      have w: "waiting ?s2 (Some (op, acc, q))" using t leg(2) by (auto simp: waiting_def reset_headers_def)
      have "read_all df s (wire masked f k @ rest) = read_all df ?s2 rest"
      proof (cases "rest = []")
        case True
        have "consume_loop df s (wire masked f k @ rest) = Inr (None, ?s2, [])"
          using l True by (simp add: consume_loop_stop consuming_def reset_headers_def)
        from read_all_unfold [OF ne this] show ?thesis using True by (simp add: ready_def reset_headers_def)
      next
        case False
        then have "consuming ?s2 rest" by (simp add: consuming_def reset_headers_def)
        with False ne l show ?thesis by (subst (1 2) read_all.simps) simp
      qed
      then show ?thesis using that [of "[]" ?s2] w t(14,15) assms(5) False nf fn by (auto simp: receive_def reset_headers_def)
    qed
  qed
qed

section \<open>Sequences of frames\<close>

fun receives :: "partial \<Rightarrow> frame list \<Rightarrow> (opcode \<times> u8 list) list \<times> partial" where
  "receives a [] = ([], a)"
| "receives a (f # fs) = (let (out, a') = receive a f; (outs, a'') = receives a' fs in (out @ outs, a''))"

fun legals :: "nat \<Rightarrow> partial \<Rightarrow> frame list \<Rightarrow> bool" where
  "legals max_size a [] \<longleftrightarrow> True"
| "legals max_size a (f # fs) \<longleftrightarrow> legal max_size a f \<and> legals max_size (snd (receive a f)) fs"

lemma foldr_add_message: "foldr (\<lambda>m. add_message (Some m)) ms (Inr (ec, s, ms')) = Inr (ec, s, ms @ ms')"
  by (induction ms) (simp_all add: add_message_def)

lemma read_frames:
  assumes "legals (unat (m_max_message_size s)) a (map fst fks)" "waiting s a" and off: "\<And>z. \<not> is_enabled df z" and "masked = m_server s"
  shows "\<exists>s2 ms. read_all df s (concat (map (\<lambda>(f, k). wire masked f k) fks)) = Inr (None, s2, ms)
    \<and> map (\<lambda>m. (m_opcode m, m_payload m)) ms = fst (receives a (map fst fks)) \<and> waiting s2 (snd (receives a (map fst fks)))"
  using assms(1,2,4)
proof (induction fks arbitrary: s a)
  case Nil
  then show ?case by (simp add: read_all_stop)
next
  case (Cons fk fks)
  obtain f k where fk: "fk = (f, k)" by fastforce
  obtain out a' where r: "receive a f = (out, a')" by fastforce
  have leg: "legal (unat (m_max_message_size s)) a f" "legals (unat (m_max_message_size s)) a' (map fst fks)" using Cons.prems(1) fk r by simp_all
  obtain s2 ms where 1: "read_all df s (wire masked f k @ concat (map (\<lambda>(f, k). wire masked f k) fks))
        = foldr (\<lambda>m. add_message (Some m)) ms (read_all df s2 (concat (map (\<lambda>(f, k). wire masked f k) fks)))"
    "map (\<lambda>m. (m_opcode m, m_payload m)) ms = out" "waiting s2 a'" "m_server s2 = m_server s" "m_max_message_size s2 = m_max_message_size s"
    by (rule read_frame [OF leg(1) Cons.prems(2) off Cons.prems(3) r])
  obtain s3 ms' where 2: "read_all df s2 (concat (map (\<lambda>(f, k). wire masked f k) fks)) = Inr (None, s3, ms')"
    "map (\<lambda>m. (m_opcode m, m_payload m)) ms' = fst (receives a' (map fst fks))" "waiting s3 (snd (receives a' (map fst fks)))"
    using Cons.IH [of s2 a'] leg(2) 1(3,4,5) Cons.prems(3) by auto
  show ?case unfolding fk using 1 2 r by (auto simp: foldr_add_message split: prod.split)
qed

lemma waiting_new: "waiting (hybi13_new server max_size z) None"
  by (simp add: waiting_def new_keys hybi13_new_def reset_headers_def msg_metadata_empty_def)
     (simp add: keys_ok_def key_ok_intros)

lemma new_simps [simp]: "m_server (hybi13_new server max_size z) = server" "m_max_message_size (hybi13_new server max_size z) = max_size"
  by (simp_all add: hybi13_new_def reset_headers_def)

lemma read_chunks_frames:
  assumes "legals (unat max_size) None (map fst fks)" "concat cs = concat (map (\<lambda>(f, k). wire server f k) fks)"
  shows "\<exists>s ms. read_chunks disabled (hybi13_new server max_size ()) cs = Inr (None, s, ms)
    \<and> map (\<lambda>m. (m_opcode m, m_payload m)) ms = fst (receives None (map fst fks)) \<and> waiting s (snd (receives None (map fst fks)))"
proof -
  have off: "\<not> is_enabled disabled z" for z by (simp add: disabled_def)
  obtain s ms where r: "read_all disabled (hybi13_new server max_size ()) (concat cs) = Inr (None, s, ms)"
    "map (\<lambda>m. (m_opcode m, m_payload m)) ms = fst (receives None (map fst fks))" "waiting s (snd (receives None (map fst fks)))"
    using read_frames [where s = "hybi13_new server max_size ()" and a = None and fks = fks and df = disabled and masked = server, OF _ waiting_new off] assms
    by auto
  have "same_reading (read_chunks disabled (hybi13_new server max_size ()) cs) (read_all disabled (hybi13_new server max_size ()) (concat cs))"
    by (rule read_chunks_concat [OF off]) (simp_all add: new_keys)
  then have "read_chunks disabled (hybi13_new server max_size ()) cs = Inr (None, s, ms)"
    unfolding r(1) by (auto simp: same_reading_def split: sum.splits prod.splits)
  with r show ?thesis by blast
qed

section \<open>Writing frames\<close>

lemma prepare_data_wire:
  assumes off: "\<And>z. \<not> is_enabled df z" and "\<not> is_control (m_opcode i)" "m_opcode i = TEXT \<longrightarrow> well_formed (map unat (m_payload i))"
  shows "\<exists>o'. prepare_data_frame df rng (Some i) (Some out) c = Inr (None, Some o', c)
    \<and> m_header o' @ m_payload o' = wire (\<not> m_server c) \<lparr>f_op = m_opcode i, f_fin = m_fin i, f_payload = m_payload i\<rparr> rng
    \<and> m_opcode o' = m_opcode i \<and> m_prepared o' \<and> m_terminal o' = m_terminal out"
proof -
  have "m_opcode i = TEXT \<Longrightarrow> validate (m_payload i) = Inr True" using assms(3) by (simp add: validate_well_formed)
  then show ?thesis unfolding prepare_data_frame_def using assms(2) off
    by (simp add: Let_def wire_def masked_copy_def unmasked_def extended_for_def)
qed

lemma prepare_data_invalid:
  assumes "m_opcode i = TEXT" "\<not> well_formed (map unat (m_payload i))"
  shows "prepare_data_frame df rng (Some i) (Some out) c = Inr (Some (Proc p_invalid_payload), Some out, c)"
  using assms by (simp add: prepare_data_frame_def is_control_iff validate_well_formed)

lemma prepare_control_wire:
  assumes "is_control op" "length payload \<le> 125"
  shows "\<exists>o'. prepare_control rng op payload (Some out) c = (None, Some o')
    \<and> m_header o' @ m_payload o' = wire (\<not> m_server c) \<lparr>f_op = op, f_fin = True, f_payload = payload\<rparr> rng
    \<and> m_opcode o' = op \<and> m_prepared o' \<and> m_terminal o' = m_terminal out"
  using assms by (simp add: prepare_control_def Let_def wire_def masked_copy_def unmasked_def extended_for_def)

text \<open>Sending one message: a data message or a control message, prepared in an empty buffer.\<close>

definition send_one :: "'z deflate \<Rightarrow> 'z hybi13 \<Rightarrow> u32 \<Rightarrow> opcode \<times> u8 list \<Rightarrow> (error_code option \<times> u8 list) res" where
  "send_one df c rng = (\<lambda>(op, payload).
    if is_control op then
      (case prepare_control rng op payload (Some message_empty) c of
         (ec, Some o') \<Rightarrow> Inr (ec, m_header o' @ m_payload o') | (ec, None) \<Rightarrow> Inr (ec, []))
    else
      bind_res (prepare_data_frame df rng (Some ((message_new op)\<lparr>m_payload := payload\<rparr>)) (Some message_empty) c) (\<lambda>(ec, outp, _).
      case outp of Some o' \<Rightarrow> Inr (ec, m_header o' @ m_payload o') | None \<Rightarrow> Inr (ec, [])))"

lemma send_one_wire:
  assumes "send_one disabled c rng (op, payload) = Inr (None, bytes)"
  shows "bytes = wire (\<not> m_server c) \<lparr>f_op = op, f_fin = True, f_payload = payload\<rparr> rng"
    "is_control op \<Longrightarrow> length payload \<le> 125" "op = TEXT \<Longrightarrow> well_formed (map unat payload)"
proof -
  have off: "\<not> is_enabled disabled z" for z by (simp add: disabled_def)
  let ?i = "(message_new op)\<lparr>m_payload := payload\<rparr>"
  have i: "m_opcode ?i = op" "m_fin ?i" "m_payload ?i = payload" by (simp_all add: message_new_def)
  have "bytes = wire (\<not> m_server c) \<lparr>f_op = op, f_fin = True, f_payload = payload\<rparr> rng \<and> (is_control op \<longrightarrow> length payload \<le> 125) \<and> (op = TEXT \<longrightarrow> well_formed (map unat payload))"
  proof (cases "is_control op")
    case True
    then have l: "length payload \<le> 125" using assms by (auto simp: send_one_def prepare_control_def split: if_splits)
    then show ?thesis using assms prepare_control_wire [OF True l, of rng message_empty c] True by (auto simp: send_one_def is_control_iff)
  next
    case False
    have w: "op = TEXT \<longrightarrow> well_formed (map unat payload)"
    proof (rule ccontr)
      assume "\<not> ?thesis"
      then show False using assms False prepare_data_invalid [of ?i disabled rng message_empty c] i by (simp add: send_one_def)
    qed
    then show ?thesis using assms prepare_data_wire [OF off, of ?i rng message_empty c] False i by (auto simp: send_one_def)
  qed
  then show "bytes = wire (\<not> m_server c) \<lparr>f_op = op, f_fin = True, f_payload = payload\<rparr> rng"
    "is_control op \<Longrightarrow> length payload \<le> 125" "op = TEXT \<Longrightarrow> well_formed (map unat payload)" by simp_all
qed

lemma legals_whole:
  assumes "\<And>op pl. (op, pl) \<in> set ms \<Longrightarrow> op \<in> {TEXT, BINARY} \<and> length pl \<le> max_size \<and> (op = TEXT \<longrightarrow> well_formed (map unat pl))
    \<or> op \<in> {CLOSE, PING, PONG} \<and> length pl \<le> 125"
  shows "legals max_size None (map (\<lambda>(op, pl). \<lparr>f_op = op, f_fin = True, f_payload = pl\<rparr>) ms)
    \<and> receives None (map (\<lambda>(op, pl). \<lparr>f_op = op, f_fin = True, f_payload = pl\<rparr>) ms) = (ms, None)"
  using assms
proof (induction ms)
  case (Cons m ms)
  obtain op pl where m: "m = (op, pl)" by fastforce
  let ?f = "\<lparr>f_op = op, f_fin = True, f_payload = pl\<rparr>"
  have c: "op \<in> {TEXT, BINARY} \<and> length pl \<le> max_size \<and> (op = TEXT \<longrightarrow> well_formed (map unat pl)) \<or> op \<in> {CLOSE, PING, PONG} \<and> length pl \<le> 125"
    using Cons.prems [of op pl] m by simp
  have r: "receive None ?f = ([(op, pl)], None)" using c by (auto simp: receive_def frame_next_def frame_base_def)
  have "legal max_size None ?f" using c run_well_formed by (auto simp: legal_def frame_next_def frame_base_def well_formed_def)
  then show ?case using Cons r m by simp
qed simp

section \<open>A size that wraps around\<close>

text \<open>
  The size of a continuation frame is added to the size of the message so far. When the sum wraps
  around, the frame is accepted, and its payload is received.
\<close>

lemma wrapped_size_accepted:
  fixes s :: "'z hybi13"
  assumes "waiting s (Some (BINARY, acc, q))" and off: "\<And>z. \<not> is_enabled df z" and "m_server s"
    and sz: "of_nat (length acc) + sz \<le> m_max_message_size s" and "length xs < unat sz"
    and h: "h = basic_header_new CONTINUATION sz True True False False False" and e: "e = extended_for True sz k"
  obtains s' m where "consume_loop df s (prepare_header h e @ byte_mask xs k 0) = Inr (None, s', [])" "m_hstate s' = APPLICATION"
    "msg_ptr (m_data_msg s') = Some m" "m_payload m = acc @ xs"
proof -
  obtain m where st: "m_hstate s = HEADER_BASIC" "m_bytes_needed s = 2" "m_extended_header s = extended_header_zero" "keys_ok s"
    and m: "msg_ptr (m_data_msg s) = Some m" "m_opcode m = BINARY" "m_payload m = acc"
    using assms(1) by (auto simp: waiting_def)
  have op: "get_opcode h = CONTINUATION" "get_fin h" "get_masked h" "get_payload_size h e = sz" "get_masking_key h e = k"
    by (simp_all add: h e new_opcode new_flags new_masked ext_for_size ext_for_key)
  have v: "validate_incoming_basic_header df s h (m_server s) (msg_ptr (m_data_msg s) = None) = None"
    using m(1) assms(3) off op unfolding h
    by (simp add: validate_incoming_basic_header_def new_opcode new_flags new_masked is_control_iff reserved_op_def invalid_op_def word_le_nat_alt)
  define md where "md = (m_data_msg s)\<lparr>prepared_key := prepare_masking_key k\<rparr>"
  define s0 where "s0 = (at_payload h e s)\<lparr>m_hstate := APPLICATION, m_bytes_needed := sz, m_data_msg := md, m_current_msg := Some Data_Msg\<rparr>"
  have b: "begin_payload df (at_payload h e s) = Inr (None, s0)"
    using sz m op by (simp add: begin_payload_def Let_def at_payload_def is_control_iff s0_def md_def not_less)
  let ?buf = "byte_mask xs k 0"
  have cur: "current_msg s0 = Inr md" "msg_ptr md = Some m" "key_phase (prepared_key md) k 0"
    using m(1) prepare_masking_key_phase by (simp_all add: s0_def current_msg_def md_def)
  have mk: "True = get_masked (m_basic_header s0)" "xs = unmasked True k 0 ?buf"
    using op by (simp_all add: s0_def at_payload_def unmasked_def byte_mask_twice)
  define w where "w = circshift_prepared_key (prepared_key md) (length ?buf mod 4)"
  have w: "w = (if True then circshift_prepared_key (prepared_key md) (length ?buf mod 4) else prepared_key md)" by (simp add: w_def)
  define md' where "md' = md\<lparr>msg_ptr := Some (m\<lparr>m_payload := acc @ xs\<rparr>), prepared_key := w, msg_validator := msg_validator md\<rparr>"
  define s1 where "s1 = s0\<lparr>m_data_msg := md', m_bytes_needed := sz - of_nat (length xs)\<rparr>"
  have p: "process_payload_bytes df ?buf s0 = Inr (None, s1)"
    unfolding process_plain [OF off cur mk w] using m(2,3)
    by (simp add: check_text_def Let_def s1_def md'_def set_current_msg_def s0_def)
  have nd: "unat (m_bytes_needed s1) = unat sz - length xs" using assms(5) by (simp add: s1_def unat_minus_len)
  then have pos: "m_bytes_needed s1 \<noteq> 0" using assms(5) by (auto simp: unat_eq_zero [symmetric])
  have fin: "m_hstate s1 = APPLICATION" "msg_ptr (m_data_msg s1) = Some (m\<lparr>m_payload := acc @ xs\<rparr>)"
    by (simp_all add: s1_def s0_def md'_def)
  have stop: "consume_loop df s1 [] = Inr (None, s1, [])" using pos by (intro consume_loop_stop) (simp add: consuming_def)
  have L: "consume_loop df s (prepare_header h e @ ?buf) = consume_loop df s0 ?buf"
    using header_rounds_gen [OF st(1-3) h e v, of ?buf] b by simp
  show ?thesis
  proof (cases "xs = []")
    case True
    then have "consume_loop df s0 ?buf = Inr (None, s0, [])"
      using assms(5) by (simp add: byte_mask_def s0_def consume_loop_stop consuming_def unat_gt_0)
    then show ?thesis using that [of s0 m] L m(3) True by (simp add: s0_def md_def m(1))
  next
    case False
    then have "?buf \<noteq> []" using length_byte_mask [of xs k 0] by (metis length_0_conv)
    then have c: "consuming s0 ?buf" by (simp add: consuming_def s0_def)
    have n: "length xs = min (unat (m_bytes_needed s0)) (length ?buf)" using assms(5) by (simp add: s0_def)
    have a: "m_hstate s0 = APPLICATION" by (simp add: s0_def)
    have "consume_round df s0 ?buf = Inr (None, s1, [])"
      unfolding round_application [OF a n] using False p pos by (simp add: payload_end_def word_neq_0_conv)
    then show ?thesis using that [of s1] L stop fin consume_loop_unfold [OF c, of df] by simp
  qed
qed

section \<open>Properties\<close>

text \<open>
  C2. Messages arrive: when one side sends any sequence of texts, binary messages, pings, pongs and
  close frames, each with its own masking key and without an error from the operation that prepares it,
  and the bytes reach the other side in any chunks, that side delivers exactly these messages, in
  order, if none is larger than it allows.
\<close>

theorem messages_arrive:
  assumes "\<forall>(m, rng, bytes) \<in> set sent. send_one disabled (hybi13_new (\<not> server) client_max ()) rng m = Inr (None, bytes)
      \<and> fst m \<in> {TEXT, BINARY, CLOSE, PING, PONG} \<and> length (snd m) \<le> unat max_size"
    and "concat cs = concat (map (\<lambda>(m, rng, bytes). bytes) sent)"
  shows "\<exists>s ms. read_chunks disabled (hybi13_new server max_size ()) cs = Inr (None, s, ms)
    \<and> map (\<lambda>m. (m_opcode m, m_payload m)) ms = map fst sent"
proof -
  let ?fks = "map (\<lambda>((op, pl), rng, bytes). (\<lparr>f_op = op, f_fin = True, f_payload = pl\<rparr>, rng)) sent"
  have each: "bytes = wire server \<lparr>f_op = op, f_fin = True, f_payload = pl\<rparr> rng \<and> (op \<in> {TEXT, BINARY} \<and> length pl \<le> unat max_size
      \<and> (op = TEXT \<longrightarrow> well_formed (map unat pl)) \<or> op \<in> {CLOSE, PING, PONG} \<and> length pl \<le> 125)"
    if "((op, pl), rng, bytes) \<in> set sent" for op pl rng bytes
  proof -
    have "send_one disabled (hybi13_new (\<not> server) client_max ()) rng (op, pl) = Inr (None, bytes)" "op \<in> {TEXT, BINARY, CLOSE, PING, PONG}" "length pl \<le> unat max_size"
      using assms(1) that by auto
    then show ?thesis using send_one_wire [of "hybi13_new (\<not> server) client_max ()" rng op pl bytes] by (auto simp: is_control_iff)
  qed
  have f: "map fst ?fks = map (\<lambda>(op, pl). \<lparr>f_op = op, f_fin = True, f_payload = pl\<rparr>) (map fst sent)" by (induction sent) auto
  have "legals (unat max_size) None (map fst ?fks) \<and> receives None (map fst ?fks) = (map fst sent, None)"
    unfolding f by (rule legals_whole) (use each in fastforce)
  then have l: "legals (unat max_size) None (map fst ?fks)" "receives None (map fst ?fks) = (map fst sent, None)" by simp_all
  have "map (\<lambda>(m, rng, bytes). bytes) sent = map (\<lambda>(f, k). wire server f k) ?fks" using each by (auto simp: case_prod_beta)
  then have "concat cs = concat (map (\<lambda>(f, k). wire server f k) ?fks)" using assms(2) by metis
  from read_chunks_frames [OF l(1) this] show ?thesis unfolding l(2) by auto
qed

theorem messages_arrive_witness:
  "\<exists>s ms. read_chunks disabled (hybi13_new True 100 ()) [wire True \<lparr>f_op = PING, f_fin = True, f_payload = [1, 2]\<rparr> 7] = Inr (None, s, ms)
    \<and> map (\<lambda>m. (m_opcode m, m_payload m)) ms = [(PING, [1, 2])]"
proof -
  have "send_one disabled (hybi13_new False 0 ()) 7 (PING, [1, 2]) = Inr (None, wire True \<lparr>f_op = PING, f_fin = True, f_payload = [1, 2]\<rparr> 7)"
    using prepare_control_wire [of PING "[1, 2]" 7 message_empty "hybi13_new False 0 ()"] by (auto simp: send_one_def is_control_iff)
  then show ?thesis
    using messages_arrive [of "[((PING, [1, 2]), 7, wire True \<lparr>f_op = PING, f_fin = True, f_payload = [1, 2]\<rparr> 7)]" True 0 100
        "[wire True \<lparr>f_op = PING, f_fin = True, f_payload = [1, 2]\<rparr> 7]"] by simp
qed

text \<open>
  C3. The processor implements the receiver of whole frames: for every sequence of legal frames, with
  messages in fragments and control frames between the fragments, and however their bytes are cut, the
  processor delivers what the receiver delivers, in order, and then waits for the next frame with the
  same unfinished message.
\<close>

theorem processor_implements_receiver:
  assumes "legals (unat max_size) None (map fst fks)" "concat cs = concat (map (\<lambda>(f, k). wire server f k) fks)"
  shows "\<exists>s ms. read_chunks disabled (hybi13_new server max_size ()) cs = Inr (None, s, ms)
    \<and> map (\<lambda>m. (m_opcode m, m_payload m)) ms = fst (receives None (map fst fks)) \<and> waiting s (snd (receives None (map fst fks)))"
  by (rule read_chunks_frames [OF assms])

theorem processor_implements_receiver_witness:
  "\<exists>s ms. read_chunks disabled (hybi13_new True 9 ()) [wire True \<lparr>f_op = BINARY, f_fin = False, f_payload = [1]\<rparr> 5,
      wire True \<lparr>f_op = PING, f_fin = True, f_payload = [3]\<rparr> 6, wire True \<lparr>f_op = CONTINUATION, f_fin = True, f_payload = [2]\<rparr> 7] = Inr (None, s, ms)
    \<and> map (\<lambda>m. (m_opcode m, m_payload m)) ms = [(PING, [3]), (BINARY, [1, 2])]"
  using processor_implements_receiver [of 9 "[(\<lparr>f_op = BINARY, f_fin = False, f_payload = [1]\<rparr>, 5),
      (\<lparr>f_op = PING, f_fin = True, f_payload = [3]\<rparr>, 6), (\<lparr>f_op = CONTINUATION, f_fin = True, f_payload = [2]\<rparr>, 7)]"
      "[wire True \<lparr>f_op = BINARY, f_fin = False, f_payload = [1]\<rparr> 5,
      wire True \<lparr>f_op = PING, f_fin = True, f_payload = [3]\<rparr> 6, wire True \<lparr>f_op = CONTINUATION, f_fin = True, f_payload = [2]\<rparr> 7]" True]
  by (auto simp: legal_def receive_def frame_next_def frame_base_def)

text \<open>
  C37. A text that ends in the middle of a character is delivered: when the last fragment of a text is a
  continuation frame, the end of the text is not checked, and the server hands a text to the
  application that is not UTF-8.
\<close>

theorem truncated_text_delivered:
  "\<exists>s ms. read_chunks disabled (hybi13_new True 100 ()) [wire True \<lparr>f_op = TEXT, f_fin = False, f_payload = [0xC3]\<rparr> k,
      wire True \<lparr>f_op = CONTINUATION, f_fin = True, f_payload = []\<rparr> k'] = Inr (None, s, ms)
    \<and> map (\<lambda>m. (m_opcode m, m_payload m)) ms = [(TEXT, [0xC3])] \<and> \<not> well_formed (map unat [0xC3 :: u8])"
proof -
  have r: "run 0 [195] = 2" using run_Cons_table(1) [of 195 "[]"] by (simp add: first_byte_def del: run.simps(2))
  have "\<not> well_formed (map unat [0xC3 :: u8])"
  proof
    assume "well_formed (map unat [0xC3 :: u8])"
    then obtain cs where "\<forall>c \<in> set cs. scalar c" "map unat [0xC3 :: u8] = concat (map utf8_encode cs)" unfolding well_formed_def by blast
    then have "run 0 (map unat [0xC3 :: u8]) = 0" by (simp only: run_well_formed)
    with r show False by (simp del: run.simps(2))
  qed
  moreover obtain s ms where "read_chunks disabled (hybi13_new True 100 ()) [wire True \<lparr>f_op = TEXT, f_fin = False, f_payload = [0xC3]\<rparr> k,
      wire True \<lparr>f_op = CONTINUATION, f_fin = True, f_payload = []\<rparr> k'] = Inr (None, s, ms)"
    "map (\<lambda>m. (m_opcode m, m_payload m)) ms = [(TEXT, [0xC3])]"
    using read_chunks_frames [of 100 "[(\<lparr>f_op = TEXT, f_fin = False, f_payload = [0xC3]\<rparr>, k), (\<lparr>f_op = CONTINUATION, f_fin = True, f_payload = []\<rparr>, k')]"
        "[wire True \<lparr>f_op = TEXT, f_fin = False, f_payload = [0xC3]\<rparr> k, wire True \<lparr>f_op = CONTINUATION, f_fin = True, f_payload = []\<rparr> k']" True] r
    by (auto simp: legal_def receive_def frame_next_def frame_base_def simp del: run.simps(2))
  ultimately show ?thesis by (intro exI conjI)
qed

text \<open>
  C38. The limit for messages can be passed by: after a first fragment of one byte, a continuation frame
  that announces \<open>2^64 - 1\<close> bytes is accepted whatever the limit is, because the sum of the sizes wraps
  around to zero, and its payload is put into the message without an error, however long it is.
\<close>

theorem limit_wraps_around:
  assumes "1 \<le> max_size" "length xs < 2 ^ 64 - 1"
  shows "\<exists>s m. read_all disabled (hybi13_new True max_size ()) (wire True \<lparr>f_op = BINARY, f_fin = False, f_payload = [x]\<rparr> k
      @ prepare_header (basic_header_new CONTINUATION (- 1) True True False False False) (extended_header_key (- 1) k') @ byte_mask xs k' 0)
      = Inr (None, s, []) \<and> msg_ptr (m_data_msg s) = Some m \<and> m_payload m = x # xs"
proof -
  let ?f = "\<lparr>f_op = BINARY, f_fin = False, f_payload = [x]\<rparr>" and ?s = "hybi13_new True max_size ()"
  let ?hs = "prepare_header (basic_header_new CONTINUATION (- 1) True True False False False) (extended_for True (- 1) k') @ byte_mask xs k' 0"
  have off: "\<not> is_enabled disabled z" for z by (simp add: disabled_def)
  have leg: "legal (unat (m_max_message_size ?s)) None ?f"
    using assms(1) by (simp add: legal_def frame_next_def frame_base_def word_le_nat_alt)
  obtain s2 ms where 1: "read_all disabled ?s (wire True ?f k @ ?hs) = foldr (\<lambda>m. add_message (Some m)) ms (read_all disabled s2 ?hs)"
    "map (\<lambda>m. (m_opcode m, m_payload m)) ms = []" "waiting s2 (Some (BINARY, [x], 0))" "m_server s2 = m_server ?s" "m_max_message_size s2 = m_max_message_size ?s"
    by (rule read_frame [OF leg waiting_new off, of True "[]" "Some (BINARY, [x], 0)"]) (simp_all add: receive_def frame_next_def frame_base_def)
  have "unat (- 1 :: u64) = 2 ^ 64 - 1" by (simp add: unsigned_minus_1_eq_mask mask_eq_exp_minus_1)
  then obtain s' m where 2: "consume_loop disabled s2 ?hs = Inr (None, s', [])" "m_hstate s' = APPLICATION" "msg_ptr (m_data_msg s') = Some m" "m_payload m = [x] @ xs"
    using wrapped_size_accepted [OF 1(3) off _ _ _ refl refl, of "- 1" xs k'] 1(4) assms(2) by auto
  have ne: "?hs \<noteq> []" "consuming s2 ?hs" using 1(3) by (simp_all add: prepare_header_def consuming_def waiting_def)
  have "read_all disabled s2 ?hs = Inr (None, s', [])" using read_all_unfold [OF ne 2(1)] 2(2) by (simp add: ready_def read_all_stop)
  then show ?thesis using 1(1,2) 2(3,4) by (simp add: extended_for_def)
qed

theorem limit_wraps_around_witness:
  "\<exists>s m. read_all disabled (hybi13_new True 1 ()) (wire True \<lparr>f_op = BINARY, f_fin = False, f_payload = [9]\<rparr> 3
      @ prepare_header (basic_header_new CONTINUATION (- 1) True True False False False) (extended_header_key (- 1) 4) @ byte_mask [7, 8] 4 0)
      = Inr (None, s, []) \<and> msg_ptr (m_data_msg s) = Some m \<and> m_payload m = [9, 7, 8]"
  using limit_wraps_around [of 1 "[7, 8]" 9 3 4] by simp

end
