(* ===== verification/WS_Safety.thy ===== *)
theory WS_Safety
  imports WS_Stream
begin

unbundle bit_operations_syntax

text \<open>
  Reading is safe: whatever bytes the peer sends, and whatever the compression extension does, the frame
  processor of \<open>WS_Hybi13\<close> dereferences no null pointer and writes nothing behind its header buffer. The
  invariant says what each state of the processor relies on.
\<close>

section \<open>The parts\<close>

lemma validator_decode_total:
  "m_state v < 9 \<Longrightarrow> \<exists>ok v'. validator_decode bs v = Inr (ok, v') \<and> m_state v' < 9"
proof (induction bs arbitrary: v)
  case (Cons b bs)
  obtain cp where "utf8_decode (m_state v) (m_codepoint v) b = Inr (next_state (m_state v) (unat b), cp)"
    "next_state (m_state v) (unat b) < 9"
    using utf8_decode_step [OF Cons.prems] by blast
  then show ?case using Cons.IH [of "v\<lparr>m_state := next_state (m_state v) (unat b), m_codepoint := cp\<rparr>"] by (auto simp: utf8_reject_def)
qed auto

lemma mask_bytes_total: "i + n \<le> length m \<Longrightarrow> \<exists>m'. mask_bytes 0 0 key n i m = Inr m' \<and> length m' = length m"
proof (induction n arbitrary: i m)
  case (Suc n)
  then show ?case using Suc.IH [of "Suc i" "overwrite i [hd (drop i m) XOR key i] m"] by (simp add: load_bytes_def store_bytes_def)
qed simp

lemma byte_mask_circ_total: "\<exists>k bs. byte_mask_circ 0 0 (length buf) key buf = Inr (k, bs) \<and> length bs = length buf"
proof -
  obtain m' where "mask_bytes 0 0 (\<lambda>i. mem_bytes 4 (ucast key :: u32) ! (i mod 4)) (length buf) 0 buf = Inr m' \<and> length m' = length buf"
    using mask_bytes_total [of 0 "length buf" buf] by auto
  then show ?thesis by (auto simp: byte_mask_circ_def Let_def)
qed

lemma header_len_bound: "get_header_len h \<le> 14"
  by (simp add: get_header_len_def get_masking_key_offset_def)

section \<open>The invariant\<close>

definition has_msg :: "'z hybi13 \<Rightarrow> bool" where
  "has_msg s \<longleftrightarrow> (case m_current_msg s of None \<Rightarrow> False | Some Data_Msg \<Rightarrow> msg_ptr (m_data_msg s) \<noteq> None
     | Some Control_Msg \<Rightarrow> msg_ptr (m_control_msg s) \<noteq> None)"

definition buffers_ok :: "'z hybi13 \<Rightarrow> bool" where
  "buffers_ok s \<longleftrightarrow> length (ext_bytes (m_extended_header s)) = 12
     \<and> m_state (msg_validator (m_data_msg s)) < 9 \<and> m_state (msg_validator (m_control_msg s)) < 9"

definition safe :: "'z hybi13 \<Rightarrow> bool" where
  "safe s \<longleftrightarrow> buffers_ok s \<and>
     (case m_hstate s of HEADER_BASIC \<Rightarrow> True | HEADER_EXTENDED \<Rightarrow> m_cursor s + unat (m_bytes_needed s) \<le> 12
      | APPLICATION \<Rightarrow> has_msg s | READY \<Rightarrow> has_msg s | _ \<Rightarrow> False)"

lemma has_msg_simps [simp]:
  "has_msg (s\<lparr>m_bytes_needed := n\<rparr>) = has_msg s" "has_msg (s\<lparr>m_hstate := x\<rparr>) = has_msg s" "has_msg (s\<lparr>m_permessage_deflate := z\<rparr>) = has_msg s"
  by (simp_all add: has_msg_def split: option.split current.split)

lemma has_msg_obtain:
  assumes "has_msg s"
  obtains md m where "current_msg s = Inr md" "msg_ptr md = Some m"
  using assms by (auto simp: has_msg_def current_msg_def split: option.splits current.splits)

lemma buffers_ok_simps [simp]:
  "buffers_ok (s\<lparr>m_bytes_needed := n\<rparr>) = buffers_ok s" "buffers_ok (s\<lparr>m_hstate := x\<rparr>) = buffers_ok s"
  "buffers_ok (s\<lparr>m_permessage_deflate := z\<rparr>) = buffers_ok s" "buffers_ok (s\<lparr>m_cursor := c\<rparr>) = buffers_ok s"
  "buffers_ok (s\<lparr>m_basic_header := h\<rparr>) = buffers_ok s" "buffers_ok (s\<lparr>m_current_msg := cm\<rparr>) = buffers_ok s"
  by (simp_all add: buffers_ok_def)

lemma set_current_deflate [simp]: "set_current_msg md (s\<lparr>m_permessage_deflate := z\<rparr>) = (set_current_msg md s)\<lparr>m_permessage_deflate := z\<rparr>"
  by (simp add: set_current_msg_def split: option.split current.split)

lemma has_msg_set: "has_msg s \<Longrightarrow> msg_ptr md = Some m \<Longrightarrow> has_msg (set_current_msg md s)"
  by (auto simp: has_msg_def set_current_msg_def split: option.splits current.splits)

lemma buffers_ok_set: "buffers_ok s \<Longrightarrow> m_state (msg_validator md) < 9 \<Longrightarrow> buffers_ok (set_current_msg md s)"
  by (auto simp: buffers_ok_def set_current_msg_def split: option.split current.split)

lemma current_validator: "current_msg s = Inr md \<Longrightarrow> buffers_ok s \<Longrightarrow> m_state (msg_validator md) < 9"
  by (auto simp: current_msg_def buffers_ok_def split: option.splits current.splits)

lemma reset_headers_safe: "buffers_ok s \<Longrightarrow> safe (reset_headers s)"
  by (simp add: safe_def buffers_ok_def reset_headers_def extended_header_zero_def)

section \<open>The steps\<close>

lemma process_safe:
  assumes "has_msg s" "buffers_ok s"
  shows "\<exists>ec s'. process_payload_bytes df buf s = Inr (ec, s') \<and> has_msg s' \<and> buffers_ok s' \<and> m_hstate s' = m_hstate s"
proof -
  obtain md m where md: "current_msg s = Inr md" "msg_ptr md = Some m" by (rule has_msg_obtain [OF assms(1)])
  obtain k bs where mask: "(if get_masked (m_basic_header s) then byte_mask_circ 0 0 (length buf) (prepared_key md) buf else Inr (prepared_key md, buf)) = Inr (k, bs)"
    using byte_mask_circ_total [of buf "prepared_key md"] by (cases "get_masked (m_basic_header s)") auto
  obtain ec out z where d: "(if is_enabled df (m_permessage_deflate s) \<and> m_compressed m then decompress df bs (m_payload m) (m_permessage_deflate s)
      else (None, m_payload m @ bs, m_permessage_deflate s)) = (ec, out, z)" using prod_cases3 by blast
  obtain ok v where v: "(if m_opcode m = TEXT then validator_decode (drop (length (m_payload m)) out) (msg_validator md) else Inr (True, msg_validator md)) = Inr (ok, v)" "m_state v < 9"
    using validator_decode_total [OF current_validator [OF md(1) assms(2)], of "drop (length (m_payload m)) out"] current_validator [OF md(1) assms(2)] by (cases "m_opcode m = TEXT") auto
  have keep: "has_msg (set_current_msg (md\<lparr>msg_ptr := Some m', prepared_key := k, msg_validator := v'\<rparr>) s)"
    "m_state v' < 9 \<Longrightarrow> buffers_ok (set_current_msg (md\<lparr>msg_ptr := Some m', prepared_key := k, msg_validator := v'\<rparr>) s)" for m' v'
    using has_msg_set [OF assms(1)] buffers_ok_set [OF assms(2)] by simp_all
  have keep0: "has_msg (set_current_msg (md\<lparr>msg_ptr := Some m', prepared_key := k\<rparr>) s)"
    "buffers_ok (set_current_msg (md\<lparr>msg_ptr := Some m', prepared_key := k\<rparr>) s)" for m'
    using has_msg_set [OF assms(1)] buffers_ok_set [OF assms(2)] current_validator [OF md(1) assms(2)] by simp_all
  show ?thesis
    using v keep keep0 by (cases ec; cases "m_opcode m = TEXT"; cases ok) (auto simp: process_payload_bytes_def md mask the_msg_def d set_current_twice Let_def)
qed

lemma finalize_safe:
  assumes "has_msg s" "buffers_ok s"
  shows "\<exists>ec s'. finalize_message df s = Inr (ec, s') \<and> (ec = None \<longrightarrow> safe s')"
proof -
  obtain md m where md: "current_msg s = Inr md" "msg_ptr md = Some m" by (rule has_msg_obtain [OF assms(1)])
  have keep: "has_msg (set_current_msg (md\<lparr>msg_ptr := Some m'\<rparr>) s)" "buffers_ok (set_current_msg (md\<lparr>msg_ptr := Some m'\<rparr>) s)" for m'
    using has_msg_set [OF assms(1)] buffers_ok_set [OF assms(2)] current_validator [OF md(1) assms(2)] by simp_all
  show ?thesis
    by (auto simp: finalize_message_def md the_msg_def Let_def safe_def keep split: option.split prod.split)
qed

lemma begin_safe:
  assumes "buffers_ok s"
  shows "\<exists>ec s'. begin_payload df s = Inr (ec, s') \<and> (ec = None \<longrightarrow> safe s')"
  using assms by (auto simp: begin_payload_def Let_def safe_def has_msg_def buffers_ok_def msg_metadata_new_def validator_new_def utf8_accept_def split: option.split)

lemma copy_extended_safe:
  assumes "m_cursor s + unat (m_bytes_needed s) \<le> 12" "buffers_ok s"
  shows "\<exists>buf' s'. copy_extended_header_bytes buf s = Inr (buf', s') \<and> m_cursor s' + unat (m_bytes_needed s') \<le> 12 \<and> buffers_ok s' \<and> m_hstate s' = m_hstate s"
proof -
  let ?n = "min (unat (m_bytes_needed s)) (length buf)"
  have "unat (m_bytes_needed s - of_nat ?n) = unat (m_bytes_needed s) - ?n" by (rule unat_minus_len) simp
  then show ?thesis using assms by (auto simp: copy_extended_header_bytes_def Let_def store_bytes_def buffers_ok_def)
qed

lemma copy_basic_keeps:
  "copy_basic_header_bytes buf s = (buf', s') \<Longrightarrow> (buffers_ok s' \<longleftrightarrow> buffers_ok s) \<and> m_hstate s' = m_hstate s"
  by (cases "(buf, s)" rule: copy_basic_header_bytes.cases) (auto split: if_splits)

section \<open>Reading\<close>

lemma round_safe:
  assumes "safe s" "consuming s buf"
  shows "\<exists>ec s' buf'. consume_round df s buf = Inr (ec, s', buf') \<and> (ec = None \<longrightarrow> safe s')"
proof (cases "m_hstate s")
  case HEADER_BASIC
  obtain buf1 s1 where c: "copy_basic_header_bytes buf s = (buf1, s1)" by fastforce
  have ok: "buffers_ok s1" "m_hstate s1 = HEADER_BASIC" using copy_basic_keeps [OF c] assms(1) HEADER_BASIC by (simp_all add: safe_def)
  have "unat (of_nat (get_header_len (m_basic_header s1) - 2) :: u64) \<le> 12" using header_len_bound [of "m_basic_header s1"] by (simp add: unat_of_nat_le)
  then show ?thesis using ok by (auto simp: consume_round_def HEADER_BASIC c safe_def split: option.split)
next
  case HEADER_EXTENDED
  obtain buf1 s1 where c: "copy_extended_header_bytes buf s = Inr (buf1, s1)" "m_cursor s1 + unat (m_bytes_needed s1) \<le> 12" "buffers_ok s1" "m_hstate s1 = HEADER_EXTENDED"
    using copy_extended_safe [of s buf] assms(1) HEADER_EXTENDED by (auto simp: safe_def)
  then show ?thesis using begin_safe [OF c(3), of df] by (auto simp: consume_round_def HEADER_EXTENDED safe_def split: option.split)
next
  case EXTENSION
  then show ?thesis using assms(1) by (simp add: consume_round_def safe_def)
next
  case APPLICATION
  let ?n = "min (unat (m_bytes_needed s)) (length buf)"
  have ok: "has_msg s" "buffers_ok s" using assms(1) APPLICATION by (simp_all add: safe_def)
  have e: "\<exists>ec s' buf'. payload_end df b t = Inr (ec, s', buf') \<and> (ec = None \<longrightarrow> safe s')" if "has_msg t" "buffers_ok t" "m_hstate t = APPLICATION" for b t
    using finalize_safe [OF that(1,2), of df] reset_headers_safe [OF that(2)] that by (auto simp: payload_end_def safe_def)
  show ?thesis
  proof (cases "0 < ?n")
    case True
    obtain ec s1 where p: "process_payload_bytes df (take ?n buf) s = Inr (ec, s1)" "has_msg s1" "buffers_ok s1" "m_hstate s1 = APPLICATION"
      using process_safe [OF ok, of df "take ?n buf"] APPLICATION by auto
    then show ?thesis using e [OF p(2-4), of "drop ?n buf"] True unfolding round_application [OF APPLICATION refl] by (cases ec) auto
  next
    case False
    then show ?thesis using e [OF ok APPLICATION, of buf] unfolding round_application [OF APPLICATION refl] by auto
  qed
qed (use assms(2) in \<open>simp_all add: consuming_def\<close>)

lemma consume_loop_safe:
  "safe s \<Longrightarrow> \<exists>ec s' buf'. consume_loop df s buf = Inr (ec, s', buf') \<and> (ec = None \<longrightarrow> safe s')"
proof (induction df s buf rule: consume_loop.induct)
  case (1 df s buf)
  show ?case
  proof (cases "consuming s buf")
    case True
    obtain ec s1 buf1 where r: "consume_round df s buf = Inr (ec, s1, buf1)" "ec = None \<longrightarrow> safe s1" using round_safe [OF "1.prems" True] by blast
    show ?thesis using r "1.IH" [OF True r(1) refl refl] by (cases ec) (auto simp: consume_loop_unfold [OF True])
  qed (use "1.prems" in \<open>simp add: consume_loop_stop\<close>)
qed

lemma get_message_safe:
  assumes "safe s" "ready s"
  shows "\<exists>m s'. get_message s = Inr (Some m, s') \<and> safe s'"
proof -
  have ok: "has_msg s" "buffers_ok s" using assms by (simp_all add: safe_def ready_def)
  obtain md m where md: "current_msg s = Inr md" "msg_ptr md = Some m" by (rule has_msg_obtain [OF ok(1)])
  have "buffers_ok (set_current_msg (md\<lparr>msg_ptr := None\<rparr>) s)" using buffers_ok_set [OF ok(2)] current_validator [OF md(1) ok(2)] by simp
  then have "safe (reset_headers ((set_current_msg (md\<lparr>msg_ptr := None\<rparr>) s)\<lparr>m_control_msg := x\<rparr>))" if "m_state (msg_validator x) < 9" for x
    using that by (intro reset_headers_safe) (simp add: buffers_ok_def)
  moreover have "safe (reset_headers ((set_current_msg (md\<lparr>msg_ptr := None\<rparr>) s)\<lparr>m_data_msg := x\<rparr>))" if "m_state (msg_validator x) < 9" for x
    using that \<open>buffers_ok (set_current_msg _ s)\<close> by (intro reset_headers_safe) (simp add: buffers_ok_def)
  ultimately show ?thesis using assms(2) \<open>buffers_ok (set_current_msg _ s)\<close>
    by (simp add: get_message_def md the_msg_def Let_def buffers_ok_def)
qed

lemma read_all_safe:
  "safe s \<Longrightarrow> \<exists>ec s' ms. read_all df s buf = Inr (ec, s', ms) \<and> (ec = None \<longrightarrow> safe s')"
proof (induction df s buf rule: read_all.induct)
  case (1 df s buf)
  show ?case
  proof (cases "buf \<noteq> [] \<and> consuming s buf")
    case True
    then have T: "buf \<noteq> []" "consuming s buf" by simp_all
    obtain ec s1 rest where c: "consume_loop df s buf = Inr (ec, s1, rest)" "ec = None \<longrightarrow> safe s1" using consume_loop_safe [OF "1.prems"] by blast
    show ?thesis
    proof (cases ec)
      case None
      note F = c(1) [unfolded None] and ok = c(2) [rule_format, OF None]
      show ?thesis
      proof (cases "ready s1")
        case True
        obtain m s2 where g: "get_message s1 = Inr (Some m, s2)" "safe s2" using get_message_safe [OF ok True] by blast
        show ?thesis using "1.IH"(1) [OF conjI [OF T] F refl refl refl True g(1) refl g(2)] g(1) True
          by (auto simp: read_all_unfold [OF T F] add_message_def)
      next
        case False
        then show ?thesis using "1.IH"(2) [OF conjI [OF T] F refl refl refl False ok] by (auto simp: read_all_unfold [OF T F])
      qed
    next
      case (Some e)
      then show ?thesis using read_all_fails [OF T] c(1) by auto
    qed
  qed (use "1.prems" in \<open>auto simp: read_all_stop\<close>)
qed

lemma new_safe: "safe (hybi13_new server max_size z)"
  unfolding hybi13_new_def by (rule reset_headers_safe) (simp add: buffers_ok_def extended_header_zero_def msg_metadata_empty_def validator_new_def utf8_accept_def)

lemma read_chunks_safe: "safe s \<Longrightarrow> \<exists>r. read_chunks df s cs = Inr r"
proof (induction cs arbitrary: s)
  case (Cons c cs)
  obtain ec s' ms where r: "read_all df s c = Inr (ec, s', ms)" "ec = None \<longrightarrow> safe s'" using read_all_safe [OF Cons.prems] by blast
  then show ?case using Cons.IH [of s'] by (cases ec) (auto simp: read_more_def)
qed simp

section \<open>Property\<close>

text \<open>
  C7. Whatever bytes arrive, in whatever pieces, and whatever the compression extension does with them, a
  new processor reads them, up to the first error if there is one, without a null dereference and without
  an access outside its buffers; the outcome is an error code or the messages.
\<close>

theorem any_input_is_safe: "\<exists>r. read_chunks df (hybi13_new server max_size z) cs = Inr r"
  by (rule read_chunks_safe [OF new_safe])

text \<open>
  After an error the processor must not be used again: the first frame of a connection that announces
  more than the limit is refused, and the bytes that follow are written through a pointer that was never set.
\<close>

lemma use_after_error_faults:
  assumes "m_current_msg s = None" "m_hstate s = APPLICATION" "m_bytes_needed s > 0" "buf \<noteq> []"
  shows "consume df buf s = Inl Null_Deref"
proof -
  have "0 < min (unat (m_bytes_needed s)) (length buf)" using assms(3,4) by (simp add: unat_gt_0)
  then have "consume_round df s buf = Inl Null_Deref"
    unfolding round_application [OF assms(2) refl] by (simp add: process_payload_bytes_def current_msg_def assms(1))
  moreover have "consuming s buf" using assms by (simp add: consuming_def)
  ultimately show ?thesis by (simp add: consume_def consume_loop_unfold)
qed

end
