(* ===== verification/WS_Connection.thy ===== *)
theory WS_Connection
  imports WS_Transfer WS_Safety
begin

unbundle bit_operations_syntax

text \<open>
  A WebSocket connection after the opening handshake: \<open>websocketpp/connection.hpp\<close> and
  \<open>websocketpp/impl/connection_impl.hpp\<close>. The operations of the application, the handlers of frames that
  arrive, the queue of frames to be written and the closing handshake. The transport is asynchronous: what
  the connection asks of it is pending until the transport calls the handler of that operation. The bytes
  given to the transport and the calls of the application's handlers are recorded. What the application's
  handlers do is an argument: in reply to a call, and knowing all calls so far, they make calls of
  \<open>send\<close>, \<open>ping\<close>, \<open>pong\<close> and \<open>close\<close>. The masking keys are a sequence of numbers. Logging and the locks
  are left out: every operation runs to its end before the next one.
\<close>

section \<open>State\<close>

datatype session_state = st_connecting | st_open | st_closing | st_closed

datatype istate = USER_INIT | TRANSPORT_INIT | READ_HTTP_REQUEST | WRITE_HTTP_REQUEST | READ_HTTP_RESPONSE
  | WRITE_HTTP_RESPONSE | PROCESS_HTTP_REQUEST | PROCESS_CONNECTION

datatype http_state = hs_init | hs_deferred | hs_headers_written | hs_body_written | hs_closed

datatype terminate_status = ts_failed | ts_closed | ts_unknown

text \<open>What the transport is asked for.\<close>

datatype transport_op =
    Async_Write "u8 list"
  | Async_Read
  | Async_Shutdown terminate_status
  | Dispatch_Write_Frame
  | Handshake_Timer nat
  | Ping_Timer nat "u8 list"
  | Dispatch_Pause
  | Dispatch_Resume

text \<open>Calls of the application's handlers.\<close>

datatype handler_call =
    Call_Message message
  | Call_Ping "u8 list"
  | Call_Pong "u8 list"
  | Call_Pong_Timeout "u8 list"
  | Call_Close
  | Call_Fail
  | Call_Termination

datatype handler_kind = K_Message | K_Ping | K_Pong | K_Pong_Timeout | K_Close | K_Fail | K_Termination

datatype api_call = Api_Send opcode "u8 list" | Api_Ping "u8 list" | Api_Pong "u8 list" | Api_Close u16 "u8 list"
  | Api_Pause | Api_Resume

record app =
  has_handler :: "handler_kind \<Rightarrow> bool"
  react :: "handler_call list \<Rightarrow> handler_call \<Rightarrow> bool \<times> api_call list"

record config =
  silent_close :: bool
  drop_on_protocol_error :: bool
  close_handshake_timeout_dur :: int
  pong_timeout_dur :: int
  has_timers :: bool

text \<open>The default configuration, over a transport with timers.\<close>

definition core_config :: config where
  "core_config = \<lparr>silent_close = False, drop_on_protocol_error = False, close_handshake_timeout_dur = 5000, pong_timeout_dur = 5000, has_timers = True\<rparr>"

record 'z connection =
  m_is_server :: bool
  m_session_state :: session_state
  m_internal_state :: istate
  m_processor :: "'z hybi13"
  m_send_queue :: "message list"
  m_send_buffer_size :: nat
  m_current_msgs :: "message list"
  m_write_flag :: bool
  m_read_flag :: bool
  m_local_close_code :: u16
  m_local_close_reason :: "u8 list"
  m_remote_close_code :: u16
  m_remote_close_reason :: "u8 list"
  m_ec :: "error_code option"
  m_is_http :: bool
  m_http_state :: http_state
  m_was_clean :: bool
  m_handshake_timer :: "nat option"
  m_ping_timer :: "nat option"
  m_next_timer :: nat
  m_cancelled :: "nat list"
  m_rng :: nat
  m_pending :: "transport_op list"
  m_wire :: "u8 list"
  m_calls :: "handler_call list"

text \<open>A connection whose opening handshake is done, with its first read asked for.\<close>

definition connection_open :: "bool \<Rightarrow> 'z hybi13 \<Rightarrow> 'z connection" where
  "connection_open server p = \<lparr>m_is_server = server, m_session_state = st_open, m_internal_state = PROCESS_CONNECTION,
     m_processor = p, m_send_queue = [], m_send_buffer_size = 0, m_current_msgs = [], m_write_flag = False, m_read_flag = True,
     m_local_close_code = abnormal_close, m_local_close_reason = [], m_remote_close_code = abnormal_close, m_remote_close_reason = [],
     m_ec = None, m_is_http = False, m_http_state = hs_init, m_was_clean = False, m_handshake_timer = None, m_ping_timer = None, m_next_timer = 0, m_cancelled = [],
     m_rng = 0, m_pending = [Async_Read], m_wire = [], m_calls = []\<rparr>"

definition request :: "transport_op \<Rightarrow> 'z connection \<Rightarrow> 'z connection" where
  "request x c = c\<lparr>m_pending := m_pending c @ [x]\<rparr>"

text \<open>
  A transport without timers gives none. The handler of a timer that is cancelled may still be called,
  with an error or, if the time was already up, without one.
\<close>

definition set_timer :: "config \<Rightarrow> (nat \<Rightarrow> transport_op) \<Rightarrow> 'z connection \<Rightarrow> nat option \<times> 'z connection" where
  "set_timer cfg op c =
    (if has_timers cfg then (Some (m_next_timer c), request (op (m_next_timer c)) (c\<lparr>m_next_timer := m_next_timer c + 1\<rparr>)) else (None, c))"

definition cancel_timer :: "nat \<Rightarrow> 'z connection \<Rightarrow> 'z connection" where
  "cancel_timer t c = c\<lparr>m_cancelled := m_cancelled c @ [t]\<rparr>"

section \<open>The write queue\<close>

definition write_push :: "message option \<Rightarrow> 'z connection \<Rightarrow> 'z connection" where
  "write_push msg c = (case msg of None \<Rightarrow> c
     | Some m \<Rightarrow> c\<lparr>m_send_buffer_size := m_send_buffer_size c + length (m_payload m), m_send_queue := m_send_queue c @ [m]\<rparr>)"

definition write_pop :: "'z connection \<Rightarrow> message option \<times> 'z connection" where
  "write_pop c = (case m_send_queue c of [] \<Rightarrow> (None, c)
     | m # q \<Rightarrow> (Some m, c\<lparr>m_send_buffer_size := m_send_buffer_size c - length (m_payload m), m_send_queue := q\<rparr>))"

text \<open>Pushing a message, and asking for a write if none is on its way.\<close>

definition push_and_dispatch :: "message option \<Rightarrow> 'z connection \<Rightarrow> 'z connection" where
  "push_and_dispatch msg c =
    (let c = write_push msg c; needs_writing = (\<not> m_write_flag c \<and> m_send_queue c \<noteq> [])
     in if needs_writing then request Dispatch_Write_Frame c else c)"

text \<open>The loop that takes the messages up to a terminal one off the queue.\<close>

function pop_ready :: "'z connection \<Rightarrow> 'z connection" where
  "pop_ready c =
    (case write_pop c of (None, c) \<Rightarrow> c
     | (Some m, c) \<Rightarrow>
       let c = c\<lparr>m_current_msgs := m_current_msgs c @ [m]\<rparr>
       in if \<not> m_terminal m then pop_ready c else c)"
  by pat_completeness auto
termination
  by (relation "measure (\<lambda>c. length (m_send_queue c))") (auto simp: write_pop_def split: list.splits)

declare pop_ready.simps [simp del]

text \<open>
  The member \<open>m_send_buffer\<close>, the list of buffers given to the transport, is filled by
  \<open>write_frame\<close> and cleared when the write is done; it is the bytes of the request here.
\<close>

definition write_frame :: "'z connection \<Rightarrow> 'z connection" where
  "write_frame c =
    (if m_write_flag c then c
     else
       let c = pop_ready c in
       if m_current_msgs c = [] then c
       else
         let c = c\<lparr>m_write_flag := True\<rparr>;
             bytes = concat (map (\<lambda>m. m_header m @ m_payload m) (m_current_msgs c))
         in (request (Async_Write bytes) c)\<lparr>m_wire := m_wire c @ bytes\<rparr>)"

section \<open>The end of a connection\<close>

definition string_bytes :: "string \<Rightarrow> u8 list" where
  "string_bytes s = map of_char s"

definition terminate :: "error_code option \<Rightarrow> 'z connection \<Rightarrow> 'z connection" where
  "terminate ec c =
    (let c = (case m_handshake_timer c of None \<Rightarrow> c | Some t \<Rightarrow> (cancel_timer t c)\<lparr>m_handshake_timer := None\<rparr>);
         c = (case ec of None \<Rightarrow> c
              | Some e \<Rightarrow> c\<lparr>m_ec := Some e, m_local_close_code := abnormal_close, m_local_close_reason := string_bytes (error_message e)\<rparr>);
         c = (if m_is_http c then c\<lparr>m_http_state := hs_closed\<rparr> else c)
     in if m_session_state c = st_connecting then request (Async_Shutdown ts_failed) (c\<lparr>m_session_state := st_closed\<rparr>)
        else if m_session_state c \<noteq> st_closed then request (Async_Shutdown ts_closed) (c\<lparr>m_session_state := st_closed\<rparr>)
        else c)"

section \<open>Sending\<close>

text \<open>The message manager that allocates a new message for each request.\<close>

definition manager_get_message :: "message option" where
  "manager_get_message = Some message_empty"

definition send_msg :: "'z deflate \<Rightarrow> (nat \<Rightarrow> u32) \<Rightarrow> message \<Rightarrow> 'z connection \<Rightarrow> (error_code option \<times> 'z connection) res" where
  "send_msg df rng msg c =
    (if m_session_state c \<noteq> st_open then Inr (Some (Lib invalid_state), c)
     else if m_prepared msg then Inr (None, push_and_dispatch (Some msg) c)
     else (case manager_get_message of None \<Rightarrow> Inr (Some (Lib no_outgoing_buffers), c)
       | outgoing_msg \<Rightarrow>
         bind_res (prepare_data_frame df (rng (m_rng c)) (Some msg) outgoing_msg (m_processor c)) (\<lambda>(ec, outgoing_msg, p).
         let c = c\<lparr>m_processor := p, m_rng := m_rng c + 1\<rparr> in
         case ec of Some e \<Rightarrow> Inr (Some e, c) | None \<Rightarrow> Inr (None, push_and_dispatch outgoing_msg c))))"

definition send_payload :: "'z deflate \<Rightarrow> (nat \<Rightarrow> u32) \<Rightarrow> u8 list \<Rightarrow> opcode \<Rightarrow> 'z connection \<Rightarrow> (error_code option \<times> 'z connection) res" where
  "send_payload df rng payload op c =
    (let msg = message_new op; msg = msg\<lparr>m_payload := m_payload msg @ payload\<rparr>; msg = msg\<lparr>m_compressed := True\<rparr>
     in send_msg df rng msg c)"

definition send_raw :: "'z deflate \<Rightarrow> (nat \<Rightarrow> u32) \<Rightarrow> u8 list \<Rightarrow> opcode \<Rightarrow> 'z connection \<Rightarrow> (error_code option \<times> 'z connection) res" where
  "send_raw df rng payload op c =
    (let msg = message_new op; msg = msg\<lparr>m_payload := m_payload msg @ payload\<rparr> in send_msg df rng msg c)"

text \<open>The timer for the answer, if there is a handler for its absence; an earlier timer is cancelled.\<close>

definition start_ping_timer :: "config \<Rightarrow> app \<Rightarrow> u8 list \<Rightarrow> 'z connection \<Rightarrow> 'z connection" where
  "start_ping_timer cfg ap payload c =
    (if has_handler ap K_Pong_Timeout then
       let c = (case m_ping_timer c of None \<Rightarrow> c | Some t \<Rightarrow> cancel_timer t c)
       in if pong_timeout_dur cfg > 0
          then (let (t, c) = set_timer cfg (\<lambda>t. Ping_Timer t payload) c in c\<lparr>m_ping_timer := t\<rparr>)
          else c
     else c)"

definition ping :: "config \<Rightarrow> app \<Rightarrow> (nat \<Rightarrow> u32) \<Rightarrow> u8 list \<Rightarrow> 'z connection \<Rightarrow> error_code option \<times> 'z connection" where
  "ping cfg ap rng payload c =
    (if m_session_state c \<noteq> st_open then (Some (Lib invalid_state), c)
     else (case manager_get_message of None \<Rightarrow> (Some (Lib no_outgoing_buffers), c)
       | msg \<Rightarrow>
         (case prepare_ping (rng (m_rng c)) payload msg (m_processor c) of
            (Some e, _) \<Rightarrow> (Some e, c\<lparr>m_rng := m_rng c + 1\<rparr>)
          | (None, msg) \<Rightarrow>
            (None, push_and_dispatch msg (start_ping_timer cfg ap payload (c\<lparr>m_rng := m_rng c + 1\<rparr>))))))"

definition pong :: "(nat \<Rightarrow> u32) \<Rightarrow> u8 list \<Rightarrow> 'z connection \<Rightarrow> error_code option \<times> 'z connection" where
  "pong rng payload c =
    (if m_session_state c \<noteq> st_open then (Some (Lib invalid_state), c)
     else (case manager_get_message of None \<Rightarrow> (Some (Lib no_outgoing_buffers), c)
       | msg \<Rightarrow>
         (case prepare_pong (rng (m_rng c)) payload msg (m_processor c) of
            (Some e, _) \<Rightarrow> (Some e, c\<lparr>m_rng := m_rng c + 1\<rparr>)
          | (None, msg) \<Rightarrow> (None, push_and_dispatch msg (c\<lparr>m_rng := m_rng c + 1\<rparr>)))))"

text \<open>The code and the reason a close frame carries.\<close>

definition set_close_codes :: "config \<Rightarrow> u16 \<Rightarrow> u8 list \<Rightarrow> bool \<Rightarrow> 'z connection \<Rightarrow> 'z connection" where
  "set_close_codes cfg code reason ack c =
    (if silent_close cfg then c\<lparr>m_local_close_code := no_status, m_local_close_reason := []\<rparr>
     else if code \<noteq> blank then c\<lparr>m_local_close_code := code, m_local_close_reason := reason\<rparr>
     else if \<not> ack then c\<lparr>m_local_close_code := no_status, m_local_close_reason := []\<rparr>
     else if m_remote_close_code c = no_status then c\<lparr>m_local_close_code := normal, m_local_close_reason := []\<rparr>
     else c\<lparr>m_local_close_code := m_remote_close_code c, m_local_close_reason := m_remote_close_reason c\<rparr>)"

text \<open>The connection is closing; a timer ends it if the other side does not answer.\<close>

definition begin_closing :: "config \<Rightarrow> bool \<Rightarrow> 'z connection \<Rightarrow> 'z connection" where
  "begin_closing cfg ack c =
    (let c = c\<lparr>m_session_state := st_closing\<rparr>;
         c = (if ack then c\<lparr>m_was_clean := True\<rparr> else c)
     in if close_handshake_timeout_dur cfg > 0
        then (let (t, c) = set_timer cfg Handshake_Timer c in c\<lparr>m_handshake_timer := t\<rparr>)
        else c)"

definition send_close_frame :: "config \<Rightarrow> (nat \<Rightarrow> u32) \<Rightarrow> u16 \<Rightarrow> u8 list \<Rightarrow> bool \<Rightarrow> bool \<Rightarrow> 'z connection \<Rightarrow> error_code option \<times> 'z connection" where
  "send_close_frame cfg rng code reason ack terminal c =
    (let c = set_close_codes cfg code reason ack c in
     case manager_get_message of None \<Rightarrow> (Some (Lib no_outgoing_buffers), c)
     | msg \<Rightarrow>
       (case prepare_close (rng (m_rng c)) (m_local_close_code c) (m_local_close_reason c) msg (m_processor c) of
          (Some e, _) \<Rightarrow> (Some e, c\<lparr>m_rng := m_rng c + 1\<rparr>)
        | (None, msg) \<Rightarrow>
          let msg = (if terminal then map_option (\<lambda>m. m\<lparr>m_terminal := True\<rparr>) msg else msg)
          in (None, push_and_dispatch msg (begin_closing cfg ack (c\<lparr>m_rng := m_rng c + 1\<rparr>)))))"

definition send_close_ack :: "config \<Rightarrow> (nat \<Rightarrow> u32) \<Rightarrow> u16 \<Rightarrow> u8 list \<Rightarrow> 'z connection \<Rightarrow> error_code option \<times> 'z connection" where
  "send_close_ack cfg rng code reason c = send_close_frame cfg rng code reason True (m_is_server c) c"

definition close :: "config \<Rightarrow> (nat \<Rightarrow> u32) \<Rightarrow> u16 \<Rightarrow> u8 list \<Rightarrow> 'z connection \<Rightarrow> error_code option \<times> 'z connection" where
  "close cfg rng code reason c =
    (let tr = take (min (length reason) 123) reason in
     if m_session_state c \<noteq> st_open then (Some (Lib invalid_state), c)
     else send_close_frame cfg rng code tr False (terminal_code code) c)"

definition pause_reading :: "'z connection \<Rightarrow> 'z connection" where
  "pause_reading c = request Dispatch_Pause c"

definition resume_reading :: "'z connection \<Rightarrow> 'z connection" where
  "resume_reading c = request Dispatch_Resume c"

section \<open>The application\<close>

text \<open>What a handler of the application does: calls of the connection, whose errors it ignores.\<close>

definition do_api :: "config \<Rightarrow> app \<Rightarrow> 'z deflate \<Rightarrow> (nat \<Rightarrow> u32) \<Rightarrow> api_call \<Rightarrow> 'z connection \<Rightarrow> 'z connection res" where
  "do_api cfg ap df rng x c =
    (case x of
       Api_Send op payload \<Rightarrow> bind_res (send_payload df rng payload op c) (\<lambda>(ec, c). Inr c)
     | Api_Ping payload \<Rightarrow> Inr (snd (ping cfg ap rng payload c))
     | Api_Pong payload \<Rightarrow> Inr (snd (pong rng payload c))
     | Api_Close code reason \<Rightarrow> Inr (snd (close cfg rng code reason c))
     | Api_Pause \<Rightarrow> Inr (pause_reading c)
     | Api_Resume \<Rightarrow> Inr (resume_reading c))"

primrec do_apis :: "config \<Rightarrow> app \<Rightarrow> 'z deflate \<Rightarrow> (nat \<Rightarrow> u32) \<Rightarrow> api_call list \<Rightarrow> 'z connection \<Rightarrow> 'z connection res" where
  "do_apis cfg ap df rng [] c = Inr c"
| "do_apis cfg ap df rng (x # xs) c = bind_res (do_api cfg ap df rng x c) (do_apis cfg ap df rng xs)"

definition call_handler :: "config \<Rightarrow> app \<Rightarrow> 'z deflate \<Rightarrow> (nat \<Rightarrow> u32) \<Rightarrow> handler_kind \<Rightarrow> handler_call \<Rightarrow> 'z connection \<Rightarrow> (bool \<times> 'z connection) res" where
  "call_handler cfg ap df rng k x c =
    (if has_handler ap k then
       let (answer, xs) = react ap (m_calls c) x
       in bind_res (do_apis cfg ap df rng xs (c\<lparr>m_calls := m_calls c @ [x]\<rparr>)) (\<lambda>c. Inr (answer, c))
     else Inr (True, c))"

section \<open>Handlers of the transport\<close>

definition handle_pong_timeout :: "config \<Rightarrow> app \<Rightarrow> 'z deflate \<Rightarrow> (nat \<Rightarrow> u32) \<Rightarrow> u8 list \<Rightarrow> error_code option \<Rightarrow> 'z connection \<Rightarrow> 'z connection res" where
  "handle_pong_timeout cfg ap df rng payload ec c =
    (if ec \<noteq> None then Inr c
     else bind_res (call_handler cfg ap df rng K_Pong_Timeout (Call_Pong_Timeout payload) c) (\<lambda>(_, c). Inr c))"

definition handle_close_handshake_timeout :: "error_code option \<Rightarrow> 'z connection \<Rightarrow> 'z connection" where
  "handle_close_handshake_timeout ec c =
    (if ec = Some (Transport t_operation_aborted) then c
     else if ec \<noteq> None then c
     else terminate (Some (Lib close_handshake_timeout)) c)"

definition handle_terminate :: "config \<Rightarrow> app \<Rightarrow> 'z deflate \<Rightarrow> (nat \<Rightarrow> u32) \<Rightarrow> terminate_status \<Rightarrow> 'z connection \<Rightarrow> 'z connection res" where
  "handle_terminate cfg ap df rng tstat c =
    bind_res
      (case tstat of
         ts_failed \<Rightarrow> if m_ec c \<noteq> Some (Lib http_connection_ended) then call_handler cfg ap df rng K_Fail Call_Fail c else Inr (True, c)
       | ts_closed \<Rightarrow> call_handler cfg ap df rng K_Close Call_Close c
       | ts_unknown \<Rightarrow> Inr (True, c)) (\<lambda>(_, c).
    bind_res (call_handler cfg ap df rng K_Termination Call_Termination c) (\<lambda>(_, c). Inr c))"

definition handle_write_frame :: "error_code option \<Rightarrow> 'z connection \<Rightarrow> 'z connection res" where
  "handle_write_frame ec c =
    (if m_current_msgs c = [] then Inl Out_Of_Bounds
     else
       let terminal = m_terminal (last (m_current_msgs c));
           c = c\<lparr>m_current_msgs := []\<rparr>
       in if ec \<noteq> None then Inr (terminate ec c)
          else if terminal then Inr (terminate None c)
          else
            let c = c\<lparr>m_write_flag := False\<rparr>; needs_writing = (m_send_queue c \<noteq> [])
            in Inr (if needs_writing then request Dispatch_Write_Frame c else c))"

text \<open>The part of \<open>process_control_frame\<close> that handles a close frame.\<close>

definition process_close_frame :: "config \<Rightarrow> (nat \<Rightarrow> u32) \<Rightarrow> message \<Rightarrow> 'z connection \<Rightarrow> 'z connection res" where
  "process_close_frame cfg rng msg c =
    (let (code, ec) = extract_code (m_payload msg); c = c\<lparr>m_remote_close_code := code\<rparr> in
     if ec \<noteq> None then
       Inr (if drop_on_protocol_error cfg then terminate ec c
            else snd (send_close_ack cfg rng protocol_error (string_bytes ''Invalid close code'') c))
     else bind_res (extract_reason (m_payload msg)) (\<lambda>(reason, ec).
       let c = c\<lparr>m_remote_close_reason := reason\<rparr> in
       if ec \<noteq> None then
         Inr (if drop_on_protocol_error cfg then terminate ec c
              else snd (send_close_ack cfg rng protocol_error (string_bytes ''Invalid close reason'') c))
       else if m_session_state c = st_open then Inr (snd (send_close_ack cfg rng blank [] c))
       else if m_session_state c = st_closing \<and> \<not> m_was_clean c then
         let c = c\<lparr>m_was_clean := True\<rparr>
         in Inr (if m_is_server c then terminate None c else c)
       else Inr c))"

definition process_control_frame :: "config \<Rightarrow> app \<Rightarrow> 'z deflate \<Rightarrow> (nat \<Rightarrow> u32) \<Rightarrow> message \<Rightarrow> 'z connection \<Rightarrow> 'z connection res" where
  "process_control_frame cfg ap df rng msg c =
    (let op = m_opcode msg in
     if m_session_state c = st_closed then Inr c
     else if op \<noteq> CLOSE \<and> m_session_state c \<noteq> st_open then Inr c
     else if op = PING then
       bind_res (call_handler cfg ap df rng K_Ping (Call_Ping (m_payload msg)) c) (\<lambda>(should_reply, c).
       Inr (if should_reply then snd (pong rng (m_payload msg) c) else c))
     else if op = PONG then
       bind_res (call_handler cfg ap df rng K_Pong (Call_Pong (m_payload msg)) c) (\<lambda>(_, c).
       Inr (case m_ping_timer c of None \<Rightarrow> c | Some t \<Rightarrow> cancel_timer t c))
     else if op = CLOSE then process_close_frame cfg rng msg c
     else Inr c)"

definition read_frame :: "'z connection \<Rightarrow> 'z connection" where
  "read_frame c = (if \<not> m_read_flag c then c else request Async_Read c)"

text \<open>A message that was read completely.\<close>

definition deliver :: "config \<Rightarrow> app \<Rightarrow> 'z deflate \<Rightarrow> (nat \<Rightarrow> u32) \<Rightarrow> message option \<Rightarrow> 'z connection \<Rightarrow> 'z connection res" where
  "deliver cfg ap df rng msg c =
    (case msg of None \<Rightarrow> Inr c
     | Some m \<Rightarrow>
       if \<not> is_control (m_opcode m) then
         (if m_session_state c \<noteq> st_open then Inr c
          else bind_res (call_handler cfg ap df rng K_Message (Call_Message m) c) (\<lambda>(_, c). Inr c))
       else process_control_frame cfg ap df rng m c)"

text \<open>The error path of the loop below.\<close>

definition consume_failed :: "config \<Rightarrow> (nat \<Rightarrow> u32) \<Rightarrow> error_code \<Rightarrow> 'z connection \<Rightarrow> 'z connection" where
  "consume_failed cfg rng e c =
    (if drop_on_protocol_error cfg then terminate (Some e) c
     else (case close cfg rng (to_ws e) (string_bytes (error_message e)) c of
         (Some close_ec, c) \<Rightarrow> terminate (Some close_ec) c
       | (None, c) \<Rightarrow> c))"

text \<open>
  The loop over the bytes that were read, whether it went through all of them. Fuel: each round reads at least one byte as long as the
  processor is not in its error state.
\<close>

fun read_loop :: "nat \<Rightarrow> config \<Rightarrow> app \<Rightarrow> 'z deflate \<Rightarrow> (nat \<Rightarrow> u32) \<Rightarrow> u8 list \<Rightarrow> 'z connection \<Rightarrow> (bool \<times> 'z connection) res" where
  "read_loop n cfg ap df rng [] c = Inr (True, c)"
| "read_loop 0 cfg ap df rng (b # bs) c = Inl Stack_Exhausted"
| "read_loop (Suc n) cfg ap df rng (b # bs) c =
    bind_res (consume df (b # bs) (m_processor c)) (\<lambda>(p, consume_ec, pr).
    let c = c\<lparr>m_processor := pr\<rparr> in
    case consume_ec of Some e \<Rightarrow> Inr (False, consume_failed cfg rng e c)
    | None \<Rightarrow>
      if ready (m_processor c) then
        bind_res (get_message (m_processor c)) (\<lambda>(msg, pr).
        bind_res (deliver cfg ap df rng msg (c\<lparr>m_processor := pr\<rparr>)) (read_loop n cfg ap df rng (drop p (b # bs))))
      else read_loop n cfg ap df rng (drop p (b # bs)) c)"

definition handle_read_frame :: "config \<Rightarrow> app \<Rightarrow> 'z deflate \<Rightarrow> (nat \<Rightarrow> u32) \<Rightarrow> error_code option \<Rightarrow> u8 list \<Rightarrow> 'z connection \<Rightarrow> 'z connection res" where
  "handle_read_frame cfg ap df rng ec buf c =
    (let ecm = (if ec = None \<and> m_internal_state c \<noteq> PROCESS_CONNECTION then Some (Lib invalid_state) else ec) in
     if ecm \<noteq> None then
       (if ecm = Some (Transport t_eof) \<and> m_session_state c = st_closed then Inr c
        else if ecm = Some (Transport t_eof) \<and> m_session_state c = st_closing \<and> \<not> m_is_server c then Inr (terminate None c)
        else if ecm = Some (Lib invalid_state) \<and> m_session_state c = st_closed then Inr c
        else Inr (terminate ecm c))
     else bind_res (read_loop (length buf) cfg ap df rng buf c) (\<lambda>(all, c). Inr (if all then read_frame c else c)))"

definition handle_pause_reading :: "'z connection \<Rightarrow> 'z connection" where
  "handle_pause_reading c = c\<lparr>m_read_flag := False\<rparr>"

definition handle_resume_reading :: "'z connection \<Rightarrow> 'z connection" where
  "handle_resume_reading c = read_frame (c\<lparr>m_read_flag := True\<rparr>)"

end
