(* ===== verification/WS_Con_Run.thy ===== *)
theory WS_Con_Run
  imports WS_Connection "HOL-Library.Sublist"
begin

text \<open>
  The life of a connection after its opening handshake: the application, the transport and the timers
  act in any order. The invariant of the reachable states, the order of the bytes that are written and
  the states of a session.
\<close>

section \<open>Steps\<close>

definition is_write :: "transport_op \<Rightarrow> bool" where
  "is_write x = (case x of Async_Write _ \<Rightarrow> True | _ \<Rightarrow> False)"

definition is_shutdown :: "transport_op \<Rightarrow> bool" where
  "is_shutdown x = (case x of Async_Shutdown _ \<Rightarrow> True | _ \<Rightarrow> False)"

definition is_end_call :: "handler_call \<Rightarrow> bool" where
  "is_end_call x \<longleftrightarrow> x \<in> {Call_Close, Call_Fail}"

definition completed :: "transport_op \<Rightarrow> 'z connection \<Rightarrow> 'z connection" where
  "completed x c = c\<lparr>m_pending := remove1 x (m_pending c)\<rparr>"

inductive con_step :: "config \<Rightarrow> app \<Rightarrow> 'z deflate \<Rightarrow> (nat \<Rightarrow> u32) \<Rightarrow> 'z connection \<Rightarrow> 'z connection \<Rightarrow> bool"
  for cfg ap df rng where
  by_app: "do_api cfg ap df rng x c = Inr c' \<Longrightarrow> con_step cfg ap df rng c c'"
| sent: "send_msg df rng msg c = Inr (ec, c') \<Longrightarrow> con_step cfg ap df rng c c'"
| dispatched: "Dispatch_Write_Frame \<in> set (m_pending c) \<Longrightarrow> con_step cfg ap df rng c (write_frame (completed Dispatch_Write_Frame c))"
| written: "Async_Write bs \<in> set (m_pending c) \<Longrightarrow> handle_write_frame ec (completed (Async_Write bs) c) = Inr c' \<Longrightarrow> con_step cfg ap df rng c c'"
| arrived: "Async_Read \<in> set (m_pending c) \<Longrightarrow> handle_read_frame cfg ap df rng ec buf (completed Async_Read c) = Inr c' \<Longrightarrow> con_step cfg ap df rng c c'"
| shut_down: "Async_Shutdown t \<in> set (m_pending c) \<Longrightarrow> handle_terminate cfg ap df rng t (completed (Async_Shutdown t) c) = Inr c' \<Longrightarrow> con_step cfg ap df rng c c'"
| close_timer: "Handshake_Timer t \<in> set (m_pending c) \<Longrightarrow> con_step cfg ap df rng c (handle_close_handshake_timeout ec (completed (Handshake_Timer t) c))"
| ping_timer: "Ping_Timer t payload \<in> set (m_pending c) \<Longrightarrow> handle_pong_timeout cfg ap df rng payload ec (completed (Ping_Timer t payload) c) = Inr c' \<Longrightarrow> con_step cfg ap df rng c c'"
| paused: "Dispatch_Pause \<in> set (m_pending c) \<Longrightarrow> con_step cfg ap df rng c (handle_pause_reading (completed Dispatch_Pause c))"
| resumed: "Dispatch_Resume \<in> set (m_pending c) \<Longrightarrow> con_step cfg ap df rng c (handle_resume_reading (completed Dispatch_Resume c))"

section \<open>What everything but writing and the end does\<close>

definition state_order :: "session_state \<Rightarrow> nat" where
  "state_order s = (case s of st_connecting \<Rightarrow> 0 | st_open \<Rightarrow> 1 | st_closing \<Rightarrow> 2 | st_closed \<Rightarrow> 3)"

definition payloads :: "message list \<Rightarrow> nat" where
  "payloads ms = sum_list (map (\<lambda>m. length (m_payload m)) ms)"

definition evolves :: "'z connection \<Rightarrow> 'z connection \<Rightarrow> bool" where
  "evolves c c' \<longleftrightarrow>
    m_wire c' = m_wire c \<and> m_current_msgs c' = m_current_msgs c \<and> m_write_flag c' = m_write_flag c
    \<and> m_is_server c' = m_is_server c \<and> m_internal_state c' = m_internal_state c
    \<and> state_order (m_session_state c) \<le> state_order (m_session_state c')
    \<and> (\<exists>ms ops calls. m_send_queue c' = m_send_queue c @ ms \<and> m_send_buffer_size c' = m_send_buffer_size c + payloads ms
        \<and> m_pending c' = m_pending c @ ops \<and> filter is_write ops = []
        \<and> length (filter is_shutdown ops) = (if m_session_state c \<noteq> st_closed \<and> m_session_state c' = st_closed then 1 else 0)
        \<and> (ms \<noteq> [] \<and> \<not> m_write_flag c \<longrightarrow> Dispatch_Write_Frame \<in> set ops)
        \<and> m_calls c' = m_calls c @ calls \<and> filter is_end_call calls = [] \<and> Call_Termination \<notin> set calls)"

lemma payloads_simps [simp]: "payloads [] = 0" "payloads (ms @ ms') = payloads ms + payloads ms'" "payloads (m # ms) = length (m_payload m) + payloads ms"
  by (simp_all add: payloads_def)

lemma evolves_refl [simp]: "evolves c c"
  by (simp add: evolves_def)

lemma evolves_trans:
  assumes "evolves a b" "evolves b c"
  shows "evolves a c"
proof -
  obtain ms ops calls where 1: "m_send_queue b = m_send_queue a @ ms" "m_send_buffer_size b = m_send_buffer_size a + payloads ms"
    "m_pending b = m_pending a @ ops" "filter is_write ops = []"
    "length (filter is_shutdown ops) = (if m_session_state a \<noteq> st_closed \<and> m_session_state b = st_closed then 1 else 0)"
    "ms \<noteq> [] \<and> \<not> m_write_flag a \<longrightarrow> Dispatch_Write_Frame \<in> set ops"
    "m_calls b = m_calls a @ calls" "filter is_end_call calls = []" "Call_Termination \<notin> set calls"
    using assms(1) unfolding evolves_def by blast
  obtain ms' ops' calls' where 2: "m_send_queue c = m_send_queue b @ ms'" "m_send_buffer_size c = m_send_buffer_size b + payloads ms'"
    "m_pending c = m_pending b @ ops'" "filter is_write ops' = []"
    "length (filter is_shutdown ops') = (if m_session_state b \<noteq> st_closed \<and> m_session_state c = st_closed then 1 else 0)"
    "ms' \<noteq> [] \<and> \<not> m_write_flag b \<longrightarrow> Dispatch_Write_Frame \<in> set ops'"
    "m_calls c = m_calls b @ calls'" "filter is_end_call calls' = []" "Call_Termination \<notin> set calls'"
    using assms(2) unfolding evolves_def by blast
  have o: "state_order (m_session_state a) \<le> state_order (m_session_state b)" "state_order (m_session_state b) \<le> state_order (m_session_state c)"
    "m_wire c = m_wire a" "m_current_msgs c = m_current_msgs a" "m_write_flag b = m_write_flag a" "m_write_flag c = m_write_flag a"
    "m_is_server c = m_is_server a" "m_internal_state c = m_internal_state a"
    using assms by (simp_all add: evolves_def)
  have "length (filter is_shutdown (ops @ ops')) = (if m_session_state a \<noteq> st_closed \<and> m_session_state c = st_closed then 1 else 0)"
    using 1(5) 2(5) o(1,2) by (cases "m_session_state a"; cases "m_session_state b"; cases "m_session_state c") (simp_all add: state_order_def)
  moreover have "ms @ ms' \<noteq> [] \<and> \<not> m_write_flag a \<longrightarrow> Dispatch_Write_Frame \<in> set (ops @ ops')" using 1(6) 2(6) o by auto
  ultimately show ?thesis unfolding evolves_def
    using 1 2 o by (intro conjI exI [of _ "ms @ ms'"] exI [of _ "ops @ ops'"] exI [of _ "calls @ calls'"]) simp_all
qed

named_theorems evolve \<open>operations after which the connection has evolved\<close>

lemma evolves_upd [evolve, simp]:
  "evolves c (c\<lparr>m_processor := p\<rparr>)" "evolves c (c\<lparr>m_rng := n\<rparr>)" "evolves c (c\<lparr>m_processor := p, m_rng := n\<rparr>)"
  "evolves c (c\<lparr>m_was_clean := w\<rparr>)" "evolves c (c\<lparr>m_read_flag := w\<rparr>)"
  "evolves c (c\<lparr>m_remote_close_code := code\<rparr>)" "evolves c (c\<lparr>m_remote_close_reason := reason\<rparr>)" "evolves c (cancel_timer t c)"
  by (simp_all add: evolves_def cancel_timer_def)

lemma evolves_request [evolve]: "\<not> is_write x \<Longrightarrow> \<not> is_shutdown x \<Longrightarrow> evolves c (request x c)"
  by (simp add: evolves_def request_def)

lemma evolves_push [evolve]: "evolves c (push_and_dispatch m c)"
  by (cases m) (auto simp: evolves_def push_and_dispatch_def write_push_def request_def Let_def is_write_def is_shutdown_def)

lemma evolves_terminate [evolve]: "evolves c (terminate ec c)"
  by (cases "m_session_state c"; cases "m_handshake_timer c"; cases ec)
    (auto simp: terminate_def Let_def evolves_def request_def cancel_timer_def state_order_def is_write_def is_shutdown_def)

lemma evolves_res [evolve]:
  assumes "send_msg df rng msg c = Inr (ec, c')"
  shows "evolves c c'"
proof -
  have "evolves c (push_and_dispatch m (c\<lparr>m_processor := p, m_rng := n\<rparr>))" for m p n
    by (rule evolves_trans [OF evolves_upd(3) evolves_push])
  then show ?thesis using assms
    by (auto simp: send_msg_def manager_get_message_def bind_res_eq_Inr_iff Let_def evolves_push split: if_splits option.splits)
qed

lemma evolves_ping_timer: "evolves c (start_ping_timer cfg ap payload c)"
  by (auto simp: start_ping_timer_def set_timer_def evolves_def request_def is_write_def is_shutdown_def cancel_timer_def Let_def split: option.split)

lemma evolves_ping [evolve]: "evolves c (snd (ping cfg ap rng payload c))"
  by (auto simp: ping_def manager_get_message_def evolves_trans [OF evolves_upd(2) evolves_trans [OF evolves_ping_timer evolves_push]] split: prod.split option.split)

lemma evolves_pong [evolve]: "evolves c (snd (pong rng payload c))"
  by (auto simp: pong_def manager_get_message_def evolves_trans [OF evolves_upd(2) evolves_push] split: prod.split option.split)

lemma evolves_begin_closing: "m_session_state c \<noteq> st_closed \<Longrightarrow> evolves c (begin_closing cfg ack c)"
  by (cases "m_session_state c") (auto simp: begin_closing_def set_timer_def evolves_def request_def is_write_def is_shutdown_def state_order_def Let_def)

lemma evolves_close_frame:
  assumes "m_session_state c \<noteq> st_closed"
  shows "evolves c (snd (send_close_frame cfg rng code reason ack terminal c))"
proof -
  let ?d = "set_close_codes cfg code reason ack c"
  have s: "evolves c ?d" "m_session_state ?d = m_session_state c" by (simp_all add: set_close_codes_def evolves_def)
  have r: "evolves c (?d\<lparr>m_rng := n\<rparr>)" for n by (rule evolves_trans [OF s(1) evolves_upd(2)])
  have "evolves c (push_and_dispatch m (begin_closing cfg ack (?d\<lparr>m_rng := n\<rparr>)))" for m n
    using evolves_begin_closing [of "?d\<lparr>m_rng := n\<rparr>" cfg ack] s(2) assms by (intro evolves_trans [OF r] evolves_trans [OF _ evolves_push]) simp
  then show ?thesis using r by (auto simp: send_close_frame_def manager_get_message_def Let_def split: prod.split option.split)
qed

lemma evolves_close [evolve]: "evolves c (snd (close cfg rng code reason c))"
  by (simp add: close_def Let_def evolves_close_frame)

lemma evolves_api [evolve]: "do_api cfg ap df rng x c = Inr c' \<Longrightarrow> evolves c c'"
  by (cases x) (auto simp: do_api_def send_payload_def Let_def bind_res_eq_Inr_iff pause_reading_def resume_reading_def is_write_def is_shutdown_def
      intro: evolve)

lemma evolves_apis [evolve]: "do_apis cfg ap df rng xs c = Inr c' \<Longrightarrow> evolves c c'"
  by (induction xs arbitrary: c) (auto simp: bind_res_eq_Inr_iff intro: evolves_trans evolves_api)

definition benign :: "handler_call \<Rightarrow> bool" where
  "benign x \<longleftrightarrow> \<not> is_end_call x \<and> x \<noteq> Call_Termination"

lemma benign_simps [simp]: "benign (Call_Message m)" "benign (Call_Ping xs)" "benign (Call_Pong xs)" "benign (Call_Pong_Timeout xs)"
  by (simp_all add: benign_def is_end_call_def)

lemma evolves_call: "call_handler cfg ap df rng k x c = Inr (a, c') \<Longrightarrow> benign x \<Longrightarrow> evolves c c'"
proof -
  assume r: "call_handler cfg ap df rng k x c = Inr (a, c')" and b: "benign x"
  have "evolves c (c\<lparr>m_calls := m_calls c @ [x]\<rparr>)" using b by (auto simp: evolves_def benign_def)
  then show ?thesis using r by (auto simp: call_handler_def bind_res_eq_Inr_iff split: if_splits prod.splits intro: evolves_trans evolves_apis)
qed

lemma evolves_process_close:
  assumes "process_close_frame cfg rng msg c = Inr c'" "m_session_state c \<noteq> st_closed"
  shows "evolves c c'"
proof -
  obtain code ec where e: "extract_code (m_payload msg) = (code, ec)" by fastforce
  let ?c = "c\<lparr>m_remote_close_code := code\<rparr>"
  have ack: "evolves d (snd (send_close_ack cfg rng k r d))" if "m_session_state d \<noteq> st_closed" for d :: "'a connection" and k r
    unfolding send_close_ack_def by (rule evolves_close_frame [OF that])
  have 1: "evolves c (c\<lparr>m_remote_close_code := code, m_remote_close_reason := reason\<rparr>)" for reason by (rule evolves_trans [OF evolves_upd(6,7)])
  have 2: "evolves c (c\<lparr>m_remote_close_code := code, m_remote_close_reason := reason, m_was_clean := w\<rparr>)" for reason w by (rule evolves_trans [OF 1 evolves_upd(4)])
  show ?thesis
  proof (cases ec)
    case None
    obtain reason ec' where r: "extract_reason (m_payload msg) = Inr (reason, ec')" using assms(1) e None by (auto simp: process_close_frame_def bind_res_eq_Inr_iff)
    let ?d = "c\<lparr>m_remote_close_code := code, m_remote_close_reason := reason\<rparr>"
    have s: "m_session_state ?d \<noteq> st_closed" using assms(2) by simp
    show ?thesis using assms(1) e None r evolves_trans [OF 1 evolves_terminate] evolves_trans [OF 1 ack [OF s]] evolves_trans [OF 2 evolves_terminate] 1 2
      by (auto simp: process_close_frame_def Let_def split: if_splits)
  next
    case (Some x)
    have s: "m_session_state ?c \<noteq> st_closed" using assms(2) by simp
    show ?thesis using assms(1) e Some evolves_trans [OF evolves_upd(6) evolves_terminate] evolves_trans [OF evolves_upd(6) ack [OF s]]
      by (auto simp: process_close_frame_def Let_def split: if_splits)
  qed
qed

lemma evolves_call_cancel: "call_handler cfg ap df rng k x c = Inr (a, d) \<Longrightarrow> benign x \<Longrightarrow> evolves c (cancel_timer t d)"
  by (rule evolves_trans [OF evolves_call evolves_upd(8)])

lemma evolves_control: "process_control_frame cfg ap df rng msg c = Inr c' \<Longrightarrow> evolves c c'"
  using evolves_call_cancel [of cfg ap df rng K_Pong "Call_Pong (m_payload msg)" c]
  by (auto simp: process_control_frame_def Let_def bind_res_eq_Inr_iff split: if_splits option.splits
      dest: evolves_call evolves_process_close intro: evolves_trans [OF evolves_call evolves_pong])

lemma evolves_deliver: "deliver cfg ap df rng msg c = Inr c' \<Longrightarrow> evolves c c'"
  by (auto simp: deliver_def bind_res_eq_Inr_iff split: if_splits option.splits dest: evolves_call evolves_control)

lemma evolves_failed: "evolves c (consume_failed cfg rng e c)"
proof -
  have "evolves c c'" if "close cfg rng code reason c = (x, c')" for code reason x c' using evolves_close [of c cfg rng code reason] that by simp
  then have "evolves c (terminate y c')" if "close cfg rng code reason c = (x, c')" for code reason x y c' using that evolves_trans [OF _ evolves_terminate] by blast
  then show ?thesis using \<open>\<And>code reason x c'. close cfg rng code reason c = (x, c') \<Longrightarrow> evolves c c'\<close>
    by (auto simp: consume_failed_def evolves_terminate split: prod.split option.split)
qed

lemma evolves_loop: "read_loop n cfg ap df rng buf c = Inr (all, c') \<Longrightarrow> evolves c c'"
proof (induction n cfg ap df rng buf c rule: read_loop.induct)
  case (3 n cfg ap df rng b bs c)
  obtain p ec pr where c: "consume df (b # bs) (m_processor c) = Inr (p, ec, pr)" using "3.prems" by (auto simp: bind_res_eq_Inr_iff)
  show ?case
  proof (cases ec)
    case (Some e)
    then show ?thesis using "3.prems" c evolves_trans [OF evolves_upd(1) evolves_failed] by auto
  next
    case None
    note c = c [unfolded None]
    show ?thesis
    proof (cases "ready pr")
      case True
      obtain msg pr' d where d: "get_message pr = Inr (msg, pr')" "deliver cfg ap df rng msg (c\<lparr>m_processor := pr'\<rparr>) = Inr d"
        "read_loop n cfg ap df rng (drop p (b # bs)) d = Inr (all, c')"
        using "3.prems" c True by (auto simp: bind_res_eq_Inr_iff)
      then have "evolves d c'" using "3.IH"(1) [of "(p, None, pr)" p "(None, pr)" None pr "c\<lparr>m_processor := pr\<rparr>" "(msg, pr')" msg pr' d] c True by simp
      then show ?thesis using evolves_trans [OF evolves_upd(1) evolves_deliver [OF d(2)]] evolves_trans by blast
    next
      case False
      then have "read_loop n cfg ap df rng (drop p (b # bs)) (c\<lparr>m_processor := pr\<rparr>) = Inr (all, c')" using "3.prems" c by simp
      then have "evolves (c\<lparr>m_processor := pr\<rparr>) c'" using "3.IH"(2) [of "(p, None, pr)" p "(None, pr)" None pr "c\<lparr>m_processor := pr\<rparr>"] c False by simp
      then show ?thesis by (rule evolves_trans [OF evolves_upd(1)])
    qed
  qed
qed simp_all

lemma evolves_read_frame: "evolves c (read_frame c)"
  by (simp add: read_frame_def evolves_request is_write_def is_shutdown_def)

lemma evolves_handle_read: "handle_read_frame cfg ap df rng ec buf c = Inr c' \<Longrightarrow> evolves c c'"
  by (auto simp: handle_read_frame_def Let_def bind_res_eq_Inr_iff evolves_terminate split: if_splits
      dest: evolves_loop intro: evolves_trans [OF _ evolves_read_frame])

section \<open>The invariant\<close>

definition frame_bytes :: "message list \<Rightarrow> u8 list" where
  "frame_bytes ms = concat (map (\<lambda>m. m_header m @ m_payload m) ms)"

text \<open>
  At most one write is on its way, and it has the bytes of the current messages; a message that waits is
  going to be written; the session ends once.
\<close>

definition write_inv :: "'z connection \<Rightarrow> bool" where
  "write_inv c \<longleftrightarrow>
     filter is_write (m_pending c) = (if m_current_msgs c = [] then [] else [Async_Write (frame_bytes (m_current_msgs c))])
     \<and> (m_current_msgs c \<noteq> [] \<longrightarrow> m_write_flag c)
     \<and> (m_current_msgs c = [] \<and> m_write_flag c \<longrightarrow> m_session_state c = st_closed)
     \<and> (m_send_queue c \<noteq> [] \<and> \<not> m_write_flag c \<longrightarrow> Dispatch_Write_Frame \<in> set (m_pending c))
     \<and> m_send_buffer_size c = payloads (m_send_queue c)"

definition end_inv :: "'z connection \<Rightarrow> bool" where
  "end_inv c \<longleftrightarrow>
     length (filter is_shutdown (m_pending c)) + length (filter is_end_call (m_calls c)) \<le> (if m_session_state c = st_closed then 1 else 0)
     \<and> length (filter is_shutdown (m_pending c)) + length (filter (\<lambda>x. x = Call_Termination) (m_calls c)) \<le> (if m_session_state c = st_closed then 1 else 0)"

lemma state_closed_mono: "state_order a \<le> state_order b \<Longrightarrow> a = st_closed \<Longrightarrow> b = st_closed"
  by (cases b) (simp_all add: state_order_def)

lemma write_inv_evolves:
  assumes "evolves c c'" "write_inv c"
  shows "write_inv c'"
proof -
  obtain ms ops where "m_send_queue c' = m_send_queue c @ ms" "m_send_buffer_size c' = m_send_buffer_size c + payloads ms"
    "m_pending c' = m_pending c @ ops" "filter is_write ops = []" "ms \<noteq> [] \<and> \<not> m_write_flag c \<longrightarrow> Dispatch_Write_Frame \<in> set ops"
    using assms(1) unfolding evolves_def by blast
  moreover have "m_current_msgs c' = m_current_msgs c" "m_write_flag c' = m_write_flag c" "state_order (m_session_state c) \<le> state_order (m_session_state c')"
    using assms(1) by (simp_all add: evolves_def)
  ultimately show ?thesis using assms(2) state_closed_mono [of "m_session_state c" "m_session_state c'"] unfolding write_inv_def by auto
qed

lemma end_inv_evolves:
  assumes "evolves c c'" "end_inv c"
  shows "end_inv c'"
proof -
  obtain ops calls where "m_pending c' = m_pending c @ ops"
    "length (filter is_shutdown ops) = (if m_session_state c \<noteq> st_closed \<and> m_session_state c' = st_closed then 1 else 0)"
    "m_calls c' = m_calls c @ calls" "filter is_end_call calls = []" "Call_Termination \<notin> set calls"
    using assms(1) unfolding evolves_def by blast
  moreover have "filter (\<lambda>x. x = Call_Termination) calls = []" using calculation(5) by (auto simp: filter_empty_conv)
  moreover have "state_order (m_session_state c) \<le> state_order (m_session_state c')" using assms(1) by (simp add: evolves_def)
  ultimately show ?thesis using assms(2) state_closed_mono [of "m_session_state c" "m_session_state c'"] unfolding end_inv_def by (auto split: if_splits)
qed

lemma filter_remove1_other: "\<not> P x \<Longrightarrow> filter P (remove1 x xs) = filter P xs"
  by (induction xs) auto

lemma completed_inv:
  "\<not> is_write x \<Longrightarrow> x \<noteq> Dispatch_Write_Frame \<Longrightarrow> write_inv c \<Longrightarrow> write_inv (completed x c)"
  "\<not> is_shutdown x \<Longrightarrow> end_inv c \<Longrightarrow> end_inv (completed x c)"
  by (auto simp: write_inv_def end_inv_def completed_def filter_remove1_other)

lemma pop_ready_Nil: "m_send_queue c = [] \<Longrightarrow> pop_ready c = c"
  by (subst pop_ready.simps) (simp add: write_pop_def)

definition popped :: "message \<Rightarrow> message list \<Rightarrow> 'z connection \<Rightarrow> 'z connection" where
  "popped m q c = c\<lparr>m_send_buffer_size := m_send_buffer_size c - length (m_payload m), m_send_queue := q, m_current_msgs := m_current_msgs c @ [m]\<rparr>"

lemma pop_ready_Cons: "m_send_queue c = m # q \<Longrightarrow> pop_ready c = (if m_terminal m then popped m q c else pop_ready (popped m q c))"
  by (subst pop_ready.simps) (simp add: write_pop_def popped_def)

lemma pop_ready_shape: "\<exists>n q cs. pop_ready c = c\<lparr>m_send_buffer_size := n, m_send_queue := q, m_current_msgs := cs\<rparr>"
proof (induction "m_send_queue c" arbitrary: c)
  case Nil
  have "c = c\<lparr>m_send_buffer_size := m_send_buffer_size c, m_send_queue := m_send_queue c, m_current_msgs := m_current_msgs c\<rparr>" by (cases c) simp
  then show ?case using pop_ready_Nil [OF Nil [symmetric]] by metis
next
  case (Cons m q)
  have "q = m_send_queue (popped m q c)" by (simp add: popped_def)
  from Cons.hyps(1) [OF this] obtain n q' cs where "pop_ready (popped m q c) = (popped m q c)\<lparr>m_send_buffer_size := n, m_send_queue := q', m_current_msgs := cs\<rparr>" by blast
  then show ?case unfolding pop_ready_Cons [OF Cons.hyps(2) [symmetric]] by (cases "m_terminal m") (auto simp: popped_def)
qed

lemma pop_ready_queue:
  "\<exists>ms. m_send_queue c = ms @ m_send_queue (pop_ready c) \<and> m_current_msgs (pop_ready c) = m_current_msgs c @ ms
    \<and> (m_send_buffer_size c = payloads (m_send_queue c) \<longrightarrow> m_send_buffer_size (pop_ready c) = payloads (m_send_queue (pop_ready c)))
    \<and> (m_send_queue c \<noteq> [] \<longrightarrow> ms \<noteq> [])"
proof (induction "m_send_queue c" arbitrary: c)
  case Nil
  then show ?case by (simp add: pop_ready_Nil)
next
  case (Cons m q)
  let ?d = "popped m q c"
  have d: "m_send_queue ?d = q" "m_current_msgs ?d = m_current_msgs c @ [m]" "m_send_buffer_size ?d = m_send_buffer_size c - length (m_payload m)" by (simp_all add: popped_def)
  show ?case
  proof (cases "m_terminal m")
    case True
    then show ?thesis using d Cons.hyps(2) [symmetric] by (intro exI [of _ "[m]"]) (simp add: pop_ready_Cons)
  next
    case False
    from Cons.hyps(1) [OF d(1) [symmetric]] obtain ms where
      "m_send_queue ?d = ms @ m_send_queue (pop_ready ?d)" "m_current_msgs (pop_ready ?d) = m_current_msgs ?d @ ms"
      "m_send_buffer_size ?d = payloads (m_send_queue ?d) \<longrightarrow> m_send_buffer_size (pop_ready ?d) = payloads (m_send_queue (pop_ready ?d))" by blast
    then show ?thesis using d Cons.hyps(2) [symmetric] False by (intro exI [of _ "m # ms"]) (simp add: pop_ready_Cons)
  qed
qed

lemma write_frame_shape:
  assumes "\<not> m_write_flag c" "m_current_msgs c = []" "m_send_buffer_size c = payloads (m_send_queue c)"
  obtains ms q where "m_send_queue c = ms @ q" "m_send_queue c \<noteq> [] \<longrightarrow> ms \<noteq> []"
    "write_frame c = (let d = c\<lparr>m_send_buffer_size := payloads q, m_send_queue := q, m_current_msgs := ms\<rparr> in
       if ms = [] then d else (request (Async_Write (frame_bytes ms)) (d\<lparr>m_write_flag := True\<rparr>))\<lparr>m_wire := m_wire c @ frame_bytes ms\<rparr>)"
proof -
  obtain ms where ms: "m_send_queue c = ms @ m_send_queue (pop_ready c)" "m_current_msgs (pop_ready c) = m_current_msgs c @ ms"
    "m_send_buffer_size c = payloads (m_send_queue c) \<longrightarrow> m_send_buffer_size (pop_ready c) = payloads (m_send_queue (pop_ready c))"
    "m_send_queue c \<noteq> [] \<longrightarrow> ms \<noteq> []" using pop_ready_queue [of c] by blast
  obtain n q cs where s: "pop_ready c = c\<lparr>m_send_buffer_size := n, m_send_queue := q, m_current_msgs := cs\<rparr>" using pop_ready_shape [of c] by blast
  have cs: "cs = ms" using ms(2) assms(2) unfolding s by simp
  have q: "m_send_queue c = ms @ q" using ms(1) unfolding s by simp
  have n: "n = payloads q" using ms(3) assms(3) unfolding s by simp
  show ?thesis
  proof (rule that [OF q ms(4)])
    show "write_frame c = (let d = c\<lparr>m_send_buffer_size := payloads q, m_send_queue := q, m_current_msgs := ms\<rparr> in
       if ms = [] then d else (request (Async_Write (frame_bytes ms)) (d\<lparr>m_write_flag := True\<rparr>))\<lparr>m_wire := m_wire c @ frame_bytes ms\<rparr>)"
      unfolding write_frame_def s cs n Let_def using assms(1) by (simp add: frame_bytes_def)
  qed
qed

lemma write_frame_inv:
  assumes "write_inv c"
  shows "write_inv (write_frame (completed Dispatch_Write_Frame c)) \<and>
    (\<exists>ms. m_send_queue c = ms @ m_send_queue (write_frame (completed Dispatch_Write_Frame c))
       \<and> m_wire (write_frame (completed Dispatch_Write_Frame c)) = m_wire c @ frame_bytes ms)"
proof -
  let ?c = "completed Dispatch_Write_Frame c"
  have "\<not> is_write Dispatch_Write_Frame" by (simp add: is_write_def)
  then have f: "filter is_write (m_pending ?c) = filter is_write (m_pending c)" by (simp add: completed_def filter_remove1_other)
  have eq: "m_send_queue ?c = m_send_queue c" "m_current_msgs ?c = m_current_msgs c" "m_write_flag ?c = m_write_flag c"
    "m_send_buffer_size ?c = m_send_buffer_size c" "m_wire ?c = m_wire c" "m_session_state ?c = m_session_state c"
    by (simp_all add: completed_def)
  show ?thesis
  proof (cases "m_write_flag c")
    case True
    then have "write_frame ?c = ?c" by (simp add: write_frame_def eq)
    then show ?thesis using assms f True by (simp add: write_inv_def eq frame_bytes_def)
  next
    case False
    then have e: "m_current_msgs c = []" "m_send_buffer_size c = payloads (m_send_queue c)" "filter is_write (m_pending c) = []"
      using assms by (auto simp: write_inv_def split: if_splits)
    obtain ms q where w: "m_send_queue ?c = ms @ q" "m_send_queue ?c \<noteq> [] \<longrightarrow> ms \<noteq> []"
      "write_frame ?c = (let d = ?c\<lparr>m_send_buffer_size := payloads q, m_send_queue := q, m_current_msgs := ms\<rparr> in
       if ms = [] then d else (request (Async_Write (frame_bytes ms)) (d\<lparr>m_write_flag := True\<rparr>))\<lparr>m_wire := m_wire ?c @ frame_bytes ms\<rparr>)"
      by (rule write_frame_shape [of ?c]) (use False e eq in simp_all)
    show ?thesis
    proof (cases "ms = []")
      case True
      then show ?thesis using w(1,2) e f False unfolding w(3) by (simp add: Let_def write_inv_def eq frame_bytes_def)
    next
      case nonempty: False
      then show ?thesis using w(1) e f unfolding w(3) by (simp add: Let_def write_inv_def eq request_def is_write_def)
    qed
  qed
qed

lemma write_frame_keeps:
  "m_session_state (write_frame c) = m_session_state c" "m_calls (write_frame c) = m_calls c"
  "filter is_shutdown (m_pending (write_frame c)) = filter is_shutdown (m_pending c)"
proof -
  obtain n q cs where "pop_ready c = c\<lparr>m_send_buffer_size := n, m_send_queue := q, m_current_msgs := cs\<rparr>" using pop_ready_shape [of c] by blast
  then show "m_session_state (write_frame c) = m_session_state c" "m_calls (write_frame c) = m_calls c"
    "filter is_shutdown (m_pending (write_frame c)) = filter is_shutdown (m_pending c)"
    by (simp_all add: write_frame_def Let_def request_def is_shutdown_def)
qed

lemma remove1_only: "filter P xs = [x] \<Longrightarrow> y \<in> set xs \<Longrightarrow> P y \<Longrightarrow> filter P (remove1 y xs) = []"
proof -
  assume f: "filter P xs = [x]" and "y \<in> set xs" "P y"
  then have "y \<in> set [x]" unfolding f [symmetric] by simp
  then have "y = x" by simp
  then show ?thesis using f by (simp add: filter_remove1)
qed

lemma terminate_fields [simp]:
  "m_session_state (terminate x c) = st_closed" "m_wire (terminate x c) = m_wire c" "m_send_queue (terminate x c) = m_send_queue c"
  "m_current_msgs (terminate x c) = m_current_msgs c" "m_write_flag (terminate x c) = m_write_flag c" "m_send_buffer_size (terminate x c) = m_send_buffer_size c"
  "m_calls (terminate x c) = m_calls c" "m_processor (terminate x c) = m_processor c" "m_is_server (terminate x c) = m_is_server c"
  by (cases "m_session_state c"; simp add: terminate_def Let_def request_def cancel_timer_def split: option.split)+

lemma terminate_pending:
  "m_pending (terminate x c) = m_pending c @ (case m_session_state c of st_closed \<Rightarrow> [] | st_connecting \<Rightarrow> [Async_Shutdown ts_failed] | _ \<Rightarrow> [Async_Shutdown ts_closed])"
  by (cases "m_session_state c"; simp add: terminate_def Let_def request_def cancel_timer_def split: option.split)

lemma handle_write_inv:
  assumes "write_inv c" "Async_Write bs \<in> set (m_pending c)"
  shows "\<exists>c'. handle_write_frame ec (completed (Async_Write bs) c) = Inr c'"
    "handle_write_frame ec (completed (Async_Write bs) c) = Inr c' \<Longrightarrow> write_inv c' \<and> m_wire c' = m_wire c \<and> m_send_queue c' = m_send_queue c"
proof -
  have w: "is_write (Async_Write bs)" by (simp add: is_write_def)
  then have m: "Async_Write bs \<in> set (filter is_write (m_pending c))" using assms(2) by simp
  have c: "m_current_msgs c \<noteq> []" using assms(1) m unfolding write_inv_def by (metis empty_iff list.set(1))
  then have f: "filter is_write (m_pending c) = [Async_Write (frame_bytes (m_current_msgs c))]" "m_write_flag c" using assms(1) by (simp_all add: write_inv_def)
  have p: "filter is_write (remove1 (Async_Write bs) (m_pending c)) = []" by (rule remove1_only [OF f(1) assms(2) w])
  have ns: "filter is_write (case s of st_closed \<Rightarrow> [] | st_connecting \<Rightarrow> [Async_Shutdown ts_failed] | _ \<Rightarrow> [Async_Shutdown ts_closed]) = []" for s
    by (cases s) (simp_all add: is_write_def)
  show "\<exists>c'. handle_write_frame ec (completed (Async_Write bs) c) = Inr c'" using c(1) by (simp add: handle_write_frame_def completed_def Let_def)
  let ?d = "(completed (Async_Write bs) c)\<lparr>m_current_msgs := []\<rparr>"
  have t: "write_inv (terminate x ?d)" for x
    using assms(1) p f(2) by (simp add: completed_def write_inv_def terminate_pending ns)
  have n: "write_inv (if m_send_queue c \<noteq> [] then request Dispatch_Write_Frame (?d\<lparr>m_write_flag := False\<rparr>) else ?d\<lparr>m_write_flag := False\<rparr>)"
    using assms(1) p by (simp add: completed_def request_def write_inv_def is_write_def)
  show "handle_write_frame ec (completed (Async_Write bs) c) = Inr c' \<Longrightarrow> write_inv c' \<and> m_wire c' = m_wire c \<and> m_send_queue c' = m_send_queue c"
    using t n c by (auto simp: handle_write_frame_def completed_def Let_def request_def split: if_splits)
qed

lemma call_evolves: "call_handler cfg ap df rng k x c = Inr (a, c') \<Longrightarrow> c' = c \<or> evolves (c\<lparr>m_calls := m_calls c @ [x]\<rparr>) c'"
  by (auto simp: call_handler_def bind_res_eq_Inr_iff split: if_splits prod.splits dest: evolves_apis)

lemma call_write_inv: "call_handler cfg ap df rng k x c = Inr (a, c') \<Longrightarrow> write_inv c \<Longrightarrow> write_inv c'"
proof -
  assume r: "call_handler cfg ap df rng k x c = Inr (a, c')" and w: "write_inv c"
  have "write_inv (c\<lparr>m_calls := m_calls c @ [x]\<rparr>)" using w by (simp add: write_inv_def)
  then show ?thesis using call_evolves [OF r] w write_inv_evolves by blast
qed

text \<open>What a handler that is called at the end leaves as it is.\<close>

definition outgoing :: "'z connection \<Rightarrow> u8 list" where
  "outgoing c = m_wire c @ frame_bytes (m_send_queue c)"

lemma evolves_outgoing: "evolves c c' \<Longrightarrow> prefix (outgoing c) (outgoing c') \<and> m_wire c' = m_wire c \<and> state_order (m_session_state c) \<le> state_order (m_session_state c')"
  by (auto simp: evolves_def outgoing_def frame_bytes_def)

lemma call_outgoing:
  assumes "call_handler cfg ap df rng k x c = Inr (a, c')"
  shows "prefix (outgoing c) (outgoing c')" "m_wire c' = m_wire c" "state_order (m_session_state c) \<le> state_order (m_session_state c')"
proof -
  have "outgoing (c\<lparr>m_calls := m_calls c @ [x]\<rparr>) = outgoing c" by (simp add: outgoing_def)
  then show "prefix (outgoing c) (outgoing c')" "m_wire c' = m_wire c" "state_order (m_session_state c) \<le> state_order (m_session_state c')"
    using call_evolves [OF assms] evolves_outgoing by fastforce+
qed

lemma handle_terminate_calls:
  assumes "handle_terminate cfg ap df rng t c = Inr c'"
  obtains d b where "d = c \<or> (\<exists>k x a. is_end_call x \<and> call_handler cfg ap df rng k x c = Inr (a, d))"
    "call_handler cfg ap df rng K_Termination Call_Termination d = Inr (b, c')"
proof -
  obtain a d b where 1: "(case t of
         ts_failed \<Rightarrow> if m_ec c \<noteq> Some (Lib http_connection_ended) then call_handler cfg ap df rng K_Fail Call_Fail c else Inr (True, c)
       | ts_closed \<Rightarrow> call_handler cfg ap df rng K_Close Call_Close c
       | ts_unknown \<Rightarrow> Inr (True, c)) = Inr (a, d)" and 2: "call_handler cfg ap df rng K_Termination Call_Termination d = Inr (b, c')"
    using assms by (auto simp: handle_terminate_def bind_res_eq_Inr_iff)
  have "is_end_call Call_Fail" "is_end_call Call_Close" by (simp_all add: is_end_call_def)
  then have "d = c \<or> (\<exists>k x a. is_end_call x \<and> call_handler cfg ap df rng k x c = Inr (a, d))" using 1 by (cases t) (auto split: if_splits)
  then show ?thesis using 2 by (rule that)
qed

definition ends_le :: "nat \<Rightarrow> nat \<Rightarrow> nat \<Rightarrow> 'z connection \<Rightarrow> bool" where
  "ends_le i j k c \<longleftrightarrow> m_session_state c = st_closed \<and> length (filter is_shutdown (m_pending c)) \<le> i
     \<and> length (filter is_end_call (m_calls c)) \<le> j \<and> length (filter (\<lambda>x. x = Call_Termination) (m_calls c)) \<le> k"

lemma ends_le_evolves:
  assumes "evolves c c'" "ends_le i j k c"
  shows "ends_le i j k c'"
proof -
  obtain ops calls where 1: "m_pending c' = m_pending c @ ops"
    "length (filter is_shutdown ops) = (if m_session_state c \<noteq> st_closed \<and> m_session_state c' = st_closed then 1 else 0)"
    "m_calls c' = m_calls c @ calls" "filter is_end_call calls = []" "Call_Termination \<notin> set calls"
    using assms(1) unfolding evolves_def by blast
  have "filter (\<lambda>x. x = Call_Termination) calls = []" using 1(5) by (auto simp: filter_empty_conv)
  moreover have "m_session_state c' = st_closed" using assms state_closed_mono [of "m_session_state c"] by (auto simp: evolves_def ends_le_def)
  ultimately show ?thesis using 1 assms(2) by (simp add: ends_le_def)
qed

lemma call_ends_le:
  assumes "call_handler cfg ap df rng h x c = Inr (a, c')" "ends_le i j k c"
  shows "is_end_call x \<Longrightarrow> ends_le i (Suc j) k c'" "x = Call_Termination \<Longrightarrow> ends_le i j (Suc k) c'"
proof -
  have t: "\<not> is_end_call Call_Termination" "\<not> is_end_call x \<or> x \<noteq> Call_Termination" by (auto simp: is_end_call_def)
  have "is_end_call x \<Longrightarrow> ends_le i (Suc j) k (c\<lparr>m_calls := m_calls c @ [x]\<rparr>)" "x = Call_Termination \<Longrightarrow> ends_le i j (Suc k) (c\<lparr>m_calls := m_calls c @ [x]\<rparr>)"
    using assms(2) t by (auto simp: ends_le_def)
  moreover have "ends_le i (Suc j) k c" "ends_le i j (Suc k) c" using assms(2) by (simp_all add: ends_le_def)
  ultimately show "is_end_call x \<Longrightarrow> ends_le i (Suc j) k c'" "x = Call_Termination \<Longrightarrow> ends_le i j (Suc k) c'"
    using call_evolves [OF assms(1)] ends_le_evolves by blast+
qed

lemma shutdown_end_inv:
  assumes "end_inv c" "Async_Shutdown t \<in> set (m_pending c)" "handle_terminate cfg ap df rng t (completed (Async_Shutdown t) c) = Inr c'"
  shows "end_inv c'"
proof -
  have w: "is_shutdown (Async_Shutdown t)" by (simp add: is_shutdown_def)
  then have "Async_Shutdown t \<in> set (filter is_shutdown (m_pending c))" using assms(2) by simp
  then obtain y ys where y: "filter is_shutdown (m_pending c) = y # ys" by (cases "filter is_shutdown (m_pending c)") simp_all
  then have e: "ys = []" "m_session_state c = st_closed" "filter is_end_call (m_calls c) = []" "filter (\<lambda>x. x = Call_Termination) (m_calls c) = []"
    using assms(1) by (auto simp: end_inv_def split: if_splits)
  have 0: "ends_le 0 0 0 (completed (Async_Shutdown t) c)" using e remove1_only [OF y [unfolded e(1)] assms(2) w] by (simp add: ends_le_def completed_def)
  obtain d b where h: "d = completed (Async_Shutdown t) c \<or> (\<exists>k x a. is_end_call x \<and> call_handler cfg ap df rng k x (completed (Async_Shutdown t) c) = Inr (a, d))"
    "call_handler cfg ap df rng K_Termination Call_Termination d = Inr (b, c')" by (rule handle_terminate_calls [OF assms(3)])
  have "ends_le 0 1 0 d" using h(1) 0 call_ends_le(1) [OF _ 0] by (auto simp: ends_le_def)
  then have "ends_le 0 1 1 c'" using call_ends_le(2) [OF h(2)] by fastforce
  then show ?thesis by (simp add: ends_le_def end_inv_def)
qed

lemma shutdown_write_inv:
  assumes "write_inv c" "handle_terminate cfg ap df rng t (completed (Async_Shutdown t) c) = Inr c'"
  shows "write_inv c' \<and> prefix (outgoing c) (outgoing c') \<and> m_wire c' = m_wire c \<and> state_order (m_session_state c) \<le> state_order (m_session_state c')"
proof -
  let ?c = "completed (Async_Shutdown t) c"
  have 0: "write_inv ?c" by (rule completed_inv(1)) (use assms(1) in \<open>simp_all add: is_write_def\<close>)
  obtain d b where h: "d = ?c \<or> (\<exists>k x a. is_end_call x \<and> call_handler cfg ap df rng k x ?c = Inr (a, d))"
    "call_handler cfg ap df rng K_Termination Call_Termination d = Inr (b, c')" by (rule handle_terminate_calls [OF assms(2)])
  have "write_inv d" using h(1) 0 call_write_inv by blast
  moreover have "prefix (outgoing ?c) (outgoing d) \<and> m_wire d = m_wire ?c \<and> state_order (m_session_state ?c) \<le> state_order (m_session_state d)"
    using h(1) call_outgoing by fastforce
  moreover have "outgoing ?c = outgoing c" "m_wire ?c = m_wire c" "m_session_state ?c = m_session_state c" by (simp_all add: outgoing_def completed_def)
  ultimately show ?thesis using call_write_inv [OF h(2)] call_outgoing [OF h(2)] prefix_order.trans by fastforce
qed

text \<open>Steps are of four kinds.\<close>

lemma con_step_kinds:
  assumes "con_step cfg ap df rng c c'"
  obtains (Evolve) d where "evolves d c'" "d = c \<or> (\<exists>x. \<not> is_write x \<and> \<not> is_shutdown x \<and> x \<noteq> Dispatch_Write_Frame \<and> d = completed x c)"
  | (Write) "c' = write_frame (completed Dispatch_Write_Frame c)"
  | (Written) bs ec where "Async_Write bs \<in> set (m_pending c)" "handle_write_frame ec (completed (Async_Write bs) c) = Inr c'"
  | (Shut) t where "Async_Shutdown t \<in> set (m_pending c)" "handle_terminate cfg ap df rng t (completed (Async_Shutdown t) c) = Inr c'"
  using assms
proof cases
  case (by_app x)
  then show ?thesis using Evolve [of c] evolves_api by blast
next
  case (sent msg ec)
  then show ?thesis using Evolve [of c] evolves_res by blast
next
  case (arrived ec buf)
  then show ?thesis using Evolve [of "completed Async_Read c"] evolves_handle_read by (force simp: is_write_def is_shutdown_def)
next
  case (close_timer t ec)
  have "evolves d (handle_close_handshake_timeout ec d)" for d :: "'a connection" by (simp add: handle_close_handshake_timeout_def evolves_terminate)
  then show ?thesis using Evolve [of "completed (Handshake_Timer t) c"] close_timer by (force simp: is_write_def is_shutdown_def)
next
  case (ping_timer t payload ec)
  then have "evolves (completed (Ping_Timer t payload) c) c'"
    by (auto simp: handle_pong_timeout_def bind_res_eq_Inr_iff split: if_splits dest: evolves_call)
  then show ?thesis using Evolve [of "completed (Ping_Timer t payload) c"] by (force simp: is_write_def is_shutdown_def)
next
  case paused
  have "evolves d (handle_pause_reading d)" for d :: "'a connection" by (simp add: handle_pause_reading_def)
  then show ?thesis using Evolve [of "completed Dispatch_Pause c"] paused by (force simp: is_write_def is_shutdown_def)
next
  case resumed
  have "evolves d (handle_resume_reading d)" for d :: "'a connection"
    unfolding handle_resume_reading_def by (rule evolves_trans [OF evolves_upd(5) evolves_read_frame])
  then show ?thesis using Evolve [of "completed Dispatch_Resume c"] resumed by (force simp: is_write_def is_shutdown_def)
qed (use Write Written Shut in blast)+

lemma con_step_inv:
  assumes "con_step cfg ap df rng c c'" "write_inv c" "end_inv c"
  shows "write_inv c'" "end_inv c'"
proof -
  from assms(1) have "write_inv c' \<and> end_inv c'"
  proof (cases rule: con_step_kinds)
    case (Evolve d)
    then have "write_inv d \<and> end_inv d" using assms(2,3) completed_inv by blast
    then show ?thesis using Evolve(1) write_inv_evolves end_inv_evolves by blast
  next
    case Write
    have "end_inv (completed Dispatch_Write_Frame c)" using assms(3) by (intro completed_inv) (simp_all add: is_shutdown_def)
    then show ?thesis using write_frame_inv [OF assms(2)] Write by (simp add: end_inv_def write_frame_keeps)
  next
    case (Written bs ec)
    have e: "end_inv (completed (Async_Write bs) c)" using assms(3) by (intro completed_inv) (simp_all add: is_shutdown_def)
    then have t: "end_inv (terminate x ((completed (Async_Write bs) c)\<lparr>m_current_msgs := []\<rparr>))" for x
      by (intro end_inv_evolves [OF evolves_terminate]) (simp add: end_inv_def)
    have "\<not> is_shutdown Dispatch_Write_Frame" by (simp add: is_shutdown_def)
    then have "end_inv c'" using Written(2) e t by (auto simp: handle_write_frame_def Let_def end_inv_def request_def split: if_splits)
    then show ?thesis using handle_write_inv(2) [OF assms(2) Written] by simp
  next
    case (Shut t)
    then show ?thesis using shutdown_write_inv [OF assms(2)] shutdown_end_inv [OF assms(3)] by blast
  qed
  then show "write_inv c'" "end_inv c'" by simp_all
qed

lemma con_step_order:
  assumes "con_step cfg ap df rng c c'" "write_inv c"
  shows "prefix (outgoing c) (outgoing c') \<and> prefix (m_wire c) (m_wire c') \<and> state_order (m_session_state c) \<le> state_order (m_session_state c')"
  using assms(1)
proof (cases rule: con_step_kinds)
  case (Evolve d)
  then have "outgoing d = outgoing c" "m_wire d = m_wire c" "m_session_state d = m_session_state c" by (auto simp: outgoing_def completed_def)
  then show ?thesis using evolves_outgoing [OF Evolve(1)] by simp
next
  case Write
  obtain ms where "m_send_queue c = ms @ m_send_queue c'" "m_wire c' = m_wire c @ frame_bytes ms" using write_frame_inv [OF assms(2)] Write by blast
  then have "outgoing c' = outgoing c" "prefix (m_wire c) (m_wire c')" by (simp_all add: outgoing_def frame_bytes_def)
  then show ?thesis using Write by (simp add: write_frame_keeps completed_def)
next
  case (Written bs ec)
  have "state_order (m_session_state c) \<le> state_order (m_session_state c')"
    using Written(2) by (cases "m_session_state c") (auto simp: handle_write_frame_def Let_def request_def completed_def state_order_def split: if_splits)
  then show ?thesis using handle_write_inv(2) [OF assms(2) Written] by (simp add: outgoing_def)
next
  case (Shut t)
  then show ?thesis using shutdown_write_inv [OF assms(2)] by auto
qed

section \<open>Runs\<close>

lemma connection_open_inv: "write_inv (connection_open server p)" "end_inv (connection_open server p)"
  by (simp_all add: connection_open_def write_inv_def end_inv_def is_write_def is_shutdown_def)

lemma con_run_inv:
  assumes "(con_step cfg ap df rng)\<^sup>*\<^sup>* c c'" "write_inv c" "end_inv c"
  shows "write_inv c' \<and> end_inv c' \<and> prefix (outgoing c) (outgoing c') \<and> prefix (m_wire c) (m_wire c')
    \<and> state_order (m_session_state c) \<le> state_order (m_session_state c')"
  using assms(1)
proof induction
  case base
  then show ?case using assms(2,3) by simp
next
  case (step d e)
  then show ?case using con_step_inv [OF step.hyps(2)] con_step_order [OF step.hyps(2)] prefix_order.trans by (meson le_trans)
qed

text \<open>A terminal message was given to the transport.\<close>

definition terminal_out :: "'z connection \<Rightarrow> bool" where
  "terminal_out c \<longleftrightarrow> m_write_flag c \<and> (m_current_msgs c = [] \<or> m_terminal (last (m_current_msgs c)))"

lemma terminal_out_step:
  assumes "con_step cfg ap df rng c c'" "write_inv c" "terminal_out c"
  shows "terminal_out c' \<and> m_wire c' = m_wire c"
  using assms(1)
proof (cases rule: con_step_kinds)
  case (Evolve d)
  then have "terminal_out d" "m_wire d = m_wire c" using assms(3) by (auto simp: terminal_out_def completed_def)
  then show ?thesis using Evolve(1) by (simp add: evolves_def terminal_out_def)
next
  case Write
  then have "c' = completed Dispatch_Write_Frame c" using assms(3) by (simp add: write_frame_def terminal_out_def completed_def)
  then show ?thesis using assms(3) by (simp add: terminal_out_def completed_def)
next
  case (Written bs ec)
  then show ?thesis using assms(3) by (auto simp: handle_write_frame_def terminal_out_def Let_def completed_def split: if_splits)
next
  case (Shut t)
  let ?c = "completed (Async_Shutdown t) c"
  have 0: "terminal_out ?c" "m_wire ?c = m_wire c" using assms(3) by (simp_all add: terminal_out_def completed_def)
  have k: "terminal_out e \<and> m_wire e = m_wire d" if "call_handler cfg ap df rng k x d = Inr (a, e)" "terminal_out d" for k x d a e
    using call_evolves [OF that(1)] that(2) by (auto simp: evolves_def terminal_out_def)
  obtain d b where "d = ?c \<or> (\<exists>k x a. is_end_call x \<and> call_handler cfg ap df rng k x ?c = Inr (a, d))"
    "call_handler cfg ap df rng K_Termination Call_Termination d = Inr (b, c')" by (rule handle_terminate_calls [OF Shut(2)])
  then show ?thesis using k 0 by metis
qed

lemma terminal_out_run:
  assumes "(con_step cfg ap df rng)\<^sup>*\<^sup>* c c'" "write_inv c" "end_inv c" "terminal_out c"
  shows "terminal_out c' \<and> m_wire c' = m_wire c"
  using assms(1)
proof induction
  case base
  then show ?case using assms(4) by simp
next
  case (step d e)
  then show ?case using con_run_inv [OF step.hyps(1) assms(2,3)] terminal_out_step [OF step.hyps(2)] by simp
qed

text \<open>An application without handlers, and a server that has queued one message.\<close>

definition silent_app :: app where
  "silent_app = \<lparr>has_handler = (\<lambda>_. False), react = (\<lambda>_ _. (True, []))\<rparr>"

lemma one_message_queued:
  obtains c where "do_api core_config silent_app disabled (\<lambda>_. 0) (Api_Send BINARY [1]) (connection_open True (hybi13_new True 100 ())) = Inr c"
    "m_session_state c = st_open" "m_send_queue c \<noteq> []" "m_wire c = []" "Dispatch_Write_Frame \<in> set (m_pending c)"
proof -
  have off: "\<not> is_enabled disabled z" for z by (simp add: disabled_def)
  let ?i = "(message_new BINARY)\<lparr>m_payload := [1], m_compressed := True\<rparr>"
  obtain o' where "prepare_data_frame disabled 0 (Some ?i) (Some message_empty) (hybi13_new True 100 ()) = Inr (None, Some o', hybi13_new True 100 ())"
    using prepare_data_wire [OF off, of ?i 0 message_empty "hybi13_new True 100 ()"] by (auto simp: message_new_def is_control_iff)
  then have "\<exists>c. do_api core_config silent_app disabled (\<lambda>_. 0) (Api_Send BINARY [1]) (connection_open True (hybi13_new True 100 ())) = Inr c
    \<and> m_session_state c = st_open \<and> m_send_queue c \<noteq> [] \<and> m_wire c = [] \<and> Dispatch_Write_Frame \<in> set (m_pending c)"
    by (simp add: do_api_def send_payload_def send_msg_def manager_get_message_def connection_open_def Let_def push_and_dispatch_def write_push_def request_def message_new_def)
  then show ?thesis using that by blast
qed

section \<open>Properties\<close>

text \<open>
  C4. However the application, the transport and the timers interleave: a message that waits in the queue of
  an open or closing session is on its way to the transport, at most one write is outstanding, its
  completion handler never looks at an empty list, the size of the queue is the number of its payload
  bytes, and the close handler is called at most once and only after the session was closed.
\<close>

theorem connection_invariant:
  assumes "(con_step cfg ap df rng)\<^sup>*\<^sup>* (connection_open server p) c"
  shows "(m_send_queue c \<noteq> [] \<longrightarrow> m_session_state c = st_closed \<or> Dispatch_Write_Frame \<in> set (m_pending c) \<or> (\<exists>bs. Async_Write bs \<in> set (m_pending c)))
    \<and> length (filter is_write (m_pending c)) \<le> 1
    \<and> (\<forall>bs ec. Async_Write bs \<in> set (m_pending c) \<longrightarrow> (\<exists>c'. handle_write_frame ec (completed (Async_Write bs) c) = Inr c'))
    \<and> m_send_buffer_size c = payloads (m_send_queue c)
    \<and> length (filter is_end_call (m_calls c)) \<le> (if m_session_state c = st_closed then 1 else 0)"
proof -
  have i: "write_inv c" "end_inv c" using con_run_inv [OF assms connection_open_inv] by simp_all
  have "m_current_msgs c \<noteq> [] \<Longrightarrow> \<exists>bs. Async_Write bs \<in> set (m_pending c)"
    using i(1) unfolding write_inv_def by (metis filter_eq_ConsD in_set_conv_decomp)
  then have "m_send_queue c \<noteq> [] \<longrightarrow> m_session_state c = st_closed \<or> Dispatch_Write_Frame \<in> set (m_pending c) \<or> (\<exists>bs. Async_Write bs \<in> set (m_pending c))"
    using i(1) unfolding write_inv_def by blast
  then show ?thesis using i handle_write_inv(1) [OF i(1)] by (auto simp: write_inv_def end_inv_def)
qed

theorem connection_invariant_witness:
  "\<exists>c. (con_step core_config silent_app disabled (\<lambda>_. 0))\<^sup>*\<^sup>* (connection_open True (hybi13_new True 100 ())) c
     \<and> m_session_state c = st_open \<and> m_send_queue c \<noteq> []
     \<and> (Dispatch_Write_Frame \<in> set (m_pending c) \<or> (\<exists>bs. Async_Write bs \<in> set (m_pending c)))"
proof -
  obtain c where c: "do_api core_config silent_app disabled (\<lambda>_. 0) (Api_Send BINARY [1]) (connection_open True (hybi13_new True 100 ())) = Inr c"
    "m_session_state c = st_open" "m_send_queue c \<noteq> []" "m_wire c = []" by (rule one_message_queued)
  have "(con_step core_config silent_app disabled (\<lambda>_. 0))\<^sup>*\<^sup>* (connection_open True (hybi13_new True 100 ())) c" by (rule r_into_rtranclp, rule con_step.by_app, rule c(1))
  then show ?thesis using connection_invariant [of core_config silent_app disabled "\<lambda>_. 0" True "hybi13_new True 100 ()" c] c(2,3) by auto
qed

text \<open>
  C5. The bytes of the messages reach the transport in the order in which the messages were queued,
  none is lost, repeated or changed, after a terminal message nothing is written any more, and the state
  of a session never goes back.
\<close>

theorem written_in_order:
  assumes "(con_step cfg ap df rng)\<^sup>*\<^sup>* (connection_open server p) c" "(con_step cfg ap df rng)\<^sup>*\<^sup>* c c'"
  shows "prefix (m_wire c @ frame_bytes (m_send_queue c)) (m_wire c' @ frame_bytes (m_send_queue c'))
    \<and> prefix (m_wire c) (m_wire c')
    \<and> (m_current_msgs c \<noteq> [] \<and> m_terminal (last (m_current_msgs c)) \<longrightarrow> m_wire c' = m_wire c)
    \<and> state_order (m_session_state c) \<le> state_order (m_session_state c')"
proof -
  have i: "write_inv c" "end_inv c" using con_run_inv [OF assms(1) connection_open_inv] by simp_all
  have "m_current_msgs c \<noteq> [] \<and> m_terminal (last (m_current_msgs c)) \<longrightarrow> terminal_out c" using i(1) by (auto simp: terminal_out_def write_inv_def)
  then show ?thesis using con_run_inv [OF assms(2) i] terminal_out_run [OF assms(2) i] by (simp add: outgoing_def)
qed

theorem written_in_order_witness:
  "\<exists>c c'. (con_step core_config silent_app disabled (\<lambda>_. 0))\<^sup>*\<^sup>* (connection_open True (hybi13_new True 100 ())) c
     \<and> (con_step core_config silent_app disabled (\<lambda>_. 0))\<^sup>*\<^sup>* c c' \<and> m_send_queue c \<noteq> []
     \<and> prefix (frame_bytes (m_send_queue c)) (m_wire c' @ frame_bytes (m_send_queue c'))"
proof -
  obtain c where c: "do_api core_config silent_app disabled (\<lambda>_. 0) (Api_Send BINARY [1]) (connection_open True (hybi13_new True 100 ())) = Inr c"
    "m_session_state c = st_open" "m_send_queue c \<noteq> []" "m_wire c = []" "Dispatch_Write_Frame \<in> set (m_pending c)" by (rule one_message_queued)
  have 1: "(con_step core_config silent_app disabled (\<lambda>_. 0))\<^sup>*\<^sup>* (connection_open True (hybi13_new True 100 ())) c" by (rule r_into_rtranclp, rule con_step.by_app, rule c(1))
  have 2: "(con_step core_config silent_app disabled (\<lambda>_. 0))\<^sup>*\<^sup>* c (write_frame (completed Dispatch_Write_Frame c))" by (rule r_into_rtranclp, rule con_step.dispatched, rule c(5))
  show ?thesis using written_in_order [OF 1 2] 1 2 c(3,4) by (intro exI conjI) auto
qed

end
