(* ===== verification/WS_Closing.thy ===== *)
theory WS_Closing
  imports WS_Con_Run
begin

text \<open>
  Two connections with each other: the closing handshake, and what goes wrong in it. A control frame that
  one connection writes is read by the other, which acts on it.
\<close>

section \<open>Reading one control frame\<close>

lemma read_loop_control:
  assumes "legal max_size a f" "waiting (m_processor c) a" "masked = m_server (m_processor c)" "f_op f \<in> {CLOSE, PING, PONG}"
  obtains m s where "read_loop (length (wire masked f k)) cfg ap disabled rng (wire masked f k) c
      = bind_res (deliver cfg ap disabled rng (Some m) (c\<lparr>m_processor := s\<rparr>)) (\<lambda>c. Inr (True, c))"
    "m_opcode m = f_op f" "m_payload m = f_payload f" "waiting s a" "m_server s = m_server (m_processor c)"
proof -
  have off: "\<not> is_enabled disabled z" for z by (simp add: disabled_def)
  obtain m s1 s2 where r: "consume_loop disabled (m_processor c) (wire masked f k @ []) = Inr (None, s1, [])" "ready s1" "get_message s1 = Inr (Some m, s2)"
    "m_opcode m = f_op f" "m_payload m = f_payload f" "waiting s2 a" "m_server s2 = m_server (m_processor c)"
    by (rule control_frame_read [OF assms(1,2) off assms(3,4), of k "[]"])
  obtain x xs where w: "wire masked f k = x # xs" by (cases "wire masked f k") (simp_all add: wire_def prepare_header_def Let_def)
  have "consume disabled (x # xs) (m_processor c) = Inr (length (x # xs), None, s1)" using r(1) w by (simp add: consume_def)
  moreover have "read_loop n cfg ap disabled rng [] = (\<lambda>c. Inr (True, c))" for n by (rule ext) simp
  ultimately have "read_loop (length (wire masked f k)) cfg ap disabled rng (wire masked f k) c
      = bind_res (deliver cfg ap disabled rng (Some m) (c\<lparr>m_processor := s2\<rparr>)) (\<lambda>c. Inr (True, c))"
    using r(2,3) by (simp add: w)
  then show ?thesis using r by (intro that)
qed

section \<open>Writing one frame\<close>

text \<open>The transport runs the dispatched write.\<close>

definition flush :: "'z connection \<Rightarrow> 'z connection" where
  "flush c = write_frame (completed Dispatch_Write_Frame c)"

definition no_output :: "'z connection \<Rightarrow> bool" where
  "no_output c \<longleftrightarrow> m_send_queue c = [] \<and> m_send_buffer_size c = 0 \<and> m_current_msgs c = [] \<and> \<not> m_write_flag c"

text \<open>What the transport and the connection do with a queue until it was written.\<close>

definition transmit :: "'z connection \<Rightarrow> (u8 list \<times> 'z connection) res" where
  "transmit c =
    (let d = flush c; bs = drop (length (m_wire c)) (m_wire d)
     in bind_res (handle_write_frame None (completed (Async_Write bs) d)) (\<lambda>e. Inr (bs, e)))"

definition one_queued :: "message \<Rightarrow> 'z connection \<Rightarrow> bool" where
  "one_queued m c \<longleftrightarrow> m_send_queue c = [m] \<and> m_send_buffer_size c = length (m_payload m) \<and> m_current_msgs c = [] \<and> \<not> m_write_flag c"

definition same_session :: "'z connection \<Rightarrow> 'z connection \<Rightarrow> bool" where
  "same_session c d \<longleftrightarrow> m_was_clean d = m_was_clean c \<and> m_processor d = m_processor c \<and> m_is_server d = m_is_server c
     \<and> m_internal_state d = m_internal_state c \<and> m_local_close_code d = m_local_close_code c \<and> m_local_close_reason d = m_local_close_reason c
     \<and> m_remote_close_code d = m_remote_close_code c \<and> m_remote_close_reason d = m_remote_close_reason c"

lemma same_session_terminate [simp]: "same_session c (terminate None c)"
  by (cases "m_session_state c") (simp_all add: same_session_def terminate_def Let_def request_def cancel_timer_def split: option.split)

lemma same_session_trans: "same_session a b \<Longrightarrow> same_session b c \<Longrightarrow> same_session a c"
  by (simp add: same_session_def)

lemma one_queued_push: "no_output c \<Longrightarrow> one_queued m (push_and_dispatch (Some m) c)"
  by (simp add: no_output_def one_queued_def push_and_dispatch_def write_push_def request_def)

lemma one_queued_read [simp]: "one_queued m (read_frame c) = one_queued m c"
  by (simp add: one_queued_def read_frame_def request_def)

lemma transmit_one:
  assumes "one_queued m c"
  obtains d where "transmit c = Inr (m_header m @ m_payload m, d)" "same_session c d"
    "m_session_state d = (if m_terminal m then st_closed else m_session_state c)" "\<not> m_terminal m \<Longrightarrow> no_output d"
proof -
  let ?c = "completed Dispatch_Write_Frame c"
  let ?bs = "m_header m @ m_payload m"
  have q: "m_send_queue ?c = m # []" using assms by (simp add: completed_def one_queued_def)
  have "pop_ready (popped m [] ?c) = popped m [] ?c" by (rule pop_ready_Nil) (simp add: popped_def)
  then have "pop_ready ?c = popped m [] ?c" unfolding pop_ready_Cons [OF q] by simp
  then have f: "flush c = (request (Async_Write ?bs) ((popped m [] ?c)\<lparr>m_write_flag := True\<rparr>))\<lparr>m_wire := m_wire c @ ?bs\<rparr>"
    using assms by (simp add: flush_def write_frame_def one_queued_def completed_def popped_def Let_def)
  have bs: "drop (length (m_wire c)) (m_wire (flush c)) = ?bs" by (simp add: f)
  define e where "e = (completed (Async_Write ?bs) (flush c))\<lparr>m_current_msgs := []\<rparr>"
  have e: "same_session c e" "m_session_state e = m_session_state c" "m_send_queue e = []" "m_send_buffer_size e = 0" "m_current_msgs e = []"
    using assms unfolding e_def f by (simp_all add: same_session_def completed_def popped_def request_def one_queued_def)
  have "handle_write_frame None (completed (Async_Write ?bs) (flush c)) = Inr (if m_terminal m then terminate None e else e\<lparr>m_write_flag := False\<rparr>)"
    using assms e(3) unfolding e_def f by (simp add: handle_write_frame_def completed_def popped_def request_def one_queued_def Let_def)
  then have t: "transmit c = Inr (?bs, if m_terminal m then terminate None e else e\<lparr>m_write_flag := False\<rparr>)" by (simp add: transmit_def bs Let_def)
  have u: "same_session e (e\<lparr>m_write_flag := False\<rparr>)" by (simp add: same_session_def)
  show ?thesis by (rule that [OF t]) (use e same_session_trans [OF e(1) same_session_terminate] same_session_trans [OF e(1) u] in \<open>simp_all add: no_output_def\<close>)
qed

section \<open>Sending a close frame\<close>

definition close_frame :: "u16 \<Rightarrow> u8 list \<Rightarrow> frame" where
  "close_frame code reason = \<lparr>f_op = CLOSE, f_fin = True, f_payload = close_payload code reason\<rparr>"

definition sendable :: "u16 \<Rightarrow> u8 list \<Rightarrow> bool" where
  "sendable code reason \<longleftrightarrow> \<not> reserved_code code \<and> \<not> invalid_code code \<and> length reason \<le> 123"

lemma sendable_codes: "sendable code reason \<Longrightarrow> code \<noteq> blank \<and> code \<noteq> no_status"
  by (auto simp: sendable_def invalid_code_def close_codes)

lemma prepare_close_wire:
  assumes "sendable code reason"
  obtains m where "prepare_close key code reason (Some message_empty) p = (None, Some m)"
    "m_header m @ m_payload m = wire (\<not> m_server p) (close_frame code reason) key" "\<not> m_terminal m"
proof -
  have "is_control CLOSE" "length (close_payload code reason) \<le> 125" using assms by (simp_all add: is_control_iff sendable_def close_payload_def)
  from prepare_control_wire [OF this, of key message_empty p] obtain m where
    m: "prepare_control key CLOSE (close_payload code reason) (Some message_empty) p = (None, Some m)"
    "m_header m @ m_payload m = wire (\<not> m_server p) (close_frame code reason) key" "m_terminal m = m_terminal message_empty"
    by (auto simp: close_frame_def)
  have "prepare_close key code reason (Some message_empty) p = (None, Some m)"
    using assms sendable_codes [OF assms] m(1) by (simp add: prepare_close_def sendable_def close_payload_def)
  then show ?thesis using m(2,3) by (intro that) (simp_all add: message_empty_def)
qed

text \<open>The connection is closing and the frame is queued; everything else about it is as before.\<close>

definition closing_from :: "'z connection \<Rightarrow> bool \<Rightarrow> u16 \<Rightarrow> u8 list \<Rightarrow> 'z connection \<Rightarrow> bool" where
  "closing_from c ack code reason d \<longleftrightarrow> m_session_state d = st_closing \<and> m_was_clean d = (ack \<or> m_was_clean c)
     \<and> m_local_close_code d = code \<and> m_local_close_reason d = reason
     \<and> m_remote_close_code d = m_remote_close_code c \<and> m_remote_close_reason d = m_remote_close_reason c
     \<and> m_processor d = m_processor c \<and> m_is_server d = m_is_server c \<and> m_internal_state d = m_internal_state c \<and> m_read_flag d = m_read_flag c
     \<and> m_wire d = m_wire c \<and> m_send_queue d = m_send_queue c \<and> (no_output d \<longleftrightarrow> no_output c)"

lemma send_close_result:
  assumes "m_local_close_code (set_close_codes cfg code reason ack c) = code'" "m_local_close_reason (set_close_codes cfg code reason ack c) = reason'" "sendable code' reason'"
  obtains m d where "send_close_frame cfg rng code reason ack terminal c = (None, push_and_dispatch (Some m) d)"
    "m_header m @ m_payload m = wire (\<not> m_server (m_processor c)) (close_frame code' reason') (rng (m_rng c))" "m_terminal m = terminal"
    "closing_from c ack code' reason' d"
proof -
  let ?c = "set_close_codes cfg code reason ack c"
  have s: "m_processor ?c = m_processor c" "m_rng ?c = m_rng c" by (simp_all add: set_close_codes_def)
  obtain m where m: "prepare_close (rng (m_rng c)) code' reason' (Some message_empty) (m_processor c) = (None, Some m)"
    "m_header m @ m_payload m = wire (\<not> m_server (m_processor c)) (close_frame code' reason') (rng (m_rng c))" "\<not> m_terminal m"
    by (rule prepare_close_wire [OF assms(3)])
  have k: "m_local_close_code (?c\<lparr>m_rng := n\<rparr>) = code'" "m_local_close_reason (?c\<lparr>m_rng := n\<rparr>) = reason'" for n using assms(1,2) by simp_all
  have u: "closing_from c ack (m_local_close_code e) (m_local_close_reason e) (begin_closing cfg ack e)"
    if "e = ?c\<lparr>m_rng := n\<rparr>" for e n
    unfolding that by (auto simp: closing_from_def begin_closing_def set_timer_def request_def no_output_def Let_def set_close_codes_def)
  show ?thesis
  proof (rule that)
    show "send_close_frame cfg rng code reason ack terminal c
      = (None, push_and_dispatch (Some (if terminal then m\<lparr>m_terminal := True\<rparr> else m)) (begin_closing cfg ack (?c\<lparr>m_rng := m_rng c + 1\<rparr>)))"
      by (simp add: send_close_frame_def manager_get_message_def s assms(1,2) m(1) Let_def)
    show "closing_from c ack code' reason' (begin_closing cfg ack (?c\<lparr>m_rng := m_rng c + 1\<rparr>))" using u [OF refl, of "m_rng c + 1"] k by simp
  qed (use m in auto)
qed

section \<open>Receiving a close frame\<close>

text \<open>An open connection that is neither writing nor in the middle of reading a frame.\<close>

definition idle :: "'z connection \<Rightarrow> bool" where
  "idle c \<longleftrightarrow> m_session_state c = st_open \<and> m_internal_state c = PROCESS_CONNECTION \<and> no_output c \<and> \<not> m_was_clean c
     \<and> waiting (m_processor c) None \<and> m_server (m_processor c) = m_is_server c"

lemma close_frame_legal: "sendable code reason \<Longrightarrow> legal n a (close_frame code reason)"
  by (simp add: legal_def close_frame_def sendable_def close_payload_def)

lemma process_close_good:
  assumes "m_payload msg = close_payload code reason" "sendable code reason" "well_formed (map unat reason)"
  shows "process_close_frame cfg rng msg c =
    (let c = c\<lparr>m_remote_close_code := code, m_remote_close_reason := reason\<rparr> in
     if m_session_state c = st_open then Inr (snd (send_close_ack cfg rng blank [] c))
     else if m_session_state c = st_closing \<and> \<not> m_was_clean c then
       Inr (if m_is_server c then terminate None (c\<lparr>m_was_clean := True\<rparr>) else c\<lparr>m_was_clean := True\<rparr>)
     else Inr c)"
  using assms by (simp add: process_close_frame_def extract_code_payload extract_reason_payload sendable_def Let_def)

lemma read_close:
  assumes "sendable code reason" "waiting (m_processor c) a" "m_internal_state c = PROCESS_CONNECTION" "m_server (m_processor c) = m_is_server c"
    "m_session_state c \<noteq> st_closed"
  obtains msg s where "handle_read_frame cfg ap disabled rng None (wire (m_is_server c) (close_frame code reason) k) c
      = bind_res (process_close_frame cfg rng msg (c\<lparr>m_processor := s\<rparr>)) (\<lambda>c. Inr (read_frame c))"
    "m_payload msg = close_payload code reason" "waiting s a" "m_server s = m_is_server c"
proof -
  obtain m s where r: "read_loop (length (wire (m_is_server c) (close_frame code reason) k)) cfg ap disabled rng (wire (m_is_server c) (close_frame code reason) k) c
      = bind_res (deliver cfg ap disabled rng (Some m) (c\<lparr>m_processor := s\<rparr>)) (\<lambda>c. Inr (True, c))"
    "m_opcode m = f_op (close_frame code reason)" "m_payload m = f_payload (close_frame code reason)" "waiting s a" "m_server s = m_server (m_processor c)"
    by (rule read_loop_control [OF close_frame_legal [OF assms(1)] assms(2)]) (use assms(4) in \<open>simp_all add: close_frame_def\<close>)
  have op: "m_opcode m = CLOSE" using r(2) by (simp add: close_frame_def)
  have "deliver cfg ap disabled rng (Some m) (c\<lparr>m_processor := s\<rparr>) = process_close_frame cfg rng m (c\<lparr>m_processor := s\<rparr>)"
    using op assms(5) by (simp add: deliver_def process_control_frame_def is_control_iff)
  then have "handle_read_frame cfg ap disabled rng None (wire (m_is_server c) (close_frame code reason) k) c
      = bind_res (process_close_frame cfg rng m (c\<lparr>m_processor := s\<rparr>)) (\<lambda>c. Inr (read_frame c))"
    using assms(3) r(1) by (cases "process_close_frame cfg rng m (c\<lparr>m_processor := s\<rparr>)") (simp_all add: handle_read_frame_def)
  then show ?thesis using r(3-5) assms(4) by (intro that) (simp_all add: close_frame_def)
qed

lemma close_sent:
  assumes "idle c" "\<not> silent_close cfg" "sendable code reason"
  obtains d e where "close cfg rng code reason c = (None, d)" "transmit d = Inr (wire (\<not> m_is_server c) (close_frame code reason) (rng (m_rng c)), e)"
    "m_session_state e = (if terminal_code code then st_closed else st_closing)" "\<not> m_was_clean e" "m_processor e = m_processor c" "m_is_server e = m_is_server c" "m_internal_state e = PROCESS_CONNECTION"
    "m_local_close_code e = code"
proof -
  have c: "m_session_state c = st_open" "m_internal_state c = PROCESS_CONNECTION" "no_output c" "\<not> m_was_clean c" "m_server (m_processor c) = m_is_server c"
    using assms(1) by (simp_all add: idle_def)
  have k: "m_local_close_code (set_close_codes cfg code reason False c) = code" "m_local_close_reason (set_close_codes cfg code reason False c) = reason"
    using assms(2) sendable_codes [OF assms(3)] by (simp_all add: set_close_codes_def)
  obtain m d where s: "send_close_frame cfg rng code reason False (terminal_code code) c = (None, push_and_dispatch (Some m) d)"
    "m_header m @ m_payload m = wire (\<not> m_is_server c) (close_frame code reason) (rng (m_rng c))" "m_terminal m = terminal_code code"
    "closing_from c False code reason d"
    by (rule send_close_result [OF k assms(3), of rng "terminal_code code"]) (use c(5) in simp)
  have p: "m_session_state (push_and_dispatch (Some m) d) = m_session_state d" "same_session d (push_and_dispatch (Some m) d)"
    by (simp_all add: push_and_dispatch_def write_push_def request_def Let_def same_session_def)
  have "one_queued m (push_and_dispatch (Some m) d)" using s(4) c(3) by (intro one_queued_push) (simp add: closing_from_def)
  then obtain e where e: "transmit (push_and_dispatch (Some m) d) = Inr (m_header m @ m_payload m, e)" "same_session (push_and_dispatch (Some m) d) e"
    "m_session_state e = (if terminal_code code then st_closed else m_session_state d)"
    using transmit_one [of m "push_and_dispatch (Some m) d"] s(3) p(1) by metis
  have "length reason \<le> 123" using assms(3) by (simp add: sendable_def)
  then have h: "close cfg rng code reason c = (None, push_and_dispatch (Some m) d)" using c(1) s(1) by (simp add: close_def)
  show ?thesis by (rule that [OF h e(1) [unfolded s(2)]])
      (use e(3) s(4) c same_session_trans [OF p(2) e(2)] in \<open>simp_all add: closing_from_def same_session_def\<close>)
qed

lemma close_answered:
  assumes "idle c" "\<not> silent_close cfg" "sendable code reason" "well_formed (map unat reason)"
  obtains d e where "handle_read_frame cfg ap disabled rng None (wire (m_is_server c) (close_frame code reason) k) c = Inr d"
    "transmit d = Inr (wire (\<not> m_is_server c) (close_frame code reason) (rng (m_rng c)), e)"
    "m_session_state e = (if m_is_server c then st_closed else st_closing)" "m_was_clean e" "m_remote_close_code e = code" "m_remote_close_reason e = reason"
    "m_local_close_code e = code" "m_local_close_reason e = reason"
proof -
  have c: "m_session_state c = st_open" "m_internal_state c = PROCESS_CONNECTION" "no_output c" "waiting (m_processor c) None" "m_server (m_processor c) = m_is_server c"
    using assms(1) by (simp_all add: idle_def)
  obtain msg s where r: "handle_read_frame cfg ap disabled rng None (wire (m_is_server c) (close_frame code reason) k) c
      = bind_res (process_close_frame cfg rng msg (c\<lparr>m_processor := s\<rparr>)) (\<lambda>c. Inr (read_frame c))"
    "m_payload msg = close_payload code reason" "waiting s None" "m_server s = m_is_server c"
    by (rule read_close [OF assms(3) c(4,2,5)]) (use c(1) in simp)
  let ?c = "c\<lparr>m_processor := s, m_remote_close_code := code, m_remote_close_reason := reason\<rparr>"
  have k: "m_local_close_code (set_close_codes cfg blank [] True ?c) = code" "m_local_close_reason (set_close_codes cfg blank [] True ?c) = reason"
    using assms(2) sendable_codes [OF assms(3)] by (simp_all add: set_close_codes_def)
  obtain m d where s: "send_close_frame cfg rng blank [] True (m_is_server c) ?c = (None, push_and_dispatch (Some m) d)"
    "m_header m @ m_payload m = wire (\<not> m_is_server c) (close_frame code reason) (rng (m_rng c))" "m_terminal m = m_is_server c" "closing_from ?c True code reason d"
    by (rule send_close_result [OF k assms(3), of rng "m_is_server c"]) (use r(4) in simp)
  let ?d = "read_frame (push_and_dispatch (Some m) d)"
  have h: "handle_read_frame cfg ap disabled rng None (wire (m_is_server c) (close_frame code reason) k) c = Inr ?d"
    unfolding r(1) process_close_good [OF r(2) assms(3,4)] using c(1) s(1) by (simp add: send_close_ack_def)
  have p: "m_session_state ?d = m_session_state d" "same_session d ?d"
    by (simp_all add: push_and_dispatch_def write_push_def request_def Let_def same_session_def read_frame_def)
  have "no_output d" using s(4) c(3) by (simp add: closing_from_def no_output_def)
  then have q: "one_queued m ?d" by (simp add: one_queued_push)
  obtain e where e: "transmit ?d = Inr (m_header m @ m_payload m, e)" "same_session ?d e"
    "m_session_state e = (if m_terminal m then st_closed else m_session_state ?d)" using transmit_one [OF q] by metis
  show ?thesis by (rule that [OF h e(1) [unfolded s(2)]])
      (use e(3) s(3,4) p(1) same_session_trans [OF p(2) e(2)] in \<open>simp_all add: closing_from_def same_session_def\<close>)
qed

lemma answer_received:
  assumes "m_session_state c = st_closing" "\<not> m_was_clean c" "m_internal_state c = PROCESS_CONNECTION" "waiting (m_processor c) a" "m_server (m_processor c) = m_is_server c"
    "sendable code reason" "well_formed (map unat reason)"
  obtains d where "handle_read_frame cfg ap disabled rng None (wire (m_is_server c) (close_frame code reason) k) c = Inr d"
    "m_session_state d = (if m_is_server c then st_closed else st_closing)" "m_was_clean d" "m_remote_close_code d = code" "m_remote_close_reason d = reason"
    "m_local_close_code d = m_local_close_code c" "m_is_server d = m_is_server c"
proof -
  obtain msg s where r: "handle_read_frame cfg ap disabled rng None (wire (m_is_server c) (close_frame code reason) k) c
      = bind_res (process_close_frame cfg rng msg (c\<lparr>m_processor := s\<rparr>)) (\<lambda>c. Inr (read_frame c))" "m_payload msg = close_payload code reason"
    by (rule read_close [OF assms(6,4,3,5)]) (use assms(1) in simp_all)
  let ?c = "c\<lparr>m_processor := s, m_remote_close_code := code, m_remote_close_reason := reason, m_was_clean := True\<rparr>"
  let ?d = "read_frame (if m_is_server c then terminate None ?c else ?c)"
  have h: "handle_read_frame cfg ap disabled rng None (wire (m_is_server c) (close_frame code reason) k) c = Inr ?d"
    unfolding r(1) process_close_good [OF r(2) assms(6,7)] using assms(1,2) by simp
  have "same_session ?c (terminate None ?c)" by simp
  then show ?thesis using assms(1) by (intro that [OF h]) (simp_all add: read_frame_def request_def same_session_def)
qed

lemma open_idle: "idle (connection_open server (hybi13_new server max_size ()))"
  by (simp add: idle_def connection_open_def no_output_def waiting_new)

section \<open>Properties\<close>

text \<open>
  C6. The closing handshake between a server and a client, both idle: when one side is closed with a code
  that may be sent (neither reserved nor invalid), a reason in UTF-8 of at most 123 bytes, and the
  configuration does not hide it (\<open>silent_close\<close>), its close frame makes the other side answer with the
  same code and reason; the other side then knows both, was closed cleanly, and has closed the connection
  if it is the server. After one of the codes that end a connection at once (1002, 1007, 1008, 1009, 1011)
  the closing side is closed as soon as its frame is written, and not cleanly. After any other code it
  reads the answer, knows the code and the reason and was closed cleanly too; it has then closed the
  connection if it is the server, and as a client closes it when it reads the end of the stream.
\<close>

theorem closing_handshake:
  assumes "idle a" "idle b" "m_is_server b \<longleftrightarrow> \<not> m_is_server a" "\<not> silent_close cfg"
    "sendable code reason" "well_formed (map unat reason)"
  shows "\<exists>a1 bytes a2 b1 ack b2. close cfg ka code reason a = (None, a1) \<and> transmit a1 = Inr (bytes, a2)
    \<and> handle_read_frame cfg ap disabled kb None bytes b = Inr b1 \<and> transmit b1 = Inr (ack, b2)
    \<and> m_remote_close_code b2 = code \<and> m_remote_close_reason b2 = reason \<and> m_local_close_code b2 = code \<and> m_was_clean b2
    \<and> m_session_state b2 = (if m_is_server b then st_closed else st_closing)
    \<and> (if terminal_code code then m_session_state a2 = st_closed \<and> \<not> m_was_clean a2
       else \<exists>a3 a4. handle_read_frame cfg ap disabled ka None ack a2 = Inr a3
         \<and> m_remote_close_code a3 = code \<and> m_remote_close_reason a3 = reason \<and> m_local_close_code a3 = code \<and> m_was_clean a3
         \<and> m_session_state a3 = (if m_is_server a then st_closed else st_closing)
         \<and> handle_read_frame cfg ap disabled ka (Some (Transport t_eof)) [] a3 = Inr a4 \<and> m_session_state a4 = st_closed)"
proof -
  obtain a1 a2 where 1: "close cfg ka code reason a = (None, a1)" "transmit a1 = Inr (wire (\<not> m_is_server a) (close_frame code reason) (ka (m_rng a)), a2)"
    "m_session_state a2 = (if terminal_code code then st_closed else st_closing)" "\<not> m_was_clean a2" "m_processor a2 = m_processor a" "m_is_server a2 = m_is_server a"
    "m_internal_state a2 = PROCESS_CONNECTION" "m_local_close_code a2 = code" by (rule close_sent [OF assms(1,4,5)])
  have sides: "(\<not> m_is_server a) = m_is_server b" "(\<not> m_is_server b) = m_is_server a2" using assms(3) 1(6) by simp_all
  obtain b1 b2 where 2: "handle_read_frame cfg ap disabled kb None (wire (m_is_server b) (close_frame code reason) (ka (m_rng a))) b = Inr b1"
    "transmit b1 = Inr (wire (\<not> m_is_server b) (close_frame code reason) (kb (m_rng b)), b2)"
    "m_session_state b2 = (if m_is_server b then st_closed else st_closing)" "m_was_clean b2" "m_remote_close_code b2 = code" "m_remote_close_reason b2 = reason"
    "m_local_close_code b2 = code" by (rule close_answered [OF assms(2,4,5,6)])
  have w: "waiting (m_processor a2) None" "m_server (m_processor a2) = m_is_server a2" using assms(1) 1(5,6) by (simp_all add: idle_def)
  have 3: "\<exists>a3 a4. handle_read_frame cfg ap disabled ka None (wire (m_is_server a2) (close_frame code reason) (kb (m_rng b))) a2 = Inr a3
    \<and> m_remote_close_code a3 = code \<and> m_remote_close_reason a3 = reason \<and> m_local_close_code a3 = code \<and> m_was_clean a3
    \<and> m_session_state a3 = (if m_is_server a then st_closed else st_closing)
    \<and> handle_read_frame cfg ap disabled ka (Some (Transport t_eof)) [] a3 = Inr a4 \<and> m_session_state a4 = st_closed" if "\<not> terminal_code code"
  proof -
    have s: "m_session_state a2 = st_closing" using 1(3) that by simp
    obtain a3 where 3: "handle_read_frame cfg ap disabled ka None (wire (m_is_server a2) (close_frame code reason) (kb (m_rng b))) a2 = Inr a3"
      "m_session_state a3 = (if m_is_server a2 then st_closed else st_closing)" "m_was_clean a3" "m_remote_close_code a3 = code" "m_remote_close_reason a3 = reason"
      "m_local_close_code a3 = m_local_close_code a2" "m_is_server a3 = m_is_server a2" by (rule answer_received [OF s 1(4,7) w assms(5,6)])
    have "\<exists>a4. handle_read_frame cfg ap disabled ka (Some (Transport t_eof)) [] a3 = Inr a4 \<and> m_session_state a4 = st_closed"
      using 3(2,7) by (cases "m_is_server a2") (simp_all add: handle_read_frame_def)
    then show ?thesis using 1(6,8) 3 by auto
  qed
  show ?thesis using 1 2 3 by (intro exI [of _ a1] exI [of _ "wire (m_is_server b) (close_frame code reason) (ka (m_rng a))"] exI [of _ a2] exI [of _ b1]
        exI [of _ "wire (m_is_server a2) (close_frame code reason) (kb (m_rng b))"] exI [of _ b2]) (simp add: sides)
qed

theorem closing_handshake_witness:
  "\<exists>a1 bytes a2 b1 ack b2 a3. close core_config (\<lambda>_. 7) normal [104, 105] (connection_open False (hybi13_new False 100 ())) = (None, a1) \<and> transmit a1 = Inr (bytes, a2)
    \<and> handle_read_frame core_config silent_app disabled (\<lambda>_. 9) None bytes (connection_open True (hybi13_new True 100 ())) = Inr b1 \<and> transmit b1 = Inr (ack, b2)
    \<and> handle_read_frame core_config silent_app disabled (\<lambda>_. 7) None ack a2 = Inr a3
    \<and> m_remote_close_code b2 = normal \<and> m_remote_close_reason a3 = [104, 105] \<and> m_session_state b2 = st_closed \<and> m_session_state a3 = st_closing"
proof -
  let ?a = "connection_open False (hybi13_new False 100 ())" and ?b = "connection_open True (hybi13_new True 100 ())"
  have r: "m_is_server ?a = False" "m_is_server ?b = True" by (simp_all add: connection_open_def)
  have "validate [104, 105] = Inr True" by code_simp
  then have w: "well_formed (map unat [104 :: u8, 105])" by (simp add: validate_well_formed)
  have c: "\<not> silent_close core_config" "sendable normal [104, 105]" and t: "\<not> terminal_code normal"
    by (simp_all add: core_config_def sendable_def reserved_code_def invalid_code_def terminal_code_def close_codes)
  from closing_handshake [OF open_idle [of False 100] open_idle [of True 100] _ c w, of "\<lambda>_. 7" silent_app "\<lambda>_. 9"]
  show ?thesis using r t by simp blast
qed

text \<open>
  C40. A connection that has sent its close frame and receives a close frame with an invalid code, such as
  the answer of a faulty peer, queues a second close frame, although no frame may follow a close frame.
\<close>

theorem second_close_frame:
  assumes "m_session_state c = st_closing" "extract_code (m_payload msg) = (code, Some e)" "m_opcode msg = CLOSE"
    "\<not> drop_on_protocol_error cfg" "\<not> silent_close cfg"
  shows "\<exists>m c'. process_control_frame cfg ap df rng msg c = Inr c' \<and> m_send_queue c' = m_send_queue c @ [m] \<and> m_session_state c' = st_closing
    \<and> m_header m @ m_payload m = wire (\<not> m_server (m_processor c)) (close_frame protocol_error (string_bytes ''Invalid close code'')) (rng (m_rng c))"
proof -
  let ?c = "c\<lparr>m_remote_close_code := code\<rparr>" and ?r = "string_bytes ''Invalid close code''"
  have k: "m_local_close_code (set_close_codes cfg protocol_error ?r True ?c) = protocol_error" "m_local_close_reason (set_close_codes cfg protocol_error ?r True ?c) = ?r"
    using assms(5) by (simp_all add: set_close_codes_def close_codes)
  have s: "sendable protocol_error ?r" by (simp add: sendable_def reserved_code_def invalid_code_def close_codes string_bytes_def)
  obtain m d where d: "send_close_frame cfg rng protocol_error ?r True (m_is_server c) ?c = (None, push_and_dispatch (Some m) d)"
    "m_header m @ m_payload m = wire (\<not> m_server (m_processor c)) (close_frame protocol_error ?r) (rng (m_rng c))" "closing_from ?c True protocol_error ?r d"
    by (rule send_close_result [OF k s, of rng "m_is_server c"]) simp
  have q: "m_send_queue d = m_send_queue c" using d(3) by (simp add: closing_from_def)
  have "process_control_frame cfg ap df rng msg c = Inr (push_and_dispatch (Some m) d)"
    using assms d(1) by (simp add: process_control_frame_def process_close_frame_def send_close_ack_def Let_def)
  then show ?thesis using d(2,3) q by (intro exI [of _ m] exI [of _ "push_and_dispatch (Some m) d"])
      (simp add: push_and_dispatch_def write_push_def request_def Let_def closing_from_def)
qed

theorem second_close_frame_witness:
  "\<exists>m c'. process_control_frame core_config silent_app disabled (\<lambda>_. 7) ((message_new CLOSE)\<lparr>m_payload := [3]\<rparr>)
      ((connection_open True (hybi13_new True 100 ()))\<lparr>m_session_state := st_closing\<rparr>) = Inr c' \<and> m_send_queue c' = [m]
    \<and> m_header m @ m_payload m = wire False (close_frame protocol_error (string_bytes ''Invalid close code'')) 7"
proof -
  let ?c = "(connection_open True (hybi13_new True 100 ()))\<lparr>m_session_state := st_closing\<rparr>"
  have "m_session_state ?c = st_closing" "extract_code (m_payload ((message_new CLOSE)\<lparr>m_payload := [3]\<rparr>)) = (protocol_error, Some (Lib bad_close_code))"
    "m_opcode ((message_new CLOSE)\<lparr>m_payload := [3]\<rparr>) = CLOSE" "\<not> drop_on_protocol_error core_config" "\<not> silent_close core_config"
    by (simp_all add: extract_code_def message_new_def core_config_def)
  from second_close_frame [OF this, of silent_app disabled "\<lambda>_. 7"] show ?thesis by (simp add: connection_open_def) blast
qed

end
