(* ===== verification/WS_Con_Safe.thy ===== *)
theory WS_Con_Safe
  imports WS_Closing
begin

text \<open>
  Reading on a connection returns: whatever bytes arrive and whatever the handlers of the application do,
  the reading loop of \<open>handle_read_frame\<close> ends after at most as many rounds as there are bytes, without a
  fault, and unless it found an error the frame processor is ready to read on.
\<close>

section \<open>Progress\<close>

text \<open>A processor in the middle of reading.\<close>

definition reading :: "'z hybi13 \<Rightarrow> bool" where
  "reading p \<longleftrightarrow> safe p \<and> \<not> ready p \<and> m_bytes_needed p \<noteq> 0"

lemma round_length:
  assumes "consume_round df s buf = Inr (ec, s', buf')"
  shows "length buf' \<le> length buf"
proof (cases "m_hstate s")
  case HEADER_BASIC
  obtain b t where c: "copy_basic_header_bytes buf s = (b, t)" by fastforce
  then show ?thesis using assms HEADER_BASIC copy_basic_progress(1) [OF c] by (auto simp: consume_round_def split: if_splits option.splits)
next
  case HEADER_EXTENDED
  then show ?thesis using assms by (auto simp: consume_round_def copy_extended_header_bytes_def Let_def bind_res_eq_Inr_iff split: if_splits option.splits)
next
  case APPLICATION
  then show ?thesis using assms by (auto simp: consume_round_def Let_def bind_res_eq_Inr_iff split: if_splits option.splits)
qed (use assms in \<open>auto simp: consume_round_def\<close>)

lemma loop_length: "consume_loop df s buf = Inr (ec, s', rest) \<Longrightarrow> length rest \<le> length buf"
proof (induction df s buf rule: consume_loop.induct)
  case (1 df s buf)
  show ?case
  proof (cases "consuming s buf")
    case True
    show ?thesis
    proof (cases "consume_round df s buf" rule: outcome_cases)
      case (Fine x)
      obtain s1 b1 where x: "x = (s1, b1)" by fastforce
      have "length rest \<le> length b1" using "1.IH" [OF True Fine [unfolded x] refl refl refl] "1.prems" unfolding consume_loop_unfold [OF True] Fine x by simp
      then show ?thesis using round_length [OF Fine [unfolded x]] by simp
    next
      case (Error e x)
      then show ?thesis using "1.prems" True by (cases x) (auto simp: consume_loop_unfold dest: round_length)
    qed (use True "1.prems" in \<open>simp add: consume_loop_unfold\<close>)
  qed (use "1.prems" in \<open>simp add: consume_loop_stop\<close>)
qed

lemma round_reads:
  assumes "reading s" "buf \<noteq> []" "consume_round df s buf = Inr (None, s', buf')"
  shows "length buf' < length buf"
proof -
  have n: "m_bytes_needed s \<noteq> 0" "0 < unat (m_bytes_needed s)" using assms(1) by (simp_all add: reading_def unat_gt_0)
  show ?thesis
  proof (cases "m_hstate s")
    case HEADER_BASIC
    obtain b t where c: "copy_basic_header_bytes buf s = (b, t)" by fastforce
    then show ?thesis using assms(3) HEADER_BASIC copy_basic_progress(2) [OF c n(1) assms(2)] by (auto simp: consume_round_def split: if_splits option.splits)
  next
    case HEADER_EXTENDED
    then show ?thesis using assms(2,3) n by (auto simp: consume_round_def copy_extended_header_bytes_def Let_def bind_res_eq_Inr_iff split: if_splits option.splits)
  next
    case APPLICATION
    then show ?thesis using assms(2,3) n by (auto simp: consume_round_def Let_def bind_res_eq_Inr_iff split: if_splits option.splits)
  qed (use assms(1) in \<open>simp_all add: reading_def safe_def ready_def\<close>)
qed

lemma consume_reads:
  assumes "reading s" "buf \<noteq> []"
  obtains n ec s' where "consume df buf s = Inr (n, ec, s')" "0 < n \<or> ec \<noteq> None" "ec = None \<longrightarrow> safe s' \<and> (\<not> ready s' \<longrightarrow> reading s' \<and> drop n buf = [])"
proof -
  have "m_hstate s \<noteq> READY" "m_hstate s \<noteq> FATAL_ERROR" using assms(1) by (auto simp: reading_def safe_def ready_def)
  then have c: "consuming s buf" using assms(2) by (simp add: consuming_def)
  have s: "safe s" using assms(1) by (simp add: reading_def)
  obtain ec s' rest where l: "consume_loop df s buf = Inr (ec, s', rest)" "ec = None \<longrightarrow> safe s'" using consume_loop_safe [OF s] by blast
  then have k: "consume df buf s = Inr (length buf - length rest, ec, s')" by (simp add: consume_def)
  show ?thesis
  proof (cases ec)
    case None
    obtain s1 b1 where r: "consume_round df s buf = Inr (None, s1, b1)" using l(1) None
      by (cases "consume_round df s buf" rule: outcome_cases) (auto simp: consume_loop_unfold [OF c])
    then have "consume_loop df s1 b1 = Inr (None, s', rest)" using l(1) None by (simp add: consume_loop_unfold [OF c])
    then have len: "length rest < length buf" using loop_length round_reads [OF assms r] by fastforce
    have "\<not> ready s' \<longrightarrow> reading s' \<and> rest = []"
      using consume_loop_done l None by (fastforce simp: consuming_def reading_def ready_def safe_def split: hstate.splits)
    moreover have "rest = [] \<Longrightarrow> drop (length buf - length rest) buf = []" by simp
    ultimately show ?thesis using that [OF k] len l(2) None by auto
  qed (use that [OF k] in simp)
qed

section \<open>The application and the processor\<close>

text \<open>Sending changes nothing of the processor but the state of the compression.\<close>

definition same_reader :: "'z hybi13 \<Rightarrow> 'z hybi13 \<Rightarrow> bool" where
  "same_reader p p' \<longleftrightarrow> (\<exists>z. p' = p\<lparr>m_permessage_deflate := z\<rparr>)"

lemma same_reader_refl [simp]: "same_reader p p"
proof -
  have "p = p\<lparr>m_permessage_deflate := m_permessage_deflate p\<rparr>" by (cases p) simp
  then show ?thesis unfolding same_reader_def by blast
qed

lemma same_reader_trans: "same_reader p q \<Longrightarrow> same_reader q r \<Longrightarrow> same_reader p r"
  by (auto simp: same_reader_def)

lemma same_reader_reading: "same_reader p p' \<Longrightarrow> reading p \<Longrightarrow> reading p'"
  by (auto simp: same_reader_def reading_def safe_def ready_def split: hstate.splits)

lemma processor_kept [simp]:
  "m_processor (request x c) = m_processor c" "m_processor (push_and_dispatch m c) = m_processor c" "m_processor (cancel_timer t c) = m_processor c"
  "m_processor (start_ping_timer cfg ap payload c) = m_processor c" "m_processor (begin_closing cfg ack c) = m_processor c"
  "m_processor (set_close_codes cfg code reason ack c) = m_processor c"
  by (auto simp: request_def push_and_dispatch_def write_push_def cancel_timer_def start_ping_timer_def set_timer_def begin_closing_def set_close_codes_def Let_def
      split: option.split)

lemma processor_sending [simp]:
  "m_processor (snd (ping cfg ap rng payload c)) = m_processor c" "m_processor (snd (pong rng payload c)) = m_processor c"
  "m_processor (snd (send_close_frame cfg rng code reason ack terminal c)) = m_processor c"
  by (auto simp: ping_def pong_def send_close_frame_def manager_get_message_def Let_def split: option.split prod.split)

lemma processor_closing [simp]:
  "m_processor (snd (close cfg rng code reason c)) = m_processor c" "m_processor (snd (send_close_ack cfg rng code reason c)) = m_processor c"
  by (simp_all add: close_def send_close_ack_def Let_def)

lemma prepare_data_returns: "\<exists>ec o' p'. prepare_data_frame df key i out p = Inr (ec, o', p') \<and> same_reader p p'"
proof -
  have z: "same_reader p (p\<lparr>m_permessage_deflate := z\<rparr>)" for z unfolding same_reader_def by blast
  show ?thesis
    by (cases i; cases out) (auto simp: prepare_data_frame_def Let_def validate_well_formed z split: prod.split)
qed

lemma send_msg_returns: "\<exists>ec c'. send_msg df rng msg c = Inr (ec, c') \<and> same_reader (m_processor c) (m_processor c')"
proof -
  obtain ec o' p' where "prepare_data_frame df (rng (m_rng c)) (Some msg) (Some message_empty) (m_processor c) = Inr (ec, o', p')" "same_reader (m_processor c) p'"
    using prepare_data_returns by blast
  then show ?thesis by (cases ec) (auto simp: send_msg_def manager_get_message_def Let_def)
qed

lemma do_api_returns: "\<exists>c'. do_api cfg ap df rng x c = Inr c' \<and> same_reader (m_processor c) (m_processor c')"
proof (cases x)
  case (Api_Send op payload)
  let ?m = "(message_new op)\<lparr>m_payload := m_payload (message_new op) @ payload, m_compressed := True\<rparr>"
  show ?thesis using send_msg_returns [of df rng ?m c] by (auto simp: Api_Send do_api_def send_payload_def Let_def)
qed (simp_all add: do_api_def pause_reading_def resume_reading_def)

lemma do_apis_returns: "\<exists>c'. do_apis cfg ap df rng xs c = Inr c' \<and> same_reader (m_processor c) (m_processor c')"
proof (induction xs arbitrary: c)
  case (Cons x xs)
  obtain d where d: "do_api cfg ap df rng x c = Inr d" "same_reader (m_processor c) (m_processor d)" using do_api_returns by blast
  obtain e where "do_apis cfg ap df rng xs d = Inr e" "same_reader (m_processor d) (m_processor e)" using Cons.IH by blast
  then show ?case using d same_reader_trans by auto
qed simp

lemma call_returns: "\<exists>a c'. call_handler cfg ap df rng k x c = Inr (a, c') \<and> same_reader (m_processor c) (m_processor c')"
proof -
  obtain a xs where r: "react ap (m_calls c) x = (a, xs)" by fastforce
  obtain d where "do_apis cfg ap df rng xs (c\<lparr>m_calls := m_calls c @ [x]\<rparr>) = Inr d" "same_reader (m_processor c) (m_processor d)"
    using do_apis_returns [of cfg ap df rng xs "c\<lparr>m_calls := m_calls c @ [x]\<rparr>"] by auto
  then show ?thesis by (auto simp: call_handler_def r)
qed

lemma process_close_returns: "\<exists>c'. process_close_frame cfg rng msg c = Inr c' \<and> m_processor c' = m_processor c"
proof -
  obtain code ec where e: "extract_code (m_payload msg) = (code, ec)" by fastforce
  obtain reason ec' where r: "extract_reason (m_payload msg) = Inr (reason, ec')" by (auto simp: extract_reason_def validate_well_formed Let_def)
  show ?thesis by (simp add: process_close_frame_def e r Let_def)
qed

lemma control_returns: "\<exists>c'. process_control_frame cfg ap df rng msg c = Inr c' \<and> same_reader (m_processor c) (m_processor c')"
proof -
  obtain a d where p: "call_handler cfg ap df rng K_Ping (Call_Ping (m_payload msg)) c = Inr (a, d)" "same_reader (m_processor c) (m_processor d)" using call_returns by blast
  obtain b e where q: "call_handler cfg ap df rng K_Pong (Call_Pong (m_payload msg)) c = Inr (b, e)" "same_reader (m_processor c) (m_processor e)" using call_returns by blast
  show ?thesis using p q process_close_returns [of cfg rng msg c]
    by (auto simp: process_control_frame_def Let_def split: option.split)
qed

lemma deliver_returns: "\<exists>c'. deliver cfg ap df rng msg c = Inr c' \<and> same_reader (m_processor c) (m_processor c')"
proof (cases msg)
  case (Some m)
  obtain a d where "call_handler cfg ap df rng K_Message (Call_Message m) c = Inr (a, d)" "same_reader (m_processor c) (m_processor d)" using call_returns by blast
  then show ?thesis using control_returns [of cfg ap df rng m c] by (simp add: deliver_def Some)
qed (simp add: deliver_def)

section \<open>The loop\<close>

lemma get_message_reading: "safe p \<Longrightarrow> ready p \<Longrightarrow> \<exists>m p'. get_message p = Inr (m, p') \<and> reading p'"
proof -
  assume p: "safe p" "ready p"
  obtain m p' where g: "get_message p = Inr (Some m, p')" "safe p'" using get_message_safe [OF p] by blast
  then have "m_hstate p' = HEADER_BASIC \<and> m_bytes_needed p' = 2" using p(2) by (auto simp: get_message_def bind_res_eq_Inr_iff reset_headers_def Let_def)
  then show ?thesis using g by (simp add: reading_def ready_def)
qed

lemma read_loop_returns:
  assumes "length buf \<le> n" "reading (m_processor c)"
  shows "\<exists>all c'. read_loop n cfg ap df rng buf c = Inr (all, c') \<and> (all \<longrightarrow> reading (m_processor c'))"
  using assms
proof (induction n arbitrary: buf c)
  case 0
  then show ?case by auto
next
  case (Suc n)
  show ?case
  proof (cases buf)
    case Nil
    then show ?thesis using Suc.prems by auto
  next
    case (Cons b bs)
    obtain p ec pr where k: "consume df (b # bs) (m_processor c) = Inr (p, ec, pr)" "0 < p \<or> ec \<noteq> None"
      "ec = None \<longrightarrow> safe pr \<and> (\<not> ready pr \<longrightarrow> reading pr \<and> drop p (b # bs) = [])"
      by (rule consume_reads [OF Suc.prems(2) list.distinct(2) [of b bs], of df])
    show ?thesis
    proof (cases ec)
      case None
      have len: "length (drop p (b # bs)) \<le> n" using k(2) None Suc.prems(1) Cons by simp
      show ?thesis
      proof (cases "ready pr")
        case True
        obtain m pr' where g: "get_message pr = Inr (m, pr')" "reading pr'" using get_message_reading [OF _ True] k(3) None by blast
        obtain d where d: "deliver cfg ap df rng m (c\<lparr>m_processor := pr'\<rparr>) = Inr d" "same_reader pr' (m_processor d)"
          using deliver_returns [of cfg ap df rng m "c\<lparr>m_processor := pr'\<rparr>"] by auto
        show ?thesis using Suc.IH [OF len same_reader_reading [OF d(2) g(2)]] k(1) None True g(1) d(1) Cons by simp
      next
        case False
        then have "reading pr" using k(3) None by simp
        then show ?thesis using Suc.IH [OF len, of "c\<lparr>m_processor := pr\<rparr>"] k(1) None False Cons by simp
      qed
    qed (use k(1) Cons in auto)
  qed
qed

lemma new_reading: "reading (hybi13_new server max_size z)"
  using new_safe [of server max_size z] by (simp add: reading_def hybi13_new_def reset_headers_def ready_def)

section \<open>Property\<close>

text \<open>
  C8. Take a connection that processes frames and is in the middle of reading: its processor is
  consistent and wants more bytes, which is so for a new one and, by this theorem, after each read that
  found no error. Whatever arrives there, and whatever the application's handlers do in reply, the handler
  of the read returns without a fault; its loop needs no more rounds than bytes were read, and if it went
  through all bytes, so that the next read is asked for, the connection is in the middle of reading again.
  Nothing is claimed of a read after an error: the connection asks for none, but an application that
  paused and resumed reading may have left one outstanding.
\<close>

theorem reading_returns:
  assumes "reading (m_processor c)" "m_internal_state c = PROCESS_CONNECTION"
  shows "\<exists>all c' c''. read_loop (length buf) cfg ap df rng buf c = Inr (all, c') \<and> (all \<longrightarrow> reading (m_processor c'))
    \<and> handle_read_frame cfg ap df rng None buf c = Inr c'' \<and> c'' = (if all then read_frame c' else c')"
proof -
  obtain all c' where "read_loop (length buf) cfg ap df rng buf c = Inr (all, c')" "all \<longrightarrow> reading (m_processor c')"
    using read_loop_returns [OF order_refl assms(1)] by blast
  then show ?thesis using assms(2) by (simp add: handle_read_frame_def)
qed

theorem reading_returns_witness:
  "\<exists>c'. handle_read_frame core_config silent_app disabled (\<lambda>_. 7) None [0x81, 0xFF, 3] (connection_open True (hybi13_new True 100 ())) = Inr c'"
proof -
  have "reading (m_processor (connection_open True (hybi13_new True 100 ())))" "m_internal_state (connection_open True (hybi13_new True 100 ())) = PROCESS_CONNECTION"
    by (simp_all add: connection_open_def new_reading)
  from reading_returns [OF this, of "[0x81, 0xFF, 3]" core_config silent_app disabled "\<lambda>_. 7"] show ?thesis by blast
qed

end
