(* ===== verification/Spec2Isabelle.thy ===== *)
theory Spec2Isabelle
  imports Reactor_Echo_Loop Reactor_Pool Gobang_Server AVL_Tree Ordered_Map Word_Count WS_Base64 WS_Con_Safe
begin

text \<open>
  A verification development for the programs of this repository: the reactor network library and its
  echo server (\<open>Reactor_http\<close>), the gobang game server (\<open>game\<close>), the containers of \<open>Algorithm\<close>, and the
  WebSocket library \<open>websocketpp-master\<close>, on which the game server runs.

  \<^bold>\<open>Conventions.\<close> Operations are functions on records that return the new state. The type \<open>'a res\<close> of
  \<open>Prelude\<close> is \<open>fault + 'a\<close>: a fault is behaviour C++ leaves undefined, a failed assertion, an exception or
  fuel that ran out, and \<open>bind_res\<close> composes such operations. Errors the code returns are values. Integers
  that may wrap around are words; objects reached by pointers live in stores from addresses to objects, so
  that sharing, freeing and use after freeing are visible. Whatever is not in the repository (sockets,
  epoll, MySQL, JSON, the WebSocket transport, random numbers, zlib) is an argument or a trace of what it
  returns.

  \<^bold>\<open>Reactor\<close> (\<open>Reactor_http/source\<close>). \<open>Reactor_Buffer\<close>: class \<open>Buffer\<close> and the driver \<open>main.cc\<close>; the buffer
  refines a queue of bytes. \<open>Reactor_Timer\<close>: \<open>TimerTask\<close>, \<open>TimerWheel\<close>; the wheel refines a set of alarms
  and every timer runs at its tick, for fresh ids and timeouts of 1 to 60. \<open>Reactor_Server\<close>: sockets, \<open>Channel\<close>, \<open>Poller\<close>, the event loop's queue
  of tasks. \<open>Reactor_Echo\<close>: \<open>Connection\<close>, \<open>Acceptor\<close>, \<open>TcpServer\<close> and the callbacks of \<open>echo.hpp\<close>.
  \<open>Reactor_Echo_Loop\<close>: the loop as a step relation over the batches of events \<open>epoll_wait\<close> returns, the
  invariant of its reachable states, answers and the release of idle connections; and what the server does
  not survive: a failed read on an idle connection, an event of a connection dropped earlier in the same
  batch, and a request that the log line of \<open>OnMessage\<close> reads past its end. \<open>Reactor_Pool\<close>: \<open>Any\<close> and
  \<open>LoopThreadPool\<close>.

  \<^bold>\<open>Gobang\<close> (\<open>game/source\<close>). \<open>Gobang_Util\<close>: text and cookies. \<open>Gobang_Room\<close>: online users and a room;
  winning is five in a row; moves on the board are carried out and stones stay. \<open>Gobang_Db\<close>: the statements for the user table. \<open>Gobang_Match\<close>:
  rooms and matching. \<open>Gobang_Session\<close>: sessions and their timers. \<open>Gobang_Server\<close>: the handlers of HTTP and
  WebSocket events as a step relation; in every reachable state the tables of the server fit together.

  \<^bold>\<open>Containers\<close> (\<open>Algorithm\<close>). \<open>Tree_Heap\<close>: nodes with parent pointers and rotations. \<open>Sorted_Store\<close>: the
  interface of a sorted store as a locale. \<open>AVL_Tree\<close>, \<open>RB_Tree\<close>: insertion keeps balance and contents.
  \<open>RB_Iter\<close>, \<open>Ordered_Map\<close>: iterators, map and set. \<open>Hash_Chain\<close>, \<open>Hash_Open\<close>: the hash tables implement
  finite maps. \<open>Word_Count\<close>: the wrappers and the word counting programs, over a locale of counters.

  \<^bold>\<open>WebSocket\<close> (\<open>websocketpp-master/websocketpp\<close>). \<open>WS_Utf8\<close>: the validator accepts exactly UTF-8.
  \<open>WS_Base64\<close>: decoding undoes encoding. \<open>WS_Bytes\<close>: words in memory and network byte order. \<open>WS_Frame\<close>:
  headers and masking; reading undoes writing and the masking routines agree. \<open>WS_Close\<close>: errors and close
  codes. \<open>WS_Hybi13\<close>: the frame processor, reading and preparing frames. \<open>WS_Stream\<close>: the result of reading
  does not depend on how the bytes are cut. \<open>WS_Transfer\<close>: an abstract receiver of frames, which the
  processor implements; what one endpoint sends the other receives; two ways around its checks.
  \<open>WS_Safety\<close>: no input makes the processor fault. \<open>WS_Connection\<close>: a connection
  (\<open>impl/connection_impl.hpp\<close>) with its queue, timers, handlers and closing handshake; what it asks of the
  transport is pending until the transport calls back. \<open>WS_Con_Run\<close>: application, transport and timers as
  a step relation; the invariant of the write queue and of the end of a session, and the order of the
  bytes. \<open>WS_Closing\<close>: two connections close each other, with each kind of close code; a second close frame. \<open>WS_Con_Safe\<close>: handling a
  read returns without a fault, as long as no read before it ended with an error.

  \<^bold>\<open>Fuel and bounds.\<close> Loops whose end depends on the data structure (descending a tree, walking a chain,
  probing, splitting) run on fuel, and the lemmas show which amount is enough: the number of nodes, of
  slots, or of characters. The loops of the WebSocket processor and of the write queue are functions with
  a termination proof; the reading loop of a connection has the number of bytes as fuel, which is enough
  because every round reads a byte.
  Sizes are 64-bit words in the buffer and the processor; elsewhere they are natural numbers.

  \<^bold>\<open>Not modelled.\<close> Threads and locks: handlers run to their end one after the other, so nothing is shown of
  races, and \<open>LoopThread\<close>, which only starts a thread, is left out. The opening handshake of WebSocket
  with its HTTP parser and URIs, the drafts before version 13, the Asio and iostream transports, the
  endpoints, logging (but for what the echo server's log line reads), and compression, which is zlib. The examples, tests and tutorials of websocketpp.
  \<open>lesson1\<close> to \<open>lesson10\<close>, \<open>lesson_IO\<close> and \<open>my_Http\<close>: exercises around system calls for processes,
  threads, signals, shared memory and sockets; the text protocols of some of them are pure code that is
  not covered yet, and neither are the remaining containers of \<open>Algorithm\<close> (\<open>String.hpp\<close>, \<open>List.hpp\<close>,
  \<open>Vector.hpp\<close>, \<open>SmartPtr.hpp\<close>, \<open>BitSet.hpp\<close>, \<open>BloomFilter.hpp\<close>).
  \<open>WebSocket/main.cpp\<close> lists declarations of websocketpp and is no program.
\<close>

end
